(* ===== verification/Prelude.thy ===== *)
theory Prelude
  imports Main "HOL-Library.Word"
begin

text \<open>
  What the components share: the names of the C types (\<open>uint\<close> and \<open>ulong\<close> are both 32 bits
  wide on the i386 the system runs on, \<open>uchar\<close> is 8 bits), memory moves over arrays
  (\<open>bcopy\<close>), the outcome type of operations that can touch memory they do not own, and the
  arithmetic facts on words that every component uses.

  A pointer is a natural number and the null pointer is 0. Storage handed out by
  \<open>malloc\<close> is named by fresh numbers; whether a request succeeds is decided by a function
  of the environment, so that every \<open>ENOMEM\<close> branch of the code is a branch of the model.
\<close>

unbundle bit_operations_syntax

type_synonym uchar = "8 word"
type_synonym uint = "32 word"
type_synonym ulong = "32 word"
type_synonym ptr = nat

abbreviation (input) NULL :: ptr where
  "NULL \<equiv> 0"

text \<open>What a wild access of the C code is in the model: no result, but its cause.\<close>

datatype fault =
    NullDeref
  | BufferOverrun
  | Starved
  | Panic

type_synonym 'a outcome = "fault + 'a"

definition obind :: "'a outcome \<Rightarrow> ('a \<Rightarrow> 'b outcome) \<Rightarrow> 'b outcome" where
  "obind r f = (case r of Inl e \<Rightarrow> Inl e | Inr x \<Rightarrow> f x)"

named_theorems word_nat \<open>comparison and subtraction of words read as natural numbers\<close>

lemma word_le_unat [word_nat]: "(a :: 'a::len word) \<le> b \<longleftrightarrow> unat a \<le> unat b"
  by (rule word_le_nat_alt)

lemma word_less_unat [word_nat]: "(a :: 'a::len word) < b \<longleftrightarrow> unat a < unat b"
  by (rule word_less_nat_alt)

lemma word_eq_unat: "(a :: 'a::len word) = b \<longleftrightarrow> unat a = unat b"
  by (rule word_unat_eq_iff)

lemma unat_add_u32 [word_nat]:
  "unat a + unat b < 2 ^ 32 \<Longrightarrow> unat (a + b :: uint) = unat a + unat b"
  by (simp add: unat_add_lem [symmetric])

lemma unat_sub_u32 [word_nat]: "unat b \<le> unat a \<Longrightarrow> unat (a - b :: uint) = unat a - unat b"
  by (simp add: unat_sub word_le_nat_alt)

lemma unat_u32_lt [simp]: "unat (a :: uint) < 4294967296"
proof -
  have "unat a < 2 ^ LENGTH(32)" by (rule unsigned_less)
  then show ?thesis by simp
qed

lemma unat_pos_iff: "0 < unat (a :: 'a::len word) \<longleftrightarrow> a \<noteq> 0"
  by (metis neq0_conv unat_eq_zero)

lemma unat_of_nat_u32: "n < 2 ^ 32 \<Longrightarrow> unat (of_nat n :: uint) = n"
  by (simp add: unsigned_of_nat take_bit_nat_eq_self)

lemma sint_eq_iff [simp]: "sint (a :: 'a::len word) = sint b \<longleftrightarrow> a = b"
  by (auto intro: signed_word_eqI)

lemma sint_zero_iff [simp]: "sint (a :: 'a::len word) = 0 \<longleftrightarrow> a = 0"
  using sint_eq_iff [of a 0] by simp

lemma signed_mod_u32:
  assumes "n < 4294967296"
  shows "(int n + 2147483648) mod 4294967296 - 2147483648 =
    (if n < 2147483648 then int n else int n - 4294967296)"
proof (cases "n < 2147483648")
  case False
  have "(int n + 2147483648) mod 4294967296 = (int n - 2147483648 + 4294967296) mod 4294967296"
    by (rule arg_cong [where f = "\<lambda>x. x mod 4294967296"]) simp
  also have "\<dots> = int n - 2147483648"
    unfolding mod_add_self2 using False assms by (intro mod_pos_pos_trivial) linarith+
  finally show ?thesis using False by simp
qed (simp add: mod_pos_pos_trivial)

lemma sint_u32:
  "sint (w :: uint) = (if unat w < 2147483648 then int (unat w) else int (unat w) - 4294967296)"
proof -
  have "sint w = sint (word_of_int (int (unat w)) :: uint)" by simp
  also have "\<dots> = (int (unat w) + 2147483648) mod 4294967296 - 2147483648"
    by (simp only: int_word_sint) simp
  finally show ?thesis by (simp only: signed_mod_u32 [OF unat_u32_lt])
qed

lemma sint_neg_iff: "sint (x :: uint) < 0 \<longleftrightarrow> 2147483648 \<le> unat x"
proof (cases "unat x < 2147483648")
  case True
  then show ?thesis unfolding sint_u32 if_P [OF True] by linarith
next
  case False
  then show ?thesis unfolding sint_u32 if_not_P [OF False] using unat_u32_lt [of x] by linarith
qed

lemma unat_pred_less [termination_simp]: "n \<noteq> 0 \<Longrightarrow> unat (n - 1 :: uint) < unat n"
  using unat_sub_u32 [of 1 n] unat_pos_iff [of n] by simp

text \<open>
  \<open>bcopy n src dst xs\<close>: the array after \<open>n\<close> elements from index \<open>src\<close> on were moved to
  index \<open>dst\<close> on; source and destination may overlap.
\<close>

definition bcopy :: "nat \<Rightarrow> nat \<Rightarrow> nat \<Rightarrow> 'a list \<Rightarrow> 'a list" where
  "bcopy n src dst xs = take dst xs @ take n (drop src xs) @ drop (dst + n) xs"

lemma length_bcopy:
  "src + n \<le> length xs \<Longrightarrow> dst + n \<le> length xs \<Longrightarrow> length (bcopy n src dst xs) = length xs"
  by (simp add: bcopy_def)

lemma nth_bcopy:
  assumes "src + n \<le> length xs" "dst + n \<le> length xs" "i < length xs"
  shows "bcopy n src dst xs ! i =
    (if dst \<le> i \<and> i < dst + n then xs ! (src + (i - dst)) else xs ! i)"
  using assms by (simp add: bcopy_def nth_append min_absorb1 min_absorb2) (auto simp: not_less)

lemma hd_bcopy: "0 < dst \<Longrightarrow> xs \<noteq> [] \<Longrightarrow> hd (bcopy n src dst xs) = hd xs"
  by (cases xs) (auto simp: bcopy_def take_Cons split: nat.splits)

text \<open>Strings: a C string is the characters before its terminating null.\<close>

definition NUL :: char where
  "NUL = CHR 0x00"

definition cstr :: "char list \<Rightarrow> string" where
  "cstr buf = takeWhile (\<lambda>c. c \<noteq> NUL) buf"

lemma cstr_no_nul: "NUL \<notin> set (cstr buf)"
  by (auto simp: cstr_def dest: set_takeWhileD)

lemma cstr_append_nul: "NUL \<notin> set s \<Longrightarrow> cstr (s @ NUL # t) = s"
  by (auto simp: cstr_def takeWhile_append)

text \<open>Generic facts on lists that the ring and queue proofs use.\<close>

lemma remove1_middle: "x \<notin> set xs \<Longrightarrow> remove1 x (xs @ x # ys) = xs @ ys"
  by (induction xs) auto

lemma distinct_last_hd: "distinct xs \<Longrightarrow> xs \<noteq> [] \<Longrightarrow> last xs = hd xs \<longleftrightarrow> length xs = 1"
  by (cases xs) (auto split: if_splits)

lemma find_upt_Some:
  assumes "find P [a..<b] = Some i"
  shows "a \<le> i \<and> i < b \<and> P i \<and> (\<forall>j. a \<le> j \<longrightarrow> j < i \<longrightarrow> \<not> P j)"
proof -
  from assms obtain k where k: "k < b - a" "P (a + k)" "i = a + k" "\<forall>j<k. \<not> P (a + j)"
    by (auto simp: find_Some_iff)
  have "\<not> P j" if "a \<le> j" "j < i" for j
    using k(3,4) that by (auto dest: spec [of _ "j - a"])
  with k show ?thesis by auto
qed

lemma find_map_comp: "find P (map f xs) = map_option f (find (P \<circ> f) xs)"
  by (induction xs) auto

lemma find_upt_None: "find P [a..<b] = None \<longleftrightarrow> (\<forall>i. a \<le> i \<longrightarrow> i < b \<longrightarrow> \<not> P i)"
  by (auto simp: find_None_iff)

end
