(* ===== verification/Rmap.thy ===== *)
theory Rmap
  imports Prelude
begin

text \<open>
  The resource map of \<open>src/src/lib/rmap.c\<close>: an array of (offset, size) pairs whose entry 0
  is a header (\<open>r_off\<close> counts the entries in use, \<open>r_size\<close> the entries there is room for).
  The operations are on the array, by index, as in the code; \<open>bcopy\<close> slides the entries.
  The abstraction \<open>free_units\<close> is the set of free units, and the invariant \<open>rmap_ok\<close> says that
  the entries in use are non-empty, ascending and separated by gaps.
\<close>

record rent =
  r_off :: uint
  r_size :: uint

type_synonym rmap = "rent list"

text \<open>The number of entries in use, which is also the index of the last one.\<close>

definition rlim :: "rmap \<Rightarrow> nat" where
  "rlim rmap = unat (r_off (rmap ! 0))"

definition rmap_init :: "rmap \<Rightarrow> uint \<Rightarrow> rmap" where
  "rmap_init r sz = r[0 := \<lparr>r_off = 0, r_size = sz - 1\<rparr>]"

definition collapse :: "rmap \<Rightarrow> nat \<Rightarrow> rmap" where
  "collapse rmap r =
     (let lim = rlim rmap;
          rmap1 = rmap[0 := (rmap ! 0)\<lparr>r_off := r_off (rmap ! 0) - 1\<rparr>]
      in if r < lim then bcopy (lim - r) (r + 1) r rmap1 else rmap1)"

definition rmap_alloc :: "rmap \<Rightarrow> uint \<Rightarrow> uint \<times> rmap" where
  "rmap_alloc rmap sz =
     (case find (\<lambda>r. sz \<le> r_size (rmap ! r)) [1..<rlim rmap + 1] of
        None \<Rightarrow> (0, rmap)
      | Some r \<Rightarrow>
          (let idx = r_off (rmap ! r)
           in if sz < r_size (rmap ! r)
              then (idx, rmap[r := \<lparr>r_off = r_off (rmap ! r) + sz,
                                    r_size = r_size (rmap ! r) - sz\<rparr>])
              else (idx, collapse rmap r)))"

text \<open>\<open>None\<close> is the return value 1: there is no room for another entry.\<close>

definition makespace :: "rmap \<Rightarrow> nat \<Rightarrow> rmap option" where
  "makespace rmap r =
     (let lim = rlim rmap
      in if r_size (rmap ! 0) = r_off (rmap ! 0) then None
         else (let rmap1 = rmap[0 := (rmap ! 0)\<lparr>r_off := r_off (rmap ! 0) + 1\<rparr>]
               in Some (if r \<le> lim then bcopy (lim - r + 1) r (r + 1) rmap1 else rmap1)))"

text \<open>
  The scan of \<open>rmap_free\<close>: \<open>Inl\<close> when the freed range was merged into an entry, \<open>Inr\<close> the index
  at which a new entry belongs.
\<close>

function rmap_free_scan :: "rmap \<Rightarrow> uint \<Rightarrow> uint \<Rightarrow> nat \<Rightarrow> rmap + nat" where
  "rmap_free_scan rmap off sz r =
     (if r \<le> rlim rmap then
        if r_off (rmap ! r) + r_size (rmap ! r) = off then
          (let rmap1 = rmap[r := (rmap ! r)\<lparr>r_size := r_size (rmap ! r) + sz\<rparr>]
           in if r < rlim rmap
                 \<and> r_off (rmap1 ! r) + r_size (rmap1 ! r) = r_off (rmap1 ! (r + 1))
              then (let rmap2 = rmap1[r := (rmap1 ! r)\<lparr>r_size := r_size (rmap1 ! r)
                                             + r_size (rmap1 ! (r + 1))\<rparr>];
                        rmap3 = rmap2[0 := (rmap2 ! 0)\<lparr>r_off := r_off (rmap2 ! 0) - 1\<rparr>]
                    in if r + 1 < rlim rmap
                       then Inl (bcopy (rlim rmap - (r + 1)) (r + 2) (r + 1) rmap3)
                       else Inl rmap3)
              else Inl rmap1)
        else if off + sz = r_off (rmap ! r) then
          Inl (rmap[r := \<lparr>r_off = off, r_size = r_size (rmap ! r) + sz\<rparr>])
        else if off < r_off (rmap ! r) then Inr r
        else rmap_free_scan rmap off sz (r + 1)
      else Inr r)"
  by pat_completeness auto
termination
  by (relation "measure (\<lambda>(rmap, off, sz, r). rlim rmap + 1 - r)") auto

definition rmap_free :: "rmap \<times> ulong \<Rightarrow> uint \<Rightarrow> uint \<Rightarrow> rmap \<times> ulong" where
  "rmap_free st off sz =
     (case st of (rmap, lost_elems) \<Rightarrow>
        (case rmap_free_scan rmap off sz 1 of
           Inl rmap1 \<Rightarrow> (rmap1, lost_elems)
         | Inr r \<Rightarrow>
             (case makespace rmap r of
                None \<Rightarrow> (rmap, lost_elems + sz)
              | Some rmap1 \<Rightarrow> (rmap1[r := \<lparr>r_off = off, r_size = sz\<rparr>], lost_elems))))"

text \<open>The body of \<open>rmap_grab\<close> once the entry holding the start of the range is found.\<close>

definition rmap_grab_at :: "rmap \<times> ulong \<Rightarrow> uint \<Rightarrow> uint \<Rightarrow> nat \<Rightarrow> nat \<times> (rmap \<times> ulong)" where
  "rmap_grab_at st off sz r =
     (case st of (rmap, lost_elems) \<Rightarrow>
        (let e = rmap ! r; top = r_off e + r_size e; rtop = off + sz
         in if top < rtop then (1, st)
            else if off = r_off e then
              (let rmap1 = rmap[r := \<lparr>r_off = r_off e + sz, r_size = r_size e - sz\<rparr>]
               in if r_size (rmap1 ! r) = 0 then (0, (collapse rmap1 r, lost_elems))
                  else (0, (rmap1, lost_elems)))
            else if rtop = top then
              (0, (rmap[r := e\<lparr>r_size := r_size e - sz\<rparr>], lost_elems))
            else
              (case makespace rmap r of
                 None \<Rightarrow>
                   (0, (rmap[r := \<lparr>r_off = rtop, r_size = top - rtop\<rparr>],
                        lost_elems + ((r_size e - (top - rtop)) - sz)))
               | Some rmap1 \<Rightarrow>
                   (0, (rmap1[r := (rmap1 ! r)\<lparr>r_size := off - r_off e\<rparr>,
                              r + 1 := \<lparr>r_off = rtop, r_size = top - rtop\<rparr>],
                        lost_elems)))))"

function rmap_grab_scan :: "rmap \<times> ulong \<Rightarrow> uint \<Rightarrow> uint \<Rightarrow> nat \<Rightarrow> nat \<times> (rmap \<times> ulong)" where
  "rmap_grab_scan st off sz r =
     (if r \<le> rlim (fst st) then
        (let e = fst st ! r
         in if off < r_off e then (1, st)
            else if \<not> (r_off e \<le> off \<and> off < r_off e + r_size e)
            then rmap_grab_scan st off sz (r + 1)
            else rmap_grab_at st off sz r)
      else (1, st))"
  by pat_completeness auto
termination
  by (relation "measure (\<lambda>(st, off, sz, r). rlim (fst st) + 1 - r)") (auto simp: Let_def)

definition rmap_grab :: "rmap \<times> ulong \<Rightarrow> uint \<Rightarrow> uint \<Rightarrow> nat \<times> (rmap \<times> ulong)" where
  "rmap_grab st off sz = rmap_grab_scan st off sz 1"

declare rmap_free_scan.simps [simp del] rmap_grab_scan.simps [simp del]

subsection \<open>The array as a list of entries\<close>

text \<open>
  \<open>rm_rep m es\<close>: the array \<open>m\<close> is a header, the entries \<open>es\<close> in use and slack.
\<close>

definition rm_rep :: "rmap \<Rightarrow> rent list \<Rightarrow> bool" where
  "rm_rep m es \<longleftrightarrow> (\<exists>h junk. m = h # es @ junk \<and> unat (r_off h) = length es
     \<and> unat (r_size h) = length es + length junk)"

definition ents :: "rmap \<Rightarrow> rent list" where
  "ents m = take (rlim m) (tl m)"

lemma rm_repE:
  assumes "rm_rep m es"
  obtains h junk where "m = h # es @ junk" "unat (r_off h) = length es"
    "unat (r_size h) = length es + length junk"
  using assms by (auto simp: rm_rep_def)

lemma rm_rep_rlim [simp]: "rm_rep m es \<Longrightarrow> rlim m = length es"
  by (auto simp: rm_rep_def rlim_def)

lemma rm_rep_length:
  "rm_rep m es \<Longrightarrow> length m = Suc (unat (r_size (m ! 0))) \<and> length es < length m"
  by (auto simp: rm_rep_def)

lemma rm_rep_ents: "rm_rep m es \<Longrightarrow> ents m = es"
  by (auto simp: rm_rep_def rlim_def ents_def)

lemma rm_rep_nth: "rm_rep m (pre @ e # post) \<Longrightarrow> m ! Suc (length pre) = e"
  by (auto simp: rm_rep_def nth_append)

lemma rm_rep_nth_next: "rm_rep m (pre @ e # f # post) \<Longrightarrow> m ! Suc (Suc (length pre)) = f"
  by (auto simp: rm_rep_def nth_append)

lemma rm_rep_nth_Suc: "rm_rep m es \<Longrightarrow> i < length es \<Longrightarrow> m ! Suc i = es ! i"
  by (auto simp: rm_rep_def nth_append)

lemma rm_rep_update:
  "rm_rep m (pre @ e # post) \<Longrightarrow> rm_rep (m[Suc (length pre) := e']) (pre @ e' # post)"
  by (auto simp: rm_rep_def list_update_append)

lemma rm_rep_init: "r \<noteq> [] \<Longrightarrow> length r = unat sz \<Longrightarrow> rm_rep (rmap_init r sz) []"
  by (cases r) (auto simp: rm_rep_def rmap_init_def unat_sub_u32 unat_pos_iff)

lemma unat_pred: "0 < unat (n :: uint) \<Longrightarrow> unat (n - 1) = unat n - 1"
  by (rule trans [OF unat_sub_u32]) auto

lemma bcopy_down:
  "bcopy (length post) (Suc (Suc (length pre))) (Suc (length pre)) (h # pre @ e # post @ junk)
   = h # pre @ post @ last (e # post) # junk"
proof (cases post rule: rev_cases)
  case Nil
  then show ?thesis by (simp add: bcopy_def)
next
  case (snoc ys y)
  then show ?thesis by (simp add: bcopy_def)
qed

lemma collapse_rep:
  assumes "rm_rep m (pre @ e # post)"
  shows "rm_rep (collapse m (Suc (length pre))) (pre @ post)"
proof -
  from assms obtain h junk where m: "m = h # (pre @ e # post) @ junk"
    and h: "unat (r_off h) = length (pre @ e # post)"
    "unat (r_size h) = length (pre @ e # post) + length junk"
    by (rule rm_repE)
  let ?h = "h\<lparr>r_off := r_off h - 1\<rparr>"
  have u: "unat (r_off h - 1) = length pre + length post"
    using h(1) by (simp add: unat_pred)
  show ?thesis
  proof (cases "post = []")
    case True
    then have "collapse m (Suc (length pre)) = ?h # pre @ [] @ e # junk"
      using m h by (simp add: collapse_def rlim_def)
    with True u h show ?thesis
      unfolding rm_rep_def by (intro exI [of _ ?h] exI [of _ "e # junk"]) simp
  next
    case False
    then have "collapse m (Suc (length pre)) = ?h # pre @ post @ last (e # post) # junk"
      using m h bcopy_down [of post pre ?h e junk] by (simp add: collapse_def rlim_def)
    with u h show ?thesis
      unfolding rm_rep_def by (intro exI [of _ ?h] exI [of _ "last (e # post) # junk"]) simp
  qed
qed

lemma bcopy_up:
  assumes "rest \<noteq> []"
  shows "bcopy (length rest) (Suc (length pre)) (Suc (Suc (length pre)))
    (h # pre @ rest @ j # junk) = h # pre @ hd rest # rest @ junk"
  using assms by (cases rest) (auto simp: bcopy_def)

lemma makespace_None:
  assumes "rm_rep m es"
  shows "makespace m r = None \<longleftrightarrow> length es = unat (r_size (m ! 0))"
proof -
  have "makespace m r = None \<longleftrightarrow> r_size (m ! 0) = r_off (m ! 0)"
    by (simp add: makespace_def Let_def)
  also have "\<dots> \<longleftrightarrow> unat (r_size (m ! 0)) = length es"
    using assms by (auto simp: rm_rep_def word_unat_eq_iff)
  finally show ?thesis by auto
qed

lemma makespace_Some:
  assumes "rm_rep m (pre @ rest)" "makespace m (Suc (length pre)) = Some m'"
  shows "\<exists>x. rm_rep m' (pre @ x # rest) \<and> (rest \<noteq> [] \<longrightarrow> x = hd rest)"
proof -
  from assms(1) obtain h junk where m: "m = h # (pre @ rest) @ junk"
    and h: "unat (r_off h) = length (pre @ rest)"
    "unat (r_size h) = length (pre @ rest) + length junk"
    by (rule rm_repE)
  from assms(2) m h obtain j junk' where junk: "junk = j # junk'"
    using makespace_None [OF assms(1), of "Suc (length pre)"] by (cases junk) auto
  let ?h = "h\<lparr>r_off := r_off h + 1\<rparr>"
  have "unat (r_off h + 1) = Suc (unat (r_off h))"
    using h junk unat_u32_lt [of "r_size h"] by (subst unat_add_u32) auto
  with h junk have u: "unat (r_off h + 1) = Suc (length pre + length rest)"
    by simp
  have ne: "r_size h \<noteq> r_off h"
    using h junk by auto
  show ?thesis
  proof (cases "rest = []")
    case True
    then have "m' = ?h # pre @ j # [] @ junk'"
      using assms(2) m h junk ne by (auto simp: makespace_def rlim_def)
    with True u h junk show ?thesis
      unfolding rm_rep_def by (intro exI [of _ j] exI [of _ ?h] exI [of _ junk'] conjI) auto
  next
    case False
    then have "m' = ?h # pre @ hd rest # rest @ junk'"
      using assms(2) m h junk ne bcopy_up [of rest pre ?h j junk']
      by (cases rest) (auto simp: makespace_def rlim_def)
    with u h junk show ?thesis
      unfolding rm_rep_def
      by (intro exI [of _ "hd rest"] exI [of _ ?h] exI [of _ junk'] conjI) auto
  qed
qed

lemma rm_rep_split:
  assumes "rm_rep m es" "1 \<le> r" "r \<le> rlim m"
  obtains pre e post where "es = pre @ e # post" "r = Suc (length pre)"
proof
  have r: "r - 1 < length es" using assms by auto
  then show "es = take (r - 1) es @ es ! (r - 1) # drop r es"
    using assms(2) id_take_nth_drop [of "r - 1" es] by simp
  show "r = Suc (length (take (r - 1) es))" using r assms(2) by auto
qed

subsection \<open>Entries as ranges of units\<close>

definition lo :: "rent \<Rightarrow> nat" where
  "lo e = unat (r_off e)"

definition hi :: "rent \<Rightarrow> nat" where
  "hi e = unat (r_off e) + unat (r_size e)"

definition ent_ok :: "rent \<Rightarrow> bool" where
  "ent_ok e \<longleftrightarrow> 0 < lo e \<and> lo e < hi e \<and> hi e < 2 ^ 32"

definition ents_ok :: "rent list \<Rightarrow> bool" where
  "ents_ok es \<longleftrightarrow> list_all ent_ok es \<and> sorted_wrt (\<lambda>a b. hi a < lo b) es"

definition cover :: "rent list \<Rightarrow> nat set" where
  "cover es = (\<Union>e\<in>set es. {lo e..<hi e})"

text \<open>The invariant of a resource map, and the set of units it holds free.\<close>

definition rmap_ok :: "rmap \<Rightarrow> bool" where
  "rmap_ok m \<longleftrightarrow> m \<noteq> [] \<and> length m = Suc (unat (r_size (m ! 0))) \<and> rlim m < length m
     \<and> ents_ok (ents m)"

definition free_units :: "rmap \<Rightarrow> nat set" where
  "free_units m = cover (ents m)"

lemma rmap_ok_iff: "rmap_ok m \<longleftrightarrow> rm_rep m (ents m) \<and> ents_ok (ents m)"
proof -
  have "rm_rep m (ents m)" if "m \<noteq> []" "length m = Suc (unat (r_size (m ! 0)))" "rlim m < length m"
  proof -
    from that(1) obtain h xs where m: "m = h # xs" by (cases m) auto
    with that(2,3) show ?thesis
      unfolding rm_rep_def ents_def rlim_def
      by (intro exI [of _ h] exI [of _ "drop (rlim m) xs"]) (auto simp: rlim_def min_def)
  qed
  moreover have "m \<noteq> [] \<and> length m = Suc (unat (r_size (m ! 0))) \<and> rlim m < length m"
    if "rm_rep m es" for es
    using that by (auto simp: rm_rep_def rlim_def)
  ultimately show ?thesis unfolding rmap_ok_def by blast
qed

lemma rmap_okI: "rm_rep m es \<Longrightarrow> ents_ok es \<Longrightarrow> rmap_ok m \<and> free_units m = cover es"
  by (simp add: rmap_ok_iff free_units_def rm_rep_ents)

lemma rmap_okE:
  assumes "rmap_ok m"
  obtains es where "rm_rep m es" "ents_ok es" "ents m = es" "free_units m = cover es"
  using assms that [of "ents m"] by (simp add: rmap_ok_iff free_units_def)

lemma cover_simps [simp]:
  "cover [] = {}"
  "cover (e # es) = {lo e..<hi e} \<union> cover es"
  "cover (xs @ ys) = cover xs \<union> cover ys"
  by (auto simp: cover_def)

lemma ents_ok_Nil [simp]: "ents_ok []"
  by (simp add: ents_ok_def)

lemma ents_ok_Cons:
  "ents_ok (e # es) \<longleftrightarrow> ent_ok e \<and> ents_ok es \<and> (\<forall>f\<in>set es. hi e < lo f)"
  by (auto simp: ents_ok_def)

lemma ents_ok_append:
  "ents_ok (xs @ ys) \<longleftrightarrow> ents_ok xs \<and> ents_ok ys \<and> (\<forall>a\<in>set xs. \<forall>b\<in>set ys. hi a < lo b)"
  by (auto simp: ents_ok_def sorted_wrt_append)

lemma ents_ok_mem: "ents_ok es \<Longrightarrow> e \<in> set es \<Longrightarrow> ent_ok e"
  by (auto simp: ents_ok_def list_all_iff)

lemmas ents_ok_simps = ents_ok_append ents_ok_Cons

lemma coverE:
  assumes "x \<in> cover es"
  obtains e where "e \<in> set es" "lo e \<le> x" "x < hi e"
  using assms by (auto simp: cover_def)

text \<open>A contiguous range of free units lies within one entry, because entries have gaps.\<close>

lemma range_in_entry:
  assumes ok: "ents_ok es" and sub: "{x..<x + n} \<subseteq> cover es" and n: "0 < n"
  obtains e where "e \<in> set es" "lo e \<le> x" "x + n \<le> hi e"
proof -
  from sub n have "x \<in> cover es" by auto
  then obtain e where e: "e \<in> set es" "lo e \<le> x" "x < hi e" by (rule coverE)
  have "x + n \<le> hi e"
  proof (rule ccontr)
    assume "\<not> x + n \<le> hi e"
    with e(3) have "hi e \<in> {x..<x + n}" by simp
    with sub have "hi e \<in> cover es" by blast
    then obtain f where f: "f \<in> set es" "lo f \<le> hi e" "hi e < hi f" by (rule coverE)
    from e(1) obtain as bs where es: "es = as @ e # bs" by (auto dest: split_list)
    from f es consider "f \<in> set as" | "f = e" | "f \<in> set bs" by auto
    then show False
      using ok es f e by cases (auto simp: ents_ok_simps ent_ok_def dest: bspec)
  qed
  with e that show ?thesis by blast
qed

lemma ent_ok_mk:
  "0 < unat off \<Longrightarrow> 0 < unat sz \<Longrightarrow> unat off + unat sz < 2 ^ 32 \<Longrightarrow>
   ent_ok \<lparr>r_off = off, r_size = sz\<rparr>"
  by (simp add: ent_ok_def lo_def hi_def)

lemma unat_top: "ent_ok e \<Longrightarrow> unat (r_off e + r_size e) = hi e"
  by (simp add: ent_ok_def hi_def unat_add_u32)

subsection \<open>Allocation\<close>

lemma rmap_alloc_cases:
  assumes ok: "rmap_ok m" and sz: "0 < unat sz"
  obtains (fail) "rmap_alloc m sz = (0, m)" "\<forall>e\<in>set (ents m). hi e < lo e + unat sz"
  | (fit) e m' where "rmap_alloc m sz = (r_off e, m')" "e \<in> set (ents m)"
      "lo e + unat sz \<le> hi e" "rmap_ok m'"
      "free_units m' = free_units m - {lo e..<lo e + unat sz}"
      "rlim m' < unat (r_size (m' ! 0)) \<or> lo e + unat sz \<in> free_units m'"
proof -
  from ok obtain es where rep: "rm_rep m es" and eok: "ents_ok es" and es: "ents m = es"
    and fu: "free_units m = cover es" by (rule rmap_okE)
  show thesis
  proof (cases "find (\<lambda>r. sz \<le> r_size (m ! r)) [1..<rlim m + 1]")
    case None
    have "unat (r_size (es ! i)) < unat sz" if "i < length es" for i
      using None [unfolded find_upt_None, rule_format, of "Suc i"] that rep
      by (simp add: rm_rep_nth_Suc word_nat)
    then have "\<forall>e\<in>set es. hi e < lo e + unat sz"
      by (auto simp: in_set_conv_nth hi_def lo_def)
    then show thesis using None fail es by (simp add: rmap_alloc_def)
  next
    case (Some r)
    then have r: "1 \<le> r" "r \<le> rlim m" "sz \<le> r_size (m ! r)"
      using find_upt_Some [OF Some] by auto
    obtain pre e post where split: "es = pre @ e # post" "r = Suc (length pre)"
      using rm_rep_split [OF rep r(1,2)] .
    have mr: "m ! r = e" using rep split by (auto dest: rm_rep_nth)
    have e: "ent_ok e" using eok split by (auto simp: ents_ok_simps)
    have le: "lo e + unat sz \<le> hi e"
      using r(3) by (simp add: mr lo_def hi_def word_nat)
    show thesis
    proof (cases "sz < r_size e")
      case True
      let ?e = "\<lparr>r_off = r_off e + sz, r_size = r_size e - sz\<rparr>"
      have u: "unat (r_off e + sz) = lo e + unat sz" "unat (r_size e - sz) = unat (r_size e) - unat sz"
        using le e True by (auto simp: unat_add_u32 unat_sub_u32 lo_def hi_def ent_ok_def word_nat)
      have bnd: "lo ?e = lo e + unat sz" "hi ?e = hi e"
        using u le by (auto simp: lo_def hi_def)
      have eok': "ents_ok (pre @ ?e # post)"
        using eok e True bnd le unfolding split
        by (auto simp: ents_ok_simps ent_ok_def hi_def lo_def word_nat u)
      have rep': "rm_rep (m[r := ?e]) (pre @ ?e # post)"
        using rep split by (auto intro: rm_rep_update)
      have cov: "cover (pre @ ?e # post) = cover es - {lo e..<lo e + unat sz}"
        using eok le bnd unfolding split
        by (auto simp: ents_ok_simps elim!: coverE)
      have "lo e + unat sz < hi e"
        using True by (simp add: lo_def hi_def word_nat)
      moreover have "rmap_alloc m sz = (r_off e, m[r := ?e])"
        using Some True mr by (simp add: rmap_alloc_def)
      ultimately show thesis
        using fit [of e] rmap_okI [OF rep' eok'] le cov es fu split by auto
    next
      case False
      then have full: "lo e + unat sz = hi e"
        using r(3) by (simp add: mr lo_def hi_def word_nat)
      have rep': "rm_rep (collapse m r) (pre @ post)"
        using rep split by (auto intro: collapse_rep)
      have "length (collapse m r) = length m"
        using rep split by (auto simp: rm_rep_def rlim_def collapse_def Let_def length_bcopy)
      then have room: "rlim (collapse m r) < unat (r_size (collapse m r ! 0))"
        using rm_rep_length [OF rep] rm_rep_length [OF rep'] rep rep' split by auto
      have eok': "ents_ok (pre @ post)"
        using eok unfolding split by (auto simp: ents_ok_simps)
      have cov: "cover (pre @ post) = cover es - {lo e..<lo e + unat sz}"
        using eok full unfolding split
        by (auto simp: ents_ok_simps elim!: coverE)
      have "rmap_alloc m sz = (r_off e, collapse m r)"
        using Some False mr by (simp add: rmap_alloc_def)
      then show thesis
        using fit [of e] rmap_okI [OF rep' eok'] le cov es fu split room by auto
    qed
  qed
qed

subsection \<open>Freeing\<close>

definition span :: "uint \<Rightarrow> uint \<Rightarrow> nat set" where
  "span off sz = {unat off..<unat off + unat sz}"

text \<open>A range that may be freed: not empty, inside the address range, and not free already.\<close>

definition freeable :: "rmap \<Rightarrow> uint \<Rightarrow> uint \<Rightarrow> bool" where
  "freeable m off sz \<longleftrightarrow> off \<noteq> 0 \<and> sz \<noteq> 0 \<and> unat off + unat sz < 2 ^ 32
     \<and> span off sz \<inter> free_units m = {}"

text \<open>Where the scan stops: merged into an entry, or at the place a new entry belongs.\<close>

definition scan_done :: "rent list \<Rightarrow> uint \<Rightarrow> uint \<Rightarrow> rmap + nat \<Rightarrow> bool" where
  "scan_done es off sz res \<longleftrightarrow>
     (case res of
        Inl m' \<Rightarrow> \<exists>es'. rm_rep m' es' \<and> ents_ok es' \<and> cover es' = cover es \<union> span off sz
      | Inr r \<Rightarrow> \<exists>pre post. es = pre @ post \<and> r = Suc (length pre)
          \<and> (\<forall>a\<in>set pre. hi a < unat off) \<and> (\<forall>b\<in>set post. unat off + unat sz < lo b))"

lemma scan_doneI:
  "rm_rep m' es' \<Longrightarrow> ents_ok es' \<Longrightarrow> cover es' = cover es \<union> span off sz
   \<Longrightarrow> scan_done es off sz (Inl m')"
  unfolding scan_done_def by auto

lemma disjoint_entry:
  assumes "span off sz \<inter> {lo e..<hi e} = {}" "ent_ok e" "0 < unat sz"
  shows "unat off + unat sz \<le> lo e \<or> hi e \<le> unat off"
proof (rule ccontr)
  assume "\<not> ?thesis"
  then have "max (unat off) (lo e) \<in> span off sz \<inter> {lo e..<hi e}"
    using assms(2,3) by (auto simp: span_def ent_ok_def)
  with assms(1) show False by simp
qed

lemma scan_doneI2:
  "es = pre @ post \<Longrightarrow> r = Suc (length pre) \<Longrightarrow> \<forall>a\<in>set pre. hi a < unat off
   \<Longrightarrow> \<forall>b\<in>set post. unat off + unat sz < lo b \<Longrightarrow> scan_done es off sz (Inr r)"
  unfolding scan_done_def by auto

text \<open>What holds each time the scan looks at entry \<open>r\<close>: all entries before it end below the range.\<close>

definition scan_inv :: "rmap \<Rightarrow> rent list \<Rightarrow> rent list \<Rightarrow> rent list \<Rightarrow> uint \<Rightarrow> uint \<Rightarrow> nat \<Rightarrow> bool" where
  "scan_inv m es pre rest off sz r \<longleftrightarrow> rm_rep m es \<and> ents_ok es \<and> es = pre @ rest
     \<and> r = Suc (length pre) \<and> (\<forall>a\<in>set pre. hi a < unat off)
     \<and> 0 < unat off \<and> 0 < unat sz \<and> unat off + unat sz < 2 ^ 32 \<and> span off sz \<inter> cover es = {}"

lemma scan_invD:
  assumes "scan_inv m es pre (e # rest) off sz r"
  shows "rm_rep m es" "ents_ok es" "es = pre @ e # rest" "r = Suc (length pre)" "r \<le> rlim m"
    "m ! r = e" "ent_ok e" "unat (r_off e + r_size e) = hi e"
    "unat (off + sz) = unat off + unat sz" "0 < unat off" "0 < unat sz"
    "unat off + unat sz < 2 ^ 32" "\<forall>a\<in>set pre. hi a < unat off"
proof -
  show "rm_rep m es" "ents_ok es" "es = pre @ e # rest" "r = Suc (length pre)"
    "0 < unat off" "0 < unat sz" "unat off + unat sz < 2 ^ 32" "\<forall>a\<in>set pre. hi a < unat off"
    using assms by (auto simp: scan_inv_def)
  then show "r \<le> rlim m" "m ! r = e" "ent_ok e"
    by (auto simp: ents_ok_simps dest: rm_rep_nth)
  then show "unat (r_off e + r_size e) = hi e" by (simp add: unat_top)
  show "unat (off + sz) = unat off + unat sz"
    using \<open>unat off + unat sz < 2 ^ 32\<close> by (rule unat_add_u32)
qed

lemma scan_inv_sep:
  assumes "scan_inv m es pre rest off sz r" "b \<in> set rest"
  shows "unat off + unat sz \<le> lo b \<or> hi b \<le> unat off"
proof (rule disjoint_entry)
  have "{lo b..<hi b} \<subseteq> cover es" using assms by (auto simp: scan_inv_def cover_def)
  moreover have "span off sz \<inter> cover es = {}" using assms(1) unfolding scan_inv_def by blast
  ultimately show "span off sz \<inter> {lo b..<hi b} = {}" by blast
  show "ent_ok b" "0 < unat sz"
    using assms by (auto simp: scan_inv_def dest: ents_ok_mem)
qed

lemma free_scan_merge_both:
  assumes inv: "scan_inv m es pre (e # f # rest) off sz r"
    and left: "hi e = unat off" and right: "lo f = unat off + unat sz"
  shows "scan_done es off sz (rmap_free_scan m off sz r)"
proof -
  note D = scan_invD [OF inv]
  let ?e = "e\<lparr>r_size := r_size e + sz\<rparr>" and ?m1 = "m[r := e\<lparr>r_size := r_size e + sz\<rparr>]"
  let ?e2 = "?e\<lparr>r_size := r_size ?e + r_size f\<rparr>"
  have fok: "ent_ok f" using D(2,3) by (auto simp: ents_ok_simps)
  have s1: "unat (r_size e + sz) = unat (r_size e) + unat sz"
    using D(12) left by (intro unat_add_u32) (simp add: hi_def)
  then have bnd: "lo ?e = lo e" "hi ?e = unat off + unat sz"
    using left by (auto simp: lo_def hi_def)
  have "unat (r_size ?e + r_size f) = unat (r_size ?e) + unat (r_size f)"
    using fok right bnd by (intro unat_add_u32) (simp add: ent_ok_def lo_def hi_def)
  then have bnd2: "lo ?e2 = lo e" "hi ?e2 = hi f"
    using bnd right by (auto simp: lo_def hi_def)
  have top1: "unat (r_off ?e + r_size ?e) = unat off + unat sz"
    using D(7,12) bnd left by (subst unat_top) (auto simp: ent_ok_def)
  have rep1: "rm_rep ?m1 (pre @ ?e # f # rest)"
    using D(1,3,4) by (auto intro: rm_rep_update)
  have m1: "?m1 ! Suc r = f" "?m1 ! r = ?e"
    using rep1 D(4) by (auto dest: rm_rep_nth rm_rep_nth_next)
  have "rm_rep (?m1[r := ?e2]) (pre @ ?e2 # f # rest)"
    unfolding D(4) by (rule rm_rep_update [OF rep1 [unfolded D(4)]])
  then have rep3: "rm_rep (collapse (?m1[r := ?e2]) (Suc r)) ((pre @ [?e2]) @ rest)"
    and rl2: "rlim (?m1[r := ?e2]) = rlim m"
    using D(1,3,4) collapse_rep [of "?m1[r := ?e2]" "pre @ [?e2]" f rest] by simp_all
  have "rmap_free_scan m off sz r = Inl (collapse (?m1[r := ?e2]) (Suc r))"
    using D m1 right top1 rl2 left
    by (subst rmap_free_scan.simps)
      (simp add: collapse_def Let_def word_unat_eq_iff lo_def list_update_swap)
  moreover have "ents_ok ((pre @ [?e2]) @ rest)"
    using D(2,3,7) fok bnd2 right by (auto simp: ents_ok_simps ent_ok_def)
  moreover have "cover ((pre @ [?e2]) @ rest) = cover es \<union> span off sz"
    using bnd2 right fok D(3,7) left by (auto simp: span_def ent_ok_def)
  ultimately show ?thesis using rep3 by (auto intro: scan_doneI)
qed

lemma free_scan_gap_above:
  assumes inv: "scan_inv m es pre (e # rest) off sz r"
    and left: "hi e = unat off" and gap: "rest \<noteq> [] \<longrightarrow> lo (hd rest) \<noteq> unat off + unat sz"
    and b: "b \<in> set rest"
  shows "unat off + unat sz < lo b"
proof -
  note D = scan_invD [OF inv]
  obtain a as where rest: "rest = a # as" using b by (cases rest) auto
  have a: "hi e < lo a" "ent_ok a" using D(2,3) rest by (auto simp: ents_ok_simps)
  have "unat off + unat sz \<le> lo a"
    using scan_inv_sep [OF inv, of a] rest a left by (auto simp: ent_ok_def)
  then have "unat off + unat sz < lo a" using gap rest by auto
  moreover have "b \<in> set as \<Longrightarrow> hi a < lo b" using D(2,3) rest by (auto simp: ents_ok_simps)
  ultimately show ?thesis using b rest a by (auto simp: ent_ok_def)
qed

lemma free_scan_merge_left:
  assumes inv: "scan_inv m es pre (e # rest) off sz r"
    and left: "hi e = unat off" and gap: "rest \<noteq> [] \<longrightarrow> lo (hd rest) \<noteq> unat off + unat sz"
  shows "scan_done es off sz (rmap_free_scan m off sz r)"
proof -
  note D = scan_invD [OF inv]
  let ?e = "e\<lparr>r_size := r_size e + sz\<rparr>" and ?m1 = "m[r := e\<lparr>r_size := r_size e + sz\<rparr>]"
  have "unat (r_size e + sz) = unat (r_size e) + unat sz"
    using D(12) left by (intro unat_add_u32) (simp add: hi_def)
  then have bnd: "lo ?e = lo e" "hi ?e = unat off + unat sz"
    using left by (auto simp: lo_def hi_def)
  have e1: "ent_ok ?e" using D(7,12) bnd left by (auto simp: ent_ok_def)
  have rep1: "rm_rep ?m1 (pre @ ?e # rest)"
    using D(1,3,4) by (auto intro: rm_rep_update)
  have "\<not> (r < rlim m \<and> r_off ?e + r_size ?e = r_off (?m1 ! Suc r))"
    using gap rep1 D(1,3,4) unat_top [OF e1] bnd
    by (cases rest) (auto dest: rm_rep_nth_next simp: word_unat_eq_iff lo_def)
  then have "rmap_free_scan m off sz r = Inl ?m1"
    using D rep1 left
    by (subst rmap_free_scan.simps) (auto simp: Let_def word_unat_eq_iff dest: rm_rep_nth)
  moreover have "ents_ok (pre @ ?e # rest)"
    using D(2,3) e1 bnd free_scan_gap_above [OF inv left gap] by (auto simp: ents_ok_simps)
  moreover have "cover (pre @ ?e # rest) = cover es \<union> span off sz"
    using bnd D(3,7) left by (auto simp: span_def ent_ok_def)
  ultimately show ?thesis using rep1 by (auto intro: scan_doneI)
qed

lemma free_scan_merge_right:
  assumes inv: "scan_inv m es pre (e # rest) off sz r"
    and nleft: "hi e \<noteq> unat off" and right: "lo e = unat off + unat sz"
  shows "scan_done es off sz (rmap_free_scan m off sz r)"
proof -
  note D = scan_invD [OF inv]
  let ?e = "\<lparr>r_off = off, r_size = r_size e + sz\<rparr>"
  have "unat (r_size e + sz) = unat (r_size e) + unat sz"
    using D(7) right by (intro unat_add_u32) (simp add: ent_ok_def lo_def hi_def)
  then have bnd: "lo ?e = unat off" "hi ?e = hi e"
    using right by (auto simp: lo_def hi_def)
  have "rmap_free_scan m off sz r = Inl (m[r := ?e])"
    using D nleft right by (subst rmap_free_scan.simps) (auto simp: word_unat_eq_iff lo_def)
  moreover have "rm_rep (m[r := ?e]) (pre @ ?e # rest)"
    using D(1,3,4) by (auto intro: rm_rep_update)
  moreover have "ents_ok (pre @ ?e # rest)"
    using D bnd right by (auto simp: ents_ok_simps ent_ok_def)
  moreover have "cover (pre @ ?e # rest) = cover es \<union> span off sz"
    using bnd right D(3,7) by (auto simp: span_def ent_ok_def)
  ultimately show ?thesis by (auto intro: scan_doneI)
qed

lemma free_scan_correct:
  "scan_inv m es pre rest off sz r \<Longrightarrow> scan_done es off sz (rmap_free_scan m off sz r)"
proof (induction rest arbitrary: pre r)
  case Nil
  then have "\<not> r \<le> rlim m" by (auto simp: scan_inv_def)
  then have "rmap_free_scan m off sz r = Inr r"
    by (subst rmap_free_scan.simps) simp
  with Nil show ?case by (auto simp: scan_inv_def intro: scan_doneI2 [of _ pre "[]"])
next
  case (Cons e rest)
  note D = scan_invD [OF Cons.prems]
  consider "hi e = unat off" "rest \<noteq> []" "lo (hd rest) = unat off + unat sz"
    | "hi e = unat off" "rest \<noteq> [] \<longrightarrow> lo (hd rest) \<noteq> unat off + unat sz"
    | "hi e \<noteq> unat off" "lo e = unat off + unat sz"
    | (before) "hi e \<noteq> unat off" "lo e \<noteq> unat off + unat sz" "off < r_off e"
    | (after) "hi e \<noteq> unat off" "lo e \<noteq> unat off + unat sz" "\<not> off < r_off e"
    by blast
  then show ?case
  proof cases
    case 1
    then show ?thesis
      using Cons.prems free_scan_merge_both [of m es pre e "hd rest" "tl rest"] by simp
  next
    case 2
    then show ?thesis using Cons.prems by (rule free_scan_merge_left [rotated])
  next
    case 3
    then show ?thesis using Cons.prems by (rule free_scan_merge_right [rotated])
  next
    case before
    then have "rmap_free_scan m off sz r = Inr r"
      using D by (subst rmap_free_scan.simps) (auto simp: word_unat_eq_iff lo_def)
    moreover have lt: "unat off + unat sz < lo e"
      using before D(7) scan_inv_sep [OF Cons.prems, of e] by (auto simp: word_nat lo_def hi_def)
    moreover have "\<forall>b\<in>set rest. unat off + unat sz < lo b"
      using D(2,3,7) lt by (fastforce simp: ents_ok_simps ent_ok_def)
    ultimately show ?thesis using D(3,4,13) by (auto intro!: scan_doneI2 [of _ pre "e # rest"])
  next
    case after
    then have "hi e < unat off"
      using D(11) scan_inv_sep [OF Cons.prems, of e] by (auto simp: word_nat lo_def)
    moreover have "rmap_free_scan m off sz r = rmap_free_scan m off sz (Suc r)"
      using D after by (subst rmap_free_scan.simps) (auto simp: word_unat_eq_iff lo_def)
    ultimately show ?thesis
      using Cons.IH [of "pre @ [e]" "Suc r"] Cons.prems by (auto simp: scan_inv_def)
  qed
qed

text \<open>Freeing adds the range to the free units, or, with every slot in use, counts it as lost.\<close>

lemma rmap_free_cases:
  assumes ok: "rmap_ok m" and fr: "freeable m off sz"
  obtains (kept) m' where "rmap_free (m, lost) off sz = (m', lost)" "rmap_ok m'"
      "free_units m' = free_units m \<union> span off sz"
  | (lost) "rmap_free (m, lost) off sz = (m, lost + sz)" "rlim m = unat (r_size (m ! 0))"
      "unat off + unat sz \<notin> free_units m"
proof -
  from ok obtain es where rep: "rm_rep m es" and eok: "ents_ok es" and fu: "free_units m = cover es"
    by (rule rmap_okE)
  have "scan_inv m es [] es off sz 1"
    using rep eok fr fu by (auto simp: scan_inv_def freeable_def unat_pos_iff)
  then have res: "scan_done es off sz (rmap_free_scan m off sz 1)" by (rule free_scan_correct)
  show thesis
  proof (cases "rmap_free_scan m off sz 1")
    case (Inl m')
    then obtain es' where "rm_rep m' es'" "ents_ok es'" "cover es' = cover es \<union> span off sz"
      using res by (auto simp: scan_done_def)
    then show thesis using kept [of m'] Inl fu rmap_okI [of m' es'] by (simp add: rmap_free_def)
  next
    case (Inr r)
    then obtain pre post where es: "es = pre @ post" "r = Suc (length pre)"
      and sep: "\<forall>a\<in>set pre. hi a < unat off" "\<forall>b\<in>set post. unat off + unat sz < lo b"
      using res by (auto simp: scan_done_def)
    show thesis
    proof (cases "makespace m r")
      case None
      have "unat off + unat sz \<notin> free_units m"
        unfolding fu es using sep by (fastforce elim: coverE)
      then show thesis
        using lost Inr None makespace_None [OF rep] rep by (simp add: rmap_free_def)
    next
      case (Some m1)
      let ?e = "\<lparr>r_off = off, r_size = sz\<rparr>"
      obtain x where "rm_rep m1 (pre @ x # post)"
        using makespace_Some rep Some es by blast
      then have rep': "rm_rep (m1[r := ?e]) (pre @ ?e # post)"
        unfolding es(2) by (rule rm_rep_update)
      have "ents_ok (pre @ ?e # post)"
        using eok es sep fr ent_ok_mk [of off sz]
        by (auto simp: ents_ok_simps freeable_def unat_pos_iff lo_def hi_def)
      moreover have "cover (pre @ ?e # post) = cover es \<union> span off sz"
        using es by (auto simp: span_def lo_def hi_def)
      ultimately show thesis
        using kept [of "m1[r := ?e]"] rmap_okI [OF rep'] Inr Some fu by (simp add: rmap_free_def)
    qed
  qed
qed

subsection \<open>Grabbing a given range\<close>

text \<open>What \<open>rmap_grab\<close> may do, given the map and the count of lost units before.\<close>

definition grab_done :: "rmap \<Rightarrow> ulong \<Rightarrow> uint \<Rightarrow> uint \<Rightarrow> nat \<times> (rmap \<times> ulong) \<Rightarrow> bool" where
  "grab_done m lost off sz res \<longleftrightarrow>
     (case res of (rc, (m', lost')) \<Rightarrow>
        (if span off sz \<subseteq> free_units m
         then rc = 0 \<and> rmap_ok m' \<and>
           (free_units m' = free_units m - span off sz \<and> lost' = lost
            \<or> (\<exists>e\<in>set (ents m). rlim m = unat (r_size (m ! 0)) \<and> lo e < unat off
                 \<and> free_units m' = free_units m - {lo e..<unat off + unat sz}
                 \<and> lost' = lost + (off - r_off e)))
         else rc = 1 \<and> m' = m \<and> lost' = lost))"

lemma cover_shrink:
  assumes "ents_ok (pre @ e # post)" "lo e \<le> a" "b \<le> hi e" "a \<le> b"
  shows "cover (pre @ e # post) - {a..<b} = cover pre \<union> {lo e..<a} \<union> {b..<hi e} \<union> cover post"
  using assms by (auto simp: ents_ok_simps elim!: coverE)

lemma ents_ok_replace:
  assumes "ents_ok (pre @ e # post)" "ent_ok f" "lo e \<le> lo f" "hi f \<le> hi e"
  shows "ents_ok (pre @ f # post)"
  using assms by (fastforce simp: ents_ok_simps)

lemma ents_ok_split:
  assumes "ents_ok (pre @ e # post)" "ent_ok f" "ent_ok g" "lo e \<le> lo f" "hi f < lo g" "hi g \<le> hi e"
  shows "ents_ok (pre @ f # g # post)"
  using assms by (fastforce simp: ents_ok_simps ent_ok_def)

text \<open>The entry \<open>r\<close> holds the first unit of the requested range.\<close>

definition grab_inv :: "rmap \<Rightarrow> rent list \<Rightarrow> rent \<Rightarrow> rent list \<Rightarrow> uint \<Rightarrow> uint \<Rightarrow> nat \<Rightarrow> bool" where
  "grab_inv m pre e post off sz r \<longleftrightarrow> rm_rep m (pre @ e # post) \<and> ents_ok (pre @ e # post)
     \<and> r = Suc (length pre) \<and> lo e \<le> unat off \<and> unat off < hi e
     \<and> 0 < unat sz \<and> unat off + unat sz < 2 ^ 32"

lemma grab_invD:
  assumes "grab_inv m pre e post off sz r"
  shows "rm_rep m (pre @ e # post)" "ents_ok (pre @ e # post)" "r = Suc (length pre)"
    "lo e \<le> unat off" "unat off < hi e" "0 < unat sz" "unat off + unat sz < 2 ^ 32"
    "m ! r = e" "ent_ok e" "unat (r_off e + r_size e) = hi e"
    "unat (off + sz) = unat off + unat sz" "free_units m = cover (pre @ e # post)"
    "ents m = pre @ e # post"
proof -
  note inv = assms [unfolded grab_inv_def]
  show rep: "rm_rep m (pre @ e # post)" and ok: "ents_ok (pre @ e # post)"
    and r: "r = Suc (length pre)" and "lo e \<le> unat off" "unat off < hi e" "0 < unat sz"
    and lt: "unat off + unat sz < 2 ^ 32"
    using inv by blast+
  show "m ! r = e" unfolding r by (rule rm_rep_nth [OF rep])
  show e: "ent_ok e" using ok by (simp add: ents_ok_simps)
  show "unat (r_off e + r_size e) = hi e" by (rule unat_top [OF e])
  show "unat (off + sz) = unat off + unat sz" by (rule unat_add_u32 [OF lt])
  show ents: "ents m = pre @ e # post" by (rule rm_rep_ents [OF rep])
  show "free_units m = cover (pre @ e # post)" by (simp only: free_units_def ents)
qed

lemma grab_inside:
  assumes inv: "grab_inv m pre e post off sz r" and le: "unat off + unat sz \<le> hi e"
  shows "span off sz \<subseteq> free_units m"
proof -
  have "span off sz \<subseteq> {lo e..<hi e}"
    using grab_invD(4) [OF inv] le by (auto simp: span_def)
  then show ?thesis by (auto simp: grab_invD(12) [OF inv])
qed

lemma grab_doneI:
  assumes "span off sz \<subseteq> free_units m" "rm_rep m' es'" "ents_ok es'"
    "cover es' = free_units m - span off sz"
  shows "grab_done m lost off sz (0, (m', lost))"
  using assms rmap_okI [OF assms(2,3)] by (simp add: grab_done_def)

lemma grab_over:
  assumes inv: "grab_inv m pre e post off sz r" and over: "hi e < unat off + unat sz"
  shows "grab_done m lost off sz (rmap_grab_at (m, lost) off sz r)"
proof -
  note D = grab_invD [OF inv]
  have "\<not> span off sz \<subseteq> free_units m"
  proof
    assume "span off sz \<subseteq> free_units m"
    then obtain f where f: "f \<in> set (pre @ e # post)" "lo f \<le> unat off" "unat off + unat sz \<le> hi f"
      using range_in_entry [OF D(2) _ D(6)] D(12) by (auto simp: span_def)
    consider "f \<in> set pre" | "f = e" | "f \<in> set post" using f(1) by auto
    then show False
    proof cases
      case 1
      then have "hi f < lo e" using D(2) by (auto simp: ents_ok_simps)
      then show ?thesis using f D(4) by linarith
    next
      case 2
      then show ?thesis using f over by simp
    next
      case 3
      then have "hi e < lo f" using D(2) by (auto simp: ents_ok_simps)
      then show ?thesis using f D(5) by linarith
    qed
  qed
  moreover have "r_off e + r_size e < off + sz" using D(10,11) over by (simp add: word_less_nat_alt)
  ultimately show ?thesis using D(8) by (simp add: grab_done_def rmap_grab_at_def Let_def)
qed

lemma grab_front:
  assumes inv: "grab_inv m pre e post off sz r"
    and front: "unat off + unat sz < hi e" "unat off = lo e"
  shows "grab_done m lost off sz (rmap_grab_at (m, lost) off sz r)"
proof -
  note D = grab_invD [OF inv]
  let ?e = "\<lparr>r_off = r_off e + sz, r_size = r_size e - sz\<rparr>"
  have sle: "unat sz < unat (r_size e)" and off: "off = r_off e"
    using front by (simp_all add: hi_def lo_def word_unat_eq_iff)
  then have u: "unat (r_size e - sz) = unat (r_size e) - unat sz" by (simp add: unat_sub_u32)
  then have bnd: "lo ?e = unat off + unat sz" "hi ?e = hi e"
    using D(11) sle by (auto simp: lo_def hi_def off)
  have rep: "rm_rep (m[r := ?e]) (pre @ ?e # post)"
    unfolding D(3) by (rule rm_rep_update [OF D(1)])
  have "r_size e - sz \<noteq> 0" using u sle by (metis unat_0 zero_less_diff less_numeral_extra(3))
  moreover have "\<not> r_off e + r_size e < off + sz"
    using D(10,11) front by (simp add: word_less_nat_alt)
  moreover have "m[r := ?e] ! r = ?e" using rm_rep_nth [OF rep] D(3) by simp
  ultimately have "rmap_grab_at (m, lost) off sz r = (0, (m[r := ?e], lost))"
    using D(8) off by (simp add: rmap_grab_at_def Let_def)
  moreover have "ents_ok (pre @ ?e # post)"
    using D(9) bnd front by (intro ents_ok_replace [OF D(2)]) (auto simp: ent_ok_def)
  moreover have "cover (pre @ ?e # post) = free_units m - span off sz"
    using cover_shrink [OF D(2), of "unat off" "unat off + unat sz"] bnd front D(12)
    by (simp add: span_def Un_assoc)
  ultimately show ?thesis
    using rep grab_inside [OF inv] front by (auto intro!: grab_doneI)
qed

lemma grab_all:
  assumes inv: "grab_inv m pre e post off sz r"
    and all: "unat off + unat sz = hi e" "unat off = lo e"
  shows "grab_done m lost off sz (rmap_grab_at (m, lost) off sz r)"
proof -
  note D = grab_invD [OF inv]
  have off: "off = r_off e" and seq: "r_size e = sz"
    using all by (simp_all add: hi_def lo_def word_unat_eq_iff)
  let ?e = "\<lparr>r_off = r_off e + sz, r_size = r_size e - sz\<rparr>"
  have rep1: "rm_rep (m[r := ?e]) (pre @ ?e # post)"
    unfolding D(3) by (rule rm_rep_update [OF D(1)])
  have "m[r := ?e] ! r = ?e" using rm_rep_nth [OF rep1] D(3) by simp
  then have "rmap_grab_at (m, lost) off sz r = (0, (collapse (m[r := ?e]) r, lost))"
    using D(8) off seq by (simp add: rmap_grab_at_def Let_def)
  moreover have "rm_rep (collapse (m[r := ?e]) r) (pre @ post)"
    using collapse_rep [OF rep1] D(3) by simp
  moreover have "ents_ok (pre @ post)" using D(2) by (auto simp: ents_ok_simps)
  moreover have "cover (pre @ post) = free_units m - span off sz"
    using cover_shrink [OF D(2), of "unat off" "unat off + unat sz"] all D(5,12)
    by (simp add: span_def)
  ultimately show ?thesis
    using grab_inside [OF inv] all by (auto intro!: grab_doneI)
qed

lemma grab_back:
  assumes inv: "grab_inv m pre e post off sz r"
    and tl_cut: "unat off + unat sz = hi e" "lo e < unat off"
  shows "grab_done m lost off sz (rmap_grab_at (m, lost) off sz r)"
proof -
  note D = grab_invD [OF inv]
  let ?e = "e\<lparr>r_size := r_size e - sz\<rparr>"
  have sle: "unat sz < unat (r_size e)" using tl_cut by (simp add: hi_def lo_def)
  then have bnd: "lo ?e = lo e" "hi ?e = unat off"
    using tl_cut by (auto simp: lo_def hi_def unat_sub_u32)
  have "off \<noteq> r_off e" using tl_cut by (auto simp: lo_def)
  moreover have "off + sz = r_off e + r_size e"
    using D(10,11) tl_cut(1) by (metis word_unat_eq_iff)
  ultimately have "rmap_grab_at (m, lost) off sz r = (0, (m[r := ?e], lost))"
    using D(8) by (simp add: rmap_grab_at_def Let_def)
  moreover have "rm_rep (m[r := ?e]) (pre @ ?e # post)"
    unfolding D(3) by (rule rm_rep_update [OF D(1)])
  moreover have "ents_ok (pre @ ?e # post)"
    using D(5,9) bnd tl_cut by (intro ents_ok_replace [OF D(2)]) (auto simp: ent_ok_def)
  moreover have "cover (pre @ ?e # post) = free_units m - span off sz"
    using cover_shrink [OF D(2), of "unat off" "unat off + unat sz"] bnd tl_cut D(12)
    by (simp add: span_def Un_assoc)
  ultimately show ?thesis
    using grab_inside [OF inv] tl_cut by (auto intro!: grab_doneI)
qed

text \<open>The range is strictly inside the entry: what \<open>g\<close> stands for is the part above it.\<close>

lemma grab_mid_eval:
  assumes inv: "grab_inv m pre e post off sz r"
    and mid: "unat off + unat sz < hi e" "lo e < unat off"
    and g: "g = \<lparr>r_off = off + sz, r_size = r_off e + r_size e - (off + sz)\<rparr>"
  shows "lo g = unat off + unat sz" "hi g = hi e" "ent_ok g"
    "makespace m r = None \<Longrightarrow> rmap_grab_at (m, lost) off sz r
       = (0, (m[r := g], lost + (off - r_off e)))"
    "makespace m r = Some m1 \<Longrightarrow> rmap_grab_at (m, lost) off sz r
       = (0, (m1[r := (m1 ! r)\<lparr>r_size := off - r_off e\<rparr>, Suc r := g], lost))"
proof -
  note D = grab_invD [OF inv]
  have ug: "unat (r_off e + r_size e - (off + sz)) = hi e - (unat off + unat sz)"
    using mid D(10,11) by (subst unat_sub_u32) auto
  show bnd: "lo g = unat off + unat sz" "hi g = hi e"
    using ug D(11) mid by (auto simp: lo_def hi_def g)
  show "ent_ok g" using bnd mid D(6,9) by (auto simp: ent_ok_def)
  have c: "off \<noteq> r_off e" "off + sz \<noteq> r_off e + r_size e" "\<not> r_off e + r_size e < off + sz"
    using D(10,11) mid by (auto simp: lo_def word_less_nat_alt)
  have "(r_size e - (r_off e + r_size e - (off + sz))) - sz = off - r_off e" by simp
  then show "makespace m r = None \<Longrightarrow> rmap_grab_at (m, lost) off sz r
      = (0, (m[r := g], lost + (off - r_off e)))"
    using D(8) c by (simp add: rmap_grab_at_def Let_def g)
  show "makespace m r = Some m1 \<Longrightarrow> rmap_grab_at (m, lost) off sz r
      = (0, (m1[r := (m1 ! r)\<lparr>r_size := off - r_off e\<rparr>, Suc r := g], lost))"
    using D(8) c by (simp add: rmap_grab_at_def Let_def g)
qed

lemma grab_mid:
  assumes inv: "grab_inv m pre e post off sz r"
    and mid: "unat off + unat sz < hi e" "lo e < unat off"
  shows "grab_done m lost off sz (rmap_grab_at (m, lost) off sz r)"
proof -
  note D = grab_invD [OF inv]
  define g where "g = \<lparr>r_off = off + sz, r_size = r_off e + r_size e - (off + sz)\<rparr>"
  note E = grab_mid_eval [OF inv mid g_def]
  show ?thesis
  proof (cases "makespace m r")
    case None
    have "rm_rep (m[r := g]) (pre @ g # post)" unfolding D(3) by (rule rm_rep_update [OF D(1)])
    moreover have "ents_ok (pre @ g # post)"
      using E(1-3) mid by (intro ents_ok_replace [OF D(2)]) auto
    moreover have "cover (pre @ g # post) = free_units m - {lo e..<unat off + unat sz}"
      using cover_shrink [OF D(2), of "lo e" "unat off + unat sz"] E(1,2) mid D(12)
      by (simp add: Un_assoc)
    moreover have "rlim m = unat (r_size (m ! 0))" using makespace_None [OF D(1)] None D(1) by simp
    ultimately show ?thesis
      using grab_inside [OF inv] mid D(13) E(4) [OF None] rmap_okI [of "m[r := g]" "pre @ g # post"]
      by (auto simp: grab_done_def)
  next
    case (Some m1)
    let ?f = "e\<lparr>r_size := off - r_off e\<rparr>"
    have rep1: "rm_rep m1 (pre @ e # e # post)"
      using makespace_Some [of m pre "e # post"] D(1,3) Some by auto
    have bndf: "lo ?f = lo e" "hi ?f = unat off"
      using mid D(4) by (auto simp: lo_def hi_def unat_sub_u32)
    have "rm_rep (m1[r := ?f]) ((pre @ [?f]) @ e # post)"
      using rm_rep_update [OF rep1, of ?f] D(3) by simp
    from rm_rep_update [OF this, of g]
    have rep2: "rm_rep (m1[r := ?f, Suc r := g]) (pre @ ?f # g # post)" using D(3) by simp
    have "m1 ! r = e" using rm_rep_nth [OF rep1] D(3) by simp
    then have "rmap_grab_at (m, lost) off sz r = (0, (m1[r := ?f, Suc r := g], lost))"
      using E(5) [OF Some] by simp
    moreover have "ents_ok (pre @ ?f # g # post)"
      using E(1-3) D(6,9) bndf mid by (intro ents_ok_split [OF D(2)]) (auto simp: ent_ok_def)
    moreover have "cover (pre @ ?f # g # post) = free_units m - span off sz"
      using cover_shrink [OF D(2), of "unat off" "unat off + unat sz"] bndf E(1,2) mid D(12)
      by (auto simp: span_def)
    ultimately show ?thesis
      using rep2 grab_inside [OF inv] mid by (auto intro!: grab_doneI)
  qed
qed

lemma grab_at_correct:
  assumes inv: "grab_inv m pre e post off sz r"
  shows "grab_done m lost off sz (rmap_grab_at (m, lost) off sz r)"
proof -
  consider "hi e < unat off + unat sz"
    | "unat off + unat sz < hi e" "unat off = lo e" | "unat off + unat sz = hi e" "unat off = lo e"
    | "unat off + unat sz = hi e" "lo e < unat off" | "unat off + unat sz < hi e" "lo e < unat off"
    using grab_invD(4) [OF inv] by linarith
  then show ?thesis
    by cases (simp_all add: grab_over [OF inv] grab_front [OF inv] grab_all [OF inv]
      grab_back [OF inv] grab_mid [OF inv])
qed

lemma grab_scan_correct:
  assumes "rm_rep m es" "ents_ok es" "es = pre @ rest" "r = Suc (length pre)"
    and "\<forall>a\<in>set pre. hi a \<le> unat off" and sz: "0 < unat sz" "unat off + unat sz < 2 ^ 32"
  shows "grab_done m lost off sz (rmap_grab_scan (m, lost) off sz r)"
  using assms(1-5)
proof (induction rest arbitrary: pre r)
  case Nil
  then have "rmap_grab_scan (m, lost) off sz r = (1, (m, lost))"
    by (subst rmap_grab_scan.simps) simp
  moreover have "unat off \<notin> free_units m"
    using Nil rmap_okI [of m es] by (auto simp: cover_def)
  moreover have "unat off \<in> span off sz" using sz(1) by (simp add: span_def)
  ultimately show ?case by (auto simp: grab_done_def)
next
  case (Cons e rest)
  note es = Cons.prems(3) and r = Cons.prems(4)
  have rl: "r \<le> rlim m" using Cons.prems by simp
  have mr: "m ! r = e" using Cons.prems(1) es r by (auto dest: rm_rep_nth)
  have e: "ent_ok e" using Cons.prems(2) es by (auto simp: ents_ok_simps)
  have top: "unat (r_off e + r_size e) = hi e" by (rule unat_top [OF e])
  have eval: "rmap_grab_scan (m, lost) off sz r =
    (if unat off < lo e then (1, (m, lost))
     else if hi e \<le> unat off then rmap_grab_scan (m, lost) off sz (Suc r)
     else rmap_grab_at (m, lost) off sz r)"
    using rl mr top by (subst rmap_grab_scan.simps) (simp add: Let_def word_nat lo_def)
  consider "unat off < lo e" | "lo e \<le> unat off" "hi e \<le> unat off" | "lo e \<le> unat off" "unat off < hi e"
    by linarith
  then show ?case
  proof cases
    case 1
    have "unat off \<notin> free_units m"
    proof
      assume "unat off \<in> free_units m"
      then obtain f where f: "f \<in> set es" "lo f \<le> unat off" "unat off < hi f"
        using rmap_okI [OF Cons.prems(1,2)] by (auto elim: coverE)
      then have "f \<in> set rest" using 1 Cons.prems(5) es by auto
      then have "hi e < lo f" using Cons.prems(2) es by (auto simp: ents_ok_simps)
      with f 1 e show False by (simp add: ent_ok_def)
    qed
    moreover have "unat off \<in> span off sz" using sz(1) by (simp add: span_def)
    ultimately show ?thesis using 1 eval by (auto simp: grab_done_def)
  next
    case 2
    then show ?thesis
      using Cons.IH [of "pre @ [e]" "Suc r"] Cons.prems eval by auto
  next
    case 3
    then have "grab_inv m pre e rest off sz r"
      using Cons.prems sz by (simp add: grab_inv_def)
    then show ?thesis using grab_at_correct eval 3 by simp
  qed
qed

subsection \<open>The contract of a pool of units\<close>

text \<open>Serve a list of requests in turn; the result lists what each was given (0: nothing).\<close>

fun alloc_all :: "('s \<Rightarrow> uint \<Rightarrow> uint \<times> 's) \<Rightarrow> 's \<Rightarrow> uint list \<Rightarrow> (uint \<times> uint) list \<times> 's" where
  "alloc_all f s [] = ([], s)"
| "alloc_all f s (sz # szs) =
     (let (off, s1) = f s sz; (gs, s2) = alloc_all f s1 szs in ((off, sz) # gs, s2))"

definition granted :: "(uint \<times> uint) list \<Rightarrow> (uint \<times> uint) list" where
  "granted gs = filter (\<lambda>(off, sz). off \<noteq> 0) gs"

text \<open>
  What a client of a resource map relies on: a request is either refused without effect or
  given units that were free and no longer are.
\<close>

locale unit_pool =
  fixes pool_ok :: "'s \<Rightarrow> bool"
    and avail :: "'s \<Rightarrow> nat set"
    and take_units :: "'s \<Rightarrow> uint \<Rightarrow> uint \<times> 's"
  assumes take_ok: "pool_ok s \<Longrightarrow> sz \<noteq> 0 \<Longrightarrow> pool_ok (snd (take_units s sz))"
    and take_given: "pool_ok s \<Longrightarrow> sz \<noteq> 0 \<Longrightarrow> fst (take_units s sz) \<noteq> 0 \<Longrightarrow>
      span (fst (take_units s sz)) sz \<subseteq> avail s
      \<and> avail (snd (take_units s sz)) = avail s - span (fst (take_units s sz)) sz"
    and take_refused: "pool_ok s \<Longrightarrow> sz \<noteq> 0 \<Longrightarrow> fst (take_units s sz) = 0 \<Longrightarrow>
      snd (take_units s sz) = s"
begin

lemma alloc_all_sound:
  "pool_ok s \<Longrightarrow> list_all (\<lambda>sz. sz \<noteq> 0) szs \<Longrightarrow> alloc_all take_units s szs = (gs, s') \<Longrightarrow>
   pool_ok s'
   \<and> (\<forall>g\<in>set (granted gs). span (fst g) (snd g) \<subseteq> avail s)
   \<and> sorted_wrt (\<lambda>a b. span (fst a) (snd a) \<inter> span (fst b) (snd b) = {}) (granted gs)
   \<and> avail s' = avail s - (\<Union>g\<in>set (granted gs). span (fst g) (snd g))"
proof (induction szs arbitrary: s gs s')
  case Nil
  then show ?case by (simp add: granted_def)
next
  case (Cons sz szs)
  obtain off s1 where t: "take_units s sz = (off, s1)" by (cases "take_units s sz")
  obtain gs1 where rest: "alloc_all take_units s1 szs = (gs1, s')" and gs: "gs = (off, sz) # gs1"
    using Cons.prems t by (auto split: prod.splits)
  have nz: "sz \<noteq> 0" using Cons.prems by simp
  have s1: "pool_ok s1" using take_ok [OF Cons.prems(1) nz] t by simp
  have IH: "pool_ok s'" "\<forall>g\<in>set (granted gs1). span (fst g) (snd g) \<subseteq> avail s1"
    "sorted_wrt (\<lambda>a b. span (fst a) (snd a) \<inter> span (fst b) (snd b) = {}) (granted gs1)"
    "avail s' = avail s1 - (\<Union>g\<in>set (granted gs1). span (fst g) (snd g))"
    using Cons.IH [OF s1 _ rest] Cons.prems(2) by auto
  show ?case
  proof (cases "off = 0")
    case True
    then have "s1 = s" using take_refused [OF Cons.prems(1) nz] t by simp
    moreover have "granted gs = granted gs1" using True gs by (simp add: granted_def)
    ultimately show ?thesis using IH by simp
  next
    case False
    then have sub: "span off sz \<subseteq> avail s" and av: "avail s1 = avail s - span off sz"
      using take_given [OF Cons.prems(1) nz] t by simp_all
    have gr: "granted gs = (off, sz) # granted gs1" using False gs by (simp add: granted_def)
    have "\<forall>g\<in>set (granted gs1). span off sz \<inter> span (fst g) (snd g) = {}"
      using IH(2) av by blast
    moreover have "\<forall>g\<in>set (granted gs1). span (fst g) (snd g) \<subseteq> avail s"
      using IH(2) av by blast
    moreover have "avail s' = avail s - (\<Union>g\<in>set (granted gs). span (fst g) (snd g))"
      using IH(4) av gr by auto
    ultimately show ?thesis using IH(1,3) sub gr by simp
  qed
qed

end

lemma rmap_alloc_given:
  assumes "rmap_ok m" "sz \<noteq> 0"
  shows "rmap_ok (snd (rmap_alloc m sz))
    \<and> (fst (rmap_alloc m sz) \<noteq> 0 \<longrightarrow> span (fst (rmap_alloc m sz)) sz \<subseteq> free_units m
         \<and> free_units (snd (rmap_alloc m sz)) = free_units m - span (fst (rmap_alloc m sz)) sz)
    \<and> (fst (rmap_alloc m sz) = 0 \<longrightarrow> snd (rmap_alloc m sz) = m)"
proof -
  have "0 < unat sz" using assms(2) by (simp add: unat_pos_iff)
  with assms(1) show ?thesis
  proof (cases rule: rmap_alloc_cases)
    case fail
    then show ?thesis using assms(1) by simp
  next
    case (fit e m')
    have "0 < lo e" using fit(2) assms(1) by (auto simp: rmap_ok_def ent_ok_def dest: ents_ok_mem)
    then have "r_off e \<noteq> 0" by (simp add: lo_def unat_pos_iff)
    then show ?thesis using fit by (auto simp: span_def lo_def free_units_def cover_def)
  qed
qed

interpretation rmap_pool: unit_pool rmap_ok free_units rmap_alloc
  by unfold_locales (simp_all add: rmap_alloc_given)

subsection \<open>Properties\<close>

text \<open>A map with one entry, [10..14], and room for a second: the properties are applied to it.\<close>

definition rmap_example :: rmap where
  "rmap_example = [\<lparr>r_off = 1, r_size = 2\<rparr>, \<lparr>r_off = 10, r_size = 5\<rparr>, \<lparr>r_off = 0, r_size = 0\<rparr>]"

lemma rmap_example_ok: "rmap_ok rmap_example"
  by (simp add: rmap_example_def rmap_ok_def rlim_def ents_def ents_ok_def ent_ok_def lo_def hi_def)

text \<open>
  C34: \<open>rmap_alloc\<close> on a well-formed map: it grants a range exactly when some run of free units is
  long enough; what it grants was free and is the only thing taken, and a refusal changes
  nothing. The map stays well-formed.
\<close>

theorem rmap_alloc_spec:
  assumes ok: "rmap_ok m" and nz: "sz \<noteq> 0" and res: "rmap_alloc m sz = (off, m')"
  shows "rmap_ok m' \<and>
    (if \<exists>x. {x..<x + unat sz} \<subseteq> free_units m
     then off \<noteq> 0 \<and> span off sz \<subseteq> free_units m \<and> free_units m' = free_units m - span off sz
     else off = 0 \<and> m' = m)"
proof -
  have given: "rmap_ok m'" "off \<noteq> 0 \<Longrightarrow> span off sz \<subseteq> free_units m"
    "off \<noteq> 0 \<Longrightarrow> free_units m' = free_units m - span off sz" "off = 0 \<Longrightarrow> m' = m"
    using rmap_alloc_given [OF ok nz] res by simp_all
  have sz: "0 < unat sz" using nz by (simp add: unat_pos_iff)
  have "off \<noteq> 0" if run: "{x..<x + unat sz} \<subseteq> free_units m" for x
    using ok sz
  proof (cases rule: rmap_alloc_cases)
    case fail
    then show ?thesis
      using range_in_entry [OF _ _ sz, of "ents m" x] ok run
      by (fastforce simp: rmap_ok_def free_units_def)
  next
    case (fit e m1)
    then show ?thesis
      using ok res by (auto simp: rmap_ok_def ent_ok_def lo_def dest: ents_ok_mem)
  qed
  moreover have "\<exists>x. {x..<x + unat sz} \<subseteq> free_units m" if "off \<noteq> 0"
    using given(2) [OF that] by (auto simp: span_def)
  ultimately show ?thesis using given by metis
qed

theorem rmap_alloc_spec_witness: "rmap_ok (snd (rmap_alloc rmap_example 3))"
  by (rule conjunct1 [OF rmap_alloc_spec [OF rmap_example_ok _ prod.collapse [symmetric]]]) simp

text \<open>
  C33: \<open>rmap_free\<close> of a range that is not free already adds exactly that range to the free units;
  only when every slot is in use and nothing abuts the range is it lost, and then it is added
  to the count of lost units.
\<close>

theorem rmap_free_spec:
  assumes "rmap_ok m" "freeable m off sz" "rmap_free (m, lost) off sz = (m', lost')"
  shows "rmap_ok m' \<and>
    (free_units m' = free_units m \<union> span off sz \<and> lost' = lost
     \<or> rlim m = unat (r_size (m ! 0)) \<and> unat off + unat sz \<notin> free_units m
       \<and> m' = m \<and> lost' = lost + sz)"
  using assms(1,2)
proof (cases rule: rmap_free_cases [where lost = lost])
  case (kept m1)
  then show ?thesis using assms(3) by auto
next
  case lost
  then show ?thesis using assms(1,3) by auto
qed

theorem rmap_free_spec_witness: "rmap_ok (fst (rmap_free (rmap_example, 0) 15 4))"
proof -
  have fr: "freeable rmap_example 15 4"
    by (auto simp: rmap_example_def freeable_def free_units_def ents_def rlim_def lo_def hi_def span_def)
  show ?thesis
    by (rule conjunct1 [OF rmap_free_spec [OF rmap_example_ok fr prod.collapse [symmetric]]])
qed

text \<open>
  \<open>rmap_grab\<close> succeeds exactly when the whole requested range is free. It then takes that
  range and nothing else, except when the entry would have to be split and no slot is left: the
  free units of the entry below the range are then given up too and counted as lost.
\<close>

theorem rmap_grab_spec:
  assumes ok: "rmap_ok m" and nz: "sz \<noteq> 0" and lt: "unat off + unat sz < 2 ^ 32"
  shows "grab_done m lost off sz (rmap_grab (m, lost) off sz)"
proof -
  from ok obtain es where rep: "rm_rep m es" "ents_ok es" by (rule rmap_okE)
  show ?thesis
    unfolding rmap_grab_def using nz lt
    by (intro grab_scan_correct [OF rep, of "[]" es]) (simp_all add: unat_pos_iff)
qed

theorem rmap_grab_spec_witness: "grab_done rmap_example 0 11 2 (rmap_grab (rmap_example, 0) 11 2)"
  by (rule rmap_grab_spec [OF rmap_example_ok]) simp_all

text \<open>
  Serving any list of requests from a resource map hands out ranges that were free at the start
  and never overlap each other.
\<close>

theorem rmap_alloc_all_disjoint:
  assumes "rmap_ok m" "list_all (\<lambda>sz. sz \<noteq> 0) szs" "alloc_all rmap_alloc m szs = (gs, m')"
  shows "rmap_ok m'
    \<and> (\<forall>g\<in>set (granted gs). span (fst g) (snd g) \<subseteq> free_units m)
    \<and> sorted_wrt (\<lambda>a b. span (fst a) (snd a) \<inter> span (fst b) (snd b) = {}) (granted gs)
    \<and> free_units m' = free_units m - (\<Union>g\<in>set (granted gs). span (fst g) (snd g))"
  using assms by (rule rmap_pool.alloc_all_sound)

theorem rmap_alloc_all_disjoint_witness:
  "rmap_ok (snd (alloc_all rmap_alloc rmap_example [2, 9, 3]))"
  by (rule conjunct1 [OF rmap_alloc_all_disjoint [OF rmap_example_ok _ prod.collapse [symmetric]]]) simp

text \<open>
  Freeing what \<open>rmap_alloc\<close> just handed out restores the free units exactly: nothing is ever
  lost on this path, because the entry that shrank abuts the range or a slot was vacated.
\<close>

theorem rmap_alloc_free_roundtrip:
  assumes ok: "rmap_ok m" and nz: "sz \<noteq> 0" and al: "rmap_alloc m sz = (off, m1)" and given: "off \<noteq> 0"
  shows "free_units (fst (rmap_free (m1, lost) off sz)) = free_units m
    \<and> snd (rmap_free (m1, lost) off sz) = lost"
proof -
  have sz: "0 < unat sz" using nz by (simp add: unat_pos_iff)
  from ok sz show ?thesis
  proof (cases rule: rmap_alloc_cases)
    case fail
    then show ?thesis using al given by simp
  next
    case (fit e m')
    then have eq: "off = r_off e" "m1 = m'" using al by simp_all
    have e: "ent_ok e" using fit(2) ok by (auto simp: rmap_ok_def dest: ents_ok_mem)
    have sub: "span off sz \<subseteq> free_units m"
      using fit(2,3) eq by (auto simp: span_def free_units_def cover_def lo_def)
    have fr: "freeable m1 off sz"
      using nz given fit(3,5) e eq by (auto simp: freeable_def span_def ent_ok_def lo_def)
    from fit(4) fr show ?thesis unfolding eq(2) [symmetric]
    proof (cases rule: rmap_free_cases [where lost = lost])
      case (kept m2)
      then show ?thesis using fit(5) eq sub by (auto simp: span_def lo_def)
    next
      case lost
      then show ?thesis using fit(6) eq by (auto simp: lo_def)
    qed
  qed
qed

theorem rmap_alloc_free_roundtrip_witness:
  "free_units (fst (rmap_free (snd (rmap_alloc rmap_example 3), 0) 10 3)) = free_units rmap_example"
proof -
  have al: "rmap_alloc rmap_example 3 = (10, snd (rmap_alloc rmap_example 3))"
    by (simp add: rmap_example_def rmap_alloc_def rlim_def)
  show ?thesis
    by (rule conjunct1 [OF rmap_alloc_free_roundtrip [OF rmap_example_ok _ al]]) simp_all
qed

end
