(* ===== verification/Perm.thy ===== *)
theory Perm
  imports Prelude
begin

text \<open>
  Permissions and protections: \<open>src/src/include/sys/perm.h\<close>, \<open>src/src/lib/permsup.c\<close> and the
  system call \<open>perm_ctl\<close> of \<open>src/src/os/kern/misc.c\<close>. A permission is a label (at most
  \<open>PERMLEN\<close> numbers) a process holds; a protection is the label of an object with the access
  bits each of its levels grants. The lemmas read the loops as statements on single access
  bits: which levels of a protection a permission unlocks, that a dominating permission
  unlocks at least as much, and that \<open>perm_ctl\<close> lets no process gain access.
\<close>

subsection \<open>Data and macros of perm.h\<close>

definition PERMLEN :: nat where
  "PERMLEN = 7"

definition PROCPERMS :: nat where
  "PROCPERMS = 6"

record perm =
  perm_len :: uchar
  perm_id :: "uchar list"
  perm_uid :: ulong

record prot =
  prot_len :: uchar
  prot_default :: uchar
  prot_id :: "uchar list"
  prot_bits :: "uchar list"

definition PERM_ACTIVE :: "perm \<Rightarrow> bool" where
  "PERM_ACTIVE p \<longleftrightarrow> unat (perm_len p) < PERMLEN"

definition PERM_DISABLE :: "perm \<Rightarrow> perm" where
  "PERM_DISABLE p = p\<lparr>perm_len := perm_len p OR 0x80\<rparr>"

definition PERM_DISABLED :: "perm \<Rightarrow> bool" where
  "PERM_DISABLED p \<longleftrightarrow> perm_len p AND 0x80 \<noteq> 0"

definition PERM_ENABLE :: "perm \<Rightarrow> perm" where
  "PERM_ENABLE p = p\<lparr>perm_len := perm_len p AND NOT 0x80\<rparr>"

definition PERM_NULL :: "perm \<Rightarrow> perm" where
  "PERM_NULL p = p\<lparr>perm_len := of_nat PERMLEN\<rparr>"

definition PERM_LEN :: "perm \<Rightarrow> nat" where
  "PERM_LEN p = unat (perm_len p AND NOT 0x80) mod PERMLEN"

subsection \<open>permsup.c\<close>

text \<open>\<open>granted |= prot_bits[y]\<close> for \<open>y\<close> from \<open>x\<close> to the end.\<close>

definition or_bits :: "uchar list \<Rightarrow> nat list \<Rightarrow> uchar \<Rightarrow> uchar" where
  "or_bits bits ys granted = foldl (\<lambda>g y. g OR bits ! y) granted ys"

function perm_step_loop :: "perm \<Rightarrow> prot \<Rightarrow> nat \<Rightarrow> uchar \<Rightarrow> uchar" where
  "perm_step_loop perm prot x granted =
     (if x < unat (prot_len prot) then
        if PERM_LEN perm \<le> x
        then or_bits (prot_bits prot) [x..<unat (prot_len prot)] granted
        else if prot_id prot ! x \<noteq> perm_id perm ! x then granted
        else perm_step_loop perm prot (x + 1) (granted OR prot_bits prot ! x)
      else granted)"
  by pat_completeness auto
termination
  by (relation "measure (\<lambda>(perm, prot, x, g). unat (prot_len prot) - x)") auto

declare perm_step_loop.simps [simp del]

definition perm_step :: "perm \<Rightarrow> prot \<Rightarrow> uchar" where
  "perm_step perm prot = perm_step_loop perm prot 0 (prot_default prot)"

definition perm_calc :: "perm list \<Rightarrow> nat \<Rightarrow> prot \<Rightarrow> uchar" where
  "perm_calc perms nperms prot =
     foldl (\<lambda>granted x. if \<not> PERM_ACTIVE (perms ! x) then granted
                        else granted OR perm_step (perms ! x) prot) 0 [0..<nperms]"

definition zero_ids :: "perm list \<Rightarrow> nat \<Rightarrow> perm list" where
  "zero_ids perms nperms =
     replicate nperms (PERM_NULL \<lparr>perm_len = 0, perm_id = replicate PERMLEN 0, perm_uid = 0\<rparr>)
     @ drop nperms perms"

text \<open>The two label comparisons of \<open>perm_dominates\<close>: all of the first \<open>n\<close> numbers match.\<close>

definition ids_match :: "nat \<Rightarrow> perm \<Rightarrow> perm \<Rightarrow> bool" where
  "ids_match n us p = list_all (\<lambda>x. perm_id us ! x = perm_id p ! x) [0..<n]"

definition perm_dominates :: "perm \<Rightarrow> perm \<Rightarrow> bool" where
  "perm_dominates us target =
     (let p = PERM_ENABLE target
      in if \<not> PERM_ACTIVE p then True
         else if PERM_ACTIVE us \<and> perm_len us \<le> perm_len p \<and> ids_match (PERM_LEN us) us p
         then True
         else if \<not> PERM_DISABLED us \<or> PERM_DISABLED target then False
         else if PERM_LEN us \<noteq> PERM_LEN p then False
         else ids_match (PERM_LEN us) us p)"

subsection \<open>perm\_ctl (misc.c)\<close>

datatype perm_error = EINVAL | EFAULT | EINTR | EPERM

record proc_ids =
  p_ids :: "perm list"
  p_prot :: prot

text \<open>
  The label half of \<open>perm_ctl\<close>: the first slot whose permission dominates the request, and the
  slots after the request was stored, with the UID that allowed it.
\<close>

definition perm_ctl_by :: "perm list \<Rightarrow> perm \<Rightarrow> nat option" where
  "perm_ctl_by ids perm = find (\<lambda>x. perm_dominates (ids ! x) perm) [0..<PROCPERMS]"

definition perm_ctl_store :: "perm list \<Rightarrow> nat \<Rightarrow> perm \<Rightarrow> nat \<Rightarrow> perm list" where
  "perm_ctl_store ids arg_idx perm x =
     (let ids1 = ids[arg_idx := perm]
      in if perm_uid (ids1 ! x) \<noteq> 0
         then ids1[arg_idx := (ids1 ! arg_idx)\<lparr>perm_uid := perm_uid (ids1 ! x)\<rparr>]
         else ids1)"

text \<open>The protection half: default ownership follows slot 0, root excepted.\<close>

definition perm_ctl_prot :: "prot \<Rightarrow> perm list \<Rightarrow> nat \<Rightarrow> prot" where
  "perm_ctl_prot pr ids plen =
     (let bits1 = (prot_bits pr)[plen := prot_bits pr ! unat (prot_len pr)];
          id1 = (prot_id pr)[plen - 1 := perm_id (ids ! 0) ! (plen - 1)]
      in \<lparr>prot_len = of_nat plen, prot_default = prot_default pr,
          prot_id = foldl (\<lambda>l i. l[i := perm_id (ids ! 0) ! i]) id1 [0..<plen - 1],
          prot_bits = foldl (\<lambda>l i. l[i := 0]) bits1 [0..<plen - 1]\<rparr>)"

definition perm_ctl_set :: "proc_ids \<Rightarrow> nat \<Rightarrow> perm \<Rightarrow> (perm_error + unit) \<times> proc_ids" where
  "perm_ctl_set p arg_idx perm =
     (let r = perm_ctl_by (p_ids p) perm;
          ids1 = (case r of None \<Rightarrow> p_ids p
                          | Some x \<Rightarrow> perm_ctl_store (p_ids p) arg_idx perm x);
          prot1 = (if arg_idx = 0 \<and> PERM_ACTIVE perm \<and> 0 < PERM_LEN perm
                   then perm_ctl_prot (p_prot p) ids1 (PERM_LEN perm) else p_prot p)
      in (if r = None then Inl EPERM else Inr (), \<lparr>p_ids = ids1, p_prot = prot1\<rparr>))"

text \<open>
  The whole call. \<open>arg_perm\<close> is \<open>None\<close> for a null pointer, \<open>Some None\<close> for one \<open>copyin\<close> refuses;
  \<open>intr\<close> says whether \<open>p_sema\<close> was interrupted; \<open>arg_ret\<close> is \<open>None\<close> for a null pointer and
  otherwise says whether \<open>copyout\<close> can write through it. The result carries the copied slot.
\<close>

definition perm_ctl ::
  "proc_ids \<Rightarrow> bool \<Rightarrow> int \<Rightarrow> perm option option \<Rightarrow> bool option
    \<Rightarrow> (perm_error + perm option) \<times> proc_ids" where
  "perm_ctl p intr arg_idx arg_perm arg_ret =
     (if arg_idx < 0 \<or> int PROCPERMS \<le> arg_idx then (Inl EINVAL, p)
      else (let (r, p1) =
              (case arg_perm of
                 None \<Rightarrow> (Inr (), p)
               | Some None \<Rightarrow> (Inl EFAULT, p)
               | Some (Some perm) \<Rightarrow>
                   if intr then (Inl EINTR, p) else perm_ctl_set p (nat arg_idx) perm)
            in (case r of
                  Inl e \<Rightarrow> (Inl e, p1)
                | Inr u \<Rightarrow>
                    (case arg_ret of
                       None \<Rightarrow> (Inr None, p1)
                     | Some writable \<Rightarrow>
                         if writable then (Inr (Some (p_ids p1 ! nat arg_idx)), p1)
                         else (Inl EFAULT, p1)))))"

subsection \<open>What the loops compute, bit by bit\<close>

lemma unat_AND_low: "unat ((w :: uchar) AND NOT 0x80) = unat w mod 128"
proof -
  have m: "(NOT 0x80 :: uchar) = mask 7"
    by (simp add: mask_eq_decr_exp)
  have "unat (w AND mask 7) = unat w mod 2 ^ 7"
    by (simp only: take_bit_eq_mask [symmetric] unsigned_take_bit_eq) (simp add: take_bit_eq_mod)
  then show ?thesis by (simp only: m) simp
qed

lemmas unat_AND_low' [simp] = unat_AND_low [simplified]

lemma PERM_LEN_eq: "PERM_LEN p = (unat (perm_len p) mod 128) mod 7"
  by (simp add: PERM_LEN_def unat_AND_low PERMLEN_def)

lemma PERM_ACTIVE_enabled: "PERM_ACTIVE (PERM_ENABLE p) \<longleftrightarrow> unat (perm_len p) mod 128 < 7"
  by (simp add: PERM_ACTIVE_def PERM_ENABLE_def unat_AND_low PERMLEN_def)

lemma PERM_LEN_active: "PERM_ACTIVE p \<Longrightarrow> PERM_LEN p = unat (perm_len p)"
  by (simp add: PERM_LEN_eq PERM_ACTIVE_def PERMLEN_def)

lemma PERM_ENABLE_simps [simp]:
  "PERM_LEN (PERM_ENABLE p) = PERM_LEN p"
  "perm_id (PERM_ENABLE p) = perm_id p"
  by (simp_all add: PERM_LEN_eq PERM_ENABLE_def unat_AND_low)

lemma PERM_ACTIVE_ENABLE: "PERM_ACTIVE p \<Longrightarrow> PERM_ACTIVE (PERM_ENABLE p)"
  by (subst PERM_ACTIVE_enabled) (simp add: PERM_ACTIVE_def PERMLEN_def)

lemma uid_irrelevant [simp]:
  "PERM_LEN (p\<lparr>perm_uid := u\<rparr>) = PERM_LEN p"
  "PERM_ACTIVE (PERM_ENABLE (p\<lparr>perm_uid := u\<rparr>)) = PERM_ACTIVE (PERM_ENABLE p)"
  "PERM_DISABLED (p\<lparr>perm_uid := u\<rparr>) = PERM_DISABLED p"
  by (simp_all add: PERM_LEN_def PERM_ACTIVE_def PERM_ENABLE_def PERM_DISABLED_def)

text \<open>Level \<open>i\<close> of a protection is unlocked by a label that agrees with it as far as both go.\<close>

definition unlocked :: "perm \<Rightarrow> prot \<Rightarrow> nat \<Rightarrow> bool" where
  "unlocked p pr i \<longleftrightarrow> (\<forall>j. j < Suc i \<longrightarrow> j < PERM_LEN p \<longrightarrow> prot_id pr ! j = perm_id p ! j)"

lemma bit_or_bits: "bit (or_bits bits ys g) b \<longleftrightarrow> bit g b \<or> (\<exists>y\<in>set ys. bit (bits ! y) b)"
  by (induction ys arbitrary: g) (auto simp: or_bits_def bit_or_iff)

lemma bit_perm_step_loop:
  assumes "\<forall>j<x. j < PERM_LEN p \<longrightarrow> prot_id pr ! j = perm_id p ! j"
  shows "bit (perm_step_loop p pr x g) b \<longleftrightarrow>
    bit g b \<or> (\<exists>i. x \<le> i \<and> i < unat (prot_len pr) \<and> unlocked p pr i \<and> bit (prot_bits pr ! i) b)"
  using assms
proof (induction p pr x g rule: perm_step_loop.induct)
  case (1 p pr x g)
  let ?n = "unat (prot_len pr)"
  consider (stop) "\<not> x < ?n" | (all) "x < ?n" "PERM_LEN p \<le> x"
    | (miss) "x < ?n" "x < PERM_LEN p" "prot_id pr ! x \<noteq> perm_id p ! x"
    | (hit) "x < ?n" "x < PERM_LEN p" "prot_id pr ! x = perm_id p ! x"
    by linarith
  then show ?case
  proof cases
    case stop
    then show ?thesis by (subst perm_step_loop.simps) auto
  next
    case all
    with 1(2) have "unlocked p pr i" for i by (auto simp: unlocked_def)
    with all show ?thesis by (auto simp: perm_step_loop.simps [of p pr x] bit_or_bits)
  next
    case miss
    then have "\<not> unlocked p pr i" if "x \<le> i" for i
      using that by (auto simp: unlocked_def intro!: exI [of _ x])
    with miss show ?thesis by (auto simp: perm_step_loop.simps [of p pr x])
  next
    case hit
    with 1(2) have pre: "\<forall>j<x + 1. j < PERM_LEN p \<longrightarrow> prot_id pr ! j = perm_id p ! j"
      by (auto simp: less_Suc_eq)
    then have "unlocked p pr x" by (auto simp: unlocked_def)
    moreover have "(\<exists>i. x \<le> i \<and> i < ?n \<and> P i) \<longleftrightarrow> P x \<or> (\<exists>i. x + 1 \<le> i \<and> i < ?n \<and> P i)" for P
      using hit(1) by (metis Suc_eq_plus1 Suc_leD Suc_leI le_neq_implies_less order_refl)
    moreover have "bit (perm_step_loop p pr x g) b \<longleftrightarrow>
        bit (perm_step_loop p pr (x + 1) (g OR prot_bits pr ! x)) b"
      using hit by (simp add: perm_step_loop.simps [of p pr x])
    ultimately show ?thesis
      using 1(1) [OF hit(1) _ _ pre] hit by (simp add: bit_or_iff)
  qed
qed

lemma bit_perm_step:
  "bit (perm_step p pr) b \<longleftrightarrow> bit (prot_default pr) b \<or>
    (\<exists>i < unat (prot_len pr). unlocked p pr i \<and> bit (prot_bits pr ! i) b)"
  by (auto simp: perm_step_def bit_perm_step_loop)

lemma bit_perm_calc:
  "bit (perm_calc ids n pr) b \<longleftrightarrow>
    (\<exists>x<n. PERM_ACTIVE (ids ! x) \<and> bit (perm_step (ids ! x) pr) b)"
proof -
  have "bit (foldl (\<lambda>g x. if \<not> PERM_ACTIVE (ids ! x) then g else g OR perm_step (ids ! x) pr) g xs) b
    \<longleftrightarrow> bit g b \<or> (\<exists>x\<in>set xs. PERM_ACTIVE (ids ! x) \<and> bit (perm_step (ids ! x) pr) b)" for g xs
    by (induction xs arbitrary: g) (auto simp: bit_or_iff)
  then show ?thesis by (auto simp: perm_calc_def)
qed

subsection \<open>Domination\<close>

lemma ids_match_iff: "ids_match n us p \<longleftrightarrow> (\<forall>x<n. perm_id us ! x = perm_id p ! x)"
  by (auto simp: ids_match_def list_all_iff)

text \<open>
  A slot is sound when disabling is all that can be wrong with it: a disabled label has a
  length below \<open>PERMLEN\<close>.
\<close>

definition perm_good :: "perm \<Rightarrow> bool" where
  "perm_good p \<longleftrightarrow> (PERM_DISABLED p \<longrightarrow> PERM_ACTIVE (PERM_ENABLE p))"

lemma unlocked_shorter:
  assumes "PERM_LEN us \<le> PERM_LEN t" "ids_match (PERM_LEN us) us t" "unlocked t pr i"
  shows "unlocked us pr i"
  using assms by (auto simp: unlocked_def ids_match_iff)

lemma dominates_unlocks:
  assumes dom: "perm_dominates us t" and act: "PERM_ACTIVE (PERM_ENABLE t)" and good: "perm_good us"
  shows "PERM_ACTIVE (PERM_ENABLE us) \<and> (unlocked t pr i \<longrightarrow> unlocked us pr i)"
proof (cases "PERM_ACTIVE us \<and> perm_len us \<le> perm_len (PERM_ENABLE t)
    \<and> ids_match (PERM_LEN us) us (PERM_ENABLE t)")
  case True
  then have "PERM_LEN us \<le> PERM_LEN t"
    using PERM_LEN_active [OF act] by (simp add: PERM_LEN_active word_le_unat)
  moreover have "ids_match (PERM_LEN us) us t"
    using True by (simp add: ids_match_iff)
  ultimately show ?thesis
    using True unlocked_shorter [of us t] by (simp add: PERM_ACTIVE_ENABLE)
next
  case False
  with dom act have d: "PERM_DISABLED us" "PERM_LEN us = PERM_LEN t" "ids_match (PERM_LEN us) us t"
    by (auto simp: perm_dominates_def Let_def ids_match_iff split: if_splits)
  then show ?thesis
    using good unlocked_shorter [of us t] by (simp add: perm_good_def)
qed

lemma dominates_grants:
  assumes "perm_dominates us t" "PERM_ACTIVE (PERM_ENABLE t)" "perm_good us"
    and "bit (perm_step t pr) b"
  shows "PERM_ACTIVE (PERM_ENABLE us) \<and> bit (perm_step us pr) b"
  using assms(4) dominates_unlocks [OF assms(1-3)] by (auto simp: bit_perm_step)

subsection \<open>What perm\_ctl lets a process reach\<close>

text \<open>
  The access a set of slots can be worked up to: what some slot grants, were it enabled (a
  process may enable its own disabled slots).
\<close>

definition reachable_access :: "perm list \<Rightarrow> prot \<Rightarrow> nat \<Rightarrow> bool" where
  "reachable_access ids pr b \<longleftrightarrow>
     (\<exists>p\<in>set ids. PERM_ACTIVE (PERM_ENABLE p) \<and> bit (perm_step p pr) b)"

definition slots_ok :: "perm list \<Rightarrow> bool" where
  "slots_ok ids \<longleftrightarrow> length ids = PROCPERMS \<and> (\<forall>p\<in>set ids. perm_good p)"

lemma perm_ctl_by_Some:
  "perm_ctl_by ids q = Some x \<Longrightarrow> x < PROCPERMS \<and> perm_dominates (ids ! x) q"
  by (auto simp: perm_ctl_by_def dest: find_upt_Some)

lemma perm_ctl_store_shape:
  "length (perm_ctl_store ids i q x) = length ids \<and>
   (\<exists>u. set (perm_ctl_store ids i q x) \<subseteq> insert (q\<lparr>perm_uid := u\<rparr>) (set ids))"
proof -
  have q: "q\<lparr>perm_uid := perm_uid q\<rparr> = q" by simp
  have A: "set (ids[i := q]) \<subseteq> insert (q\<lparr>perm_uid := perm_uid q\<rparr>) (set ids)"
    by (simp add: set_update_subset_insert)
  have B: "set (ids[i := (ids[i := q] ! i)\<lparr>perm_uid := u\<rparr>]) \<subseteq> insert (q\<lparr>perm_uid := u\<rparr>) (set ids)" for u
    by (cases "i < length ids") (simp_all add: set_update_subset_insert subset_insertI list_update_beyond)
  have "\<exists>u. set (perm_ctl_store ids i q x) \<subseteq> insert (q\<lparr>perm_uid := u\<rparr>) (set ids)"
  proof (cases "perm_uid (ids[i := q] ! x) = 0")
    case True
    then have "perm_ctl_store ids i q x = ids[i := q]" by (simp add: perm_ctl_store_def)
    then show ?thesis by (metis A)
  next
    case False
    then have "perm_ctl_store ids i q x =
        ids[i := (ids[i := q] ! i)\<lparr>perm_uid := perm_uid (ids[i := q] ! x)\<rparr>]"
      by (simp add: perm_ctl_store_def Let_def)
    then show ?thesis by (metis B)
  qed
  then show ?thesis
    by (simp add: perm_ctl_store_def Let_def)
qed

lemma perm_ctl_store_at:
  assumes "i < length ids"
  shows "\<exists>u. perm_ctl_store ids i q x ! i = q\<lparr>perm_uid := u\<rparr>"
proof (cases "perm_uid (ids[i := q] ! x) = 0")
  case True
  with assms show ?thesis
    by (intro exI [of _ "perm_uid q"]) (simp add: perm_ctl_store_def)
next
  case False
  with assms show ?thesis
    by (intro exI [of _ "perm_uid (ids[i := q] ! x)"]) (simp add: perm_ctl_store_def Let_def)
qed

lemma perm_step_uid: "perm_step (q\<lparr>perm_uid := u\<rparr>) pr = perm_step q pr"
proof -
  have "unlocked (q\<lparr>perm_uid := u\<rparr>) pr i = unlocked q pr i" for i by (simp add: unlocked_def)
  then show ?thesis by (intro bit_word_eqI) (simp add: bit_perm_step)
qed

lemma perm_ctl_store_mono:
  assumes ok: "slots_ok ids" and q: "perm_good q" and x: "perm_ctl_by ids q = Some x"
  shows "slots_ok (perm_ctl_store ids i q x) \<and>
    (reachable_access (perm_ctl_store ids i q x) pr b \<longrightarrow> reachable_access ids pr b)"
proof -
  obtain u where u: "set (perm_ctl_store ids i q x) \<subseteq> insert (q\<lparr>perm_uid := u\<rparr>) (set ids)"
    and len: "length (perm_ctl_store ids i q x) = length ids"
    using perm_ctl_store_shape by blast
  have xin: "ids ! x \<in> set ids" "perm_dominates (ids ! x) q"
    using perm_ctl_by_Some [OF x] ok by (auto simp: slots_ok_def)
  have "perm_good (q\<lparr>perm_uid := u\<rparr>)"
    using q by (simp add: perm_good_def)
  with u len ok have "slots_ok (perm_ctl_store ids i q x)"
    by (auto simp: slots_ok_def)
  moreover have "reachable_access ids pr b" if "PERM_ACTIVE (PERM_ENABLE q)" "bit (perm_step q pr) b"
    using dominates_grants [OF xin(2) that(1) _ that(2)] xin(1) ok
    by (auto simp: reachable_access_def slots_ok_def)
  then have "reachable_access ids pr b" if "reachable_access (perm_ctl_store ids i q x) pr b"
    using that u by (auto simp: reachable_access_def perm_step_uid)
  ultimately show ?thesis by blast
qed

lemma perm_ctl_set_cases:
  assumes "perm_ctl_set p i q = (r, p')"
  obtains "p_ids p' = p_ids p"
    | x where "perm_ctl_by (p_ids p) q = Some x" "p_ids p' = perm_ctl_store (p_ids p) i q x"
  using assms by (cases "perm_ctl_by (p_ids p) q") (auto simp: perm_ctl_set_def Let_def)

lemma perm_ctl_state:
  assumes "perm_ctl p intr i arg ret = (r, p')"
  shows "p' = p \<or> (\<exists>q r. arg = Some (Some q) \<and> perm_ctl_set p (nat i) q = (r, p'))"
proof (cases arg)
  case None
  then show ?thesis
    using assms by (auto simp: perm_ctl_def split: if_splits option.splits)
next
  case (Some a)
  then show ?thesis
    using assms
    by (cases a; cases "perm_ctl_set p (nat i) (the a)")
      (auto simp: perm_ctl_def split: if_splits option.splits sum.splits)
qed

lemma perm_ctl_cases:
  assumes "perm_ctl p intr i arg ret = (r, p')"
  obtains "p_ids p' = p_ids p"
    | q x where "arg = Some (Some q)" "perm_ctl_by (p_ids p) q = Some x"
        "p_ids p' = perm_ctl_store (p_ids p) (nat i) q x"
  using perm_ctl_state [OF assms] by (metis perm_ctl_set_cases)

inductive ctl_run :: "proc_ids \<Rightarrow> proc_ids \<Rightarrow> bool" where
  ctl_start: "ctl_run p p"
| ctl_call: "ctl_run p q \<Longrightarrow> \<forall>t. arg = Some (Some t) \<longrightarrow> perm_good t
    \<Longrightarrow> perm_ctl q intr i arg ret = (r, q') \<Longrightarrow> ctl_run p q'"

lemma ctl_run_mono:
  "ctl_run p q \<Longrightarrow> slots_ok (p_ids p) \<Longrightarrow> slots_ok (p_ids q) \<and>
    (reachable_access (p_ids q) pr b \<longrightarrow> reachable_access (p_ids p) pr b)"
proof (induction rule: ctl_run.induct)
  case (ctl_call p q arg intr i ret r q')
  from ctl_call(3) show ?case
  proof (cases rule: perm_ctl_cases)
    case 1
    with ctl_call show ?thesis by simp
  next
    case (2 t x)
    with ctl_call perm_ctl_store_mono [of "p_ids q" t x "nat i" pr b] show ?thesis by auto
  qed
qed simp

lemma perm_calc_reachable:
  "length ids = n \<Longrightarrow> bit (perm_calc ids n pr) b \<Longrightarrow> reachable_access ids pr b"
  by (auto simp: bit_perm_calc reachable_access_def intro!: PERM_ACTIVE_ENABLE)

text \<open>The two slots the forged-root theorem goes through.\<close>

definition forged_slot :: perm where
  "forged_slot = \<lparr>perm_len = 0x87, perm_id = replicate PERMLEN 0, perm_uid = 0\<rparr>"

definition root_slot :: perm where
  "root_slot = \<lparr>perm_len = 0, perm_id = replicate PERMLEN 0, perm_uid = 0\<rparr>"

lemma forged_slot_accepted: "perm_ctl_by ids forged_slot = Some 0"
  by (simp add: perm_ctl_by_def PROCPERMS_def upt_rec [of 0 6] perm_dominates_def Let_def
      PERM_ACTIVE_enabled forged_slot_def)

lemma forged_slot_dominates_root:
  "perm_dominates (forged_slot\<lparr>perm_uid := u\<rparr>) root_slot"
  by (simp add: perm_dominates_def Let_def PERM_ACTIVE_def PERM_ENABLE_def PERM_DISABLED_def
      PERM_LEN_eq ids_match_def forged_slot_def root_slot_def PERMLEN_def)

lemma perm_step_root: "PERM_LEN p = 0 \<Longrightarrow> bit (perm_step p pr) b \<longleftrightarrow>
    bit (prot_default pr) b \<or> (\<exists>i < unat (prot_len pr). bit (prot_bits pr ! i) b)"
  by (auto simp: bit_perm_step unlocked_def)

subsection \<open>Properties\<close>

text \<open>
  C37: An access bit is in what \<open>perm_calc\<close> grants exactly when one of the active permissions
  earns it: the bit is granted to all by default, or some level of the protection carries it
  whose label numbers the permission matches as far as both go.
\<close>

theorem perm_calc_spec:
  "bit (perm_calc ids n pr) b \<longleftrightarrow>
    (\<exists>x<n. PERM_ACTIVE (ids ! x) \<and>
      (bit (prot_default pr) b \<or>
       (\<exists>i < unat (prot_len pr). bit (prot_bits pr ! i) b \<and>
         take (PERM_LEN (ids ! x)) (map (\<lambda>j. prot_id pr ! j) [0..<Suc i])
         = take (Suc i) (map (\<lambda>j. perm_id (ids ! x) ! j) [0..<PERM_LEN (ids ! x)]))))"
proof -
  have "unlocked p pr i \<longleftrightarrow>
    take (PERM_LEN p) (map (\<lambda>j. prot_id pr ! j) [0..<Suc i])
    = take (Suc i) (map (\<lambda>j. perm_id p ! j) [0..<PERM_LEN p])" for p i
    by (auto simp: unlocked_def list_eq_iff_nth_eq simp del: upt_Suc)
  then show ?thesis
    by (auto simp: bit_perm_calc bit_perm_step simp del: upt_Suc)
qed

text \<open>
  Domination is sound: a sound permission slot that dominates a request grants, once
  enabled, every access bit the request would grant, on every protection.
\<close>

theorem perm_dominates_sound:
  assumes "perm_dominates us t" "PERM_ACTIVE (PERM_ENABLE t)" "perm_good us"
  shows "perm_calc [PERM_ENABLE t] 1 pr OR perm_calc [PERM_ENABLE us] 1 pr
    = perm_calc [PERM_ENABLE us] 1 pr"
proof -
  have "bit (perm_step t pr) b \<Longrightarrow> bit (perm_step us pr) b" for b
    using dominates_grants [OF assms] by blast
  moreover have "PERM_ACTIVE (PERM_ENABLE us)"
    using dominates_unlocks [OF assms] by blast
  moreover have "bit (perm_step (PERM_ENABLE p) pr) b = bit (perm_step p pr) b" for p b
    by (simp add: bit_perm_step unlocked_def)
  ultimately show ?thesis
    by (intro bit_word_eqI) (auto simp: bit_or_iff bit_perm_calc)
qed

definition open_prot :: prot where
  "open_prot = \<lparr>prot_len = 2, prot_default = 1, prot_id = [3,4,0,0,0,0,0],
     prot_bits = [4,2,0,0,0,0,0]\<rparr>"

theorem perm_dominates_sound_witness:
  "let us = \<lparr>perm_len = 1, perm_id = [3,0,0,0,0,0,0], perm_uid = 7\<rparr>;
       t = \<lparr>perm_len = 2, perm_id = [3,4,0,0,0,0,0], perm_uid = 0\<rparr>
   in perm_calc [PERM_ENABLE t] 1 open_prot OR perm_calc [PERM_ENABLE us] 1 open_prot
      = perm_calc [PERM_ENABLE us] 1 open_prot"
  unfolding Let_def
  by (rule perm_dominates_sound)
    (simp_all add: perm_dominates_def PERM_ACTIVE_def PERM_ENABLE_def PERMLEN_def perm_good_def
      PERM_DISABLED_def PERM_LEN_eq ids_match_def)


text \<open>
  C38: The guard fails on malformed requests: from any six slots, two calls that both succeed
  (store a disabled label of length 7, then ask for the empty label) leave the process with
  root permission, which grants every bit of every protection.
\<close>

theorem perm_ctl_forges_root:
  assumes "length (p_ids p) = PROCPERMS"
  shows "\<exists>p1 p2. perm_ctl p False 5 (Some (Some forged_slot)) None = (Inr None, p1)
    \<and> perm_ctl p1 False 5 (Some (Some root_slot)) None = (Inr None, p2)
    \<and> (\<forall>pr b. (\<exists>i < unat (prot_len pr). bit (prot_bits pr ! i) b)
        \<longrightarrow> bit (perm_calc (p_ids p2) PROCPERMS pr) b)"
proof -
  define p1 where p1: "p1 = snd (perm_ctl_set p 5 forged_slot)"
  define p2 where p2: "p2 = snd (perm_ctl_set p1 5 root_slot)"
  have c1: "perm_ctl p False 5 (Some (Some forged_slot)) None = (Inr None, p1)"
    by (simp add: p1 perm_ctl_def PROCPERMS_def perm_ctl_set_def Let_def forged_slot_accepted)
  obtain u where u: "p_ids p1 ! 5 = forged_slot\<lparr>perm_uid := u\<rparr>" and len: "length (p_ids p1) = 6"
    using assms perm_ctl_store_at [of 5 "p_ids p" forged_slot 0] perm_ctl_store_shape
    by (auto simp: p1 perm_ctl_set_def Let_def forged_slot_accepted PROCPERMS_def)
  obtain x where x: "perm_ctl_by (p_ids p1) root_slot = Some x"
  proof -
    have "perm_ctl_by (p_ids p1) root_slot \<noteq> None"
      unfolding perm_ctl_by_def find_upt_None
      using forged_slot_dominates_root [of u] u by (auto simp: PROCPERMS_def intro!: exI [of _ 5])
    then show ?thesis using that by blast
  qed
  have c2: "perm_ctl p1 False 5 (Some (Some root_slot)) None = (Inr None, p2)"
    by (simp add: p2 perm_ctl_def PROCPERMS_def perm_ctl_set_def Let_def x)
  obtain v where v: "p_ids p2 ! 5 = root_slot\<lparr>perm_uid := v\<rparr>"
    using len perm_ctl_store_at [of 5 "p_ids p1" root_slot x]
    by (auto simp: p2 perm_ctl_set_def Let_def x)
  have root: "PERM_ACTIVE (p_ids p2 ! 5)" "PERM_LEN (p_ids p2 ! 5) = 0"
    unfolding v by (simp_all add: root_slot_def PERM_ACTIVE_def PERM_LEN_eq PERMLEN_def)
  have "bit (perm_calc (p_ids p2) PROCPERMS pr) b"
    if "\<exists>i < unat (prot_len pr). bit (prot_bits pr ! i) b" for pr b
  proof -
    have "bit (perm_step (p_ids p2 ! 5) pr) b"
      using root(2) that by (simp add: perm_step_root)
    with root(1) show ?thesis
      by (auto simp: bit_perm_calc PROCPERMS_def intro!: exI [of _ 5])
  qed
  with c1 c2 show ?thesis by blast
qed

definition example_ids :: proc_ids where
  "example_ids = \<lparr>p_ids = (zero_ids (replicate 6 root_slot) 6)[0 := root_slot\<lparr>perm_len := 1\<rparr>],
     p_prot = open_prot\<rparr>"


theorem perm_ctl_forges_root_witness:
  "\<exists>p1 p2. perm_ctl example_ids False 5 (Some (Some forged_slot)) None = (Inr None, p1)
    \<and> perm_ctl p1 False 5 (Some (Some root_slot)) None = (Inr None, p2)"
  using perm_ctl_forges_root [of example_ids]
  by (auto simp: example_ids_def zero_ids_def PROCPERMS_def)

end
