(* ===== verification/Hash.thy ===== *)
theory Hash
  imports Prelude
begin

text \<open>
  The hashed lookup object of \<open>src/src/lib/hash.c\<close> and \<open>src/src/include/hash.h\<close>, which the file
  servers keep their clients and blocks in. A collision chain is the list of its nodes, newest
  first; a handle is \<open>None\<close> for a null pointer. The abstraction \<open>hash_vals\<close> gives the values
  stored under a key, newest first: insertion adds one in front, deletion drops the newest, so
  the object is a map from keys to stacks. \<open>keyed_store\<close> states that contract as a locale, with
  what its clients derive from it.
\<close>

record 'v hash_node =
  h_key :: ulong
  h_data :: 'v

record 'v hash =
  h_hashsize :: nat
  h_hashmask :: ulong
  h_hash :: "'v hash_node list list"

definition hashidx :: "ulong \<Rightarrow> ulong \<Rightarrow> nat" where
  "hashidx key msk = unat ((key XOR drop_bit 2 key XOR drop_bit 6 key) AND msk)"

text \<open>
  The loop of \<open>hash_alloc\<close> on 32-bit signed integers. It need not end, so it is a partial
  function: \<open>None\<close> is an endless loop.
\<close>

partial_function (option) hash_round :: "32 word \<Rightarrow> 32 word \<Rightarrow> 32 word option" where
  "hash_round hashsize hashlim =
     (if sint hashlim < sint hashsize then hash_round hashsize (push_bit 1 hashlim)
      else Some hashlim)"

definition hash_alloc :: "bool \<Rightarrow> 32 word \<Rightarrow> 'v hash option option" where
  "hash_alloc mem hashsize =
     (case hash_round hashsize 8 of
        None \<Rightarrow> None
      | Some hashlim \<Rightarrow>
          Some (if mem then Some \<lparr>h_hashsize = unat hashlim, h_hashmask = hashlim - 1,
                                  h_hash = replicate (unat hashlim) []\<rparr>
                else None))"

text \<open>The operations return the C result (1 on failure) and the handle's new contents.\<close>

definition hash_insert :: "bool \<Rightarrow> 'v hash option \<Rightarrow> ulong \<Rightarrow> 'v \<Rightarrow> nat \<times> 'v hash option" where
  "hash_insert mem h key val =
     (case h of
        None \<Rightarrow> (1, h)
      | Some t \<Rightarrow>
          (let idx = hashidx key (h_hashmask t)
           in if \<not> mem then (1, h)
              else (0, Some (t\<lparr>h_hash := (h_hash t)[idx :=
                      \<lparr>h_key = key, h_data = val\<rparr> # h_hash t ! idx]\<rparr>))))"

fun chain_delete :: "'v hash_node list \<Rightarrow> ulong \<Rightarrow> 'v hash_node list option" where
  "chain_delete [] key = None"
| "chain_delete (hn # hns) key =
     (if h_key hn = key then Some hns
      else map_option (Cons hn) (chain_delete hns key))"

definition hash_delete :: "'v hash option \<Rightarrow> ulong \<Rightarrow> nat \<times> 'v hash option" where
  "hash_delete h key =
     (case h of
        None \<Rightarrow> (1, h)
      | Some t \<Rightarrow>
          (let idx = hashidx key (h_hashmask t)
           in case chain_delete (h_hash t ! idx) key of
                None \<Rightarrow> (1, h)
              | Some hns \<Rightarrow> (0, Some (t\<lparr>h_hash := (h_hash t)[idx := hns]\<rparr>))))"

fun chain_lookup :: "'v hash_node list \<Rightarrow> ulong \<Rightarrow> 'v option" where
  "chain_lookup [] key = None"
| "chain_lookup (hn # hns) key = (if h_key hn = key then Some (h_data hn) else chain_lookup hns key)"

definition hash_lookup :: "'v hash option \<Rightarrow> ulong \<Rightarrow> 'v option" where
  "hash_lookup h key =
     (case h of
        None \<Rightarrow> None
      | Some t \<Rightarrow> chain_lookup (h_hash t ! hashidx key (h_hashmask t)) key)"

definition hash_size :: "'v hash \<Rightarrow> uint" where
  "hash_size t =
     foldl (\<lambda>cnt x. foldl (\<lambda>cnt hn. cnt + 1) cnt (h_hash t ! x)) 0 [0..<h_hashsize t]"

text \<open>\<open>hash_foreach\<close> with the callback's state passed along: it stops where the callback says so.\<close>

fun chain_foreach :: "(ulong \<Rightarrow> 'v \<Rightarrow> 's \<Rightarrow> bool \<times> 's) \<Rightarrow> 'v hash_node list \<Rightarrow> 's \<Rightarrow> bool \<times> 's" where
  "chain_foreach f [] s = (False, s)"
| "chain_foreach f (hn # hns) s =
     (case f (h_key hn) (h_data hn) s of
        (True, s1) \<Rightarrow> (True, s1)
      | (False, s1) \<Rightarrow> chain_foreach f hns s1)"

fun table_foreach :: "(ulong \<Rightarrow> 'v \<Rightarrow> 's \<Rightarrow> bool \<times> 's) \<Rightarrow> 'v hash_node list list \<Rightarrow> 's \<Rightarrow> 's" where
  "table_foreach f [] s = s"
| "table_foreach f (c # cs) s =
     (case chain_foreach f c s of
        (True, s1) \<Rightarrow> s1
      | (False, s1) \<Rightarrow> table_foreach f cs s1)"

definition hash_foreach :: "(ulong \<Rightarrow> 'v \<Rightarrow> 's \<Rightarrow> bool \<times> 's) \<Rightarrow> 'v hash \<Rightarrow> 's \<Rightarrow> 's" where
  "hash_foreach f t s = table_foreach f (map (\<lambda>x. h_hash t ! x) [0..<h_hashsize t]) s"

text \<open>\<open>hash_dealloc\<close>: the nodes it frees, in order.\<close>

definition hash_dealloc :: "'v hash \<Rightarrow> 'v hash_node list" where
  "hash_dealloc t = concat (map (\<lambda>x. h_hash t ! x) [0..<h_hashsize t])"

subsection \<open>The invariant and the abstraction\<close>

definition chain_vals :: "'v hash_node list \<Rightarrow> ulong \<Rightarrow> 'v list" where
  "chain_vals hns key = map h_data (filter (\<lambda>hn. h_key hn = key) hns)"

text \<open>A table is well-formed: a power of two of chains, each holding only keys that hash to it.\<close>

definition hash_ok :: "'v hash \<Rightarrow> bool" where
  "hash_ok t \<longleftrightarrow> length (h_hash t) = h_hashsize t \<and>
     (\<exists>k<32. h_hashsize t = 2 ^ k \<and> h_hashmask t = mask k) \<and>
     (\<forall>i<h_hashsize t. \<forall>hn\<in>set (h_hash t ! i). hashidx (h_key hn) (h_hashmask t) = i)"

definition hash_vals :: "'v hash \<Rightarrow> ulong \<Rightarrow> 'v list" where
  "hash_vals t key = chain_vals (h_hash t ! hashidx key (h_hashmask t)) key"

lemma hash_ok_idx:
  assumes "hash_ok t"
  shows "hashidx key (h_hashmask t) < length (h_hash t)"
proof -
  obtain k where k: "k < 32" "length (h_hash t) = 2 ^ k" "h_hashmask t = mask k"
    using assms by (auto simp: hash_ok_def)
  have "unat (w AND mask k) < 2 ^ k" for w :: ulong
    by (simp add: take_bit_eq_mask [symmetric] unsigned_take_bit_eq)
  with k show ?thesis by (simp add: hashidx_def)
qed

lemma chain_lookup_vals:
  "chain_lookup hns key = (case chain_vals hns key of [] \<Rightarrow> None | v # vs \<Rightarrow> Some v)"
  by (induction hns) (auto simp: chain_vals_def)

lemma chain_delete_vals:
  "case chain_delete hns key of
     None \<Rightarrow> chain_vals hns key = []
   | Some hns' \<Rightarrow> chain_vals hns key \<noteq> [] \<and> set hns' \<subseteq> set hns \<and> Suc (length hns') = length hns \<and>
       (\<forall>k. chain_vals hns' k = (if k = key then tl (chain_vals hns k) else chain_vals hns k))"
  by (induction hns) (auto simp: chain_vals_def split: option.splits)

lemma chain_delete_None: "chain_delete hns key = None \<longleftrightarrow> chain_vals hns key = []"
  using chain_delete_vals [of hns key] by (auto split: option.splits)

lemma chain_delete_Some:
  assumes "chain_delete hns key = Some hns'"
  shows "chain_vals hns key \<noteq> []" "set hns' \<subseteq> set hns" "Suc (length hns') = length hns"
    "chain_vals hns' k = (if k = key then tl (chain_vals hns k) else chain_vals hns k)"
  using chain_delete_vals [of hns key] assms by auto

text \<open>Replacing one chain by one whose keys hash there.\<close>

lemma hash_update_chain:
  assumes ok: "hash_ok t"
    and keys: "\<forall>hn\<in>set c. hashidx (h_key hn) (h_hashmask t) = hashidx key (h_hashmask t)"
    and t': "t' = t\<lparr>h_hash := (h_hash t)[hashidx key (h_hashmask t) := c]\<rparr>"
  shows "hash_ok t'"
    and "hash_vals t' k = (if hashidx k (h_hashmask t) = hashidx key (h_hashmask t)
           then chain_vals c k else hash_vals t k)"
proof -
  have i: "hashidx key (h_hashmask t) < length (h_hash t)" by (rule hash_ok_idx [OF ok])
  show "hash_ok t'"
    using ok keys i by (auto simp: t' hash_ok_def nth_list_update)
  show "hash_vals t' k = (if hashidx k (h_hashmask t) = hashidx key (h_hashmask t)
      then chain_vals c k else hash_vals t k)"
    using i by (auto simp: t' hash_vals_def nth_list_update)
qed

lemma hash_chain_keys:
  "hash_ok t \<Longrightarrow> hn \<in> set (h_hash t ! hashidx key (h_hashmask t)) \<Longrightarrow>
    hashidx (h_key hn) (h_hashmask t) = hashidx key (h_hashmask t)"
  using hash_ok_idx [of t key] by (auto simp: hash_ok_def)

lemma hash_insert_vals:
  assumes ok: "hash_ok t" and ins: "hash_insert True (Some t) key v = (r, h')"
  obtains t' where "r = 0" "h' = Some t'" "hash_ok t'"
    "\<And>k. hash_vals t' k = (if k = key then v # hash_vals t k else hash_vals t k)"
proof -
  let ?i = "hashidx key (h_hashmask t)"
  let ?c = "\<lparr>h_key = key, h_data = v\<rparr> # h_hash t ! ?i"
  let ?t = "t\<lparr>h_hash := (h_hash t)[?i := ?c]\<rparr>"
  have keys: "\<forall>hn\<in>set ?c. hashidx (h_key hn) (h_hashmask t) = ?i"
    using hash_chain_keys [OF ok] by auto
  note upd = hash_update_chain [OF ok keys refl]
  have "hash_vals ?t k = (if k = key then v # hash_vals t k else hash_vals t k)" for k
    using upd(2) [of k] by (auto simp: chain_vals_def hash_vals_def)
  with ins that [of ?t] upd(1) show ?thesis by (simp add: hash_insert_def Let_def)
qed

lemma hash_delete_vals:
  assumes ok: "hash_ok t" and del: "hash_delete (Some t) key = (r, h')"
  obtains (absent) "r = 1" "h' = Some t" "hash_vals t key = []"
    | (found) t' where "r = 0" "h' = Some t'" "hash_ok t'" "hash_vals t key \<noteq> []"
      "\<And>k. hash_vals t' k = (if k = key then tl (hash_vals t k) else hash_vals t k)"
proof (cases "chain_delete (h_hash t ! hashidx key (h_hashmask t)) key")
  case None
  with del have "r = 1" "h' = Some t" by (auto simp: hash_delete_def Let_def)
  with None absent show ?thesis by (simp add: hash_vals_def chain_delete_None)
next
  case (Some c)
  let ?t = "t\<lparr>h_hash := (h_hash t)[hashidx key (h_hashmask t) := c]\<rparr>"
  have keys: "\<forall>hn\<in>set c. hashidx (h_key hn) (h_hashmask t) = hashidx key (h_hashmask t)"
    using hash_chain_keys [OF ok] chain_delete_Some(2) [OF Some] by blast
  note upd = hash_update_chain [OF ok keys refl]
  have "hash_vals ?t k = (if k = key then tl (hash_vals t k) else hash_vals t k)" for k
    using upd(2) [of k] chain_delete_Some(4) [OF Some] by (auto simp: hash_vals_def)
  moreover have "r = 0" "h' = Some ?t"
    using del Some by (auto simp: hash_delete_def Let_def)
  moreover have "hash_vals t key \<noteq> []"
    using chain_delete_Some(1) [OF Some] by (simp add: hash_vals_def)
  ultimately show ?thesis using found upd(1) by blast
qed

lemma hash_lookup_vals:
  "hash_lookup (Some t) key = (case hash_vals t key of [] \<Rightarrow> None | v # vs \<Rightarrow> Some v)"
  by (simp add: hash_lookup_def hash_vals_def chain_lookup_vals)

subsection \<open>Sizing the table\<close>

lemma push_bit_1_power: "push_bit 1 (2 ^ i :: 32 word) = 2 ^ Suc i"
  by (simp add: push_bit_eq_mult)

lemma sint_power:
  assumes "i \<le> 30"
  shows "sint (2 ^ i :: 32 word) = 2 ^ i"
proof -
  have "(2 :: int) ^ i \<le> 2 ^ 30" using assms by (rule power_increasing) simp
  then have "sint (word_of_int (2 ^ i) :: 32 word) = 2 ^ i"
    by (simp only: int_word_sint) simp
  then show ?thesis by simp
qed

lemma sint_power_le: "sint (2 ^ i :: 32 word) \<le> 2 ^ 30"
proof -
  consider "i \<le> 30" | "i = 31" | "i \<ge> 32" by linarith
  then show ?thesis
  proof cases
    case 1
    then show ?thesis by (simp only: sint_power) (rule power_increasing, simp_all)
  next
    case 3
    then have z: "(2 ^ i :: 32 word) = 0" by (simp add: exp_eq_zero_iff)
    show ?thesis by (subst z) simp
  qed simp
qed

lemma hash_round_some:
  assumes "sint n \<le> 2 ^ 30" "i \<le> 30"
  shows "\<exists>k. i \<le> k \<and> k \<le> 30 \<and> hash_round n (2 ^ i) = Some (2 ^ k) \<and> sint n \<le> 2 ^ k
    \<and> (k = i \<or> 2 ^ (k - 1) < sint n)"
  using assms(2)
proof (induction "30 - i" arbitrary: i)
  case 0
  then have "i = 30" by simp
  with assms(1) show ?case
    by (subst hash_round.simps) (auto simp: sint_power)
next
  case (Suc d)
  show ?case
  proof (cases "sint n \<le> 2 ^ i")
    case True
    with Suc show ?thesis by (subst hash_round.simps) (auto simp: sint_power)
  next
    case False
    have d: "d = 30 - Suc i" "Suc i \<le> 30" using Suc(2) by auto
    obtain k where k: "Suc i \<le> k" "k \<le> 30" "hash_round n (2 ^ Suc i) = Some (2 ^ k)"
      "sint n \<le> 2 ^ k" "k = Suc i \<or> 2 ^ (k - 1) < sint n"
      using Suc(1) [OF d] by (auto simp del: power_Suc)
    have "hash_round n (2 ^ i) = hash_round n (2 ^ Suc i)"
      using False Suc
      by (subst hash_round.simps) (simp add: sint_power push_bit_eq_mult mult.commute)
    with k False show ?thesis
      by (intro exI [of _ k]) auto
  qed
qed

lemma hash_round_diverges:
  assumes "2 ^ 30 < sint n"
  shows "hash_round n (2 ^ i) = None"
proof -
  have "\<forall>i. 2 ^ 30 < sint n \<longrightarrow> l \<noteq> 2 ^ i" if ret: "hash_round n l = Some r" for n l r
  proof (rule hash_round.raw_induct [where P = "\<lambda>n l r. \<forall>i. 2 ^ 30 < sint n \<longrightarrow> l \<noteq> 2 ^ i", OF _ ret],
      intro allI impI notI)
    fix f and n l r :: "32 word" and i
    assume IH: "\<And>n l r. f n l = Some r \<Longrightarrow> \<forall>i. 2 ^ 30 < sint n \<longrightarrow> l \<noteq> 2 ^ i"
      and body: "(if sint l < sint n then f n (push_bit 1 l) else Some l) = Some r"
      and n: "2 ^ 30 < sint n" and l: "l = 2 ^ i"
    have "sint l < sint n" unfolding l by (rule order_le_less_trans [OF sint_power_le n])
    with body have "f n (push_bit 1 l) = Some r" by (simp split: if_splits)
    from IH [OF this] n have "push_bit 1 l \<noteq> 2 ^ Suc i" by blast
    with l show False by (simp only: push_bit_1_power)
  qed
  with assms show ?thesis by (cases "hash_round n (2 ^ i)") blast+
qed

subsection \<open>Counting and enumerating\<close>

lemma map_nth_table: "hash_ok t \<Longrightarrow> map (\<lambda>x. h_hash t ! x) [0..<h_hashsize t] = h_hash t"
  by (metis hash_ok_def map_nth)

lemma hash_size_eq: "hash_ok t \<Longrightarrow> hash_size t = of_nat (length (concat (h_hash t)))"
proof -
  assume ok: "hash_ok t"
  have inner: "foldl (\<lambda>cnt hn. cnt + 1) c hns = (c + of_nat (length hns) :: uint)" for c and hns :: "'a hash_node list"
    by (induction hns arbitrary: c) auto
  have "foldl (\<lambda>cnt x. cnt + of_nat (length (h_hash t ! x))) c xs
      = (c + of_nat (length (concat (map (\<lambda>x. h_hash t ! x) xs))) :: uint)" for c xs
    by (induction xs arbitrary: c) (auto simp: add.assoc)
  then show ?thesis
    by (simp add: hash_size_def inner map_nth_table [OF ok])
qed

lemma chain_foreach_all:
  "chain_foreach (\<lambda>k v xs. (False, xs @ [(k, v)])) hns s
     = (False, s @ map (\<lambda>hn. (h_key hn, h_data hn)) hns)"
  by (induction hns arbitrary: s) auto

lemma table_foreach_all:
  "table_foreach (\<lambda>k v xs. (False, xs @ [(k, v)])) cs s
     = s @ map (\<lambda>hn. (h_key hn, h_data hn)) (concat cs)"
  by (induction cs arbitrary: s) (auto simp: chain_foreach_all)

text \<open>The nodes with a given key are those of its own chain.\<close>

lemma filter_concat_chains:
  assumes "\<forall>i<length cs. \<forall>hn\<in>set (cs ! i). f (h_key hn) = i" "f key < length cs"
  shows "filter (\<lambda>hn. h_key hn = key) (concat cs) = filter (\<lambda>hn. h_key hn = key) (cs ! f key)"
proof -
  have split: "cs = take (f key) cs @ cs ! f key # drop (Suc (f key)) cs"
    using assms(2) by (rule id_take_nth_drop)
  have none: "filter (\<lambda>hn. h_key hn = key) (concat cs') = []"
    if "\<forall>c\<in>set cs'. \<exists>i<length cs. i \<noteq> f key \<and> c = cs ! i" for cs'
    using assms(1) that by (induction cs') (auto simp: filter_empty_conv)
  have "filter (\<lambda>hn. h_key hn = key) (concat (take (f key) cs)) = []"
  proof (rule none, rule ballI)
    fix c assume "c \<in> set (take (f key) cs)"
    then obtain j where "j < f key" "c = cs ! j"
      by (auto simp: in_set_conv_nth)
    with assms(2) show "\<exists>i<length cs. i \<noteq> f key \<and> c = cs ! i"
      by (intro exI [of _ j]) auto
  qed
  moreover have "filter (\<lambda>hn. h_key hn = key) (concat (drop (Suc (f key)) cs)) = []"
  proof (rule none, rule ballI)
    fix c assume "c \<in> set (drop (Suc (f key)) cs)"
    then obtain j where "j < length cs - Suc (f key)" "c = cs ! (Suc (f key) + j)"
      by (auto simp: in_set_conv_nth)
    then show "\<exists>i<length cs. i \<noteq> f key \<and> c = cs ! i"
      by (intro exI [of _ "Suc (f key) + j"]) auto
  qed
  ultimately show ?thesis
    by (subst split) simp
qed

lemma chain_vals_all:
  assumes "hash_ok t"
  shows "chain_vals (concat (h_hash t)) key = hash_vals t key"
proof -
  have "filter (\<lambda>hn. h_key hn = key) (concat (h_hash t))
      = filter (\<lambda>hn. h_key hn = key) (h_hash t ! hashidx key (h_hashmask t))"
    using assms hash_ok_idx [OF assms]
    by (intro filter_concat_chains [where f = "\<lambda>k. hashidx k (h_hashmask t)"])
      (auto simp: hash_ok_def)
  then show ?thesis by (simp add: chain_vals_def hash_vals_def)
qed

subsection \<open>The contract of a store of stacks\<close>

text \<open>
  What the users of the hash rely on: under each key a stack of values, of which a lookup
  sees the newest. The lemmas are about any provider of the contract.
\<close>

datatype ('k, 'v) kop = Ins 'k 'v | Del 'k

fun kop_vals :: "('k, 'v) kop \<Rightarrow> ('k \<Rightarrow> 'v list) \<Rightarrow> 'k \<Rightarrow> 'v list" where
  "kop_vals (Ins key v) m = m(key := v # m key)"
| "kop_vals (Del key) m = m(key := tl (m key))"

definition newest :: "'v list \<Rightarrow> 'v option" where
  "newest vs = (case vs of [] \<Rightarrow> None | v # _ \<Rightarrow> Some v)"

locale keyed_store =
  fixes ok :: "'h \<Rightarrow> bool"
    and vals :: "'h \<Rightarrow> 'k \<Rightarrow> 'v list"
    and ins :: "'h \<Rightarrow> 'k \<Rightarrow> 'v \<Rightarrow> 'h"
    and del :: "'h \<Rightarrow> 'k \<Rightarrow> 'h"
    and look :: "'h \<Rightarrow> 'k \<Rightarrow> 'v option"
  assumes ins_ok: "ok h \<Longrightarrow> ok (ins h key v)"
    and ins_vals: "ok h \<Longrightarrow> vals (ins h key v) = (vals h)(key := v # vals h key)"
    and del_ok: "ok h \<Longrightarrow> ok (del h key)"
    and del_vals: "ok h \<Longrightarrow> vals (del h key) = (vals h)(key := tl (vals h key))"
    and look_vals: "ok h \<Longrightarrow> look h key = newest (vals h key)"
begin

fun step :: "('k, 'v) kop \<Rightarrow> 'h \<Rightarrow> 'h" where
  "step (Ins key v) h = ins h key v"
| "step (Del key) h = del h key"

lemma step_refines: "ok h \<Longrightarrow> ok (step a h) \<and> vals (step a h) = kop_vals a (vals h)"
  by (cases a) (simp_all add: ins_ok ins_vals del_ok del_vals)

lemma run_refines: "ok h \<Longrightarrow> ok (fold step as h) \<and> vals (fold step as h) = fold kop_vals as (vals h)"
  by (induction as arbitrary: h) (simp_all add: step_refines)

lemma look_run: "ok h \<Longrightarrow> look (fold step as h) key = newest (fold kop_vals as (vals h) key)"
  by (simp add: run_refines look_vals)

lemma look_ins: "ok h \<Longrightarrow> look (ins h key v) k = (if k = key then Some v else look h k)"
  by (simp add: look_vals ins_ok ins_vals newest_def)

lemma look_del_other: "ok h \<Longrightarrow> k \<noteq> key \<Longrightarrow> look (del h key) k = look h k"
  by (simp add: look_vals del_ok del_vals)

lemma del_ins: "ok h \<Longrightarrow> look (del (ins h key v) key) k = look h k"
  by (simp add: look_vals ins_ok ins_vals del_ok del_vals)

end

text \<open>The hash provides it, each call on a live handle with storage available.\<close>

definition table_insert :: "'v hash \<Rightarrow> ulong \<Rightarrow> 'v \<Rightarrow> 'v hash" where
  "table_insert t key v = the (snd (hash_insert True (Some t) key v))"

definition table_delete :: "'v hash \<Rightarrow> ulong \<Rightarrow> 'v hash" where
  "table_delete t key = the (snd (hash_delete (Some t) key))"

lemma table_insert_ok:
  assumes "hash_ok t"
  shows "hash_ok (table_insert t key v)"
    and "hash_vals (table_insert t key v) = (hash_vals t)(key := v # hash_vals t key)"
proof -
  obtain t' where "snd (hash_insert True (Some t) key v) = Some t'" "hash_ok t'"
    "\<And>k. hash_vals t' k = (if k = key then v # hash_vals t k else hash_vals t k)"
    using hash_insert_vals [OF assms prod.collapse [symmetric]] by metis
  then show "hash_ok (table_insert t key v)"
    and "hash_vals (table_insert t key v) = (hash_vals t)(key := v # hash_vals t key)"
    by (auto simp: table_insert_def)
qed

lemma table_delete_ok:
  assumes "hash_ok t"
  shows "hash_ok (table_delete t key)"
    and "hash_vals (table_delete t key) = (hash_vals t)(key := tl (hash_vals t key))"
proof -
  have "hash_ok (table_delete t key) \<and>
      (\<forall>k. hash_vals (table_delete t key) k = (if k = key then tl (hash_vals t k) else hash_vals t k))"
    using prod.collapse [symmetric]
  proof (rule hash_delete_vals [OF assms])
    assume "snd (hash_delete (Some t) key) = Some t" "hash_vals t key = []"
    then show ?thesis using assms by (simp add: table_delete_def)
  next
    fix t' assume "snd (hash_delete (Some t) key) = Some t'" "hash_ok t'"
      "\<And>k. hash_vals t' k = (if k = key then tl (hash_vals t k) else hash_vals t k)"
    then show ?thesis by (simp add: table_delete_def)
  qed
  then show "hash_ok (table_delete t key)"
    and "hash_vals (table_delete t key) = (hash_vals t)(key := tl (hash_vals t key))"
    by auto
qed

interpretation hash_store: keyed_store hash_ok hash_vals table_insert table_delete "\<lambda>t. hash_lookup (Some t)"
proof
qed (auto simp: table_insert_ok table_delete_ok hash_lookup_vals newest_def)

fun hash_step :: "(ulong, 'v) kop \<Rightarrow> 'v hash \<Rightarrow> 'v hash" where
  "hash_step (Ins key v) t = table_insert t key v"
| "hash_step (Del key) t = table_delete t key"

lemma hash_step_eq: "hash_step = hash_store.step"
proof (intro ext)
  fix a :: "(ulong, 'v) kop" and t :: "'v hash"
  show "hash_step a t = hash_store.step a t" by (cases a) simp_all
qed

lemma hash_alloc_ok:
  assumes "hash_alloc True n = Some (Some t)"
  shows "hash_ok t \<and> (\<forall>k. hash_vals t k = []) \<and> 8 \<le> h_hashsize t \<and> sint n \<le> int (h_hashsize t)
    \<and> (h_hashsize t = 8 \<or> int (h_hashsize t) < 2 * sint n)"
proof -
  have le: "sint n \<le> 2 ^ 30"
    using hash_round_diverges [of n 3] assms by (force simp: hash_alloc_def)
  obtain k where k: "3 \<le> k" "k \<le> 30" "hash_round n 8 = Some (2 ^ k)" "sint n \<le> 2 ^ k"
    "k = 3 \<or> 2 ^ (k - 1) < sint n"
    using hash_round_some [OF le, of 3] by auto
  have "(2 :: nat) ^ k \<le> 2 ^ 30" using k(2) by (rule power_increasing) simp
  then have "unat (of_nat (2 ^ k) :: ulong) = 2 ^ k" by (simp only: unat_of_nat) simp
  then have u: "unat (2 ^ k :: ulong) = 2 ^ k" by simp
  have t: "t = \<lparr>h_hashsize = 2 ^ k, h_hashmask = mask k, h_hash = replicate (2 ^ k) []\<rparr>"
    using assms k(3) u by (simp add: hash_alloc_def mask_eq_decr_exp)
  have "(2 :: nat) ^ 3 \<le> 2 ^ k" using k(1) by (rule power_increasing) simp
  moreover have "hash_ok t"
    using k(2) by (auto simp: hash_ok_def t intro!: exI [of _ k])
  moreover from this have "hash_vals t key = []" for key
    using hash_ok_idx [of t key] by (simp add: hash_vals_def t chain_vals_def)
  moreover have "(2 :: int) ^ k = 2 * 2 ^ (k - 1)" using k(1) by (cases k) auto
  ultimately show ?thesis using k(4,5) by (auto simp: t)
qed

subsection \<open>Properties\<close>

text \<open>
  \<open>hash_alloc\<close> returns exactly when at most \<open>2 ^ 30\<close> chains are asked for (beyond that the
  rounding loop runs for ever). What it returns is a well-formed empty table of at least 8
  chains, no smaller than asked for and less than twice as large.
\<close>

theorem hash_alloc_spec:
  "(hash_alloc mem n = (None :: 'v hash option option) \<longleftrightarrow> 2 ^ 30 < sint n) \<and>
   (hash_alloc True n = Some (Some (t :: 'v hash)) \<longrightarrow>
      hash_ok t \<and> (\<forall>k. hash_vals t k = []) \<and> 8 \<le> h_hashsize t \<and> sint n \<le> int (h_hashsize t)
      \<and> (h_hashsize t = 8 \<or> int (h_hashsize t) < 2 * sint n))"
proof (intro conjI)
  show "hash_alloc mem n = (None :: 'v hash option option) \<longleftrightarrow> 2 ^ 30 < sint n"
  proof (cases "2 ^ 30 < sint n")
    case True
    then show ?thesis using hash_round_diverges [OF True, of 3] by (simp add: hash_alloc_def)
  next
    case False
    then show ?thesis using hash_round_some [of n 3] by (auto simp: hash_alloc_def)
  qed
qed (use hash_alloc_ok in blast)

theorem hash_alloc_spec_witness:
  "hash_ok (the (the (hash_alloc True 20)) :: nat hash)"
proof -
  have "hash_alloc True 20 \<noteq> (None :: nat hash option option)"
    using hash_alloc_spec [of True 20 "undefined :: nat hash"] by simp
  moreover have "hash_alloc True 20 \<noteq> (Some None :: nat hash option option)"
    by (auto simp: hash_alloc_def split: option.splits)
  ultimately obtain t :: "nat hash" where t: "hash_alloc True 20 = Some (Some t)"
    by (metis option.exhaust)
  with hash_alloc_spec [of True 20 t] show ?thesis by simp
qed

text \<open>
  C36: The hash implements a map from keys to stacks: after any sequence of insertions and
  deletions on a new table, looking up a key gives the newest value inserted under it and not
  deleted since, whatever keys share its chain.
\<close>

theorem hash_run_spec:
  assumes "hash_alloc True n = Some (Some t)"
  shows "hash_lookup (Some (fold hash_step ops t)) key = newest (fold kop_vals ops (\<lambda>k. []) key)"
proof -
  have "hash_ok t" "hash_vals t = (\<lambda>k. [])" using hash_alloc_ok [OF assms] by auto
  with hash_store.look_run [of t ops key] show ?thesis by (simp add: hash_step_eq)
qed

lemma hash_alloc_8: "hash_alloc True 8 =
    Some (Some \<lparr>h_hashsize = 8, h_hashmask = 7, h_hash = replicate 8 []\<rparr>)"
  by (simp add: hash_alloc_def hash_round.simps)

theorem hash_run_spec_witness:
  "hash_lookup (Some (fold hash_step [Ins 5 10, Ins 5 11, Del (5 :: ulong)]
     \<lparr>h_hashsize = 8, h_hashmask = 7, h_hash = replicate 8 []\<rparr>)) 5 = Some (10 :: nat)"
  by (subst hash_run_spec [OF hash_alloc_8]) (simp add: newest_def)

lemma length_concat_update:
  "i < length cs \<Longrightarrow>
    length (concat (cs[i := c])) + length (cs ! i) = length (concat cs) + length c"
proof (induction cs arbitrary: i)
  case (Cons x xs)
  then show ?case by (cases i) auto
qed simp

text \<open>
  Deleting fails exactly when the key has no value, and then changes nothing; otherwise it
  removes one node. Insertion adds one node. \<open>hash_size\<close> counts them (modulo the word width).
\<close>

theorem hash_size_spec:
  assumes ok: "hash_ok t" and del: "hash_delete (Some t) key = (r, h')"
  shows "(r = 1 \<longleftrightarrow> hash_lookup (Some t) key = None) \<and> (r = 1 \<longrightarrow> h' = Some t) \<and>
    (r \<noteq> 1 \<longrightarrow> hash_size (the h') + 1 = hash_size t) \<and>
    hash_size (the (snd (hash_insert True (Some t) key v))) = hash_size t + 1"
proof -
  let ?i = "hashidx key (h_hashmask t)"
  have i: "?i < length (h_hash t)" by (rule hash_ok_idx [OF ok])
  have "(r = 1 \<longleftrightarrow> hash_lookup (Some t) key = None) \<and> (r = 1 \<longrightarrow> h' = Some t) \<and>
    (r \<noteq> 1 \<longrightarrow> hash_size (the h') + 1 = hash_size t)"
  proof (cases rule: hash_delete_vals [OF ok del])
    case 1
    then show ?thesis by (simp add: hash_lookup_vals)
  next
    case (2 t')
    obtain c where c: "chain_delete (h_hash t ! ?i) key = Some c" "t' = t\<lparr>h_hash := (h_hash t)[?i := c]\<rparr>"
      using del 2(1,2) by (auto simp: hash_delete_def Let_def split: option.splits)
    have "Suc (length (concat (h_hash t'))) = length (concat (h_hash t))"
      using length_concat_update [OF i, of c] chain_delete_Some(3) [OF c(1)] by (simp add: c(2))
    then have "of_nat (length (concat (h_hash t'))) + 1 = (of_nat (length (concat (h_hash t))) :: uint)"
      by (metis of_nat_Suc add.commute)
    with 2 show ?thesis
      by (auto simp: hash_lookup_vals hash_size_eq ok split: list.splits)
  qed
  moreover have "hash_size (table_insert t key v) = hash_size t + 1"
  proof -
    have "table_insert t key v = t\<lparr>h_hash := (h_hash t)[?i := \<lparr>h_key = key, h_data = v\<rparr> # h_hash t ! ?i]\<rparr>"
      by (simp add: table_insert_def hash_insert_def Let_def)
    then have "length (concat (h_hash (table_insert t key v))) = Suc (length (concat (h_hash t)))"
      using length_concat_update [OF i, of "\<lparr>h_key = key, h_data = v\<rparr> # h_hash t ! ?i"] by simp
    then show ?thesis using ok by (simp add: hash_size_eq table_insert_ok)
  qed
  ultimately show ?thesis by (simp add: table_insert_def)
qed

theorem hash_size_spec_witness:
  "hash_size (the (snd (hash_insert True
     (Some \<lparr>h_hashsize = 8, h_hashmask = 7, h_hash = replicate 8 []\<rparr>) 5 (1 :: nat)))) = 1"
proof -
  let ?t = "\<lparr>h_hashsize = 8, h_hashmask = 7, h_hash = replicate 8 []\<rparr> :: nat hash"
  have ok: "hash_ok ?t" using hash_alloc_ok [OF hash_alloc_8] by blast
  have "hash_size ?t = 0" using hash_size_eq [OF ok] by simp
  with hash_size_spec [OF ok prod.collapse [symmetric], of 5 1] show ?thesis by simp
qed

text \<open>
  \<open>hash_foreach\<close> with a callback that never stops visits every node once, those of one key
  in the order the lookups would find them.
\<close>

theorem hash_foreach_spec:
  assumes "hash_ok t" "hash_foreach (\<lambda>k v xs. (False, xs @ [(k, v)])) t [] = xs"
  shows "map snd (filter (\<lambda>p. fst p = key) xs) = hash_vals t key \<and> of_nat (length xs) = hash_size t"
proof -
  have xs: "xs = map (\<lambda>hn. (h_key hn, h_data hn)) (concat (h_hash t))"
    using assms by (simp add: hash_foreach_def map_nth_table table_foreach_all)
  have "map snd (filter (\<lambda>p. fst p = key) xs) = chain_vals (concat (h_hash t)) key"
    by (simp add: xs chain_vals_def filter_map o_def)
  then show ?thesis
    using assms(1) by (simp add: chain_vals_all hash_size_eq xs)
qed

theorem hash_foreach_spec_witness:
  "map snd (filter (\<lambda>p. fst p = 3) (hash_foreach (\<lambda>k v xs. (False, xs @ [(k, v)]))
     \<lparr>h_hashsize = 8, h_hashmask = 7, h_hash = replicate 8 ([] :: nat hash_node list)\<rparr> [])) = []"
proof -
  let ?t = "\<lparr>h_hashsize = 8, h_hashmask = 7, h_hash = replicate 8 []\<rparr> :: nat hash"
  have "hash_ok ?t" "hash_vals ?t 3 = []" using hash_alloc_ok [OF hash_alloc_8] by blast+
  with hash_foreach_spec [OF this(1) refl, of 3] show ?thesis by simp
qed

end
