(* ===== verification/Ring_List.thy ===== *)
theory Ring_List
  imports Prelude
begin

text \<open>
  Circular doubly-linked lists. Three components of the system keep them: the lists of
  \<open>src/src/lib/llist.c\<close>, the children of a scheduling node (\<open>queue\<close>, \<open>dequeue\<close> of
  \<open>src/src/os/kern/sched.c\<close>) and the sleepers of a semaphore (\<open>q_sema\<close>, \<open>dq_sema\<close> of
  \<open>src/src/os/mach/mutex.c\<close>). \<open>ring nx pv xs\<close> says that following \<open>nx\<close> from the first element
  of \<open>xs\<close> visits \<open>xs\<close> in order and comes back, and \<open>pv\<close> the same backwards. The first part is
  about the pointers alone; the second is the model of llist.c. The locale \<open>ring_queue\<close> is the
  contract the three implementations share: a FIFO from which any member can be taken out.
\<close>

fun links :: "(ptr \<Rightarrow> ptr) \<Rightarrow> (ptr \<Rightarrow> ptr) \<Rightarrow> ptr list \<Rightarrow> bool" where
  "links nx pv (a # b # xs) \<longleftrightarrow> nx a = b \<and> pv b = a \<and> links nx pv (b # xs)"
| "links nx pv _ \<longleftrightarrow> True"

definition ring :: "(ptr \<Rightarrow> ptr) \<Rightarrow> (ptr \<Rightarrow> ptr) \<Rightarrow> ptr list \<Rightarrow> bool" where
  "ring nx pv xs \<longleftrightarrow> xs \<noteq> [] \<and> distinct xs \<and> links nx pv (xs @ [hd xs])"

lemma links_append:
  "links nx pv (xs @ y # zs) \<longleftrightarrow> links nx pv (xs @ [y]) \<and> links nx pv (y # zs)"
  by (induction nx pv xs rule: links.induct) (auto simp: neq_Nil_conv elim: links.elims)

lemma links_frame:
  assumes "links nx pv xs" "\<forall>p\<in>set (butlast xs). nx' p = nx p" "\<forall>p\<in>set (tl xs). pv' p = pv p"
  shows "links nx' pv' xs"
  using assms by (induction nx pv xs rule: links.induct) auto

lemma ring_single: "ring nx pv [x] \<longleftrightarrow> nx x = x \<and> pv x = x"
  by (auto simp: ring_def)

lemma ring_frame:
  assumes r: "ring nx pv xs" and nx: "\<forall>p\<in>set xs. nx' p = nx p" and pv: "\<forall>p\<in>set xs. pv' p = pv p"
  shows "ring nx' pv' xs"
proof -
  obtain h t where xs: "xs = h # t" using r by (auto simp: ring_def neq_Nil_conv)
  have "links nx pv (h # t @ [h])" using r by (simp add: ring_def xs)
  then have "links nx' pv' (h # t @ [h])"
    by (rule links_frame) (use nx pv in \<open>simp_all add: xs butlast_append\<close>)
  with r show ?thesis by (simp add: ring_def xs)
qed

lemma ring_rotate: "ring nx pv (xs @ ys) \<longleftrightarrow> ring nx pv (ys @ xs)"
proof (cases "xs = [] \<or> ys = []")
  case False
  then obtain x xs' y ys' where "xs = x # xs'" "ys = y # ys'" by (auto simp: neq_Nil_conv)
  then show ?thesis
    using links_append [of nx pv "x # xs'" y "ys' @ [x]"] links_append [of nx pv "y # ys'" x "xs' @ [y]"]
    by (auto simp: ring_def)
qed auto

lemma ring_nx_mem: "ring nx pv xs \<Longrightarrow> x \<in> set xs \<Longrightarrow> nx x \<in> set xs \<and> pv x \<in> set xs"
proof -
  have mem: "nx x \<in> set (x # xs) \<and> pv x \<in> set (x # xs)" if "ring nx pv (x # xs)" for xs
  proof (cases xs rule: rev_cases)
    case Nil
    with that show ?thesis by (simp add: ring_single)
  next
    case (snoc ys l)
    with that have "links nx pv (x # ys @ l # [x])" by (simp add: ring_def)
    then have "pv x = l" using links_append [of nx pv "x # ys" l "[x]"] by simp
    moreover have "nx x \<in> set (x # xs)" using that by (cases xs) (auto simp: ring_def)
    ultimately show ?thesis using snoc by simp
  qed
  assume "ring nx pv xs" "x \<in> set xs"
  then obtain as bs where xs: "xs = as @ x # bs" by (meson split_list)
  with \<open>ring nx pv xs\<close> have "ring nx pv (x # bs @ as)" using ring_rotate [of nx pv as "x # bs"] by simp
  from mem [OF this] show ?thesis using xs by auto
qed

text \<open>The last element is before the first, and the second after it.\<close>

lemma ring_pv_hd:
  assumes "ring nx pv (h # xs)"
  shows "pv h = last (h # xs)"
proof (cases xs rule: rev_cases)
  case Nil
  with assms show ?thesis by (simp add: ring_single)
next
  case (snoc ys l)
  with assms have "links nx pv ((h # ys) @ l # [h])" by (simp add: ring_def)
  then have "links nx pv [l, h]" by (subst (asm) links_append) blast
  with snoc show ?thesis by simp
qed

lemma ring_nx_hd: "ring nx pv (h # x # xs) \<Longrightarrow> nx h = x"
  by (simp add: ring_def)

lemma ring_alone: "ring nx pv (h # xs) \<Longrightarrow> nx h = h \<longleftrightarrow> xs = []"
  by (cases xs) (auto simp: ring_def)

text \<open>Linking a new element in front of \<open>h\<close>: it becomes the last one of the ring as seen from \<open>h\<close>.\<close>

lemma ring_last:
  assumes "links nx pv (y # ys @ [z])" "distinct (y # ys)"
  obtains b l where "y # ys = b @ [l]" "links nx pv (b @ [l])" "links nx pv [l, z]"
    "l \<notin> set b" "tl (b @ [l]) = ys" "set b \<subseteq> set (y # ys)" "l \<in> set (y # ys)"
proof -
  obtain b l where e: "y # ys = b @ [l]" by (metis append_butlast_last_id list.distinct(1))
  have "links nx pv (b @ l # [z])" using assms(1) e by (metis append_Cons append_Nil append_assoc)
  then have "links nx pv (b @ [l])" "links nx pv [l, z]" by (subst (asm) links_append, blast)+
  moreover have "l \<notin> set b" using assms(2) unfolding e by simp
  moreover have "tl (b @ [l]) = ys" by (simp add: e [symmetric])
  moreover have "set b \<subseteq> set (y # ys)" "l \<in> set (y # ys)" unfolding e by auto
  ultimately show ?thesis using that e by blast
qed

lemma ring_insert:
  assumes r: "ring nx pv (h # xs)" and x: "x \<notin> set (h # xs)"
  shows "ring (nx(x := h, pv h := x)) (pv(x := pv h, h := x)) (h # xs @ [x])"
proof -
  let ?nx = "nx(x := h, pv h := x)" and ?pv = "pv(x := pv h, h := x)"
  have d: "distinct (h # xs)" and k: "links nx pv (h # xs @ [h])" using r by (simp_all add: ring_def)
  obtain b l where e: "h # xs = b @ [l]" and k1: "links nx pv (b @ [l])" "links nx pv [l, h]"
    and l: "l \<notin> set b" "tl (b @ [l]) = xs" "set b \<subseteq> set (h # xs)" "l \<in> set (h # xs)"
    by (rule ring_last [OF k d])
  have pv: "pv h = l" using k1(2) by simp
  have hx: "h \<notin> set xs" "x \<notin> set xs" "x \<notin> set b" "l \<noteq> x" using d x l(3,4) by auto
  have "links ?nx ?pv (b @ [l])"
    using k1(1)
  proof (rule links_frame)
    show "\<forall>p\<in>set (butlast (b @ [l])). ?nx p = nx p" using hx(3) l(1) by (auto simp: pv)
    show "\<forall>p\<in>set (tl (b @ [l])). ?pv p = pv p" unfolding l(2) using hx by auto
  qed
  moreover have "links ?nx ?pv [l, x, h]" using hx(4) x by (simp add: pv)
  ultimately have "links ?nx ?pv (b @ l # [x, h])" by (subst links_append) blast
  then have "links ?nx ?pv ((h # xs) @ [x, h])" unfolding e by simp
  then show ?thesis using d x by (simp add: ring_def)
qed

text \<open>Unlinking \<open>x\<close> leaves the ring of the others.\<close>

lemma ring_delete:
  assumes r: "ring nx pv (x # h # xs)"
  shows "ring (nx(pv x := nx x)) (pv(nx x := pv x)) (h # xs)"
proof -
  have n: "nx x = h" by (rule ring_nx_hd [OF r])
  have d: "distinct (h # xs)" and k: "links nx pv (h # xs @ [x])" using r by (simp_all add: ring_def)
  obtain b l where e: "h # xs = b @ [l]" and k1: "links nx pv (b @ [l])" "links nx pv [l, x]"
    and l: "l \<notin> set b" "tl (b @ [l]) = xs"
    by (rule ring_last [OF k d])
  have pv: "pv x = l" using k1(2) by simp
  let ?nx = "nx(l := h)" and ?pv = "pv(h := l)"
  have "links ?nx ?pv (b @ [l])"
    using k1(1)
  proof (rule links_frame)
    show "\<forall>p\<in>set (butlast (b @ [l])). ?nx p = nx p" using l(1) by auto
    show "\<forall>p\<in>set (tl (b @ [l])). ?pv p = pv p" unfolding l(2) using d by auto
  qed
  moreover have "links ?nx ?pv [l, h]" by simp
  ultimately have "links ?nx ?pv (b @ l # [h])" by (subst links_append) blast
  then have "links ?nx ?pv ((h # xs) @ [h])" unfolding e by simp
  then show ?thesis using d by (simp add: ring_def n pv)
qed

subsection \<open>A ring behind a head pointer\<close>

text \<open>An empty ring is a null head pointer; otherwise the head points at the first element.\<close>

definition hring :: "ptr \<Rightarrow> (ptr \<Rightarrow> ptr) \<Rightarrow> (ptr \<Rightarrow> ptr) \<Rightarrow> ptr list \<Rightarrow> bool" where
  "hring h nx pv xs \<longleftrightarrow>
     (if xs = [] then h = NULL else h = hd xs \<and> NULL \<notin> set xs \<and> ring nx pv xs)"

lemma hring_head: "hring h nx pv xs \<Longrightarrow> h = (case xs of [] \<Rightarrow> NULL | x # _ \<Rightarrow> x)"
  by (auto simp: hring_def split: list.splits if_splits)

lemma hring_Nil [simp]: "hring h nx pv [] \<longleftrightarrow> h = NULL"
  by (simp add: hring_def)

lemma hring_null: "hring h nx pv xs \<Longrightarrow> h = NULL \<longleftrightarrow> xs = []"
  by (cases xs) (auto simp: hring_def)

lemma hring_distinct: "hring h nx pv xs \<Longrightarrow> distinct xs \<and> NULL \<notin> set xs"
  by (auto simp: hring_def ring_def split: if_splits)

lemma hring_frame:
  assumes "hring h nx pv xs" "\<forall>p\<in>set xs. nx' p = nx p" "\<forall>p\<in>set xs. pv' p = pv p"
  shows "hring h nx' pv' xs"
  using assms ring_frame [of nx pv xs nx' pv'] by (auto simp: hring_def split: if_splits)

lemma hring_first: "x \<noteq> NULL \<Longrightarrow> hring x (nx(x := x)) (pv(x := x)) [x]"
  by (simp add: hring_def ring_single)

lemma hring_insert:
  assumes "hring h nx pv xs" "h \<noteq> NULL" "x \<notin> set xs" "x \<noteq> NULL"
  shows "hring h (nx(x := h, pv h := x)) (pv(x := pv h, h := x)) (xs @ [x])"
proof -
  from assms(1,2) obtain t where xs: "xs = h # t" by (cases xs) (auto simp: hring_def)
  with assms ring_insert [of nx pv h t x] show ?thesis by (simp add: hring_def)
qed

lemma hring_alone: "hring h nx pv xs \<Longrightarrow> x \<in> set xs \<Longrightarrow> nx x = x \<longleftrightarrow> xs = [x]"
proof -
  assume h: "hring h nx pv xs" and x: "x \<in> set xs"
  obtain as bs where xs: "xs = as @ x # bs" using x by (meson split_list)
  with h have "ring nx pv (x # bs @ as)"
    using ring_rotate [of nx pv as "x # bs"] by (auto simp: hring_def)
  from ring_alone [OF this] show ?thesis using xs by (cases as) auto
qed

lemma hring_delete:
  assumes h: "hring h nx pv xs" and x: "x \<in> set xs" and ne: "nx x \<noteq> x"
  shows "hring (if h = x then nx x else h) (nx(pv x := nx x)) (pv(nx x := pv x)) (remove1 x xs)"
proof -
  obtain as bs where xs: "xs = as @ x # bs" and xa: "x \<notin> set as" using x by (meson split_list_first)
  have d: "distinct xs" "NULL \<notin> set xs" using hring_distinct [OF h] by auto
  have r: "ring nx pv (x # bs @ as)"
    using h xs ring_rotate [of nx pv as "x # bs"] by (auto simp: hring_def)
  have ba: "bs @ as \<noteq> []" using ne hring_alone [OF h x] xs by auto
  then obtain y ys where y: "bs @ as = y # ys" by (cases "bs @ as") auto
  have "ring (nx(pv x := nx x)) (pv(nx x := pv x)) (bs @ as)"
    using ring_delete [of nx pv x y ys] r by (simp add: y)
  then have r': "ring (nx(pv x := nx x)) (pv(nx x := pv x)) (as @ bs)"
    using ring_rotate by blast
  have nx: "nx x = y" using ring_nx_hd [of nx pv x y ys] r by (simp add: y)
  have rm: "remove1 x xs = as @ bs" using xs xa by (simp add: remove1_middle)
  have "(if h = x then nx x else h) = hd (as @ bs)"
  proof (cases as)
    case Nil
    then show ?thesis using h xs nx y by (auto simp: hring_def)
  next
    case (Cons a as')
    then show ?thesis using h xs xa by (auto simp: hring_def)
  qed
  then show ?thesis using r' rm ba d xs by (auto simp: hring_def)
qed

lemma hring_delete_alone: "hring h nx pv xs \<Longrightarrow> x \<in> set xs \<Longrightarrow> nx x = x \<Longrightarrow> remove1 x xs = []"
  using hring_alone [of h nx pv xs x] by auto

subsection \<open>The contract\<close>

datatype rop = Enq ptr | Unq ptr

fun rop_list :: "rop \<Rightarrow> ptr list \<Rightarrow> ptr list" where
  "rop_list (Enq x) xs = xs @ [x]"
| "rop_list (Unq x) xs = remove1 x xs"

fun rop_legal :: "(ptr \<Rightarrow> bool) \<Rightarrow> rop \<Rightarrow> ptr list \<Rightarrow> bool" where
  "rop_legal node (Enq x) xs \<longleftrightarrow> node x \<and> x \<notin> set xs"
| "rop_legal node (Unq x) xs \<longleftrightarrow> x \<in> set xs"

fun rops_legal :: "(ptr \<Rightarrow> bool) \<Rightarrow> rop list \<Rightarrow> ptr list \<Rightarrow> bool" where
  "rops_legal node [] xs \<longleftrightarrow> True"
| "rops_legal node (a # as) xs \<longleftrightarrow> rop_legal node a xs \<and> rops_legal node as (rop_list a xs)"

locale ring_queue =
  fixes node :: "ptr \<Rightarrow> bool"
    and rep :: "'st \<Rightarrow> ptr list \<Rightarrow> bool"
    and enq :: "ptr \<Rightarrow> 'st \<Rightarrow> 'st"
    and unq :: "ptr \<Rightarrow> 'st \<Rightarrow> 'st"
    and first :: "'st \<Rightarrow> ptr"
  assumes enq_rep: "rep s xs \<Longrightarrow> node x \<Longrightarrow> x \<notin> set xs \<Longrightarrow> rep (enq x s) (xs @ [x])"
    and unq_rep: "rep s xs \<Longrightarrow> x \<in> set xs \<Longrightarrow> rep (unq x s) (remove1 x xs)"
    and first_rep: "rep s xs \<Longrightarrow> xs \<noteq> [] \<Longrightarrow> first s = hd xs"
    and rep_distinct: "rep s xs \<Longrightarrow> distinct xs"
begin

fun apply_rop :: "rop \<Rightarrow> 'st \<Rightarrow> 'st" where
  "apply_rop (Enq x) s = enq x s"
| "apply_rop (Unq x) s = unq x s"

lemma apply_rep: "rep s xs \<Longrightarrow> rop_legal node a xs \<Longrightarrow> rep (apply_rop a s) (rop_list a xs)"
  by (cases a) (simp_all add: enq_rep unq_rep)

lemma run_rep: "rep s xs \<Longrightarrow> rops_legal node as xs \<Longrightarrow> rep (fold apply_rop as s) (fold rop_list as xs)"
  by (induction as arbitrary: s xs) (simp_all add: apply_rep)

text \<open>Serving the first element again and again yields the queue in order.\<close>

fun serve :: "nat \<Rightarrow> 'st \<Rightarrow> ptr list \<times> 'st" where
  "serve 0 s = ([], s)"
| "serve (Suc n) s = (let (xs, s') = serve n (unq (first s) s) in (first s # xs, s'))"

lemma serve_rep:
  "rep s xs \<Longrightarrow> n \<le> length xs \<Longrightarrow> fst (serve n s) = take n xs \<and> rep (snd (serve n s)) (drop n xs)"
proof (induction n arbitrary: s xs)
  case (Suc n)
  then obtain y ys where xs: "xs = y # ys" by (cases xs) auto
  have f: "first s = y" using first_rep [OF Suc(2)] xs by simp
  have "rep (unq y s) ys" using unq_rep [OF Suc(2), of y] xs by simp
  from Suc(1) [OF this] Suc(3) xs f show ?case by (auto simp: Let_def split: prod.splits)
qed simp

end

subsection \<open>llist.c\<close>

record ll_heap =
  l_forw :: "ptr \<Rightarrow> ptr"
  l_back :: "ptr \<Rightarrow> ptr"
  l_data :: "ptr \<Rightarrow> ptr"

definition LL_EMPTY :: "ll_heap \<Rightarrow> ptr \<Rightarrow> bool" where
  "LL_EMPTY hp l \<longleftrightarrow> l_forw hp l = l"

definition LL_NEXT :: "ll_heap \<Rightarrow> ptr \<Rightarrow> ptr" where
  "LL_NEXT hp l = l_forw hp l"

definition ll_init :: "ptr \<Rightarrow> ll_heap \<Rightarrow> ll_heap" where
  "ll_init l hp = hp\<lparr>l_forw := (l_forw hp)(l := l), l_back := (l_back hp)(l := l)\<rparr>"

text \<open>\<open>lnew\<close> is what \<open>malloc\<close> returns: a fresh node, or \<open>NULL\<close>.\<close>

definition ll_insert :: "ptr \<Rightarrow> ptr \<Rightarrow> ptr \<Rightarrow> ll_heap \<Rightarrow> ptr \<times> ll_heap" where
  "ll_insert lnew l d hp =
     (let back0 = l_back hp l
      in if lnew = NULL then (NULL, hp)
         else (lnew, hp\<lparr>l_data := (l_data hp)(lnew := d),
                        l_forw := (l_forw hp)(lnew := l, back0 := lnew),
                        l_back := (l_back hp)(lnew := back0, l := lnew)\<rparr>))"

definition ll_delete :: "ptr \<Rightarrow> ll_heap \<Rightarrow> ll_heap" where
  "ll_delete l hp =
     (let forw0 = l_forw hp l; back0 = l_back hp l
      in hp\<lparr>l_forw := (l_forw hp)(back0 := forw0), l_back := (l_back hp)(forw0 := back0)\<rparr>)"

definition ll_movehead :: "ptr \<Rightarrow> ptr \<Rightarrow> ll_heap \<Rightarrow> ll_heap" where
  "ll_movehead head l hp =
     (let head_forw = l_forw hp head
      in if head_forw = l then hp
         else (let back0 = l_back hp l; forw0 = l_forw hp l
               in hp\<lparr>l_forw := (l_forw hp)(back0 := forw0, l := head_forw, head := l),
                     l_back := (l_back hp)(forw0 := back0, l := head, head_forw := l)\<rparr>))"

text \<open>The nodes of the list with head \<open>l\<close>, in order.\<close>

definition ll_rep :: "ptr \<Rightarrow> ll_heap \<Rightarrow> ptr list \<Rightarrow> bool" where
  "ll_rep l hp xs \<longleftrightarrow> NULL \<notin> set (l # xs) \<and> ring (l_forw hp) (l_back hp) (l # xs)"

lemma ll_rep_delete:
  assumes r: "ll_rep l hp xs" and x: "x \<in> set xs"
  shows "ll_rep l (ll_delete x hp) (remove1 x xs)"
proof -
  have h: "hring l (l_forw hp) (l_back hp) (l # xs)" using r by (simp add: ll_rep_def hring_def)
  have d: "distinct (l # xs)" using r by (simp add: ll_rep_def ring_def)
  have "l_forw hp x \<noteq> x" using hring_alone [OF h, of x] x d by auto
  moreover have "x \<noteq> l" "NULL \<noteq> l" "NULL \<notin> set (remove1 x xs)"
    using x d r by (auto simp: ll_rep_def dest: set_remove1_subset [THEN subsetD])
  ultimately show ?thesis
    using hring_delete [OF h, of x] x by (auto simp: ll_rep_def ll_delete_def Let_def hring_def)
qed

lemma ll_rep_insert:
  assumes r: "ll_rep l hp xs" and x: "x \<noteq> NULL" "x \<notin> set (l # xs)"
  shows "ll_rep l (snd (ll_insert x l d hp)) (xs @ [x])"
  using assms ring_insert [of "l_forw hp" "l_back hp" l xs x]
  by (auto simp: ll_rep_def ll_insert_def Let_def)

lemma ll_rep_movehead:
  assumes r: "ll_rep l hp xs" and x: "x \<in> set xs"
  shows "ll_rep l (ll_movehead l x hp) (x # remove1 x xs)"
proof (cases "l_forw hp l = x")
  case True
  obtain y ys where xs: "xs = y # ys" using x by (cases xs) auto
  with r have "l_forw hp l = y" by (auto simp: ll_rep_def dest: ring_nx_hd)
  with True r xs show ?thesis by (simp add: ll_movehead_def)
next
  case False
  have d: "distinct (l # xs)" using r by (simp add: ll_rep_def ring_def)
  define hp1 where hp1: "hp1 = ll_delete x hp"
  have r1: "ll_rep l hp1 (remove1 x xs)" unfolding hp1 by (rule ll_rep_delete [OF r x])
  obtain y ys where xs: "xs = y # ys" using x by (cases xs) auto
  have y: "l_forw hp l = y" using r xs by (auto simp: ll_rep_def dest: ring_nx_hd)
  with False have xy: "x \<noteq> y" by simp
  then have rm: "remove1 x xs = y # remove1 x ys" by (simp add: xs)
  let ?b = "remove1 x ys"
  have r2: "ring (l_forw hp1) (l_back hp1) (y # ?b @ [l])"
    using r1 ring_rotate [of _ _ "[l]"] by (simp add: ll_rep_def rm)
  have xn: "x \<notin> set (y # ?b @ [l])" using d x xs xy by (auto simp: distinct_remove1)
  have bk: "l_back hp1 y = l" using ring_pv_hd [OF r2] by simp
  have "ring ((l_forw hp1)(x := y, l := x)) ((l_back hp1)(x := l, y := x)) ((y # ?b) @ [l, x])"
    using ring_insert [OF r2 xn] bk by simp
  then have "ring ((l_forw hp1)(x := y, l := x)) ((l_back hp1)(x := l, y := x)) (l # x # y # ?b)"
    using ring_rotate [of _ _ "y # ?b" "[l, x]"] by simp
  moreover have "ll_movehead l x hp =
      hp\<lparr>l_forw := (l_forw hp1)(x := y, l := x), l_back := (l_back hp1)(x := l, y := x)\<rparr>"
    using False y by (simp add: ll_movehead_def ll_delete_def hp1 Let_def)
  moreover have "NULL \<notin> set (l # x # remove1 x xs)"
    using r x by (cases "x = NULL") (auto simp: ll_rep_def dest: set_remove1_subset [THEN subsetD])
  ultimately show ?thesis
    using rm by (simp add: ll_rep_def)
qed

text \<open>The lists provide the queue contract, a node being its own datum here.\<close>

interpretation llist: ring_queue "\<lambda>x. x \<noteq> NULL \<and> x \<noteq> l" "ll_rep l"
  "\<lambda>x hp. snd (ll_insert x l x hp)" ll_delete "\<lambda>hp. LL_NEXT hp l" for l
proof
  fix hp xs assume "ll_rep l hp xs" "xs \<noteq> []"
  then show "LL_NEXT hp l = hd xs"
    by (cases xs) (auto simp: ll_rep_def LL_NEXT_def dest: ring_nx_hd)
qed (auto simp: ll_rep_insert ll_rep_delete, auto simp: ll_rep_def ring_def)

definition three_nodes :: ll_heap where
  "three_nodes = \<lparr>l_forw = id(1 := 2, 2 := 3, 3 := 4, 4 := 1),
     l_back = id(1 := 4, 2 := 1, 3 := 2, 4 := 3), l_data = id\<rparr>"

text \<open>A caller's sequence of insertions at the tail and deletions, the node its own datum.\<close>

fun ll_step :: "ptr \<Rightarrow> rop \<Rightarrow> ll_heap \<Rightarrow> ll_heap" where
  "ll_step l (Enq x) hp = snd (ll_insert x l x hp)"
| "ll_step l (Unq x) hp = ll_delete x hp"

lemma ll_step_eq: "ll_step l = llist.apply_rop l"
proof (intro ext)
  fix a hp show "ll_step l a hp = llist.apply_rop l a hp" by (cases a) simp_all
qed

lemma ll_init_rep: "l \<noteq> NULL \<Longrightarrow> ll_rep l (ll_init l hp) []"
  by (simp add: ll_rep_def ll_init_def ring_single)

text \<open>
  From a freshly initialised list head, any sequence of insertions of new nodes and
  deletions of present ones leaves a well-linked ring whose nodes are exactly those inserted and
  not deleted, in insertion order; \<open>LL_NEXT\<close> of the head is the oldest and \<open>LL_EMPTY\<close> tells
  whether there is none.
\<close>

theorem ll_run_spec:
  assumes "l \<noteq> NULL" "rops_legal (\<lambda>x. x \<noteq> NULL \<and> x \<noteq> l) ops []"
  shows "let hp' = fold (ll_step l) ops (ll_init l hp); xs = fold rop_list ops []
    in ll_rep l hp' xs \<and> (LL_EMPTY hp' l \<longleftrightarrow> xs = []) \<and> (xs \<noteq> [] \<longrightarrow> LL_NEXT hp' l = hd xs)"
proof -
  have r: "ll_rep l (fold (ll_step l) ops (ll_init l hp)) (fold rop_list ops [])"
    unfolding ll_step_eq by (rule llist.run_rep [OF ll_init_rep [OF assms(1)] assms(2)])
  moreover have "LL_EMPTY hp' l \<longleftrightarrow> xs = []" if "ll_rep l hp' xs" for hp' xs
    using that ring_alone [of "l_forw hp'" "l_back hp'" l xs] by (simp add: ll_rep_def LL_EMPTY_def)
  ultimately show ?thesis using llist.first_rep [OF r] by (simp add: Let_def)
qed

theorem ll_run_spec_witness:
  "LL_NEXT (fold (ll_step 1) [Enq 2, Enq 3, Unq 2] (ll_init 1 three_nodes)) 1 = 3"
  using ll_run_spec [of 1 "[Enq 2, Enq 3, Unq 2]" three_nodes] by (simp add: Let_def)

text \<open>
  \<open>ll_movehead\<close> takes the given node out of its place and puts it first; the others keep
  their order. In particular the head does not move to the node's place: the nodes before it
  stay in front of those after it.
\<close>

theorem ll_movehead_spec:
  assumes "ll_rep l hp (as @ x # bs)"
  shows "ll_rep l (ll_movehead l x hp) (x # as @ bs)"
proof -
  have "x \<notin> set as" using assms by (auto simp: ll_rep_def ring_def)
  with ll_rep_movehead [OF assms, of x] show ?thesis by (simp add: remove1_middle)
qed

theorem ll_movehead_spec_witness: "ll_rep 1 (ll_movehead 1 3 three_nodes) [3, 2, 4]"
  using ll_movehead_spec [of 1 three_nodes "[2]" 3 "[4]"]
  by (simp add: three_nodes_def ll_rep_def ring_def)

end
