(* ===== verification/Kern.thy ===== *)
theory Kern
  imports Ring_List
begin

text \<open>
  The kernel state the scheduler and the semaphores work on, and the inlined operations of
  \<open>src/src/os/mach/mutex.h\<close>: spinlocks on the uniprocessor (a flag, the count of locks the CPU
  holds, and the interrupt mask), and the small operations on semaphores. Structures live at
  addresses: the state maps an address to the structure there. The debugging assertions of the
  code (\<open>ASSERT_DEBUG\<close>), which only check, are not part of this model; several of the theorems of the
  later theories say that they hold.
\<close>

subsection \<open>Structures\<close>

text \<open>\<open>thread.h\<close>: the fields of a thread that scheduling uses.\<close>

datatype tstate = TS_SLEEP | TS_RUN | TS_ONPROC | TS_DEAD

record thread =
  t_wchan :: ptr
  t_runq :: ptr
  t_runticks :: uchar
  t_state :: tstate
  t_intr :: bool
  t_nointr :: bool
  t_flags :: uchar
  t_oink :: uchar
  t_hd :: ptr
  t_tl :: ptr
  t_eng :: ptr

definition T_RT :: uchar where "T_RT = 0x1"
definition T_BG :: uchar where "T_BG = 0x2"
definition T_FPU :: uchar where "T_FPU = 0x8"
definition T_PROFILE :: uchar where "T_PROFILE = 0x20"

text \<open>
  \<open>sched.h\<close>: a node of the scheduling tree. \<open>s_u\<close> is the union of \<open>s_down\<close> (the first child
  of an internal node) and \<open>s_thread\<close> (the thread of a leaf).
\<close>

record sched =
  s_u :: ptr
  s_up :: ptr
  s_hd :: ptr
  s_tl :: ptr
  s_prio :: uint
  s_nrun :: uint
  s_leaf :: bool
  s_refs :: uint

text \<open>\<open>mutex.h\<close>: a sleeping semaphore. \<open>percpu.h\<close>: an engine.\<close>

record sema =
  s_lock :: bool
  s_count :: int
  s_sleepq :: ptr

record percpu =
  pc_thread :: ptr
  pc_locks :: uint
  pc_pri :: uint
  pc_flags :: uchar
  pc_preempt :: bool
  pc_nopreempt :: uchar
  pc_next :: ptr

definition CPU_UP :: uchar where "CPU_UP = 0x1"

text \<open>
  The state: threads, scheduling nodes, semaphores, engines and other spinlocks by address, the
  engine this code runs on, and the globals of sched.c.
\<close>

record kern =
  thr :: "ptr \<Rightarrow> thread"
  sch :: "ptr \<Rightarrow> sched"
  sem :: "ptr \<Rightarrow> sema"
  cpus :: "ptr \<Rightarrow> percpu"
  spin :: "ptr \<Rightarrow> bool"
  this_cpu :: ptr
  nextcpu :: ptr
  runq_lock :: bool
  num_run :: uint
  intr_off :: bool

abbreviation cpu :: "kern \<Rightarrow> percpu" where
  "cpu k \<equiv> cpus k (this_cpu k)"

abbreviation curthread :: "kern \<Rightarrow> ptr" where
  "curthread k \<equiv> pc_thread (cpu k)"

definition upd_thr :: "ptr \<Rightarrow> (thread \<Rightarrow> thread) \<Rightarrow> kern \<Rightarrow> kern" where
  "upd_thr t f k = k\<lparr>thr := (thr k)(t := f (thr k t))\<rparr>"

definition upd_sch :: "ptr \<Rightarrow> (sched \<Rightarrow> sched) \<Rightarrow> kern \<Rightarrow> kern" where
  "upd_sch s f k = k\<lparr>sch := (sch k)(s := f (sch k s))\<rparr>"

definition upd_sem :: "ptr \<Rightarrow> (sema \<Rightarrow> sema) \<Rightarrow> kern \<Rightarrow> kern" where
  "upd_sem s f k = k\<lparr>sem := (sem k)(s := f (sem k s))\<rparr>"

definition upd_cpu :: "(percpu \<Rightarrow> percpu) \<Rightarrow> kern \<Rightarrow> kern" where
  "upd_cpu f k = k\<lparr>cpus := (cpus k)(this_cpu k := f (cpu k))\<rparr>"

subsection \<open>Spinlocks\<close>

datatype spl = SPL0 | SPLHI | SPLHI_SAME

text \<open>A lock is the one of a semaphore, the run queue's, or another one.\<close>

datatype lockid = SemaLock ptr | RunqLock | OtherLock ptr

fun l_lock :: "lockid \<Rightarrow> kern \<Rightarrow> bool" where
  "l_lock (SemaLock s) k = s_lock (sem k s)"
| "l_lock RunqLock k = runq_lock k"
| "l_lock (OtherLock l) k = spin k l"

fun set_lock :: "lockid \<Rightarrow> bool \<Rightarrow> kern \<Rightarrow> kern" where
  "set_lock (SemaLock s) b k = upd_sem s (\<lambda>x. x\<lparr>s_lock := b\<rparr>) k"
| "set_lock RunqLock b k = k\<lparr>runq_lock := b\<rparr>"
| "set_lock (OtherLock l) b k = k\<lparr>spin := (spin k)(l := b)\<rparr>"

definition geti :: "kern \<Rightarrow> spl" where
  "geti k = (if intr_off k then SPLHI else SPL0)"

definition cli :: "kern \<Rightarrow> kern" where
  "cli k = k\<lparr>intr_off := True\<rparr>"

definition sti :: "kern \<Rightarrow> kern" where
  "sti k = k\<lparr>intr_off := False\<rparr>"

definition ATOMIC_INCL_CPU_LOCKS :: "kern \<Rightarrow> kern" where
  "ATOMIC_INCL_CPU_LOCKS k = upd_cpu (\<lambda>c. c\<lparr>pc_locks := pc_locks c + 1\<rparr>) k"

definition ATOMIC_DECL_CPU_LOCKS :: "kern \<Rightarrow> kern" where
  "ATOMIC_DECL_CPU_LOCKS k = upd_cpu (\<lambda>c. c\<lparr>pc_locks := pc_locks c - 1\<rparr>) k"

definition p_lock :: "lockid \<Rightarrow> spl \<Rightarrow> kern \<Rightarrow> spl \<times> kern" where
  "p_lock l s k =
     (if s = SPLHI then (geti k, set_lock l True (ATOMIC_INCL_CPU_LOCKS (cli k)))
      else (SPL0, set_lock l True (ATOMIC_INCL_CPU_LOCKS k)))"

definition p_lock_void :: "lockid \<Rightarrow> spl \<Rightarrow> kern \<Rightarrow> kern" where
  "p_lock_void l s k =
     set_lock l True (ATOMIC_INCL_CPU_LOCKS (if s = SPLHI then cli k else k))"

text \<open>\<open>None\<close> is the result -1: the lock is held.\<close>

definition cp_lock :: "lockid \<Rightarrow> spl \<Rightarrow> kern \<Rightarrow> spl option \<times> kern" where
  "cp_lock l s k =
     (if l_lock l k then (None, k)
      else if s = SPLHI then (Some (geti k), set_lock l True (ATOMIC_INCL_CPU_LOCKS (cli k)))
      else (Some SPL0, set_lock l True (ATOMIC_INCL_CPU_LOCKS k)))"

definition v_lock :: "lockid \<Rightarrow> spl \<Rightarrow> kern \<Rightarrow> kern" where
  "v_lock l s k =
     (let k1 = set_lock l False k
      in ATOMIC_DECL_CPU_LOCKS (if s = SPL0 then sti k1 else k1))"

definition init_lock :: "lockid \<Rightarrow> kern \<Rightarrow> kern" where
  "init_lock l k = set_lock l False k"

definition splx :: "spl \<Rightarrow> kern \<Rightarrow> kern" where
  "splx s k = (if s = SPL0 then sti k else k)"

definition ATOMIC_INC_num_run :: "kern \<Rightarrow> kern" where
  "ATOMIC_INC_num_run k = k\<lparr>num_run := num_run k + 1\<rparr>"

definition ATOMIC_DEC_num_run :: "kern \<Rightarrow> kern" where
  "ATOMIC_DEC_num_run k = k\<lparr>num_run := num_run k - 1\<rparr>"

subsection \<open>Small operations on semaphores\<close>

definition blocked_sema :: "ptr \<Rightarrow> kern \<Rightarrow> bool" where
  "blocked_sema s k \<longleftrightarrow> s_count (sem k s) < 0"

definition init_sema :: "ptr \<Rightarrow> kern \<Rightarrow> kern" where
  "init_sema s k =
     init_lock (SemaLock s) (upd_sem s (\<lambda>x. x\<lparr>s_count := 1, s_sleepq := NULL\<rparr>) k)"

definition set_sema :: "ptr \<Rightarrow> int \<Rightarrow> kern \<Rightarrow> kern" where
  "set_sema s cnt k = upd_sem s (\<lambda>x. x\<lparr>s_count := cnt\<rparr>) k"

definition adj_sema :: "ptr \<Rightarrow> int \<Rightarrow> kern \<Rightarrow> kern" where
  "adj_sema s cnt k = upd_sem s (\<lambda>x. x\<lparr>s_count := s_count x + cnt\<rparr>) k"

subsection \<open>What locks leave alone\<close>

text \<open>Locking touches the lock flags, the lock count and the interrupt mask only.\<close>

named_theorems kern_simps \<open>fields a primitive leaves as they were\<close>

lemma upd_frame [kern_simps]:
  "thr (upd_sch s f k) = thr k" "thr (upd_sem s g k) = thr k" "thr (upd_cpu c k) = thr k"
  "sch (upd_thr t h k) = sch k" "sch (upd_sem s g k) = sch k" "sch (upd_cpu c k) = sch k"
  "sem (upd_thr t h k) = sem k" "sem (upd_sch s f k) = sem k" "sem (upd_cpu c k) = sem k"
  "cpus (upd_thr t h k) = cpus k" "cpus (upd_sch s f k) = cpus k" "cpus (upd_sem s g k) = cpus k"
  "this_cpu (upd_thr t h k) = this_cpu k" "this_cpu (upd_sch s f k) = this_cpu k"
  "this_cpu (upd_sem s g k) = this_cpu k" "this_cpu (upd_cpu c k) = this_cpu k"
  "runq_lock (upd_thr t h k) = runq_lock k" "runq_lock (upd_sch s f k) = runq_lock k"
  "runq_lock (upd_sem s g k) = runq_lock k" "runq_lock (upd_cpu c k) = runq_lock k"
  "nextcpu (upd_thr t h k) = nextcpu k" "nextcpu (upd_sch s f k) = nextcpu k"
  "nextcpu (upd_sem s g k) = nextcpu k" "nextcpu (upd_cpu c k) = nextcpu k"
  "num_run (upd_thr t h k) = num_run k" "num_run (upd_sch s f k) = num_run k"
  "num_run (upd_sem s g k) = num_run k" "num_run (upd_cpu c k) = num_run k"
  "intr_off (upd_thr t h k) = intr_off k" "intr_off (upd_sch s f k) = intr_off k"
  "intr_off (upd_sem s g k) = intr_off k" "intr_off (upd_cpu c k) = intr_off k"
  "spin (upd_thr t h k) = spin k" "spin (upd_sch s f k) = spin k"
  "spin (upd_sem s g k) = spin k" "spin (upd_cpu c k) = spin k"
  by (simp_all add: upd_thr_def upd_sch_def upd_sem_def upd_cpu_def)

lemma upd_at [kern_simps]:
  "thr (upd_thr t f k) = (thr k)(t := f (thr k t))"
  "sch (upd_sch s g k) = (sch k)(s := g (sch k s))"
  "sem (upd_sem s h k) = (sem k)(s := h (sem k s))"
  "cpus (upd_cpu c k) = (cpus k)(this_cpu k := c (cpu k))"
  by (simp_all add: upd_thr_def upd_sch_def upd_sem_def upd_cpu_def)

lemma set_lock_frame [kern_simps]:
  "thr (set_lock l b k) = thr k" "sch (set_lock l b k) = sch k" "cpus (set_lock l b k) = cpus k"
  "this_cpu (set_lock l b k) = this_cpu k" "num_run (set_lock l b k) = num_run k"
  "intr_off (set_lock l b k) = intr_off k"
  "s_count (sem (set_lock l b k) s) = s_count (sem k s)"
  "s_sleepq (sem (set_lock l b k) s) = s_sleepq (sem k s)"
  by (cases l; simp add: kern_simps)+

lemma intr_frame [kern_simps]:
  "thr (cli k) = thr k" "sch (cli k) = sch k" "sem (cli k) = sem k" "cpus (cli k) = cpus k"
  "this_cpu (cli k) = this_cpu k" "num_run (cli k) = num_run k" "spin (cli k) = spin k"
  "runq_lock (cli k) = runq_lock k" "intr_off (cli k) = True"
  "thr (sti k) = thr k" "sch (sti k) = sch k" "sem (sti k) = sem k" "cpus (sti k) = cpus k"
  "this_cpu (sti k) = this_cpu k" "num_run (sti k) = num_run k" "spin (sti k) = spin k"
  "runq_lock (sti k) = runq_lock k" "intr_off (sti k) = False"
  by (simp_all add: cli_def sti_def)

text \<open>The components the invariants read: threads, nodes, counts and queues of semaphores.\<close>

definition same_core :: "kern \<Rightarrow> kern \<Rightarrow> bool" where
  "same_core k k' \<longleftrightarrow> thr k' = thr k \<and> sch k' = sch k \<and>
     (\<forall>s. s_count (sem k' s) = s_count (sem k s) \<and> s_sleepq (sem k' s) = s_sleepq (sem k s))"

lemma same_core_trans: "same_core k k1 \<Longrightarrow> same_core k1 k2 \<Longrightarrow> same_core k k2"
  by (simp add: same_core_def)

lemma same_core_locks:
  "same_core k (p_lock_void l s k)" "same_core k (v_lock l s k)" "same_core k (snd (p_lock l s k))"
  "same_core k (snd (cp_lock l s k))" "same_core k (splx s k)" "same_core k (sti k)"
  "same_core k (cli k)"
  by (auto simp: same_core_def p_lock_void_def v_lock_def p_lock_def cp_lock_def splx_def
      ATOMIC_INCL_CPU_LOCKS_def ATOMIC_DECL_CPU_LOCKS_def Let_def kern_simps)

end
