(* ===== verification/Sched_Tree.thy ===== *)
theory Sched_Tree
  imports Sched
begin

text \<open>
  The invariant of the run queues of sched.c and the behaviour of its operations over it. The
  first part is about the tree: rings of children, parent pointers, and the count each node
  keeps of the runnable leaves below it; \<open>bump_nrun\<close> restores the counts level by level after a
  leaf came or went. The second part takes the tree and the three FIFO queues together
  (\<open>runq_inv\<close>) with an abstract view of them (\<open>runqs\<close>), and shows that enqueueing (\<open>lsetrun\<close>) and
  choosing (\<open>swtch\<close>) end, keep the invariant and do to the view what they should. The last part
  counts the draws of \<open>pick_run\<close>.
\<close>

subsection \<open>The tree\<close>

text \<open>
  \<open>I\<close> are the internal nodes, \<open>ch\<close> the children linked below each, \<open>nr\<close> the number of runnable
  leaves below a node and \<open>ht\<close> a height. An internal node is linked below its parent for good; a
  leaf only while its thread waits for the CPU in the tree.
\<close>

definition tree_child :: "kern \<Rightarrow> ptr set \<Rightarrow> (ptr \<Rightarrow> int) \<Rightarrow> (ptr \<Rightarrow> nat) \<Rightarrow> ptr \<Rightarrow> ptr \<Rightarrow> bool" where
  "tree_child k I nr ht p c \<longleftrightarrow> s_up (sch k c) = p \<and>
     (if c \<in> I then ht c < ht p
      else s_leaf (sch k c) \<and> nr c = 1 \<and> s_nrun (sch k c) = 1)"

definition tree_node :: "kern \<Rightarrow> ptr set \<Rightarrow> (ptr \<Rightarrow> ptr list) \<Rightarrow> (ptr \<Rightarrow> int) \<Rightarrow> (ptr \<Rightarrow> nat) \<Rightarrow> ptr \<Rightarrow> bool" where
  "tree_node k I ch nr ht p \<longleftrightarrow> p \<noteq> NULL \<and> \<not> s_leaf (sch k p) \<and> kids k p (ch p) \<and>
     s_nrun (sch k p) = of_int (nr p) \<and> 0 \<le> nr p \<and>
     (if s_up (sch k p) = NULL then s_hd (sch k p) = p
      else s_up (sch k p) \<in> I \<and> p \<in> set (ch (s_up (sch k p)))) \<and>
     (\<forall>c\<in>set (ch p). tree_child k I nr ht p c)"

text \<open>The count of \<open>p\<close> is still to be changed by \<open>d\<close>; with \<open>d = 0\<close> the tree is in order.\<close>

definition tree_pend ::
  "kern \<Rightarrow> ptr set \<Rightarrow> (ptr \<Rightarrow> ptr list) \<Rightarrow> (ptr \<Rightarrow> int) \<Rightarrow> (ptr \<Rightarrow> nat) \<Rightarrow> ptr \<Rightarrow> int \<Rightarrow> bool" where
  "tree_pend k I ch nr ht p d \<longleftrightarrow> finite I \<and> (\<forall>q\<in>I. tree_node k I ch nr ht q) \<and>
     (\<forall>q\<in>I. nr q + (if q = p then d else 0) = (\<Sum>c\<leftarrow>ch q. nr c))"

definition tree_ok :: "kern \<Rightarrow> ptr set \<Rightarrow> (ptr \<Rightarrow> ptr list) \<Rightarrow> (ptr \<Rightarrow> int) \<Rightarrow> (ptr \<Rightarrow> nat) \<Rightarrow> bool" where
  "tree_ok k I ch nr ht \<longleftrightarrow> tree_pend k I ch nr ht NULL 0"

lemma tree_pend_node: "tree_pend k I ch nr ht p d \<Longrightarrow> q \<in> I \<Longrightarrow> tree_node k I ch nr ht q"
  by (simp add: tree_pend_def)

lemma tree_ok_node: "tree_ok k I ch nr ht \<Longrightarrow> q \<in> I \<Longrightarrow> tree_node k I ch nr ht q"
  by (simp add: tree_ok_def tree_pend_def)

lemma tree_nodeD:
  assumes "tree_node k I ch nr ht p"
  shows "p \<noteq> NULL" "\<not> s_leaf (sch k p)" "kids k p (ch p)" "s_nrun (sch k p) = of_int (nr p)"
    "0 \<le> nr p" "s_up (sch k p) = NULL \<Longrightarrow> s_hd (sch k p) = p"
    "s_up (sch k p) \<noteq> NULL \<Longrightarrow> s_up (sch k p) \<in> I \<and> p \<in> set (ch (s_up (sch k p)))"
    "c \<in> set (ch p) \<Longrightarrow> tree_child k I nr ht p c" "distinct (ch p)"
  using assms hring_distinct by (auto simp: tree_node_def kids_def split: if_splits)

lemma tree_ok_sum: "tree_ok k I ch nr ht \<Longrightarrow> p \<in> I \<Longrightarrow> nr p = (\<Sum>c\<leftarrow>ch p. nr c)"
  by (auto simp: tree_ok_def tree_pend_def split: if_splits)

lemma tree_child_nonneg:
  "tree_pend k I ch nr ht q d \<Longrightarrow> p \<in> I \<Longrightarrow> c \<in> set (ch p) \<Longrightarrow> 0 \<le> nr c"
  using tree_nodeD(8) [OF tree_pend_node, of k I ch nr ht q d p c]
    tree_nodeD(5) [OF tree_pend_node, of k I ch nr ht q d c]
  by (cases "c \<in> I") (auto simp: tree_child_def)

lemma member_le_sum_list_int:
  "\<forall>x\<in>set xs. 0 \<le> f x \<Longrightarrow> c \<in> set xs \<Longrightarrow> f c \<le> (\<Sum>x\<leftarrow>xs. f x :: int)"
proof (induction xs)
  case (Cons a xs)
  moreover have "0 \<le> (\<Sum>x\<leftarrow>xs. f x)" using Cons(2) by (intro sum_list_nonneg) auto
  ultimately show ?case by auto
qed simp

lemma tree_child_le:
  assumes "tree_ok k I ch nr ht" "p \<in> I" "c \<in> set (ch p)"
  shows "nr c \<le> nr p"
proof -
  have "\<forall>x\<in>set (ch p). 0 \<le> nr x"
    using tree_child_nonneg [of k I ch nr ht NULL 0 p] assms by (simp add: tree_ok_def)
  then have "nr c \<le> (\<Sum>c\<leftarrow>ch p. nr c)" using assms(3) by (rule member_le_sum_list_int)
  then show ?thesis using tree_ok_sum [OF assms(1,2)] by simp
qed

text \<open>Only counts of internal nodes change.\<close>

definition recounted :: "ptr set \<Rightarrow> kern \<Rightarrow> kern \<Rightarrow> bool" where
  "recounted I k k' \<longleftrightarrow>
     (\<forall>p. s_hd (sch k' p) = s_hd (sch k p) \<and> s_tl (sch k' p) = s_tl (sch k p) \<and>
          s_u (sch k' p) = s_u (sch k p) \<and> s_up (sch k' p) = s_up (sch k p) \<and>
          s_prio (sch k' p) = s_prio (sch k p) \<and> s_leaf (sch k' p) = s_leaf (sch k p) \<and>
          (p \<notin> I \<longrightarrow> s_nrun (sch k' p) = s_nrun (sch k p))) \<and>
     thr k' = thr k \<and> sem k' = sem k \<and> cpus k' = cpus k \<and> this_cpu k' = this_cpu k \<and> nextcpu k' = nextcpu k"

lemma recountedD:
  assumes "recounted I k k'"
  shows "s_hd (sch k' p) = s_hd (sch k p)" "s_tl (sch k' p) = s_tl (sch k p)"
    "s_u (sch k' p) = s_u (sch k p)" "s_up (sch k' p) = s_up (sch k p)"
    "s_prio (sch k' p) = s_prio (sch k p)" "s_leaf (sch k' p) = s_leaf (sch k p)"
    "p \<notin> I \<Longrightarrow> s_nrun (sch k' p) = s_nrun (sch k p)" "thr k' = thr k" "sem k' = sem k"
    "cpus k' = cpus k" "this_cpu k' = this_cpu k"
    "nextcpu k' = nextcpu k"
  using assms by (simp_all add: recounted_def)

lemma recounted_refl: "recounted I k k"
  by (simp add: recounted_def)

lemma recounted_trans: "recounted I k k1 \<Longrightarrow> recounted I k1 k2 \<Longrightarrow> recounted I k k2"
  by (simp add: recounted_def)

lemma recounted_upd: "p \<in> I \<Longrightarrow> recounted I k (upd_sch p (\<lambda>n. n\<lparr>s_nrun := x n\<rparr>) k)"
  by (auto simp: recounted_def kern_simps)

lemma recounted_kids: "recounted I k k' \<Longrightarrow> kids k' p xs = kids k p xs"
  by (simp add: recounted_def kids_def)

lemma recounted_child:
  "recounted I k k' \<Longrightarrow> \<forall>c. c \<notin> I \<longrightarrow> nr' c = nr c \<Longrightarrow>
    tree_child k' I nr' ht p c = tree_child k I nr ht p c"
  by (simp add: recounted_def tree_child_def)

lemma sum_list_upd:
  "distinct xs \<Longrightarrow> (\<Sum>c\<leftarrow>xs. (f(p := v)) c) =
    (\<Sum>c\<leftarrow>xs. f c) + (if p \<in> set xs then v - f p else (0 :: int))"
  by (induction xs) auto

lemma tree_pend_null:
  assumes "NULL \<notin> I"
  shows "tree_pend k I ch nr ht NULL d \<longleftrightarrow> tree_ok k I ch nr ht"
proof -
  have "(if q = NULL then e else 0) = (0 :: int)" if "q \<in> I" for q e
    using assms that by auto
  then show ?thesis by (simp add: tree_ok_def tree_pend_def cong: ball_cong)
qed

lemma bump_step:
  assumes pend: "tree_pend k I ch nr ht p d" and p: "p \<in> I"
  defines "k1 \<equiv> upd_sch p (\<lambda>n. n\<lparr>s_nrun := s_nrun n + of_int d\<rparr>) k"
  shows "tree_pend k1 I ch (nr(p := nr p + d)) ht (s_up (sch k p)) d"
    and "s_up (sch k p) = NULL \<Longrightarrow> tree_ok k1 I ch (nr(p := nr p + d)) ht"
proof -
  let ?nr = "nr(p := nr p + d)" and ?u = "s_up (sch k p)"
  have rec: "recounted I k k1" unfolding k1_def by (rule recounted_upd [OF p])
  have "0 \<le> (\<Sum>c\<leftarrow>ch p. nr c)"
    using tree_child_nonneg [OF pend p] by (intro sum_list_nonneg) auto
  then have nonneg: "0 \<le> nr p + d" using pend p by (auto simp: tree_pend_def)
  have nodes: "tree_node k1 I ch ?nr ht q" if q: "q \<in> I" for q
  proof -
    note n = tree_nodeD [OF tree_pend_node [OF pend q]]
    have "\<forall>c\<in>set (ch q). tree_child k1 I ?nr ht q c"
      using n(8) recounted_child [OF rec, of ?nr nr ht q] p by auto
    moreover have "s_nrun (sch k1 q) = of_int (?nr q)" "0 \<le> ?nr q"
      using n(4,5) nonneg by (cases "q = p"; simp add: k1_def kern_simps)+
    ultimately show ?thesis
      unfolding tree_node_def recounted_kids [OF rec]
      using n(1-3,6,7) by (simp add: recountedD [OF rec])
  qed
  have sums: "?nr q + (if q = ?u then d else 0) = (\<Sum>c\<leftarrow>ch q. ?nr c)" if q: "q \<in> I" for q
  proof -
    note n = tree_nodeD [OF tree_pend_node [OF pend q]] and np = tree_nodeD [OF tree_pend_node [OF pend p]]
    have mem: "p \<in> set (ch q) \<longleftrightarrow> q = ?u"
      using n(1) n(8) [of p] np(7) by (auto simp: tree_child_def)
    have "nr q + (if q = p then d else 0) = (\<Sum>c\<leftarrow>ch q. nr c)"
      using pend q by (simp add: tree_pend_def)
    then show ?thesis
      unfolding sum_list_upd [OF n(9)] mem by auto
  qed
  show pend1: "tree_pend k1 I ch ?nr ht ?u d"
    using pend nodes sums by (simp add: tree_pend_def)
  assume "?u = NULL"
  moreover have "NULL \<notin> I" using tree_nodeD(1) [OF tree_pend_node [OF pend]] by blast
  ultimately show "tree_ok k1 I ch ?nr ht"
    using pend1 tree_pend_null [of I k1 ch ?nr ht d] by simp
qed

lemma bump_tree:
  assumes "tree_pend k I ch nr ht p d" "p \<in> I"
  shows "\<exists>k' nr'. bump_nrun (of_int d) p k = Some k' \<and> tree_ok k' I ch nr' ht \<and> recounted I k k'
    \<and> (\<forall>c. c \<notin> I \<longrightarrow> nr' c = nr c) \<and> (\<forall>c. nr' c = nr c \<or> nr' c = nr c + d) \<and>
    (\<forall>c. ht c < ht p \<longrightarrow> nr' c = nr c)"
  using assms
proof (induction "Max (ht ` I) - ht p" arbitrary: k nr p rule: less_induct)
  case less
  note n = tree_nodeD [OF tree_pend_node [OF less(2,3)]]
  let ?k1 = "upd_sch p (\<lambda>n. n\<lparr>s_nrun := s_nrun n + of_int d\<rparr>) k" and ?nr = "nr(p := nr p + d)"
  let ?u = "s_up (sch k p)"
  note step = bump_step [OF less(2,3)]
  have rec: "recounted I k ?k1" by (rule recounted_upd [OF less(3)])
  have unf: "bump_nrun (of_int d) p k = bump_nrun (of_int d) ?u ?k1"
    using n(1) by (subst bump_nrun.simps) simp
  show ?case
  proof (cases "?u = NULL")
    case True
    then have "bump_nrun (of_int d) p k = Some ?k1"
      unfolding unf by (subst bump_nrun.simps) simp
    with step(2) [OF True] rec less(3) show ?thesis
      by (intro exI [of _ ?k1] exI [of _ ?nr]) auto
  next
    case False
    then have u: "?u \<in> I" "p \<in> set (ch ?u)" using n(7) by auto
    have h: "ht p < ht ?u"
      using tree_nodeD(8) [OF tree_pend_node [OF less(2) u(1)] u(2)] less(3) by (simp add: tree_child_def)
    have "ht ?u \<le> Max (ht ` I)" using less(2) u(1) by (intro Max_ge) (auto simp: tree_pend_def)
    with h have "Max (ht ` I) - ht ?u < Max (ht ` I) - ht p" by linarith
    from less(1) [OF this step(1) u(1)] obtain k' nr' where
      k': "bump_nrun (of_int d) ?u ?k1 = Some k'" "tree_ok k' I ch nr' ht" "recounted I ?k1 k'"
        "\<forall>c. c \<notin> I \<longrightarrow> nr' c = ?nr c" "\<forall>c. nr' c = ?nr c \<or> nr' c = ?nr c + d"
        "\<forall>c. ht c < ht ?u \<longrightarrow> nr' c = ?nr c" by blast
    have low: "\<forall>c. ht c < ht p \<longrightarrow> nr' c = nr c"
      using k'(6) h by (metis fun_upd_apply less_irrefl less_trans)
    have "nr' p = nr p + d" using k'(6) h by simp
    then have "\<forall>c. nr' c = nr c \<or> nr' c = nr c + d"
      using k'(5) by (metis fun_upd_apply)
    with low recounted_trans [OF rec k'(3)] less(3) k' show ?thesis
      unfolding unf by (intro exI [of _ k'] exI [of _ nr']) auto
  qed
qed

subsection \<open>Descending to a leaf\<close>

definition candidates :: "kern \<Rightarrow> ptr list \<Rightarrow> ptr list" where
  "candidates k ss = filter (\<lambda>s. s_nrun (sch k s) \<noteq> 0) ss"

lemma sum_pass_eq:
  "sum_pass k ss =
    (if candidates k ss = [] then NULL else last (candidates k ss),
     (\<Sum>s\<leftarrow>candidates k ss. s_prio (sch k s)), length (candidates k ss))"
proof -
  have "foldl (\<lambda>(pick, tot, nrun) s2.
              if s_nrun (sch k s2) \<noteq> 0 then (s2, tot + s_prio (sch k s2), nrun + 1)
              else (pick, tot, nrun)) (p, t, n) ss =
    (if candidates k ss = [] then p else last (candidates k ss),
     t + (\<Sum>s\<leftarrow>candidates k ss. s_prio (sch k s)), n + length (candidates k ss))" for p t n
    by (induction ss arbitrary: p t n) (auto simp: candidates_def add.assoc)
  then show ?thesis by (simp add: sum_pass_def)
qed

lemma draw_pass_mem:
  "candidates k ss \<noteq> [] \<Longrightarrow> draw_pass k ss tot pick \<in> set (candidates k ss)"
proof (induction ss arbitrary: tot pick)
  case (Cons a ss)
  have "draw_pass k ss t p \<in> set (candidates k ss) \<or> candidates k ss = [] \<and> draw_pass k ss t p = p" for t p
  proof (cases "candidates k ss = []")
    case True
    then have "draw_pass k ss t p = p"
      by (induction ss arbitrary: t p) (auto simp: candidates_def split: if_splits)
    with True show ?thesis by simp
  qed (use Cons(1) in simp)
  with Cons show ?case by (fastforce simp: candidates_def)
qed (simp add: candidates_def)

text \<open>Priorities are positive and their sums stay below the word width.\<close>

definition prio_ok :: "kern \<Rightarrow> ptr list \<Rightarrow> bool" where
  "prio_ok k ss \<longleftrightarrow> (\<forall>s\<in>set ss. s_prio (sch k s) \<noteq> 0) \<and>
     (\<Sum>s\<leftarrow>ss. unat (s_prio (sch k s))) < 2 ^ 32"

lemma unat_sum_list:
  "(\<Sum>x\<leftarrow>xs. unat (f x)) < 2 ^ 32 \<Longrightarrow> unat (\<Sum>x\<leftarrow>xs. f x :: uint) = (\<Sum>x\<leftarrow>xs. unat (f x))"
  by (induction xs) (simp_all add: unat_add_u32)

lemma sum_list_filter_le: "(\<Sum>x\<leftarrow>filter P xs. f x :: nat) \<le> (\<Sum>x\<leftarrow>xs. f x)"
  by (induction xs) auto

lemma pick_level_mem:
  assumes sib: "siblings (shd k) s s = Some ss" and pr: "prio_ok k ss" and c: "candidates k ss \<noteq> []"
  obtains p where "pick_level k rnd s = Some p" "p \<in> set (candidates k ss)"
proof -
  let ?c = "candidates k ss"
  have "(\<Sum>s\<leftarrow>?c. unat (s_prio (sch k s))) < 2 ^ 32"
    using pr sum_list_filter_le [of "\<lambda>s. unat (s_prio (sch k s))" "\<lambda>s. s_nrun (sch k s) \<noteq> 0" ss]
    by (simp add: prio_ok_def candidates_def)
  then have "unat (\<Sum>s\<leftarrow>?c. s_prio (sch k s)) = (\<Sum>s\<leftarrow>?c. unat (s_prio (sch k s)))"
    by (rule unat_sum_list)
  moreover have "0 < (\<Sum>s\<leftarrow>?c. unat (s_prio (sch k s)))"
  proof -
    obtain x where "x \<in> set ?c" using c by (cases ?c) auto
    moreover from this have "0 < unat (s_prio (sch k x))"
      using pr by (simp add: prio_ok_def candidates_def unat_pos_iff)
    ultimately show ?thesis
      by (metis (no_types, lifting) gr_zeroI imageI list.set_map not_less_zero sum_list_eq_0_iff)
  qed
  ultimately have nz: "(\<Sum>s\<leftarrow>?c. s_prio (sch k s)) \<noteq> 0" by (metis unat_0 less_numeral_extra(3))
  show ?thesis
  proof (cases "1 < length ?c")
    case True
    then have "pick_level k rnd s = Some (draw_pass k ss (rnd mod (\<Sum>s\<leftarrow>?c. s_prio (sch k s))) (last ?c))"
      using sib nz c by (simp add: pick_level_def sum_pass_eq)
    then show ?thesis by (rule that) (rule draw_pass_mem [OF c])
  next
    case False
    then have "pick_level k rnd s = Some (last ?c)"
      using sib nz c by (simp add: pick_level_def sum_pass_eq)
    then show ?thesis by (rule that) (rule last_in_set [OF c])
  qed
qed

lemma tree_candidates:
  assumes ok: "tree_ok k I ch nr ht" and p: "p \<in> I" and pos: "0 < nr p" "nr p < 2 ^ 32"
  shows "candidates k (ch p) \<noteq> []"
    and "\<And>c. c \<in> set (candidates k (ch p)) \<Longrightarrow>
      c \<in> set (ch p) \<and> tree_child k I nr ht p c \<and> 0 < nr c \<and> nr c < 2 ^ 32"
proof -
  note n = tree_nodeD [OF tree_ok_node [OF ok p]]
  have nrun: "s_nrun (sch k c) = of_int (nr c)" "0 \<le> nr c" "nr c < 2 ^ 32" if c: "c \<in> set (ch p)" for c
  proof -
    show "s_nrun (sch k c) = of_int (nr c)"
    proof (cases "c \<in> I")
      case True
      then show ?thesis by (rule tree_nodeD(4) [OF tree_ok_node [OF ok]])
    next
      case False
      then show ?thesis using n(8) [OF c] by (simp add: tree_child_def)
    qed
    show "0 \<le> nr c" by (rule tree_child_nonneg [OF ok [unfolded tree_ok_def] p c])
    show "nr c < 2 ^ 32" using tree_child_le [OF ok p c] pos(2) by linarith
  qed
  have nz: "s_nrun (sch k c) \<noteq> 0 \<longleftrightarrow> 0 < nr c" if c: "c \<in> set (ch p)" for c
  proof -
    have "uint (of_int (nr c) :: uint) = nr c"
      using nrun(2,3) [OF c] by (simp only: uint_word_of_int) simp
    then have "uint (s_nrun (sch k c)) = nr c" using nrun(1) [OF c] by simp
    then show ?thesis using nrun(2) [OF c] uint_0_iff [of "s_nrun (sch k c)"] by linarith
  qed
  have "\<exists>c\<in>set (ch p). 0 < nr c"
  proof (rule ccontr)
    assume "\<not> (\<exists>c\<in>set (ch p). 0 < nr c)"
    then have "\<forall>x\<in>set (ch p). nr x \<le> 0" by force
    then have "(\<Sum>c\<leftarrow>ch p. nr c) \<le> 0" by (intro sum_list_nonpos) auto
    with tree_ok_sum [OF ok p] pos(1) show False by linarith
  qed
  then obtain c where c: "c \<in> set (ch p)" "0 < nr c" by blast
  then have "c \<in> set (candidates k (ch p))" using nz [OF c(1)] by (simp add: candidates_def)
  then show "candidates k (ch p) \<noteq> []" by (metis empty_iff list.set(1))
  show "c \<in> set (ch p) \<and> tree_child k I nr ht p c \<and> 0 < nr c \<and> nr c < 2 ^ 32"
    if "c \<in> set (candidates k (ch p))" for c
  proof -
    have c: "c \<in> set (ch p)" "s_nrun (sch k c) \<noteq> 0" using that by (simp_all add: candidates_def)
    show ?thesis by (intro conjI c(1) n(8) [OF c(1)] nrun(3) [OF c(1)] nz [OF c(1), THEN iffD1, OF c(2)])
  qed
qed

lemma pick_leaf_tree:
  assumes "tree_ok k I ch nr ht" "p \<in> I" "0 < nr p" "nr p < 2 ^ 32" "\<forall>q\<in>I. prio_ok k (ch q)"
  shows "\<exists>c. pick_leaf k rnds i (s_u (sch k p)) = Some c \<and> c \<notin> I \<and> s_leaf (sch k c) \<and>
    s_up (sch k c) \<in> I \<and> c \<in> set (ch (s_up (sch k c)))"
  using assms(2-4)
proof (induction "ht p" arbitrary: p i rule: less_induct)
  case less
  note ok = assms(1) and n = tree_nodeD [OF tree_ok_node [OF assms(1) less(2)]]
  note cand = tree_candidates [OF ok less(2-4)]
  have ne: "ch p \<noteq> []" using cand(1) by (auto simp: candidates_def)
  obtain c where c: "pick_level k (rnds i) (s_u (sch k p)) = Some c" "c \<in> set (candidates k (ch p))"
    using pick_level_mem [OF siblings_kids [OF n(3) ne] _ cand(1)] assms(5) less(2) by blast
  have cc: "c \<in> set (ch p)" "tree_child k I nr ht p c" "0 < nr c" "nr c < 2 ^ 32"
    using cand(2) [OF c(2)] by auto
  show ?case
  proof (cases "c \<in> I")
    case True
    then have "\<not> s_leaf (sch k c)" "ht c < ht p"
      using tree_nodeD(2) [OF tree_ok_node [OF ok True]] cc(2) by (auto simp: tree_child_def)
    with less(1) [of c "i + 1"] True cc c(1) show ?thesis
      by (subst pick_leaf.simps) simp
  next
    case False
    with cc c(1) less(2) show ?thesis
      by (subst pick_leaf.simps) (simp add: tree_child_def)
  qed
qed

subsection \<open>Linking and unlinking a leaf\<close>

lemma kids_nrun [simp]: "kids (upd_sch s (\<lambda>n. n\<lparr>s_nrun := f n\<rparr>) k) p xs = kids k p xs"
proof -
  have "shd (upd_sch s (\<lambda>n. n\<lparr>s_nrun := f n\<rparr>) k) = shd k" "stl (upd_sch s (\<lambda>n. n\<lparr>s_nrun := f n\<rparr>) k) = stl k"
    "s_u (sch (upd_sch s (\<lambda>n. n\<lparr>s_nrun := f n\<rparr>) k) p) = s_u (sch k p)"
    by (auto simp: kern_simps)
  then show ?thesis by (simp add: kids_def)
qed

lemma nrun_frame:
  "s_up (sch (upd_sch s (\<lambda>n. n\<lparr>s_nrun := f n\<rparr>) k) p) = s_up (sch k p)"
  "s_hd (sch (upd_sch s (\<lambda>n. n\<lparr>s_nrun := f n\<rparr>) k) p) = s_hd (sch k p)"
  "s_u (sch (upd_sch s (\<lambda>n. n\<lparr>s_nrun := f n\<rparr>) k) p) = s_u (sch k p)"
  "s_prio (sch (upd_sch s (\<lambda>n. n\<lparr>s_nrun := f n\<rparr>) k) p) = s_prio (sch k p)"
  "s_leaf (sch (upd_sch s (\<lambda>n. n\<lparr>s_nrun := f n\<rparr>) k) p) = s_leaf (sch k p)"
  "s_nrun (sch (upd_sch s (\<lambda>n. n\<lparr>s_nrun := f n\<rparr>) k) p) = (if p = s then f (sch k s) else s_nrun (sch k p))"
  by (simp_all add: kern_simps)

text \<open>
  Relinking the children of \<open>p\<close> with only the leaf \<open>s\<close> coming or going keeps every node's shape.
\<close>

lemma relink_nodes:
  assumes ok: "tree_ok k I ch nr ht" and p: "p \<in> I" and s: "s \<notin> I" "s_up (sch k s) = p"
    and rl: "relinked p A k k1" "A \<subseteq> insert s (set (ch p))"
    and kids: "kids k1 p xs'" "insert s (set xs') = insert s (set (ch p))"
    and k2: "k2 = upd_sch s (\<lambda>n. n\<lparr>s_nrun := f n\<rparr>) k1"
    and nr': "\<And>c. c \<noteq> s \<Longrightarrow> nr' c = nr c"
    and new: "s \<in> set xs' \<Longrightarrow> tree_child k2 I nr' ht p s"
    and q: "q \<in> I"
  shows "tree_node k2 I (ch(p := xs')) nr' ht q"
proof -
  note n = tree_nodeD [OF tree_ok_node [OF ok q]]
  note np = tree_nodeD [OF tree_ok_node [OF ok p]]
  have Aup: "s_up (sch k a) = p" if "a \<in> A" for a
    using rl(2) s(2) np(8) that by (auto simp: tree_child_def)
  have qs: "q \<noteq> s" using q s(1) by blast
  have kq: "kids k2 q ((ch(p := xs')) q)"
  proof (cases "q = p")
    case False
    then have "set (ch q) \<inter> A = {}" using Aup n(8) by (auto simp: tree_child_def)
    with False show ?thesis using kids_frame [OF rl(1) n(3)] by (simp add: k2)
  qed (use kids in \<open>simp add: k2\<close>)
  have child: "tree_child k2 I nr' ht q c" if c: "c \<in> set ((ch(p := xs')) q)" for c
  proof (cases "c = s")
    case True
    have "q = p"
    proof (rule ccontr)
      assume "q \<noteq> p"
      with c True n(8) [of s] s(2) show False by (simp add: tree_child_def)
    qed
    with True c new show ?thesis by simp
  next
    case False
    then have "c \<in> set (ch q)" using c kids(2) by (auto split: if_splits)
    with n(8) False show ?thesis
      by (simp add: tree_child_def k2 nrun_frame relinkedD(1-4) [OF rl(1)] nr')
  qed
  have up: "if s_up (sch k2 q) = NULL then s_hd (sch k2 q) = q
      else s_up (sch k2 q) \<in> I \<and> q \<in> set ((ch(p := xs')) (s_up (sch k2 q)))"
  proof (cases "s_up (sch k q) = NULL")
    case True
    then have "q \<notin> A" using Aup np(1) by auto
    with True n(6) show ?thesis by (simp add: k2 nrun_frame relinkedD(1,8) [OF rl(1)])
  next
    case False
    then have "q \<in> set (ch (s_up (sch k q)))" using n(7) by blast
    with qs kids(2) have "q \<in> set ((ch(p := xs')) (s_up (sch k q)))" by auto
    with False n(7) show ?thesis by (simp add: k2 nrun_frame relinkedD(1) [OF rl(1)])
  qed
  have fld: "s_leaf (sch k2 q) = s_leaf (sch k q)" "s_nrun (sch k2 q) = s_nrun (sch k q)" "nr' q = nr q"
    using qs by (simp_all add: k2 nrun_frame relinkedD(3,4) [OF rl(1)] nr')
  show ?thesis
    unfolding tree_node_def fld using n(1,2,4,5) kq child up by blast
qed

lemma leaf_in_one:
  assumes "tree_ok k I ch nr ht" "q \<in> I" "s \<in> set (ch q)" shows "s_up (sch k s) = q"
  using tree_nodeD(8) [OF tree_ok_node [OF assms(1,2)] assms(3)] by (simp add: tree_child_def)

lemma queue_tree:
  assumes ok: "tree_ok k I ch nr ht" and p: "p \<in> I"
    and s: "s \<noteq> NULL" "s \<notin> I" "s_leaf (sch k s)" "s_nrun (sch k s) = 0" "s_up (sch k s) = p"
  shows "tree_pend (upd_sch s (\<lambda>n. n\<lparr>s_nrun := s_nrun n + 1\<rparr>) (queue p s k)) I
    (ch(p := ch p @ [s])) (nr(s := 1)) ht p 1"
proof -
  let ?k1 = "queue p s k" and ?nr = "nr(s := 1)"
  let ?k2 = "upd_sch s (\<lambda>n. n\<lparr>s_nrun := s_nrun n + 1\<rparr>) ?k1"
  note np = tree_nodeD [OF tree_ok_node [OF ok p]]
  have out: "s \<notin> set (ch q)" if "q \<in> I" for q
  proof
    assume "s \<in> set (ch q)"
    then have "tree_child k I nr ht q s" using tree_nodeD(8) [OF tree_ok_node [OF ok that]] by blast
    with s show False by (simp add: tree_child_def)
  qed
  have rl: "relinked p (insert s (set (ch p))) k ?k1" by (rule queue_relinked [OF np(3)])
  have new: "tree_child ?k2 I ?nr ht p s"
    using s by (simp add: tree_child_def nrun_frame relinkedD(1,3,4) [OF rl])
  have "tree_node ?k2 I (ch(p := ch p @ [s])) ?nr ht q" if "q \<in> I" for q
    using queue_kids [OF np(3) s(1) out [OF p]]
    by (rule relink_nodes [OF ok p s(2,5) rl order_refl _ _ refl _ _ that]) (simp_all add: new)
  moreover have "?nr q + (if q = p then 1 else 0) = (\<Sum>c\<leftarrow>(ch(p := ch p @ [s])) q. ?nr c)" if q: "q \<in> I" for q
  proof -
    have "(\<Sum>c\<leftarrow>ch q. ?nr c) = nr q" "?nr q = nr q"
      using out [OF q] tree_ok_sum [OF ok q] q s(2) by (auto intro!: arg_cong [where f = sum_list] map_cong)
    then show ?thesis by auto
  qed
  ultimately show ?thesis using ok by (simp add: tree_pend_def tree_ok_def)
qed

lemma dequeue_tree:
  assumes ok: "tree_ok k I ch nr ht" and p: "p \<in> I" and s: "s \<in> set (ch p)" "s \<notin> I"
  shows "tree_pend (upd_sch s (\<lambda>n. n\<lparr>s_nrun := s_nrun n + (- 1)\<rparr>) (dequeue p s k)) I
    (ch(p := remove1 s (ch p))) nr ht p (- 1)"
proof -
  let ?k1 = "dequeue p s k" and ?xs = "remove1 s (ch p)"
  let ?k2 = "upd_sch s (\<lambda>n. n\<lparr>s_nrun := s_nrun n + (- 1)\<rparr>) ?k1"
  note np = tree_nodeD [OF tree_ok_node [OF ok p]]
  have up: "s_up (sch k s) = p" by (rule leaf_in_one [OF ok p s(1)])
  have nr1: "nr s = 1" using np(8) [OF s(1)] s(2) by (simp add: tree_child_def)
  have rl: "relinked p (set (ch p)) k ?k1" by (rule dequeue_relinked [OF np(3) s(1)])
  have sx: "s \<notin> set ?xs" "insert s (set ?xs) = insert s (set (ch p))" using np(9) by auto
  have "tree_node ?k2 I (ch(p := ?xs)) nr ht q" if "q \<in> I" for q
    using dequeue_kids [OF np(3) s(1)] sx(2)
    by (rule relink_nodes [OF ok p s(2) up rl subset_insertI _ _ refl refl _ that]) (use sx in simp)
  moreover have "nr q + (if q = p then - 1 else 0) = (\<Sum>c\<leftarrow>(ch(p := ?xs)) q. nr c)" if q: "q \<in> I" for q
  proof -
    have "(\<Sum>c\<leftarrow>ch q. nr c) = nr q" using tree_ok_sum [OF ok q] by simp
    moreover have "(\<Sum>c\<leftarrow>ch p. nr c) = nr s + (\<Sum>c\<leftarrow>?xs. nr c)"
      using s(1) by (rule sum_list_map_remove1)
    ultimately show ?thesis using nr1 by auto
  qed
  ultimately show ?thesis using ok by (simp add: tree_pend_def tree_ok_def)
qed

subsection \<open>The run queues as a whole\<close>

text \<open>The abstract view: the internal nodes, the children of each, and the three FIFO queues.\<close>

record runqs =
  v_nodes :: "ptr set"
  v_kids :: "ptr \<Rightarrow> ptr list"
  v_fifo :: "ptr \<Rightarrow> ptr list"

definition fifos :: "ptr set" where
  "fifos = {sched_rt, sched_cheated, sched_bg}"

text \<open>A leaf that is in no tree position: in a FIFO queue, or in none.\<close>

definition free_leaf :: "kern \<Rightarrow> ptr set \<Rightarrow> ptr \<Rightarrow> bool" where
  "free_leaf k I s \<longleftrightarrow> s \<noteq> NULL \<and> s \<notin> I \<and> s_leaf (sch k s) \<and> s_nrun (sch k s) = 0 \<and>
     s_up (sch k s) \<in> I"

definition runq_inv :: "kern \<Rightarrow> runqs \<Rightarrow> bool" where
  "runq_inv k v \<longleftrightarrow>
     (\<exists>nr ht. tree_ok k (v_nodes v) (v_kids v) nr ht \<and> nr sched_root < 2 ^ 32) \<and>
     sched_root \<in> v_nodes v \<and> (\<forall>p\<in>v_nodes v. s_up (sch k p) = NULL \<longleftrightarrow> p = sched_root) \<and>
     fifos \<inter> v_nodes v = {} \<and> (\<forall>x\<in>fifos. \<not> s_leaf (sch k x)) \<and>
     (\<forall>x\<in>fifos. kids k x (v_fifo v x) \<and> (\<forall>s\<in>set (v_fifo v x). free_leaf k (v_nodes v) s)) \<and>
     (\<forall>x\<in>fifos. \<forall>y\<in>fifos. x \<noteq> y \<longrightarrow> set (v_fifo v x) \<inter> set (v_fifo v y) = {})"

lemma runq_invD:
  assumes "runq_inv k v"
  shows "sched_root \<in> v_nodes v" "s_up (sch k sched_root) = NULL" "x \<in> fifos \<Longrightarrow> x \<notin> v_nodes v"
    "x \<in> fifos \<Longrightarrow> \<not> s_leaf (sch k x)" "x \<in> fifos \<Longrightarrow> kids k x (v_fifo v x)"
    "x \<in> fifos \<Longrightarrow> s \<in> set (v_fifo v x) \<Longrightarrow> free_leaf k (v_nodes v) s"
    "x \<in> fifos \<Longrightarrow> y \<in> fifos \<Longrightarrow> x \<noteq> y \<Longrightarrow> set (v_fifo v x) \<inter> set (v_fifo v y) = {}"
    "\<forall>p\<in>v_nodes v. s_up (sch k p) = NULL \<longleftrightarrow> p = sched_root"
  using assms by (auto simp: runq_inv_def)

lemma runq_inv_tree:
  assumes "runq_inv k v"
  obtains nr ht where "tree_ok k (v_nodes v) (v_kids v) nr ht" "nr sched_root < 2 ^ 32"
    "0 \<le> nr sched_root" "s_nrun (sch k sched_root) = of_int (nr sched_root)"
proof -
  obtain nr ht where t: "tree_ok k (v_nodes v) (v_kids v) nr ht" "nr sched_root < 2 ^ 32"
    using assms unfolding runq_inv_def by blast
  from tree_nodeD(4,5) [OF tree_ok_node [OF t(1) runq_invD(1) [OF assms]]] t that show ?thesis by blast
qed

text \<open>Neither queued in a FIFO nor in the tree.\<close>

definition parked :: "kern \<Rightarrow> runqs \<Rightarrow> ptr \<Rightarrow> bool" where
  "parked k v s \<longleftrightarrow> free_leaf k (v_nodes v) s \<and> (\<forall>x\<in>fifos. s \<notin> set (v_fifo v x))"

lemma runq_inv_sch: "sch k' = sch k \<Longrightarrow> runq_inv k' v = runq_inv k v"
  by (simp add: runq_inv_def tree_ok_def tree_pend_def tree_node_def tree_child_def kids_def free_leaf_def)

lemma parked_sch: "sch k' = sch k \<Longrightarrow> parked k' v s = parked k v s"
  by (simp add: parked_def free_leaf_def)

lemma free_leaf_not_kid:
  assumes "tree_ok k I ch nr ht" "q \<in> I" "free_leaf k I s"
  shows "s \<notin> set (ch q)"
  using tree_nodeD(8) [OF tree_ok_node [OF assms(1,2)], of s] assms(3)
  by (auto simp: tree_child_def free_leaf_def)

lemma relinked_tree:
  assumes ok: "tree_ok k I ch nr ht" and rl: "relinked x A k k1" and x: "x \<notin> I"
    and A: "\<And>a. a \<in> A \<Longrightarrow> free_leaf k I a"
  shows "tree_ok k1 I ch nr ht"
proof -
  have "tree_node k1 I ch nr ht q" if q: "q \<in> I" for q
  proof -
    note n = tree_nodeD [OF tree_ok_node [OF ok q]]
    have "set (ch q) \<inter> A = {}" using free_leaf_not_kid [OF ok q A] by blast
    moreover have "q \<noteq> x" "q \<notin> A" using q x A by (auto simp: free_leaf_def)
    ultimately have "kids k1 q (ch q)" "s_hd (sch k1 q) = s_hd (sch k q)"
      using kids_frame [OF rl n(3)] relinkedD(8) [OF rl] by auto
    moreover have "tree_child k1 I nr ht q c" if "c \<in> set (ch q)" for c
      using n(8) [OF that] by (simp add: tree_child_def relinkedD(1-4) [OF rl])
    ultimately show ?thesis
      using n(1,2,4-7) by (simp add: tree_node_def relinkedD(1-4) [OF rl])
  qed
  then show ?thesis using ok by (simp add: tree_ok_def tree_pend_def)
qed

lemma relinked_free: "relinked x A k k1 \<Longrightarrow> free_leaf k1 I s = free_leaf k I s"
  by (simp add: free_leaf_def relinked_def)

text \<open>A change of one FIFO queue.\<close>

lemma fifo_change:
  assumes inv: "runq_inv k v" and x: "x \<in> fifos" and rl: "relinked x A k k1"
    and A: "A \<subseteq> insert s (set (v_fifo v x))" and xs: "kids k1 x xs'" "set xs' \<subseteq> insert s (set (v_fifo v x))"
    and s: "free_leaf k (v_nodes v) s" "\<And>y. y \<in> fifos \<Longrightarrow> y \<noteq> x \<Longrightarrow> s \<notin> set (v_fifo v y)"
  shows "runq_inv k1 (v\<lparr>v_fifo := (v_fifo v)(x := xs')\<rparr>)"
proof -
  note i = runq_invD [OF inv]
  obtain nr ht where t: "tree_ok k (v_nodes v) (v_kids v) nr ht" "nr sched_root < 2 ^ 32"
    using runq_inv_tree [OF inv] by metis
  have Af: "free_leaf k (v_nodes v) a" if "a \<in> A" for a
    using A that s(1) i(6) [OF x] by blast
  have "tree_ok k1 (v_nodes v) (v_kids v) nr ht"
    by (rule relinked_tree [OF t(1) rl i(3) [OF x] Af])
  moreover have "kids k1 y (((v_fifo v)(x := xs')) y)" if y: "y \<in> fifos" for y
  proof (cases "y = x")
    case False
    then have "set (v_fifo v y) \<inter> A = {}" using A s(2) [OF y] i(7) [OF y x] by blast
    with False show ?thesis using kids_frame [OF rl i(5) [OF y]] by simp
  qed (use xs in simp)
  moreover have "free_leaf k1 (v_nodes v) a" if "y \<in> fifos" "a \<in> set (((v_fifo v)(x := xs')) y)" for y a
    using that s(1) i(6) xs(2) by (auto simp: relinked_free [OF rl] split: if_splits)
  moreover have "set (((v_fifo v)(x := xs')) y) \<inter> set (((v_fifo v)(x := xs')) z) = {}"
    if y: "y \<in> fifos" "z \<in> fifos" "y \<noteq> z" for y z
    using i(7) [OF y] i(7) [OF x y(2)] i(7) [OF y(1) x] s(2) [OF y(1)] s(2) [OF y(2)] xs(2) y(3) by auto
  moreover have "v_nodes v \<inter> fifos = {}" using i(3) by blast
  ultimately show ?thesis
    using i(1,4,8) t(2) unfolding runq_inv_def
    by (auto simp: relinkedD(1,4) [OF rl])
qed

lemma fifo_enqueue:
  assumes inv: "runq_inv k v" and x: "x \<in> fifos" and s: "parked k v s"
  shows "runq_inv (queue x s k) (v\<lparr>v_fifo := (v_fifo v)(x := v_fifo v x @ [s])\<rparr>)"
proof -
  have kx: "kids k x (v_fifo v x)" by (rule runq_invD(5) [OF inv x])
  have "s \<noteq> NULL" "s \<notin> set (v_fifo v x)" using s x by (auto simp: parked_def free_leaf_def)
  from queue_kids [OF kx this] s show ?thesis
    by (intro fifo_change [OF inv x queue_relinked [OF kx] order_refl]) (auto simp: parked_def)
qed

lemma fifo_dequeue:
  assumes inv: "runq_inv k v" and x: "x \<in> fifos" and s: "s \<in> set (v_fifo v x)"
  defines "v' \<equiv> v\<lparr>v_fifo := (v_fifo v)(x := remove1 s (v_fifo v x))\<rparr>"
  shows "runq_inv (dequeue x s k) v'" "parked (dequeue x s k) v' s"
proof -
  have kx: "kids k x (v_fifo v x)" by (rule runq_invD(5) [OF inv x])
  note rl = dequeue_relinked [OF kx s]
  have f: "free_leaf k (v_nodes v) s" by (rule runq_invD(6) [OF inv x s])
  have o: "s \<notin> set (v_fifo v y)" if "y \<in> fifos" "y \<noteq> x" for y
    using runq_invD(7) [OF inv that(1) x that(2)] s by blast
  show "runq_inv (dequeue x s k) v'" unfolding v'_def
    using dequeue_kids [OF kx s]
    by (intro fifo_change [OF inv x rl _ _ _ f]) (auto simp: o dest: set_remove1_subset [THEN subsetD])
  have "distinct (v_fifo v x)" using kx by (simp add: kids_def hring_distinct)
  then show "parked (dequeue x s k) v' s"
    using f o by (auto simp: parked_def v'_def relinked_free [OF rl])
qed

text \<open>A change of the tree leaves the FIFO part alone.\<close>

lemma tree_change:
  assumes inv: "runq_inv k v" and p: "p \<in> v_nodes v"
    and rl: "relinked p A k k1" and A: "\<And>x. x \<in> fifos \<Longrightarrow> set (v_fifo v x) \<inter> A = {}"
    and s: "s \<notin> v_nodes v" "\<And>x. x \<in> fifos \<Longrightarrow> s \<notin> set (v_fifo v x)"
    and k2: "k2 = upd_sch s (\<lambda>n. n\<lparr>s_nrun := f n\<rparr>) k1"
    and rec: "recounted (v_nodes v) k2 k'"
    and tree: "tree_ok k' (v_nodes v) ch' nr' ht" "nr' sched_root < 2 ^ 32"
  shows "runq_inv k' (v\<lparr>v_kids := ch'\<rparr>)"
proof -
  note i = runq_invD [OF inv]
  have fld: "s_up (sch k' y) = s_up (sch k y)" "s_leaf (sch k' y) = s_leaf (sch k y)" for y
    by (simp_all add: recountedD [OF rec] k2 nrun_frame relinkedD(1,4) [OF rl])
  have nrun: "s_nrun (sch k' y) = s_nrun (sch k y)" if "y \<notin> v_nodes v" "y \<noteq> s" for y
    using that by (simp add: recountedD [OF rec] k2 nrun_frame relinkedD(3) [OF rl])
  have "kids k' x (v_fifo v x)" if x: "x \<in> fifos" for x
    using kids_frame [OF rl i(5) [OF x] _ A [OF x]] i(3) [OF x] p
    by (auto simp: recounted_kids [OF rec] k2)
  moreover have "free_leaf k' (v_nodes v) a" if x: "x \<in> fifos" "a \<in> set (v_fifo v x)" for x a
  proof -
    have "a \<noteq> s" using s(2) [OF x(1)] x(2) by blast
    with i(6) [OF x] nrun [of a] show ?thesis by (simp add: free_leaf_def fld)
  qed
  moreover have "fifos \<inter> v_nodes v = {}" using i(3) by blast
  ultimately show ?thesis
    using tree i(1,4,8) i(7) unfolding runq_inv_def by (auto simp: fld)
qed

text \<open>Other leaves are as free as before, and at most one more is counted.\<close>

definition others_kept :: "runqs \<Rightarrow> ptr \<Rightarrow> kern \<Rightarrow> kern \<Rightarrow> bool" where
  "others_kept v s k k' \<longleftrightarrow>
     (\<forall>p. p \<notin> v_nodes v \<longrightarrow> p \<noteq> s \<longrightarrow> free_leaf k' (v_nodes v) p = free_leaf k (v_nodes v) p) \<and>
     unat (s_nrun (sch k' sched_root)) \<le> unat (s_nrun (sch k sched_root)) + 1"

lemma unat_le_uint: "unat (a :: 'a::len word) \<le> unat b + 1 \<longleftrightarrow> uint a \<le> uint b + 1"
proof -
  have "unat a \<le> unat b + 1 \<longleftrightarrow> int (unat a) \<le> int (unat b + 1)"
    by (rule of_nat_le_iff [symmetric])
  also have "int (unat b + 1) = uint b + 1" by simp
  finally show ?thesis by simp
qed

lemma tree_enqueue:
  assumes inv: "runq_inv k v" and s: "parked k v s" and room: "unat (s_nrun (sch k sched_root)) + 1 < 2 ^ 32"
  defines "p \<equiv> s_up (sch k s)"
  shows "\<exists>k'. bump_nrun 1 s (queue p s k) = Some k' \<and> thr k' = thr k \<and> sem k' = sem k \<and>
    runq_inv k' (v\<lparr>v_kids := (v_kids v)(p := v_kids v p @ [s])\<rparr>) \<and> others_kept v s k k' \<and>
    cpus k' = cpus k \<and> this_cpu k' = this_cpu k \<and> nextcpu k' = nextcpu k"
proof -
  obtain nr ht where t: "tree_ok k (v_nodes v) (v_kids v) nr ht" "nr sched_root < 2 ^ 32"
    "0 \<le> nr sched_root" "s_nrun (sch k sched_root) = of_int (nr sched_root)"
    by (rule runq_inv_tree [OF inv])
  have f: "s \<noteq> NULL" "s \<notin> v_nodes v" "s_leaf (sch k s)" "s_nrun (sch k s) = 0" "p \<in> v_nodes v"
    using s by (auto simp: parked_def free_leaf_def p_def)
  have up: "s_up (sch k s) = p" by (simp add: p_def)
  note np = tree_nodeD [OF tree_ok_node [OF t(1) f(5)]]
  let ?k2 = "upd_sch s (\<lambda>n. n\<lparr>s_nrun := s_nrun n + 1\<rparr>) (queue p s k)"
  let ?ch = "(v_kids v)(p := v_kids v p @ [s])"
  note rl = queue_relinked [OF np(3), of s]
  obtain k' nr' where k': "bump_nrun (of_int 1) p ?k2 = Some k'" "tree_ok k' (v_nodes v) ?ch nr' ht"
    "recounted (v_nodes v) ?k2 k'" "\<forall>c. nr' c = (nr(s := 1)) c \<or> nr' c = (nr(s := 1)) c + 1"
    using bump_tree [OF queue_tree [OF t(1) f(5) f(1-4) up] f(5)] by blast
  have "bump_nrun 1 s (queue p s k) = Some k'"
    using f(1) k'(1) relinkedD(1) [OF rl, of s] by (subst bump_nrun.simps) (simp add: p_def)
  moreover have "thr k' = thr k" "sem k' = sem k" "cpus k' = cpus k" "this_cpu k' = this_cpu k"
    "nextcpu k' = nextcpu k"
    using recountedD(8-12) [OF k'(3)] relinkedD(5,6,10,11,12) [OF rl] by (simp_all add: kern_simps)
  moreover have nr1: "nr' sched_root < 2 ^ 32 \<and> nr' sched_root \<le> nr sched_root + 1"
  proof -
    have "uint (of_int (nr sched_root) :: uint) = nr sched_root"
      using t(2,3) by (simp only: uint_word_of_int) simp
    then have "unat (s_nrun (sch k sched_root)) = nat (nr sched_root)"
      by (metis t(4) nat_uint_eq)
    then have "nat (nr sched_root) + 1 < 4294967296" using room by simp
    then have "nr sched_root + 1 < 4294967296" using t(3) by linarith
    then have "nr sched_root + 1 < 2 ^ 32" by simp
    moreover have "sched_root \<noteq> s" using f(2) runq_invD(1) [OF inv] by blast
    then have "nr' sched_root = nr sched_root \<or> nr' sched_root = nr sched_root + 1"
      using k'(4) by (metis fun_upd_apply)
    ultimately show ?thesis by linarith
  qed
  moreover have "others_kept v s k k'"
  proof -
    note nroot = tree_nodeD [OF tree_ok_node [OF k'(2) runq_invD(1) [OF inv]]]
    have "unat (s_nrun (sch k' sched_root)) \<le> unat (s_nrun (sch k sched_root)) + 1"
    proof -
      have "uint (of_int (nr' sched_root) :: uint) = nr' sched_root"
        "uint (of_int (nr sched_root) :: uint) = nr sched_root"
        using nr1 nroot(5) t(2,3) by (simp_all only: uint_word_of_int) simp_all
      then have "uint (s_nrun (sch k' sched_root)) \<le> uint (s_nrun (sch k sched_root)) + 1"
        using nr1 by (simp add: nroot(4) t(4))
      then show ?thesis by (simp only: unat_le_uint)
    qed
    then show ?thesis
      by (simp add: others_kept_def free_leaf_def recountedD [OF k'(3)] nrun_frame relinkedD(1,3,4) [OF rl])
  qed
  moreover have "runq_inv k' (v\<lparr>v_kids := ?ch\<rparr>)"
  proof (rule tree_change [OF inv f(5) rl _ f(2) _ refl k'(3,2)])
    show "set (v_fifo v x) \<inter> insert s (set (v_kids v p)) = {}" if "x \<in> fifos" for x
      using free_leaf_not_kid [OF t(1) f(5) runq_invD(6) [OF inv that]] s that by (auto simp: parked_def)
    show "s \<notin> set (v_fifo v x)" if "x \<in> fifos" for x using s that by (simp add: parked_def)
    show "nr' sched_root < 2 ^ 32" using nr1 by blast
  qed
  ultimately show ?thesis by blast
qed

lemma tree_pick:
  assumes inv: "runq_inv k v" and pos: "0 < s_nrun (sch k sched_root)"
    and pr: "\<forall>q\<in>v_nodes v. prio_ok k (v_kids v q)" "s_prio (sch k sched_root) \<noteq> 0"
  shows "\<exists>s k'. pick_run rnds sched_root k = Some (s, k') \<and> thr k' = thr k \<and> sem k' = sem k \<and>
    cpus k' = cpus k \<and> this_cpu k' = this_cpu k \<and>
    s \<notin> v_nodes v \<and> s_leaf (sch k s) \<and> s_up (sch k s) \<in> v_nodes v \<and> s \<in> set (v_kids v (s_up (sch k s))) \<and>
    (let v' = v\<lparr>v_kids := (v_kids v)(s_up (sch k s) := remove1 s (v_kids v (s_up (sch k s))))\<rparr>
     in runq_inv k' v' \<and> parked k' v' s) \<and> s_u (sch k' s) = s_u (sch k s)"
proof -
  obtain nr ht where t: "tree_ok k (v_nodes v) (v_kids v) nr ht" "nr sched_root < 2 ^ 32"
    "0 \<le> nr sched_root" "s_nrun (sch k sched_root) = of_int (nr sched_root)"
    by (rule runq_inv_tree [OF inv])
  have root: "sched_root \<in> v_nodes v" "s_up (sch k sched_root) = NULL" by (rule runq_invD [OF inv])+
  note nroot = tree_nodeD [OF tree_ok_node [OF t(1) root(1)]]
  have nr0: "0 < nr sched_root" using pos t(3,4) by (cases "nr sched_root = 0") auto
  have sib: "siblings (shd k) sched_root sched_root = Some [sched_root]"
    using nroot(6) [OF root(2)] by (subst siblings.simps) simp
  have "pick_level k (rnds 0) sched_root = Some sched_root"
    using pos by (auto simp: pick_level_def sib sum_pass_def)
  then have unf: "pick_leaf k rnds 0 sched_root = pick_leaf k rnds 1 (s_u (sch k sched_root))"
    using nroot(2) by (subst pick_leaf.simps) simp
  obtain s where s: "pick_leaf k rnds 0 sched_root = Some s" "s \<notin> v_nodes v" "s_leaf (sch k s)"
    "s_up (sch k s) \<in> v_nodes v" "s \<in> set (v_kids v (s_up (sch k s)))"
    using pick_leaf_tree [OF t(1) root(1) nr0 t(2) pr(1), of rnds 1] unf by auto
  define p where p: "p = s_up (sch k s)"
  note np = tree_nodeD [OF tree_ok_node [OF t(1) s(4)], folded p]
  have sp: "s \<in> set (v_kids v p)" "p \<in> v_nodes v" using s p by auto
  have "NULL \<notin> set (v_kids v p)" using np(3) hring_distinct unfolding kids_def by blast
  with sp(1) have s0: "s \<noteq> NULL" by metis
  have sn: "s_nrun (sch k s) = 1" "s \<noteq> NULL"
    using np(8) [OF sp(1)] s(2) s0 by (simp_all add: tree_child_def)
  let ?k2 = "upd_sch s (\<lambda>n. n\<lparr>s_nrun := s_nrun n + (- 1)\<rparr>) (dequeue p s k)"
  let ?ch = "(v_kids v)(p := remove1 s (v_kids v p))"
  note rl = dequeue_relinked [OF np(3) sp(1)]
  obtain k' nr' where k': "bump_nrun (of_int (- 1)) p ?k2 = Some k'" "tree_ok k' (v_nodes v) ?ch nr' ht"
    "recounted (v_nodes v) ?k2 k'" "\<forall>c. nr' c = nr c \<or> nr' c = nr c + - 1"
    using bump_tree [OF dequeue_tree [OF t(1) sp(2,1) s(2)] sp(2)] by blast
  have "bump_nrun (- 1) s (dequeue p s k) = Some k'"
    using sn(2) k'(1) relinkedD(1) [OF rl, of s] by (subst bump_nrun.simps) (simp add: p)
  then have run: "pick_run rnds sched_root k = Some (s, k')" by (simp add: pick_run_def s(1) p)
  have frame: "thr k' = thr k" "sem k' = sem k" "cpus k' = cpus k" "this_cpu k' = this_cpu k"
    using recountedD(8-11) [OF k'(3)] relinkedD(5,6,10,11) [OF rl] by (simp_all add: kern_simps)
  have out: "s \<notin> set (v_fifo v x)" "set (v_fifo v x) \<inter> set (v_kids v p) = {}" if x: "x \<in> fifos" for x
    using free_leaf_not_kid [OF t(1) sp(2) runq_invD(6) [OF inv x]] sp(1) by auto
  have "nr' sched_root < 2 ^ 32" using k'(4) t(2) by (metis add.commute add_le_same_cancel2 le_minus_one_simps(1) order_le_less_trans)
  then have inv': "runq_inv k' (v\<lparr>v_kids := ?ch\<rparr>)"
    by (intro tree_change [OF inv sp(2) rl out(2) s(2) out(1) refl k'(3,2)])
  have "s \<noteq> p" using s(2) sp(2) by blast
  then have "s_nrun (sch k' s) = 0" "s_up (sch k' s) = p" "s_leaf (sch k' s)" "s_u (sch k' s) = s_u (sch k s)"
    using s(2,3) sn(1) sp(2) relinkedD(1,3,4,7) [OF rl, of s]
    by (auto simp: recountedD [OF k'(3)] nrun_frame p)
  with inv' run frame s out(1) sn(2) sp(2) show ?thesis
    by (intro exI [of _ s] exI [of _ k']) (auto simp: p parked_def free_leaf_def)
qed

subsection \<open>Making a thread runnable\<close>

text \<open>The engines form a ring from the rotor \<open>nextcpu\<close> on.\<close>

definition engines_ok :: "kern \<Rightarrow> bool" where
  "engines_ok k \<longleftrightarrow> (\<exists>cs pv. ring (\<lambda>c. pc_next (cpus k c)) pv (nextcpu k # cs))"

lemma preempt_scan_links:
  "links (\<lambda>c. pc_next (cpus k c)) pv (y # ys @ [nextcpu k]) \<Longrightarrow> nextcpu k \<notin> set ys \<Longrightarrow>
    preempt_scan k y lowest pri \<noteq> None"
proof (induction ys arbitrary: y lowest pri)
  case Nil
  then show ?case by (subst preempt_scan.simps) (simp add: Let_def split: prod.splits)
next
  case (Cons z zs)
  then show ?case by (subst preempt_scan.simps) (auto simp: Let_def split: prod.splits)
qed

lemma engines_rotate:
  assumes "engines_ok k"
  shows "engines_ok (nudge c (k\<lparr>nextcpu := pc_next (cpus k (nextcpu k))\<rparr>))"
proof -
  let ?nx = "\<lambda>c. pc_next (cpus k c)"
  obtain cs pv where r: "ring ?nx pv (nextcpu k # cs)"
    using assms by (auto simp: engines_ok_def)
  have "\<exists>ds. ring ?nx pv (pc_next (cpus k (nextcpu k)) # ds)"
  proof (cases cs)
    case Nil
    with r have "pc_next (cpus k (nextcpu k)) = nextcpu k" "ring ?nx pv [nextcpu k]"
      by (simp_all add: ring_single)
    then show ?thesis by metis
  next
    case (Cons d ds)
    with r have "?nx (nextcpu k) = d" by (auto dest: ring_nx_hd)
    moreover have "ring ?nx pv (d # ds @ [nextcpu k])"
      using r Cons ring_rotate [of ?nx pv "[nextcpu k]" "d # ds"] by simp
    ultimately show ?thesis by auto
  qed
  moreover have "(\<lambda>c'. pc_next (cpus (nudge c (k\<lparr>nextcpu := pc_next (cpus k (nextcpu k))\<rparr>)) c')) = ?nx"
    by (auto simp: nudge_def kern_simps)
  ultimately show ?thesis by (auto simp: engines_ok_def nudge_def upd_cpu_def)
qed

lemma preempt_returns:
  assumes "engines_ok k"
  shows "\<exists>k'. preempt k = Some k' \<and> thr k' = thr k \<and> sch k' = sch k \<and> sem k' = sem k \<and>
    curthread k' = curthread k \<and> engines_ok k'"
proof -
  obtain cs pv where "ring (\<lambda>c. pc_next (cpus k c)) pv (nextcpu k # cs)"
    using assms by (auto simp: engines_ok_def)
  then have "preempt_scan k (nextcpu k) NULL 99 \<noteq> None"
    by (intro preempt_scan_links [where pv = pv and ys = cs]) (auto simp: ring_def)
  moreover have "engines_ok (nudge c (k\<lparr>nextcpu := pc_next (cpus k (nextcpu k))\<rparr>))" for c
    by (rule engines_rotate [OF assms])
  ultimately show ?thesis by (auto simp: preempt_def nudge_def Let_def kern_simps)
qed

text \<open>The class \<open>lsetrun\<close> puts a thread in.\<close>

datatype run_class = RealTime | Background | Cheated | Timeshare

definition run_class :: "thread \<Rightarrow> run_class" where
  "run_class t = (if t_flags t AND T_RT \<noteq> 0 then RealTime
     else if t_flags t AND T_BG \<noteq> 0 then Background
     else if CHEAT_TICKS < t_runticks t \<and> t_oink t = 0 then Cheated else Timeshare)"

fun class_fifo :: "run_class \<Rightarrow> ptr" where
  "class_fifo RealTime = sched_rt"
| "class_fifo Background = sched_bg"
| "class_fifo Cheated = sched_cheated"
| "class_fifo Timeshare = NULL"

text \<open>The abstract effect: the node goes to the end of its queue.\<close>

definition view_enqueue :: "run_class \<Rightarrow> ptr \<Rightarrow> ptr \<Rightarrow> runqs \<Rightarrow> runqs" where
  "view_enqueue c p s v =
     (if c = Timeshare then v\<lparr>v_kids := (v_kids v)(p := v_kids v p @ [s])\<rparr>
      else v\<lparr>v_fifo := (v_fifo v)(class_fifo c := v_fifo v (class_fifo c) @ [s])\<rparr>)"

lemma engines_queue: "engines_ok (queue x s k) = engines_ok k"
  by (simp add: engines_ok_def queue_def Let_def upd_sch_def)

lemma class_fifo_mem: "c \<noteq> Timeshare \<Longrightarrow> class_fifo c \<in> fifos"
  by (cases c) (simp_all add: fifos_def)

lemma relinked_same: "relinked x A k k' \<Longrightarrow> thr k' = thr k \<and> sem k' = sem k"
  by (simp add: relinked_def)

text \<open>\<open>lsetrun\<close> after the bookkeeping of the thread.\<close>

lemma lsetrun_cases:
  assumes eng: "engines_ok k" and c: "run_class (thr k t) = c" "c \<noteq> Timeshare"
    and s: "t_runq (thr k t) = s"
    and k1: "k1 = ATOMIC_INC_num_run (upd_thr t (\<lambda>x. x\<lparr>t_state := TS_RUN\<rparr>) k)"
  shows "\<exists>k'. lsetrun t k = Some k' \<and> thr k' = thr (queue (class_fifo c) s k1) \<and>
    sch k' = sch (queue (class_fifo c) s k1) \<and> sem k' = sem (queue (class_fifo c) s k1) \<and>
    curthread k' = curthread k \<and> engines_ok k'"
proof -
  have eng1: "engines_ok (queue x s k1)" for x
    using eng by (simp add: engines_queue, simp add: engines_ok_def k1 ATOMIC_INC_num_run_def upd_thr_def)
  have cur1: "curthread (queue x s k1) = curthread k" for x
    by (simp add: queue_def Let_def k1 ATOMIC_INC_num_run_def upd_thr_def upd_sch_def)
  show ?thesis
    using c s preempt_returns [OF eng1, of "class_fifo c"] eng1 cur1
    by (auto simp: lsetrun_def run_class_def k1 [symmetric] Let_def split: if_splits)
qed

lemma lsetrun_inv:
  assumes inv: "runq_inv k v" and eng: "engines_ok k" and s: "parked k v s" "t_runq (thr k t) = s"
    and room: "unat (s_nrun (sch k sched_root)) + 1 < 2 ^ 32"
  shows "\<exists>k'. lsetrun t k = Some k' \<and>
    runq_inv k' (view_enqueue (run_class (thr k t)) (s_up (sch k s)) s v) \<and>
    thr k' = (thr k)(t := (thr k t)\<lparr>t_state := TS_RUN\<rparr>) \<and> sem k' = sem k \<and>
    others_kept v s k k' \<and> curthread k' = curthread k \<and> engines_ok k'"
proof -
  define k1 where k1: "k1 = ATOMIC_INC_num_run (upd_thr t (\<lambda>x. x\<lparr>t_state := TS_RUN\<rparr>) k)"
  have sch1: "sch k1 = sch k" "sem k1 = sem k" "thr k1 = (thr k)(t := (thr k t)\<lparr>t_state := TS_RUN\<rparr>)"
    by (simp_all add: k1 ATOMIC_INC_num_run_def kern_simps)
  have inv1: "runq_inv k1 v" "parked k1 v s"
    using inv s(1) runq_inv_sch [OF sch1(1)] parked_sch [OF sch1(1)] by auto
  show ?thesis
  proof (cases "run_class (thr k t) = Timeshare")
    case True
    then have c: "\<not> (t_flags (thr k t) AND T_RT \<noteq> 0)" "\<not> (t_flags (thr k t) AND T_BG \<noteq> 0)"
      "\<not> (CHEAT_TICKS < t_runticks (thr k t) \<and> t_oink (thr k t) = 0)"
      by (simp_all add: run_class_def split: if_splits)
    have "lsetrun t k = bump_nrun 1 s (queue (s_up (sch k1 s)) s k1)"
      unfolding lsetrun_def Let_def s(2) k1 [symmetric] by (simp only: c if_False)
    moreover have "unat (s_nrun (sch k1 sched_root)) + 1 < 2 ^ 32" using room by (simp only: sch1)
    from tree_enqueue [OF inv1 this] obtain k' where
      k': "bump_nrun 1 s (queue (s_up (sch k1 s)) s k1) = Some k'" "thr k' = thr k1" "sem k' = sem k1"
        "others_kept v s k1 k'" "cpus k' = cpus k1" "this_cpu k' = this_cpu k1" "nextcpu k' = nextcpu k1"
        "runq_inv k' (v\<lparr>v_kids := (v_kids v)(s_up (sch k1 s) := v_kids v (s_up (sch k1 s)) @ [s])\<rparr>)" by blast
    moreover have "view_enqueue (run_class (thr k t)) (s_up (sch k s)) s v =
        v\<lparr>v_kids := (v_kids v)(s_up (sch k1 s) := v_kids v (s_up (sch k1 s)) @ [s])\<rparr>"
      by (simp add: True view_enqueue_def sch1)
    moreover have "engines_ok k'"
      using eng k'(5,7) by (simp add: engines_ok_def k1 ATOMIC_INC_num_run_def upd_thr_def)
    moreover have "curthread k' = curthread k"
      using k'(5,6) by (simp add: k1 ATOMIC_INC_num_run_def upd_thr_def)
    moreover have "others_kept v s k k'" using k'(4) by (simp add: others_kept_def free_leaf_def sch1)
    ultimately show ?thesis by (simp only: sch1) simp
  next
    case False
    let ?x = "class_fifo (run_class (thr k t))"
    obtain k' where k': "lsetrun t k = Some k'" "thr k' = thr (queue ?x s k1)"
      "sch k' = sch (queue ?x s k1)" "sem k' = sem (queue ?x s k1)"
      "curthread k' = curthread k" "engines_ok k'"
      using lsetrun_cases [OF eng refl False s(2) k1] by blast
    have x: "?x \<in> fifos" by (rule class_fifo_mem [OF False])
    have rl: "relinked ?x (insert s (set (v_fifo v ?x))) k1 (queue ?x s k1)"
      by (rule queue_relinked [OF runq_invD(5) [OF inv1(1) x]])
    have "others_kept v s k k'"
      by (simp add: others_kept_def free_leaf_def k'(3) relinkedD(1,3,4) [OF rl] sch1)
    moreover have "thr k' = thr k1" "sem k' = sem k1" using k' relinked_same [OF rl] by auto
    moreover have "runq_inv k' (view_enqueue (run_class (thr k t)) (s_up (sch k s)) s v)"
      unfolding view_enqueue_def if_not_P [OF False] runq_inv_sch [OF k'(3)]
      by (rule fifo_enqueue [OF inv1(1) x inv1(2)])
    ultimately show ?thesis using k'(1,5,6) by (simp only: sch1) simp
  qed
qed

subsection \<open>Choosing what to run\<close>

text \<open>
  What \<open>swtch\<close> may choose: the head of the first non-empty FIFO in the order real-time,
  cheated, then (after the tree) background; from the tree any queued leaf.
\<close>

definition tree_leaves :: "runqs \<Rightarrow> ptr set" where
  "tree_leaves v = (\<Union>p\<in>v_nodes v. set (v_kids v p)) - v_nodes v"

definition view_dequeue :: "kern \<Rightarrow> uint \<Rightarrow> ptr \<Rightarrow> runqs \<Rightarrow> runqs" where
  "view_dequeue k pri s v =
     (if pri = PRI_TIMESHARE
      then v\<lparr>v_kids := (v_kids v)(s_up (sch k s) := remove1 s (v_kids v (s_up (sch k s))))\<rparr>
      else let x = (if pri = PRI_RT then sched_rt else if pri = PRI_CHEATED then sched_cheated else sched_bg)
           in v\<lparr>v_fifo := (v_fifo v)(x := remove1 s (v_fifo v x))\<rparr>)"

definition may_run :: "runqs \<Rightarrow> uint \<Rightarrow> ptr \<Rightarrow> bool" where
  "may_run v pri s \<longleftrightarrow>
     (let rt = v_fifo v sched_rt; ch = v_fifo v sched_cheated; bg = v_fifo v sched_bg
      in if rt \<noteq> [] then pri = PRI_RT \<and> s = hd rt
         else if ch \<noteq> [] then pri = PRI_CHEATED \<and> s = hd ch
         else if tree_leaves v \<noteq> {} then pri = PRI_TIMESHARE \<and> s \<in> tree_leaves v
         else bg \<noteq> [] \<and> pri = PRI_BG \<and> s = hd bg)"

text \<open>The count at the root tells whether a thread waits anywhere in the tree.\<close>

lemma root_above:
  assumes t: "tree_ok k I ch nr ht" and up: "\<forall>p\<in>I. s_up (sch k p) = NULL \<longleftrightarrow> p = sched_root"
    and p: "p \<in> I"
  shows "nr p \<le> nr sched_root"
  using p
proof (induction "Max (ht ` I) - ht p" arbitrary: p rule: less_induct)
  case less
  note n = tree_nodeD [OF tree_ok_node [OF t less(2)]]
  show ?case
  proof (cases "p = sched_root")
    case False
    then have u: "s_up (sch k p) \<in> I" "p \<in> set (ch (s_up (sch k p)))" using up less(2) n(7) by auto
    have "ht p < ht (s_up (sch k p))"
      using tree_nodeD(8) [OF tree_ok_node [OF t u(1)] u(2)] less(2) by (simp add: tree_child_def)
    moreover have "ht (s_up (sch k p)) \<le> Max (ht ` I)"
      using t u(1) by (intro Max_ge) (auto simp: tree_ok_def tree_pend_def)
    ultimately have "Max (ht ` I) - ht (s_up (sch k p)) < Max (ht ` I) - ht p" by linarith
    from less(1) [OF this u(1)] tree_child_le [OF t u] show ?thesis by linarith
  qed simp
qed

lemma root_count:
  assumes inv: "runq_inv k v" and pr: "\<forall>q\<in>v_nodes v. prio_ok k (v_kids v q)"
  shows "0 < s_nrun (sch k sched_root) \<longleftrightarrow> tree_leaves v \<noteq> {}"
proof -
  obtain nr ht where t: "tree_ok k (v_nodes v) (v_kids v) nr ht" "nr sched_root < 2 ^ 32"
    "0 \<le> nr sched_root" "s_nrun (sch k sched_root) = of_int (nr sched_root)"
    by (rule runq_inv_tree [OF inv])
  have "uint (s_nrun (sch k sched_root)) = nr sched_root"
    unfolding t(4) using t(2,3) by (simp only: uint_word_of_int) simp
  then have "s_nrun (sch k sched_root) = 0 \<longleftrightarrow> nr sched_root = 0"
    using uint_0_iff [of "s_nrun (sch k sched_root)"] by simp
  then have pos: "0 < s_nrun (sch k sched_root) \<longleftrightarrow> 0 < nr sched_root"
    using t(3) by (auto simp: word_gt_0)
  have "tree_leaves v \<noteq> {}" if "0 < nr sched_root"
    using pick_leaf_tree [OF t(1) runq_invD(1) [OF inv] that t(2) pr, of undefined 0]
    by (auto simp: tree_leaves_def)
  moreover have "0 < nr sched_root" if leaf: "c \<in> tree_leaves v" for c
  proof -
    obtain p where p: "p \<in> v_nodes v" "c \<in> set (v_kids v p)" "c \<notin> v_nodes v"
      using leaf by (auto simp: tree_leaves_def)
    have "nr c = 1" using tree_nodeD(8) [OF tree_ok_node [OF t(1) p(1)] p(2)] p(3) by (simp add: tree_child_def)
    with tree_child_le [OF t(1) p(1,2)] root_above [OF t(1) runq_invD(8) [OF inv] p(1)]
    show ?thesis by linarith
  qed
  ultimately show ?thesis using pos by blast
qed

lemma fifo_head:
  assumes inv: "runq_inv k v" and x: "x \<in> fifos"
  shows "s_u (sch k x) = (case v_fifo v x of [] \<Rightarrow> NULL | s # _ \<Rightarrow> s)"
    and "s_u (sch k x) \<noteq> NULL \<longleftrightarrow> v_fifo v x \<noteq> []"
  using hring_head [OF runq_invD(5) [OF inv x, unfolded kids_def]]
    kids_null [OF runq_invD(5) [OF inv x]] by auto

lemma fifo_select:
  assumes inv: "runq_inv k v" and x: "x \<in> fifos" and ne: "v_fifo v x \<noteq> []"
  defines "s \<equiv> s_u (sch k x)"
  defines "v' \<equiv> v\<lparr>v_fifo := (v_fifo v)(x := remove1 s (v_fifo v x))\<rparr>"
  shows "s = hd (v_fifo v x)" "runq_inv (dequeue x s k) v'" "parked (dequeue x s k) v' s"
    "thr (dequeue x s k) = thr k" "sem (dequeue x s k) = sem k" "s_u (sch (dequeue x s k) s) = s_u (sch k s)"
    "cpus (dequeue x s k) = cpus k" "this_cpu (dequeue x s k) = this_cpu k"
proof -
  show h: "s = hd (v_fifo v x)"
    using fifo_head(1) [OF inv x] ne by (cases "v_fifo v x") (simp_all add: s_def)
  then have m: "s \<in> set (v_fifo v x)" using ne by simp
  show "runq_inv (dequeue x s k) v'" "parked (dequeue x s k) v' s"
    unfolding v'_def by (rule fifo_dequeue [OF inv x m])+
  note rl = dequeue_relinked [OF runq_invD(5) [OF inv x] m]
  show "thr (dequeue x s k) = thr k" "sem (dequeue x s k) = sem k" "cpus (dequeue x s k) = cpus k"
    "this_cpu (dequeue x s k) = this_cpu k" by (rule relinkedD [OF rl])+
  have "s \<noteq> x" using runq_invD(6) [OF inv x m] runq_invD(4) [OF inv x] by (auto simp: free_leaf_def)
  then show "s_u (sch (dequeue x s k) s) = s_u (sch k s)" by (rule relinkedD(7) [OF rl])
qed

definition selected :: "kern \<Rightarrow> runqs \<Rightarrow> ptr \<Rightarrow> uint \<Rightarrow> kern \<Rightarrow> bool" where
  "selected k v s pri k' \<longleftrightarrow> may_run v pri s \<and> runq_inv k' (view_dequeue k pri s v) \<and>
     parked k' (view_dequeue k pri s v) s \<and> thr k' = thr k \<and> sem k' = sem k \<and>
     cpus k' = cpus k \<and> this_cpu k' = this_cpu k \<and> s_u (sch k' s) = s_u (sch k s)"

lemmas pri_defs = PRI_RT_def PRI_CHEATED_def PRI_TIMESHARE_def PRI_BG_def

lemma swtch_select_inv:
  assumes inv: "runq_inv k v" and pr: "\<forall>q\<in>v_nodes v. prio_ok k (v_kids v q)"
    "s_prio (sch k sched_root) \<noteq> 0"
  shows "(\<exists>s pri k'. swtch_select rnds k = Some (Some (s, pri, k')) \<and> selected k v s pri k') \<or>
    (swtch_select rnds k = Some None \<and> (\<forall>x\<in>fifos. v_fifo v x = []) \<and> tree_leaves v = {})"
proof -
  have m: "sched_rt \<in> fifos" "sched_cheated \<in> fifos" "sched_bg \<in> fifos" by (simp_all add: fifos_def)
  note hd = m [THEN fifo_head(2) [OF inv]]
  consider (rt) "v_fifo v sched_rt \<noteq> []"
    | (ch) "v_fifo v sched_rt = []" "v_fifo v sched_cheated \<noteq> []"
    | (tree) "v_fifo v sched_rt = []" "v_fifo v sched_cheated = []" "tree_leaves v \<noteq> {}"
    | (bg) "v_fifo v sched_rt = []" "v_fifo v sched_cheated = []" "tree_leaves v = {}" "v_fifo v sched_bg \<noteq> []"
    | (none) "v_fifo v sched_rt = []" "v_fifo v sched_cheated = []" "tree_leaves v = {}" "v_fifo v sched_bg = []"
    by blast
  then show ?thesis
  proof cases
    case rt
    with fifo_select [OF inv m(1) rt] hd show ?thesis
      by (auto simp: swtch_select_def Let_def selected_def may_run_def view_dequeue_def pri_defs)
  next
    case ch
    with fifo_select [OF inv m(2) ch(2)] hd show ?thesis
      by (auto simp: swtch_select_def Let_def selected_def may_run_def view_dequeue_def pri_defs)
  next
    case tree
    obtain s k' where p: "pick_run rnds sched_root k = Some (s, k')" "thr k' = thr k" "sem k' = sem k"
      "cpus k' = cpus k" "this_cpu k' = this_cpu k"
      "s \<notin> v_nodes v" "s_up (sch k s) \<in> v_nodes v" "s \<in> set (v_kids v (s_up (sch k s)))"
      "runq_inv k' (view_dequeue k PRI_TIMESHARE s v)" "parked k' (view_dequeue k PRI_TIMESHARE s v) s"
      "s_u (sch k' s) = s_u (sch k s)"
      using tree_pick [OF inv root_count [OF inv pr(1), THEN iffD2, OF tree(3)] pr, of rnds]
      by (auto simp: view_dequeue_def Let_def)
    then have "s \<in> tree_leaves v" by (auto simp: tree_leaves_def)
    with p tree hd root_count [OF inv pr(1)] show ?thesis
      by (simp add: swtch_select_def Let_def selected_def may_run_def)
  next
    case bg
    with fifo_select [OF inv m(3) bg(4)] hd root_count [OF inv pr(1)] show ?thesis
      by (auto simp: swtch_select_def Let_def selected_def may_run_def view_dequeue_def pri_defs)
  next
    case none
    with hd root_count [OF inv pr(1)] show ?thesis
      by (simp add: swtch_select_def Let_def fifos_def)
  qed
qed

subsection \<open>The switch\<close>

text \<open>What a thread finds after \<open>swtch\<close> chose it, or the engine when there is nothing to run.\<close>

definition running :: "kern \<Rightarrow> runqs \<Rightarrow> ptr \<Rightarrow> uint \<Rightarrow> kern \<Rightarrow> bool" where
  "running k v s pri k' \<longleftrightarrow> may_run v pri s \<and> runq_inv k' (view_dequeue k pri s v) \<and>
     parked k' (view_dequeue k pri s v) s \<and> curthread k' = s_u (sch k s) \<and>
     t_state (thr k' (curthread k')) = TS_ONPROC \<and>
     (pri \<noteq> PRI_CHEATED \<longrightarrow> t_runticks (thr k' (curthread k')) = RUN_TICKS) \<and>
     sem k' = sem k \<and> \<not> runq_lock k'"

lemma view_dequeue_sch: "sch k1 = sch k \<Longrightarrow> view_dequeue k1 pri s v = view_dequeue k pri s v"
  by (simp add: view_dequeue_def)

lemma v_lock_runq [kern_simps]:
  "thr (v_lock RunqLock l k) = thr k" "sch (v_lock RunqLock l k) = sch k"
  "sem (v_lock RunqLock l k) = sem k" "\<not> runq_lock (v_lock RunqLock l k)"
  "this_cpu (v_lock RunqLock l k) = this_cpu k"
  "pc_thread (cpus (v_lock RunqLock l k) c) = pc_thread (cpus k c)"
  "pc_preempt (cpus (v_lock RunqLock l k) c) = pc_preempt (cpus k c)"
  by (simp_all add: v_lock_def Let_def ATOMIC_DECL_CPU_LOCKS_def kern_simps)

lemma savestate_frame [kern_simps]:
  "sch (savestate t k) = sch k" "sem (savestate t k) = sem k" "cpus (savestate t k) = cpus k"
  "this_cpu (savestate t k) = this_cpu k" "t_state (thr (savestate t k) u) = t_state (thr k u)"
  by (simp_all add: savestate_def kern_simps)

lemma runningI:
  assumes "may_run v pri s" "runq_inv k1 (view_dequeue k pri s v)" "parked k1 (view_dequeue k pri s v) s"
    and "sch k' = sch k1" "sem k' = sem k" "curthread k' = u" "u = s_u (sch k s)"
    and "t_state (thr k' u) = TS_ONPROC" "pri \<noteq> PRI_CHEATED \<Longrightarrow> t_runticks (thr k' u) = RUN_TICKS"
    and "\<not> runq_lock k'"
  shows "running k v s pri k'"
  using assms runq_inv_sch [OF assms(4)] parked_sch [OF assms(4)] by (simp add: running_def)

lemma swtch_round_inv:
  assumes inv: "runq_inv k v" and pr: "\<forall>q\<in>v_nodes v. prio_ok k (v_kids v q)"
    "s_prio (sch k sched_root) \<noteq> 0" and t: "t = curthread k"
  shows "(\<exists>s pri k'. swtch_round rnds t k \<in> {Some (Same k'), Some (Switched k')} \<and> running k v s pri k') \<or>
    (\<exists>k'. swtch_round rnds t k = Some (Idling k') \<and> (\<forall>x\<in>fifos. v_fifo v x = []) \<and> tree_leaves v = {} \<and>
      runq_inv k' v \<and> curthread k' = NULL \<and> sem k' = sem k \<and> \<not> runq_lock k')"
  using swtch_select_inv [OF inv pr, of rnds]
proof (elim disjE exE conjE)
  fix s pri k1 assume sel: "swtch_select rnds k = Some (Some (s, pri, k1))" and s: "selected k v s pri k1"
  have s': "may_run v pri s" "runq_inv k1 (view_dequeue k pri s v)"
    "parked k1 (view_dequeue k pri s v) s" "thr k1 = thr k" "sem k1 = sem k" "cpus k1 = cpus k"
    "this_cpu k1 = this_cpu k" "s_u (sch k1 s) = s_u (sch k s)"
    using s unfolding selected_def by blast+
  show ?thesis
  proof (cases "s_u (sch k s) = t")
    case True
    let ?k2 = "if pri \<noteq> PRI_CHEATED then upd_thr t (\<lambda>x. x\<lparr>t_runticks := RUN_TICKS\<rparr>) k1 else k1"
    let ?k4 = "v_lock RunqLock SPL0 (upd_thr (curthread ?k2) (\<lambda>x. x\<lparr>t_state := TS_ONPROC\<rparr>) ?k2)"
    have "swtch_round rnds t k = Some (Same ?k4)"
      using True s'(8) by (simp add: swtch_round_def sel Let_def)
    moreover have "running k v s pri ?k4"
    proof (rule runningI [OF s'(1-3), where u = t])
      show "curthread ?k4 = t" "sem ?k4 = sem k" "sch ?k4 = sch k1"
        using s'(5-7) t by (simp_all add: kern_simps)
      have "curthread ?k2 = t" using s'(6,7) t by (simp add: kern_simps)
      then show "t_state (thr ?k4 t) = TS_ONPROC"
        "pri \<noteq> PRI_CHEATED \<Longrightarrow> t_runticks (thr ?k4 t) = RUN_TICKS"
        by (simp_all only: v_lock_runq upd_at, simp_all add: kern_simps)
    qed (use True in \<open>simp_all add: kern_simps\<close>)
    ultimately show ?thesis by blast
  next
    case False
    let ?u = "s_u (sch k s)"
    let ?k2 = "if t \<noteq> NULL then savestate t k1 else k1"
    let ?k3 = "upd_cpu (\<lambda>c. c\<lparr>pc_pri := pri, pc_thread := ?u\<rparr>) ?k2"
    let ?k4 = "if pri \<noteq> PRI_CHEATED then upd_thr ?u (\<lambda>x. x\<lparr>t_runticks := RUN_TICKS\<rparr>) ?k3 else ?k3"
    let ?k6 = "v_lock RunqLock SPLHI_SAME (upd_thr ?u (\<lambda>x. x\<lparr>t_state := TS_ONPROC, t_eng := this_cpu k\<rparr>) ?k4)"
    have r: "swtch_round rnds t k = Some (Switched ?k6)"
      using False s'(8) by (simp add: swtch_round_def sel Let_def)
    have "running k v s pri ?k6"
      by (rule runningI [OF s'(1-3), where u = ?u]) (use s'(5) in \<open>simp_all add: kern_simps\<close>)
    with r show ?thesis by blast
  qed
next
  assume "swtch_select rnds k = Some None" "\<forall>x\<in>fifos. v_fifo v x = []" "tree_leaves v = {}"
  then show ?thesis
    using runq_inv_sch [of "v_lock RunqLock SPL0 (upd_cpu (\<lambda>c. c\<lparr>pc_thread := NULL\<rparr>)
      (if t \<noteq> NULL then savestate t k else k))" k v] inv
    by (simp add: swtch_round_def Let_def kern_simps)
qed

subsection \<open>The initial queues\<close>

definition empty_view :: runqs where
  "empty_view = \<lparr>v_nodes = {sched_root}, v_kids = (\<lambda>p. []), v_fifo = (\<lambda>x. [])\<rparr>"

lemmas static_defs = sched_rt_def sched_cheated_def sched_bg_def sched_root_def

lemma init_sched_nodes:
  "x \<in> {sched_rt, sched_cheated, sched_bg, sched_root} \<Longrightarrow>
    sch (init_sched k) x = (sch k x)\<lparr>s_refs := 1, s_hd := x, s_tl := x, s_up := NULL, s_u := NULL,
      s_leaf := False, s_prio := PRIO_DEFAULT, s_nrun := 0\<rparr>"
  by (auto simp: init_sched_def init_sched2_def init_lock_def kern_simps static_defs)

lemma init_sched_inv: "runq_inv (init_sched k) empty_view"
proof -
  let ?k = "init_sched k"
  have "tree_ok ?k {sched_root} (\<lambda>p. []) (\<lambda>p. 0) (\<lambda>p. 0)"
    by (simp add: tree_ok_def tree_pend_def tree_node_def init_sched_nodes kids_def)
      (simp add: static_defs)
  moreover have "fifos \<inter> {sched_root} = {}" by (auto simp: fifos_def static_defs)
  moreover have "kids ?k x []" "\<not> s_leaf (sch ?k x)" if "x \<in> fifos" for x
    using that by (auto simp: fifos_def init_sched_nodes kids_def)
  ultimately show ?thesis
    unfolding runq_inv_def empty_view_def
    by (intro conjI exI [of _ "\<lambda>p. 0"] exI [of _ "\<lambda>p. 0"]) (simp_all add: init_sched_nodes)
qed

subsection \<open>The draw\<close>

text \<open>Which candidate a number up to the sum of the priorities picks.\<close>

lemma draw_pass_interval:
  assumes "\<forall>s\<in>set ss. s_nrun (sch k s) \<noteq> 0" "distinct ss" "(\<Sum>s\<leftarrow>ss. unat (s_prio (sch k s))) < 2 ^ 32"
    "r \<le> (\<Sum>s\<leftarrow>ss. unat (s_prio (sch k s)))" "i < length ss"
  shows "draw_pass k ss (of_nat r) pick = ss ! i \<longleftrightarrow>
    (i = 0 \<or> (\<Sum>s\<leftarrow>take i ss. unat (s_prio (sch k s))) < r) \<and>
    r \<le> (\<Sum>s\<leftarrow>take (Suc i) ss. unat (s_prio (sch k s)))"
  using assms
proof (induction ss arbitrary: r i pick)
  case (Cons s ss)
  let ?p = "unat (s_prio (sch k s))"
  have r: "r < 2 ^ 32" using Cons(4,5) by linarith
  have ur: "unat (of_nat r :: uint) = r" using r by (simp only: unat_of_nat) simp
  have le: "(of_nat r :: uint) \<le> s_prio (sch k s) \<longleftrightarrow> r \<le> ?p"
    by (simp only: word_le_unat ur)
  show ?case
  proof (cases "r \<le> ?p")
    case True
    then have d: "draw_pass k (s # ss) (of_nat r) pick = s" using le Cons(2) by simp
    show ?thesis
    proof (cases i)
      case 0
      then show ?thesis using d True by simp
    next
      case (Suc j)
      then have "(s # ss) ! i \<noteq> s" using Cons(3,6) by (auto simp: in_set_conv_nth)
      then show ?thesis using d True Suc by auto
    qed
  next
    case False
    have "of_nat r - s_prio (sch k s) = (of_nat (r - ?p) :: uint)"
      using False by (simp add: of_nat_diff)
    then have d: "draw_pass k (s # ss) (of_nat r) pick = draw_pass k ss (of_nat (r - ?p)) s"
      using le False Cons(2) by simp
    have hyp: "\<forall>s\<in>set ss. s_nrun (sch k s) \<noteq> 0" "distinct ss"
      "(\<Sum>s\<leftarrow>ss. unat (s_prio (sch k s))) < 2 ^ 32" "r - ?p \<le> (\<Sum>s\<leftarrow>ss. unat (s_prio (sch k s)))"
      using Cons(2-5) by auto
    show ?thesis
    proof (cases i)
      case 0
      have "ss \<noteq> []" using False hyp(4) by auto
      then have "candidates k ss \<noteq> []" using hyp(1) by (cases ss) (auto simp: candidates_def)
      then have "draw_pass k ss (of_nat (r - ?p)) s \<in> set ss"
        using draw_pass_mem [of k ss "of_nat (r - ?p)" s] by (auto simp: candidates_def)
      then show ?thesis using d 0 False Cons(3) by auto
    next
      case (Suc j)
      then show ?thesis using Cons(1) [OF hyp, of j s] d False Cons(6) by auto
    qed
  qed
qed simp

lemma interval_count:
  assumes "b = a + (p :: nat)" "b \<le> t" "first \<Longrightarrow> a = 0" "first \<Longrightarrow> t \<noteq> b"
  shows "card {r. r < t \<and> (first \<or> a < r) \<and> r \<le> b} =
    p + (if first then 1 else 0) - (if t = b then 1 else 0)"
proof -
  have "{r. r < t \<and> (first \<or> a < r) \<and> r \<le> b} =
      (if first then {..b} else if t = b then {a<..<b} else {a<..b})"
    using assms by auto
  with assms show ?thesis by auto
qed

lemma draw_pass_count:
  assumes c: "\<forall>s\<in>set ss. s_nrun (sch k s) \<noteq> 0" "distinct ss" "prio_ok k ss" and i: "i < length ss"
    and two: "1 < length ss"
  shows "card {r. r < (\<Sum>s\<leftarrow>ss. unat (s_prio (sch k s))) \<and> draw_pass k ss (of_nat r) pick = ss ! i}
    = unat (s_prio (sch k (ss ! i))) + (if i = 0 then 1 else 0) - (if i = length ss - 1 then 1 else 0)"
proof -
  let ?S = "\<lambda>n. \<Sum>s\<leftarrow>take n ss. unat (s_prio (sch k s))" and ?t = "\<Sum>s\<leftarrow>ss. unat (s_prio (sch k s))"
  have t: "?t < 2 ^ 32" using c(3) by (simp add: prio_ok_def)
  have nx: "?S (Suc i) = ?S i + unat (s_prio (sch k (ss ! i)))"
    using i by (simp add: take_Suc_conv_app_nth)
  have all: "?t = ?S (Suc i) + (\<Sum>s\<leftarrow>drop (Suc i) ss. unat (s_prio (sch k s)))"
    by (metis append_take_drop_id map_append sum_list_append)
  have set: "{r. r < ?t \<and> draw_pass k ss (of_nat r) pick = ss ! i} =
    {r. r < ?t \<and> (i = 0 \<or> ?S i < r) \<and> r \<le> ?S (Suc i)}"
    using draw_pass_interval [OF c(1,2) t _ i] by auto
  have last: "i = length ss - 1 \<longleftrightarrow> ?t = ?S (Suc i)"
  proof (cases "drop (Suc i) ss")
    case Nil
    then show ?thesis using i all by auto
  next
    case (Cons j js)
    then have "j \<in> set ss" by (metis in_set_dropD list.set_intros(1))
    then have "0 < unat (s_prio (sch k j))" using c(3) by (simp add: prio_ok_def unat_pos_iff)
    moreover have "Suc i < length ss" using Cons by (metis drop_all list.distinct(1) not_le)
    ultimately show ?thesis using all Cons by auto
  qed
  have i0: "i = 0 \<Longrightarrow> ?S i = 0" "i = 0 \<Longrightarrow> i \<noteq> length ss - 1" using two by auto
  have le: "?S (Suc i) \<le> ?t" using all by linarith
  define b where b: "b = ?S (Suc i)"
  have ne: "i = 0 \<Longrightarrow> ?t \<noteq> b" using i0(2) last unfolding b [symmetric] by blast
  show ?thesis
    unfolding set last b [symmetric]
    by (rule interval_count [OF nx [folded b] le [folded b] i0(1) ne])
qed

subsection \<open>New leaves\<close>

definition fresh_node :: "runqs \<Rightarrow> ptr \<Rightarrow> bool" where
  "fresh_node v s \<longleftrightarrow> s \<noteq> NULL \<and> s \<notin> v_nodes v \<and> s \<notin> fifos \<and>
     (\<forall>q\<in>v_nodes v. s \<notin> set (v_kids v q)) \<and> (\<forall>x\<in>fifos. s \<notin> set (v_fifo v x))"

text \<open>Changing nothing but reference counts and one node outside leaves the queues in order.\<close>

definition same_node :: "sched \<Rightarrow> sched \<Rightarrow> bool" where
  "same_node a b \<longleftrightarrow> s_u b = s_u a \<and> s_up b = s_up a \<and> s_hd b = s_hd a \<and> s_tl b = s_tl a \<and>
     s_prio b = s_prio a \<and> s_nrun b = s_nrun a \<and> s_leaf b = s_leaf a"

lemma outside_inv:
  assumes inv: "runq_inv k v" and s: "fresh_node v s"
    and same: "\<And>p. p \<noteq> s \<Longrightarrow> same_node (sch k p) (sch k' p)"
  shows "runq_inv k' v"
proof -
  note i = runq_invD [OF inv]
  have kids': "kids k' q xs" if "kids k q xs" "q \<noteq> s" "s \<notin> set xs" for q xs
    using hring_frame [OF that(1) [unfolded kids_def], of "shd k'" "stl k'"] same that(2,3)
    unfolding kids_def same_node_def by metis
  have free': "free_leaf k' (v_nodes v) a" if "free_leaf k (v_nodes v) a" "a \<noteq> s" for a
    using that same [of a] by (simp add: free_leaf_def same_node_def)
  obtain nr ht where t: "tree_ok k (v_nodes v) (v_kids v) nr ht" "nr sched_root < 2 ^ 32"
    using runq_inv_tree [OF inv] by metis
  have "tree_node k' (v_nodes v) (v_kids v) nr ht q" if q: "q \<in> v_nodes v" for q
  proof -
    note n = tree_nodeD [OF tree_ok_node [OF t(1) q]]
    have qs: "q \<noteq> s" "s \<notin> set (v_kids v q)" using q s by (auto simp: fresh_node_def)
    have "tree_child k' (v_nodes v) nr ht q c" if c: "c \<in> set (v_kids v q)" for c
    proof -
      have "c \<noteq> s" using c qs(2) by blast
      then show ?thesis using n(8) [OF c] same [of c] by (simp add: tree_child_def same_node_def)
    qed
    then show ?thesis
      using n(1,2,4-7) same [OF qs(1)] kids' [OF n(3) qs] by (simp add: tree_node_def same_node_def)
  qed
  then have "tree_ok k' (v_nodes v) (v_kids v) nr ht"
    using t(1) by (simp add: tree_ok_def tree_pend_def)
  moreover have "x \<noteq> s" "s \<notin> set (v_fifo v x)" if "x \<in> fifos" for x
    using s that by (auto simp: fresh_node_def)
  moreover have "p \<noteq> s" if "p \<in> v_nodes v" for p using s that by (auto simp: fresh_node_def)
  ultimately show ?thesis
    unfolding runq_inv_def using i t(2) kids' free' same
    by (intro conjI exI [of _ nr] exI [of _ ht]) (auto simp: same_node_def, metis+)
qed

lemma sched_thread_frame:
  "thr (sched_thread s p t k) = thr k" "sem (sched_thread s p t k) = sem k"
  "sch (sched_thread s p t k) = (let m = (sch k)(s := (sch k s)\<lparr>s_up := p, s_u := t,
     s_prio := PRIO_DEFAULT, s_leaf := True, s_nrun := 0\<rparr>) in m(p := (m p)\<lparr>s_refs := s_refs (m p) + 1\<rparr>))"
  by (simp_all add: sched_thread_def Let_def p_lock_void_def ATOMIC_INCL_CPU_LOCKS_def kern_simps)

lemma sched_thread_inv:
  assumes inv: "runq_inv k v" and s: "fresh_node v s" and p: "p \<in> v_nodes v"
  shows "runq_inv (sched_thread s p t k) v \<and> parked (sched_thread s p t k) v s"
proof
  have sp: "s \<noteq> p" using s p by (auto simp: fresh_node_def)
  show "runq_inv (sched_thread s p t k) v"
    by (rule outside_inv [OF inv s]) (use sp in \<open>simp add: sched_thread_frame Let_def same_node_def\<close>)
  show "parked (sched_thread s p t k) v s"
    using s p sp by (simp add: parked_def free_leaf_def sched_thread_frame Let_def fresh_node_def)
qed

end
