(* ===== verification/Sched_Spec.thy ===== *)
theory Sched_Spec
  imports Sched_Tree
begin

text \<open>
  The scheduler's properties: what \<open>lsetrun\<close> and \<open>swtch\<close> do to the set of waiting threads and in
  which order classes are served, how new nodes come in, and the odds of the draw among
  siblings. The witnesses run on a small kernel: one engine, the initial queues and one thread.
\<close>

text \<open>All scheduling nodes that wait for the CPU.\<close>

definition queued :: "runqs \<Rightarrow> ptr set" where
  "queued v = (\<Union>x\<in>fifos. set (v_fifo v x)) \<union> tree_leaves v"

lemma parked_not_queued:
  assumes "runq_inv k v" "parked k v s"
  shows "s \<notin> queued v"
proof -
  obtain nr ht where "tree_ok k (v_nodes v) (v_kids v) nr ht" by (rule runq_inv_tree [OF assms(1)])
  from free_leaf_not_kid [OF this] assms(2) show ?thesis
    by (auto simp: queued_def tree_leaves_def parked_def)
qed

lemma UN_upd: "x \<in> A \<Longrightarrow> (\<Union>y\<in>A. set ((f(x := g)) y)) = set g \<union> (\<Union>y\<in>A - {x}. set (f y))"
  by (auto simp: fun_upd_apply split: if_split_asm)
lemma UN_upd_append: 
  assumes "x \<in> A" shows "(\<Union>y\<in>A. set ((f(x := f x @ [s])) y)) = insert s (\<Union>y\<in>A. set (f y))"
proof -
  have "(\<Union>y\<in>A. set (f y)) = set (f x) \<union> (\<Union>y\<in>A - {x}. set (f y))" using assms by blast
  then show ?thesis unfolding UN_upd [OF assms] by simp
qed
lemma UN_upd_remove1: 
  assumes "x \<in> A" shows "(\<Union>y\<in>A. set ((f(x := remove1 s (f x))) y)) \<subseteq> (\<Union>y\<in>A. set (f y))"
   "(\<Union>y\<in>A. set (f y)) \<subseteq> insert s (\<Union>y\<in>A. set ((f(x := remove1 s (f x))) y))"
proof -
  have "(\<Union>y\<in>A. set (f y)) = set (f x) \<union> (\<Union>y\<in>A - {x}. set (f y))" using assms by blast
  moreover have "set (remove1 s (f x)) \<subseteq> set (f x)" "set (f x) \<subseteq> insert s (set (remove1 s (f x)))"
    by (rule set_remove1_subset) (metis in_set_remove1 insert_iff subsetI)
  ultimately show "(\<Union>y\<in>A. set ((f(x := remove1 s (f x))) y)) \<subseteq> (\<Union>y\<in>A. set (f y))"
   "(\<Union>y\<in>A. set (f y)) \<subseteq> insert s (\<Union>y\<in>A. set ((f(x := remove1 s (f x))) y))" unfolding UN_upd [OF assms] by blast+
qed

lemma sub_insert_Un: "A \<subseteq> A' \<Longrightarrow> B \<subseteq> insert s B' \<Longrightarrow> A \<union> (B - N) \<subseteq> insert s (A' \<union> (B' - N))"
  by blast

lemma sub_Un_insert: "A \<subseteq> insert s A' \<Longrightarrow> A \<union> B \<subseteq> insert s (A' \<union> B)"
  by blast

lemma queued_enqueue:
  assumes "parked k v s"
  shows "queued (view_enqueue c (s_up (sch k s)) s v) = insert s (queued v)"
proof -
  have s: "s \<notin> v_nodes v" "s_up (sch k s) \<in> v_nodes v" using assms by (simp_all add: parked_def free_leaf_def)
  show ?thesis
  proof (cases "c = Timeshare")
    case True
    let ?v = "view_enqueue c (s_up (sch k s)) s v"
    have e: "v_kids ?v = (v_kids v)(s_up (sch k s) := v_kids v (s_up (sch k s)) @ [s])"
      "v_nodes ?v = v_nodes v" "v_fifo ?v = v_fifo v"
      by (simp_all add: True view_enqueue_def)
    show ?thesis
      unfolding queued_def tree_leaves_def e UN_upd_append [OF s(2)]
      by (simp only: insert_Diff_if s(1) if_False Un_insert_right)
  next
    case False
    let ?v = "view_enqueue c (s_up (sch k s)) s v"
    have e: "v_fifo ?v = (v_fifo v)(class_fifo c := v_fifo v (class_fifo c) @ [s])"
      "v_nodes ?v = v_nodes v" "v_kids ?v = v_kids v"
      by (simp_all add: False view_enqueue_def)
    show ?thesis
      unfolding queued_def tree_leaves_def e UN_upd_append [OF class_fifo_mem [OF False]]
      by (simp only: Un_insert_left)
  qed
qed

lemma may_run_timeshare: "may_run v PRI_TIMESHARE s \<Longrightarrow> s \<in> tree_leaves v"
  by (simp add: may_run_def Let_def pri_defs split: if_split_asm)

lemma may_run_queued: "may_run v pri s \<Longrightarrow> s \<in> queued v"
  by (simp add: may_run_def Let_def queued_def fifos_def split: if_split_asm)

lemma queued_dequeue:
  assumes run: "may_run v pri s" and inv: "runq_inv k' (view_dequeue k pri s v)"
    "parked k' (view_dequeue k pri s v) s" and up: "s \<in> tree_leaves v \<Longrightarrow> s_up (sch k s) \<in> v_nodes v"
  shows "s \<in> queued v \<and> queued (view_dequeue k pri s v) = queued v - {s}"
proof -
  let ?v = "view_dequeue k pri s v"
  have "s \<notin> queued ?v" by (rule parked_not_queued [OF inv])
  moreover have "queued ?v \<subseteq> queued v \<and> queued v \<subseteq> insert s (queued ?v)"
  proof (cases "pri = PRI_TIMESHARE")
    case True
    then have "s \<in> tree_leaves v" using run may_run_timeshare by blast
    note u = UN_upd_remove1 [OF up [OF this], of "v_kids v" s]
    have e: "v_kids ?v = (v_kids v)(s_up (sch k s) := remove1 s (v_kids v (s_up (sch k s))))"
      "v_nodes ?v = v_nodes v" "v_fifo ?v = v_fifo v"
      by (simp_all add: True view_dequeue_def)
    show ?thesis
      unfolding queued_def tree_leaves_def e
      by (intro conjI Un_mono Diff_mono u(1) order_refl) (rule sub_insert_Un [OF order_refl u(2)])
  next
    case False
    define x where "x = (if pri = PRI_RT then sched_rt else if pri = PRI_CHEATED then sched_cheated else sched_bg)"
    have "x \<in> fifos" by (simp add: x_def fifos_def)
    note u = UN_upd_remove1 [OF this, of "v_fifo v" s]
    have e: "v_fifo ?v = (v_fifo v)(x := remove1 s (v_fifo v x))"
      "v_nodes ?v = v_nodes v" "v_kids ?v = v_kids v"
      unfolding view_dequeue_def if_not_P [OF False] Let_def x_def [symmetric] by simp_all
    show ?thesis
      unfolding queued_def tree_leaves_def e
      by (intro conjI Un_mono u(1) order_refl) (rule sub_Un_insert [OF u(2)])
  qed
  moreover have "s \<in> queued v"
    using may_run_queued [OF run] .
  ultimately show ?thesis by blast
qed

text \<open>The kernel of the witnesses.\<close>

definition boot_kern :: kern where
  "boot_kern = \<lparr>thr = (\<lambda>t. \<lparr>t_wchan = NULL, t_runq = 10, t_runticks = 0, t_state = TS_SLEEP,
       t_intr = False, t_nointr = False, t_flags = 0, t_oink = 0, t_hd = NULL, t_tl = NULL, t_eng = 7\<rparr>),
     sch = (\<lambda>s. \<lparr>s_u = NULL, s_up = NULL, s_hd = NULL, s_tl = NULL, s_prio = 0, s_nrun = 0,
       s_leaf = False, s_refs = 0\<rparr>),
     sem = (\<lambda>s. \<lparr>s_lock = False, s_count = 1, s_sleepq = NULL\<rparr>),
     cpus = (\<lambda>c. \<lparr>pc_thread = NULL, pc_locks = 0, pc_pri = 0, pc_flags = CPU_UP, pc_preempt = False,
       pc_nopreempt = 0, pc_next = 7\<rparr>),
     spin = (\<lambda>l. False), this_cpu = 7, nextcpu = 7, runq_lock = False, num_run = 0, intr_off = True\<rparr>"

definition one_thread :: kern where
  "one_thread = sched_thread 10 sched_root 20 (init_sched boot_kern)"

lemma one_thread_inv: "runq_inv one_thread empty_view \<and> parked one_thread empty_view 10"
  unfolding one_thread_def
  by (rule sched_thread_inv [OF init_sched_inv]) (auto simp: fresh_node_def empty_view_def fifos_def static_defs)

lemma one_thread_nodes:
  "sch one_thread 10 = \<lparr>s_u = 20, s_up = sched_root, s_hd = NULL, s_tl = NULL, s_prio = PRIO_DEFAULT,
     s_nrun = 0, s_leaf = True, s_refs = 0\<rparr>"
  "s_nrun (sch one_thread sched_root) = 0" "s_prio (sch one_thread sched_root) = PRIO_DEFAULT"
  "thr one_thread = thr boot_kern"
  by (simp_all add: one_thread_def sched_thread_frame Let_def init_sched_def init_sched2_def
      init_lock_def kern_simps static_defs boot_kern_def)

lemma one_thread_engines: "engines_ok one_thread"
  by (auto simp: engines_ok_def one_thread_def sched_thread_def Let_def p_lock_void_def v_lock_def
      ATOMIC_INCL_CPU_LOCKS_def ATOMIC_DECL_CPU_LOCKS_def init_sched_def init_sched2_def init_lock_def
      boot_kern_def upd_sch_def upd_cpu_def cli_def sti_def ring_single intro!: exI [of _ "[]"])

subsection \<open>Properties\<close>

text \<open>
  The scheduler starts in order and takes in new threads: after \<open>init_sched\<close> every queue is
  empty, and \<open>sched_thread\<close> on unused storage under an internal node leaves the queues as they
  were and yields a leaf that waits nowhere yet.
\<close>

theorem sched_init_spec:
  "runq_inv (init_sched k) empty_view \<and> queued empty_view = {} \<and>
   (\<forall>k' v s p t. runq_inv k' v \<longrightarrow> fresh_node v s \<longrightarrow> p \<in> v_nodes v \<longrightarrow>
      runq_inv (sched_thread s p t k') v \<and> parked (sched_thread s p t k') v s)"
  using init_sched_inv sched_thread_inv
  by (auto simp: queued_def tree_leaves_def empty_view_def)

theorem sched_init_spec_witness: "runq_inv (sched_thread 10 sched_root 20 (init_sched boot_kern)) empty_view"
proof -
  have "fresh_node empty_view 10" "sched_root \<in> v_nodes empty_view"
    by (auto simp: fresh_node_def empty_view_def fifos_def static_defs)
  then show ?thesis using sched_init_spec [of boot_kern] by blast
qed

text \<open>
  C29: \<open>lsetrun\<close> of a thread whose node waits nowhere returns, puts the node at the end of the queue
  of its class (real-time, background, cheated, else its place in the tree, with the counts
  above it updated), marks the thread runnable, and keeps every queue well-formed: the waiting
  nodes are those before and this one.
\<close>

theorem lsetrun_spec:
  assumes "runq_inv k v" "engines_ok k" "parked k v (t_runq (thr k t))"
    and "unat (s_nrun (sch k sched_root)) + 1 < 2 ^ 32"
  shows "\<exists>k'. lsetrun t k = Some k' \<and>
    (let s = t_runq (thr k t); v' = view_enqueue (run_class (thr k t)) (s_up (sch k s)) s v
     in runq_inv k' v' \<and> queued v' = insert s (queued v) \<and> s \<notin> queued v) \<and>
    thr k' = (thr k)(t := (thr k t)\<lparr>t_state := TS_RUN\<rparr>)"
  using lsetrun_inv [OF assms(1-3) refl assms(4)] queued_enqueue [OF assms(3)]
    parked_not_queued [OF assms(1,3)]
  by (auto simp: Let_def)

theorem lsetrun_spec_witness: "\<exists>k'. lsetrun 20 one_thread = Some k' \<and> t_state (thr k' 20) = TS_RUN"
proof -
  have "t_runq (thr one_thread 20) = 10" by (simp add: one_thread_nodes boot_kern_def)
  with lsetrun_spec [of one_thread empty_view 20] one_thread_inv one_thread_engines
  show ?thesis by (auto simp: one_thread_nodes)
qed

text \<open>
  C28: \<open>swtch\<close> over well-formed queues always ends. If any thread waits it takes exactly one out:
  the oldest real-time one if there is any, else the oldest cheated one, else one from the tree,
  else the oldest background one; that thread is on the CPU afterwards, with new ticks unless
  it was queued as cheated, and the queue lock is free. It idles only when nothing waits.
\<close>

theorem swtch_spec:
  assumes inv: "runq_inv k v" and pr: "\<forall>q\<in>v_nodes v. prio_ok k (v_kids v q)"
    "s_prio (sch k sched_root) \<noteq> 0"
  shows "(\<exists>s pri k'. swtch rnds k \<in> {Some (Same k'), Some (Switched k')} \<and> may_run v pri s \<and>
      runq_inv k' (view_dequeue k pri s v) \<and> s \<in> queued v \<and>
      queued (view_dequeue k pri s v) = queued v - {s} \<and>
      curthread k' = s_u (sch k s) \<and> t_state (thr k' (curthread k')) = TS_ONPROC \<and>
      (pri \<noteq> PRI_CHEATED \<longrightarrow> t_runticks (thr k' (curthread k')) = RUN_TICKS) \<and> \<not> runq_lock k') \<or>
    (\<exists>k'. swtch rnds k = Some (Idling k') \<and> queued v = {} \<and> runq_inv k' v \<and> curthread k' = NULL \<and>
      \<not> runq_lock k')"
proof -
  define k2 where k2: "k2 = upd_cpu (\<lambda>c. c\<lparr>pc_preempt := False\<rparr>)
    (if curthread k \<noteq> NULL \<and> t_state (thr k (curthread k)) = TS_SLEEP \<and> 0 < t_oink (thr k (curthread k))
     then upd_thr (curthread k) (\<lambda>x. x\<lparr>t_oink := t_oink x - 1\<rparr>) k else k)"
  have sw: "swtch rnds k = swtch_round rnds (curthread k) k2" by (simp add: swtch_def k2 Let_def)
  have sch2: "sch k2 = sch k" and cur: "curthread k = curthread k2" by (simp_all add: k2 kern_simps)
  have inv2: "runq_inv k2 v" and pr2: "\<forall>q\<in>v_nodes v. prio_ok k2 (v_kids v q)" "s_prio (sch k2 sched_root) \<noteq> 0"
    using inv pr by (simp_all add: runq_inv_sch [OF sch2] prio_ok_def sch2)
  have upn: "s_up (sch k s) \<in> v_nodes v" if leaf: "s \<in> tree_leaves v" for s
  proof -
    obtain p where p: "p \<in> v_nodes v" "s \<in> set (v_kids v p)" using leaf by (auto simp: tree_leaves_def)
    obtain nr ht where "tree_ok k (v_nodes v) (v_kids v) nr ht" by (rule runq_inv_tree [OF inv])
    from leaf_in_one [OF this p] p(1) show ?thesis by simp
  qed
  show ?thesis
    using swtch_round_inv [OF inv2 pr2 cur, of rnds]
  proof (elim disjE exE conjE)
    fix s pri k' assume r: "swtch_round rnds (curthread k) k2 \<in> {Some (Same k'), Some (Switched k')}"
      and "running k2 v s pri k'"
    note run = \<open>running k2 v s pri k'\<close> [unfolded running_def view_dequeue_sch [OF sch2] sch2]
    have "s \<in> queued v \<and> queued (view_dequeue k pri s v) = queued v - {s}"
      using run upn by (intro queued_dequeue [of v pri s k' k]) blast+
    with run r show ?thesis unfolding sw by blast
  next
    fix k' assume "swtch_round rnds (curthread k) k2 = Some (Idling k')"
      "\<forall>x\<in>fifos. v_fifo v x = []" "tree_leaves v = {}" "runq_inv k' v" "curthread k' = NULL" "\<not> runq_lock k'"
    then show ?thesis unfolding sw by (auto simp: queued_def)
  qed
qed

theorem swtch_spec_witness: "\<exists>k'. swtch (\<lambda>i. 0) one_thread = Some (Idling k')"
proof -
  have "queued empty_view = {}" by (auto simp: queued_def tree_leaves_def empty_view_def)
  moreover have "\<forall>q\<in>v_nodes empty_view. prio_ok one_thread (v_kids empty_view q)"
    by (simp add: empty_view_def prio_ok_def)
  moreover have "s_prio (sch one_thread sched_root) \<noteq> 0" by (simp add: one_thread_nodes PRIO_DEFAULT_def)
  ultimately show ?thesis
    using swtch_spec [of one_thread empty_view "\<lambda>i. 0"] one_thread_inv by auto
qed

text \<open>
  The draw among runnable siblings is off by one: of the \<open>sum\<close> equally likely numbers, the first
  sibling gets one more than its priority and the last one less, the others exactly theirs.
\<close>

theorem pick_draw_odds:
  assumes "\<forall>s\<in>set ss. s_nrun (sch k s) \<noteq> 0" "distinct ss" "prio_ok k ss" "i < length ss" "1 < length ss"
  shows "card {r. r < (\<Sum>s\<leftarrow>ss. unat (s_prio (sch k s))) \<and> draw_pass k ss (of_nat r) pick = ss ! i}
    = unat (s_prio (sch k (ss ! i))) + (if i = 0 then 1 else 0) - (if i = length ss - 1 then 1 else 0)"
  by (rule draw_pass_count [OF assms])

definition two_nodes :: kern where
  "two_nodes = boot_kern\<lparr>sch := (\<lambda>s. (sch boot_kern s)\<lparr>s_nrun := 1, s_prio := 20\<rparr>)\<rparr>"

theorem pick_draw_odds_witness:
  "card {r. r < 40 \<and> draw_pass two_nodes [30, 31] (of_nat r) 30 = 31} = 19"
  using pick_draw_odds [of "[30, 31]" two_nodes 1 30]
  by (simp add: two_nodes_def boot_kern_def prio_ok_def)

end
