(* ===== verification/Mutex.thy ===== *)
theory Mutex
  imports Sched_Spec
begin

text \<open>
  The sleeping semaphores of \<open>src/src/os/mach/mutex.c\<close>. \<open>p_sema\<close> and \<open>p_sema_v_lock\<close> are split at
  their call of \<open>swtch\<close>: the first half either takes the semaphore or queues the thread and is
  about to switch away; the second half, \<open>p_sema_resume\<close>, is what the thread does when it runs
  again. The invariant \<open>sema_inv\<close> relates each semaphore to the list of its sleepers: its count
  is negative exactly when threads sleep on it, and then says how many.
\<close>

subsection \<open>The operations\<close>

definition q_sema :: "ptr \<Rightarrow> ptr \<Rightarrow> kern \<Rightarrow> kern" where
  "q_sema s t k =
     (if s_sleepq (sem k s) = NULL then
        upd_thr t (\<lambda>x. x\<lparr>t_hd := t, t_tl := t\<rparr>) (upd_sem s (\<lambda>x. x\<lparr>s_sleepq := t\<rparr>) k)
      else (let t2 = s_sleepq (sem k s);
                k1 = upd_thr t (\<lambda>x. x\<lparr>t_hd := t2\<rparr>) k;
                k2 = upd_thr t (\<lambda>x. x\<lparr>t_tl := t_tl (thr k1 t2)\<rparr>) k1;
                k3 = upd_thr (t_tl (thr k2 t)) (\<lambda>x. x\<lparr>t_hd := t\<rparr>) k2
            in upd_thr t2 (\<lambda>x. x\<lparr>t_tl := t\<rparr>) k3))"

definition dq_sema :: "ptr \<Rightarrow> ptr \<Rightarrow> kern \<Rightarrow> kern" where
  "dq_sema s t k =
     (let k1 = upd_sem s (\<lambda>x. x\<lparr>s_count := s_count x + 1\<rparr>) k
      in if t_hd (thr k1 t) = t then upd_sem s (\<lambda>x. x\<lparr>s_sleepq := NULL\<rparr>) k1
         else (let hd0 = t_hd (thr k1 t); tl0 = t_tl (thr k1 t);
                   k2 = upd_thr tl0 (\<lambda>x. x\<lparr>t_hd := hd0\<rparr>) (upd_thr hd0 (\<lambda>x. x\<lparr>t_tl := tl0\<rparr>) k1)
               in if s_sleepq (sem k2 s) = t
                  then upd_sem s (\<lambda>x. x\<lparr>s_sleepq := hd0\<rparr>) k2 else k2))"

definition PRIHI :: uint where "PRIHI = 0xFF"

text \<open>\<open>Got\<close>: the semaphore was taken. \<open>Sleeps\<close>: queued, asleep, about to call \<open>swtch\<close>.\<close>

datatype p_result = Got kern | Sleeps kern

definition p_sema :: "ptr \<Rightarrow> uint \<Rightarrow> kern \<Rightarrow> p_result" where
  "p_sema s p k =
     (let k1 = p_lock_void (SemaLock s) SPLHI k;
          k2 = upd_sem s (\<lambda>x. x\<lparr>s_count := s_count x - 1\<rparr>) k1
      in if 0 \<le> s_count (sem k2 s) then Got (v_lock (SemaLock s) SPL0 k2)
         else (let t = curthread k2;
                   k3 = upd_thr t (\<lambda>x. x\<lparr>t_wchan := s, t_nointr := (p = PRIHI), t_intr := False\<rparr>) k2;
                   k4 = q_sema s t k3;
                   k5 = v_lock (SemaLock s) SPLHI_SAME (p_lock_void RunqLock SPLHI_SAME k4);
                   k6 = upd_thr t (\<lambda>x. x\<lparr>t_state := TS_SLEEP\<rparr>) k5
               in Sleeps (ATOMIC_DEC_num_run k6)))"

text \<open>The rest of \<open>p_sema\<close> once the thread runs again; the result 1 is an interrupted sleep.\<close>

definition p_sema_resume :: "kern \<Rightarrow> nat \<times> kern" where
  "p_sema_resume k =
     (let k1 = sti k; t = curthread k1;
          k2 = upd_thr t (\<lambda>x. x\<lparr>t_nointr := False\<rparr>) k1
      in (if t_intr (thr k2 t) then 1 else 0, k2))"

definition cp_sema :: "ptr \<Rightarrow> kern \<Rightarrow> int \<times> kern" where
  "cp_sema s k =
     (let (sp, k1) = p_lock (SemaLock s) SPLHI k
      in if 0 < s_count (sem k1 s)
         then (0, v_lock (SemaLock s) sp (upd_sem s (\<lambda>x. x\<lparr>s_count := s_count x - 1\<rparr>) k1))
         else (- 1, v_lock (SemaLock s) sp k1))"

definition v_sema :: "ptr \<Rightarrow> kern \<Rightarrow> kern option" where
  "v_sema s k =
     (let (sp, k1) = p_lock (SemaLock s) SPLHI k
      in if s_sleepq (sem k1 s) \<noteq> NULL then
           (let t = s_sleepq (sem k1 s);
                k2 = dq_sema s t k1;
                k3 = upd_thr t (\<lambda>x. x\<lparr>t_wchan := NULL\<rparr>) k2;
                k4 = p_lock_void RunqLock SPLHI_SAME k3
            in (case lsetrun t k4 of
                  None \<Rightarrow> None
                | Some k5 \<Rightarrow> Some (v_lock (SemaLock s) sp (v_lock RunqLock SPLHI_SAME k5))))
         else Some (v_lock (SemaLock s) sp (upd_sem s (\<lambda>x. x\<lparr>s_count := s_count x + 1\<rparr>) k1)))"

partial_function (option) vall_sema :: "ptr \<Rightarrow> kern \<Rightarrow> kern option" where
  "vall_sema s k =
     (if s_count (sem k s) < 0 then Option.bind (v_sema s k) (\<lambda>k1. vall_sema s k1) else Some k)"

definition p_sema_v_lock :: "ptr \<Rightarrow> uint \<Rightarrow> lockid \<Rightarrow> kern \<Rightarrow> p_result" where
  "p_sema_v_lock s p l k =
     (let k1 = p_lock_void (SemaLock s) SPLHI k;
          k2 = upd_sem s (\<lambda>x. x\<lparr>s_count := s_count x - 1\<rparr>) k1
      in if 0 \<le> s_count (sem k2 s)
         then Got (v_lock l SPL0 (v_lock (SemaLock s) SPLHI_SAME k2))
         else (let t = curthread k2;
                   k3 = upd_thr t (\<lambda>x. x\<lparr>t_wchan := s, t_intr := False, t_nointr := (p = PRIHI)\<rparr>) k2;
                   k4 = q_sema s t k3;
                   k5 = v_lock (SemaLock s) SPLHI_SAME (p_lock_void RunqLock SPLHI_SAME k4);
                   k6 = v_lock l SPLHI_SAME k5;
                   k7 = upd_thr t (\<lambda>x. x\<lparr>t_state := TS_SLEEP\<rparr>) k6
               in Sleeps (ATOMIC_DEC_num_run k7)))"

definition cunsleep :: "ptr \<Rightarrow> kern \<Rightarrow> nat \<times> kern" where
  "cunsleep t k =
     (let sp = t_wchan (thr k t); (s, k1) = cp_lock (SemaLock sp) SPLHI k
      in (case s of
            None \<Rightarrow> (1, k1)
          | Some m \<Rightarrow>
              (let k2 = dq_sema sp t k1;
                   k3 = upd_thr t (\<lambda>x. x\<lparr>t_wchan := NULL, t_intr := True\<rparr>) k2
               in (0, v_lock (SemaLock sp) m k3))))"

subsection \<open>The sleepers of a semaphore\<close>

abbreviation thd :: "kern \<Rightarrow> ptr \<Rightarrow> ptr" where "thd k \<equiv> \<lambda>p. t_hd (thr k p)"
abbreviation ttl :: "kern \<Rightarrow> ptr \<Rightarrow> ptr" where "ttl k \<equiv> \<lambda>p. t_tl (thr k p)"

definition sleepers :: "kern \<Rightarrow> ptr \<Rightarrow> ptr list \<Rightarrow> bool" where
  "sleepers k s ts \<longleftrightarrow> hring (s_sleepq (sem k s)) (thd k) (ttl k) ts"

lemma sleepers_mem:
  "sleepers k s ts \<Longrightarrow> x \<in> set ts \<Longrightarrow> t_hd (thr k x) \<in> set ts \<and> t_tl (thr k x) \<in> set ts"
  using ring_nx_mem [of "thd k" "ttl k" ts x] by (auto simp: sleepers_def hring_def split: if_splits)

text \<open>Thread fields other than the queue links.\<close>

definition thr_same :: "thread \<Rightarrow> thread \<Rightarrow> bool" where
  "thr_same a b \<longleftrightarrow> t_wchan b = t_wchan a \<and> t_runq b = t_runq a \<and> t_state b = t_state a \<and>
     t_flags b = t_flags a \<and> t_runticks b = t_runticks a \<and> t_oink b = t_oink a \<and>
     t_intr b = t_intr a \<and> t_nointr b = t_nointr a"

text \<open>A change of the links of \<open>A\<close> and of the queue (and count) of \<open>s\<close> only.\<close>

definition requeued :: "ptr \<Rightarrow> ptr set \<Rightarrow> kern \<Rightarrow> kern \<Rightarrow> bool" where
  "requeued s A k k' \<longleftrightarrow>
     (\<forall>t. thr_same (thr k t) (thr k' t) \<and> (t \<notin> A \<longrightarrow> thr k' t = thr k t)) \<and>
     (\<forall>q. q \<noteq> s \<longrightarrow> sem k' q = sem k q) \<and> sch k' = sch k \<and> cpus k' = cpus k \<and>
     this_cpu k' = this_cpu k \<and> nextcpu k' = nextcpu k"

lemma thr_same_refl [simp]: "thr_same a a"
  by (simp add: thr_same_def)

lemma thr_same_links [simp]:
  "thr_same a (b\<lparr>t_hd := x\<rparr>) = thr_same a b" "thr_same a (b\<lparr>t_tl := x\<rparr>) = thr_same a b"
  by (simp_all add: thr_same_def)

lemma thr_sameD:
  assumes "thr_same a b"
  shows "t_wchan b = t_wchan a" "t_runq b = t_runq a" "t_state b = t_state a" "t_flags b = t_flags a"
    "t_runticks b = t_runticks a" "t_oink b = t_oink a" "t_intr b = t_intr a" "t_nointr b = t_nointr a"
  using assms by (auto simp: thr_same_def)

lemma q_sema_sleepers:
  assumes k: "sleepers k s ts" and t: "t \<noteq> NULL" "t \<notin> set ts"
  shows "sleepers (q_sema s t k) s (ts @ [t])" "requeued s (insert t (set ts)) k (q_sema s t k)"
    "s_count (sem (q_sema s t k) s) = s_count (sem k s)"
proof -
  let ?h = "s_sleepq (sem k s)"
  have e: "?h = NULL \<longleftrightarrow> ts = []" using k unfolding sleepers_def by (rule hring_null)
  have "sleepers (q_sema s t k) s (ts @ [t]) \<and> requeued s (insert t (set ts)) k (q_sema s t k)"
  proof (cases "ts = []")
    case True
    then have h: "?h = NULL" using e by simp
    then have "thd (q_sema s t k) = (thd k)(t := t)" "ttl (q_sema s t k) = (ttl k)(t := t)"
      by (auto simp: q_sema_def kern_simps)
    then show ?thesis
      using True h t(1) hring_first [of t "thd k" "ttl k"]
      by (auto simp: sleepers_def requeued_def q_sema_def kern_simps)
  next
    case False
    have h: "?h \<noteq> NULL" "?h \<in> set ts" using k False e by (auto simp: sleepers_def hring_def)
    have m: "t_tl (thr k ?h) \<in> set ts" "t \<noteq> ?h" "t \<noteq> t_tl (thr k ?h)"
      using sleepers_mem [OF k h(2)] t(2) h(2) by auto
    have f: "thd (q_sema s t k) = (thd k)(t := ?h, t_tl (thr k ?h) := t)"
      "ttl (q_sema s t k) = (ttl k)(t := t_tl (thr k ?h), ?h := t)"
      using h m by (auto simp: q_sema_def Let_def kern_simps)
    have "requeued s (insert t (set ts)) k (q_sema s t k)"
      using h m by (auto simp: requeued_def q_sema_def Let_def kern_simps)
    moreover have "s_sleepq (sem (q_sema s t k) s) = ?h"
      using h by (simp add: q_sema_def Let_def kern_simps)
    ultimately show ?thesis
      using hring_insert [of ?h "thd k" "ttl k" ts t] k h t by (simp add: sleepers_def f)
  qed
  then show "sleepers (q_sema s t k) s (ts @ [t])" "requeued s (insert t (set ts)) k (q_sema s t k)"
    by blast+
  show "s_count (sem (q_sema s t k) s) = s_count (sem k s)"
    by (simp add: q_sema_def Let_def kern_simps)
qed

lemma dq_sema_sleepers:
  assumes k: "sleepers k s ts" and t: "t \<in> set ts"
  shows "sleepers (dq_sema s t k) s (remove1 t ts)" "requeued s (set ts) k (dq_sema s t k)"
    "s_count (sem (dq_sema s t k) s) = s_count (sem k s) + 1"
proof -
  have "sleepers (dq_sema s t k) s (remove1 t ts) \<and> requeued s (set ts) k (dq_sema s t k)"
  proof (cases "t_hd (thr k t) = t")
    case True
    have "remove1 t ts = []"
      using hring_delete_alone [of "s_sleepq (sem k s)" "thd k" "ttl k" ts t] k t True
      by (simp add: sleepers_def)
    with True show ?thesis by (auto simp: sleepers_def requeued_def dq_sema_def Let_def kern_simps)
  next
    case False
    have f: "thd (dq_sema s t k) = (thd k)(t_tl (thr k t) := t_hd (thr k t))"
      "ttl (dq_sema s t k) = (ttl k)(t_hd (thr k t) := t_tl (thr k t))"
      "s_sleepq (sem (dq_sema s t k) s) =
        (if s_sleepq (sem k s) = t then t_hd (thr k t) else s_sleepq (sem k s))"
      using False by (auto simp: dq_sema_def Let_def kern_simps)
    have "requeued s (set ts) k (dq_sema s t k)"
      using sleepers_mem [OF k t] False by (auto simp: requeued_def dq_sema_def Let_def kern_simps)
    with hring_delete [of "s_sleepq (sem k s)" "thd k" "ttl k" ts t] k t False show ?thesis
      by (simp add: sleepers_def f)
  qed
  then show "sleepers (dq_sema s t k) s (remove1 t ts)" "requeued s (set ts) k (dq_sema s t k)"
    by blast+
  show "s_count (sem (dq_sema s t k) s) = s_count (sem k s) + 1"
    by (simp add: dq_sema_def Let_def kern_simps)
qed

text \<open>Semaphore queues provide the queue contract, too.\<close>

interpretation sleep_queue: ring_queue "\<lambda>t. t \<noteq> NULL" "\<lambda>k. sleepers k s" "\<lambda>t. q_sema s t"
  "\<lambda>t. dq_sema s t" "\<lambda>k. s_sleepq (sem k s)" for s
proof
  fix k ts assume "sleepers k s ts"
  then show "distinct ts" by (simp add: sleepers_def hring_distinct)
  assume "ts \<noteq> []"
  with \<open>sleepers k s ts\<close> show "s_sleepq (sem k s) = hd ts" by (simp add: sleepers_def hring_def)
qed (auto intro: q_sema_sleepers dq_sema_sleepers)

lemma sleepers_frame:
  assumes "requeued s A k k'" "sleepers k q ts" "q \<noteq> s" "set ts \<inter> A = {}"
  shows "sleepers k' q ts"
proof -
  have "\<forall>p\<in>set ts. thr k' p = thr k p" "sem k' q = sem k q"
    using assms by (auto simp: requeued_def disjoint_iff)
  then show ?thesis
    using hring_frame [of "s_sleepq (sem k q)" "thd k" "ttl k" ts "thd k'" "ttl k'"] assms(2)
    by (simp add: sleepers_def)
qed

subsection \<open>The invariant\<close>

definition sema_inv :: "kern \<Rightarrow> (ptr \<Rightarrow> ptr list) \<Rightarrow> bool" where
  "sema_inv k Q \<longleftrightarrow> (\<forall>s. s \<noteq> NULL \<longrightarrow> sleepers k s (Q s) \<and>
     int (length (Q s)) = max 0 (- s_count (sem k s)) \<and>
     (\<forall>t. t \<in> set (Q s) \<longleftrightarrow> t \<noteq> NULL \<and> t_wchan (thr k t) = s) \<and>
     (\<forall>t\<in>set (Q s). t_state (thr k t) = TS_SLEEP))"

lemma sema_invD:
  assumes "sema_inv k Q" "s \<noteq> NULL"
  shows "sleepers k s (Q s)" "int (length (Q s)) = max 0 (- s_count (sem k s))"
    "t \<in> set (Q s) \<longleftrightarrow> t \<noteq> NULL \<and> t_wchan (thr k t) = s"
    "t \<in> set (Q s) \<Longrightarrow> t_state (thr k t) = TS_SLEEP" "distinct (Q s)"
proof -
  have a: "sleepers k s (Q s) \<and> int (length (Q s)) = max 0 (- s_count (sem k s)) \<and>
     (\<forall>t. t \<in> set (Q s) \<longleftrightarrow> t \<noteq> NULL \<and> t_wchan (thr k t) = s) \<and>
     (\<forall>t\<in>set (Q s). t_state (thr k t) = TS_SLEEP)"
    using assms unfolding sema_inv_def by blast
  then show "sleepers k s (Q s)" "int (length (Q s)) = max 0 (- s_count (sem k s))"
    "t \<in> set (Q s) \<longleftrightarrow> t \<noteq> NULL \<and> t_wchan (thr k t) = s"
    "t \<in> set (Q s) \<Longrightarrow> t_state (thr k t) = TS_SLEEP"
    by blast+
  show "distinct (Q s)" using a hring_distinct unfolding sleepers_def by blast
qed

lemma sema_invI:
  assumes "\<And>r. r \<noteq> NULL \<Longrightarrow> sleepers k r (Q r)"
    "\<And>r. r \<noteq> NULL \<Longrightarrow> int (length (Q r)) = max 0 (- s_count (sem k r))"
    "\<And>p r. r \<noteq> NULL \<Longrightarrow> p \<in> set (Q r) \<longleftrightarrow> p \<noteq> NULL \<and> t_wchan (thr k p) = r"
    "\<And>p r. r \<noteq> NULL \<Longrightarrow> p \<in> set (Q r) \<Longrightarrow> t_state (thr k p) = TS_SLEEP"
  shows "sema_inv k Q"
  unfolding sema_inv_def by (intro allI impI conjI ballI assms)

text \<open>Same threads, counts and queues.\<close>

definition same_sems :: "kern \<Rightarrow> kern \<Rightarrow> bool" where
  "same_sems k k' \<longleftrightarrow> (\<forall>s. s_count (sem k' s) = s_count (sem k s) \<and> s_sleepq (sem k' s) = s_sleepq (sem k s))"

lemma same_coreD: "same_core k k' \<Longrightarrow> thr k' = thr k \<and> sch k' = sch k \<and> same_sems k k'"
  by (simp add: same_core_def same_sems_def)

lemma sema_inv_core: "thr k' = thr k \<Longrightarrow> same_sems k k' \<Longrightarrow> sema_inv k' Q = sema_inv k Q"
  by (simp add: sema_inv_def sleepers_def same_sems_def)

lemma sleepers_core:
  assumes "same_sems k k'" "\<forall>t\<in>set ts. t_hd (thr k' t) = t_hd (thr k t) \<and> t_tl (thr k' t) = t_tl (thr k t)"
  shows "sleepers k s ts \<Longrightarrow> sleepers k' s ts"
  using hring_frame [of "s_sleepq (sem k s)" "thd k" "ttl k" ts "thd k'" "ttl k'"] assms
  by (simp add: sleepers_def same_sems_def)

lemma count_sleepers: "sema_inv k Q \<Longrightarrow> s \<noteq> NULL \<Longrightarrow> Q s \<noteq> [] \<longleftrightarrow> s_count (sem k s) < 0"
  using sema_invD(2) [of k Q s] by (cases "Q s") auto

lemma sleepq_null: "sema_inv k Q \<Longrightarrow> s \<noteq> NULL \<Longrightarrow> s_sleepq (sem k s) = NULL \<longleftrightarrow> Q s = []"
  using hring_null sema_invD(1) unfolding sleepers_def by blast

text \<open>A thread that sleeps nowhere joins the queue of \<open>s\<close>.\<close>

lemma sema_inv_enqueue:
  assumes inv: "sema_inv k Q" and s: "s \<noteq> NULL" and t: "t \<noteq> NULL" "t_wchan (thr k t) = NULL"
    and k3: "thr k3 = (thr k)(t := x)" "t_wchan x = s"
      "\<And>q. s_sleepq (sem k3 q) = s_sleepq (sem k q)"
      "\<And>q. s_count (sem k3 q) = s_count (sem k q) - (if q = s then 1 else 0)" "s_count (sem k s) \<le> 0"
    and k': "thr k' = (thr (q_sema s t k3))(t := (thr (q_sema s t k3) t)\<lparr>t_state := TS_SLEEP\<rparr>)"
      "same_sems (q_sema s t k3) k'"
  shows "sema_inv k' (Q(s := Q s @ [t]))"
proof -
  note i = sema_invD [OF inv]
  have tn: "t \<notin> set (Q q)" if "q \<noteq> NULL" for q
    using i(3) [OF that, of t] t that by simp
  have sl: "sleepers k3 q (Q q)" if q: "q \<noteq> NULL" for q
    using hring_frame [of "s_sleepq (sem k q)" "thd k" "ttl k" "Q q" "thd k3" "ttl k3"] i(1) [OF q] tn [OF q]
    by (auto simp: sleepers_def k3(1,3))
  note q = q_sema_sleepers [OF sl [OF s] t(1) tn [OF s]]
  let ?k4 = "q_sema s t k3"
  have links: "t_hd (thr k' p) = t_hd (thr ?k4 p)" "t_tl (thr k' p) = t_tl (thr ?k4 p)" for p
    by (simp_all add: k'(1))
  have same: "thr_same (thr k3 p) (thr ?k4 p)" for p using q(2) by (simp add: requeued_def)
  have wchan: "t_wchan (thr k' p) = (if p = t then s else t_wchan (thr k p))" for p
    using thr_sameD(1) [OF same [of p]] by (auto simp: k'(1) k3(1,2))
  have state: "t_state (thr k' p) = (if p = t then TS_SLEEP else t_state (thr k p))" for p
    using thr_sameD(3) [OF same [of p]] by (auto simp: k'(1) k3(1))
  have slp: "sleepers k' r ((Q(s := Q s @ [t])) r)" if r: "r \<noteq> NULL" for r
  proof (rule sleepers_core [OF k'(2)])
    show "sleepers ?k4 r ((Q(s := Q s @ [t])) r)"
    proof (cases "r = s")
      case False
      have "set (Q r) \<inter> insert t (set (Q s)) = {}" using i(3) [OF r] i(3) [OF s] False tn [OF r] by auto
      with False sleepers_frame [OF q(2) sl [OF r]] show ?thesis by simp
    qed (use q(1) in simp)
  qed (use links in simp)
  have cnt: "s_count (sem k' r) = s_count (sem k r) - (if r = s then 1 else 0)" for r
  proof -
    have "s_count (sem k' r) = s_count (sem ?k4 r)" using k'(2) by (simp add: same_sems_def)
    also have "\<dots> = s_count (sem k3 r)" using q(2,3) by (cases "r = s") (auto simp: requeued_def)
    finally show ?thesis by (simp add: k3(4))
  qed
  have len: "int (length ((Q(s := Q s @ [t])) r)) = max 0 (- s_count (sem k' r))" if r: "r \<noteq> NULL" for r
    using i(2) [OF r] k3(5) by (cases "r = s") (simp_all add: cnt)
  have mem: "p \<in> set ((Q(s := Q s @ [t])) r) \<longleftrightarrow> p \<noteq> NULL \<and> t_wchan (thr k' p) = r" if r: "r \<noteq> NULL" for p r
    using i(3) [OF r, of p] t r unfolding wchan by (cases "r = s"; cases "p = t"; simp)
  have st: "t_state (thr k' p) = TS_SLEEP" if r: "r \<noteq> NULL" "p \<in> set ((Q(s := Q s @ [t])) r)" for p r
    using i(4) [OF r(1), of p] r(2) unfolding state by (cases "r = s"; cases "p = t"; simp)
  show ?thesis by (rule sema_invI [OF slp len mem st])
qed

text \<open>A sleeper leaves the queue of its semaphore.\<close>

lemma sema_inv_dequeue:
  assumes inv: "sema_inv k Q" and s: "s \<noteq> NULL" and t: "t \<in> set (Q s)"
    and k': "thr k' = (thr (dq_sema s t k))(t := y)" "t_wchan y = NULL" "same_sems (dq_sema s t k) k'"
  shows "sema_inv k' (Q(s := remove1 t (Q s)))"
proof -
  note i = sema_invD [OF inv]
  note q = dq_sema_sleepers [OF i(1) [OF s] t]
  let ?k2 = "dq_sema s t k"
  have t0: "t \<noteq> NULL" "t_wchan (thr k t) = s" using i(3) [OF s] t by auto
  have same: "thr_same (thr k p) (thr ?k2 p)" for p using q(2) by (simp add: requeued_def)
  have wchan: "t_wchan (thr k' p) = (if p = t then NULL else t_wchan (thr k p))" for p
    using thr_sameD(1) [OF same [of p]] by (auto simp: k'(1,2))
  have state: "p \<noteq> t \<Longrightarrow> t_state (thr k' p) = t_state (thr k p)" for p
    using thr_sameD(3) [OF same [of p]] by (auto simp: k'(1))
  have tn: "t \<notin> set ((Q(s := remove1 t (Q s))) r)" if "r \<noteq> NULL" for r
    using i(3) [OF that] i(5) [OF s] t0 by auto
  have slp: "sleepers k' r ((Q(s := remove1 t (Q s))) r)" if r: "r \<noteq> NULL" for r
  proof (rule sleepers_core [OF k'(3)])
    show "sleepers ?k2 r ((Q(s := remove1 t (Q s))) r)"
    proof (cases "r = s")
      case False
      have "set (Q r) \<inter> set (Q s) = {}" using i(3) [OF r] i(3) [OF s] False by auto
      with False sleepers_frame [OF q(2) i(1) [OF r]] show ?thesis by simp
    qed (use q(1) in simp)
  qed (use tn [OF r] in \<open>auto simp: k'(1)\<close>)
  have cnt: "s_count (sem k' r) = s_count (sem k r) + (if r = s then 1 else 0)" for r
  proof -
    have "s_count (sem k' r) = s_count (sem ?k2 r)" using k'(3) by (simp add: same_sems_def)
    then show ?thesis using q(2,3) by (cases "r = s") (auto simp: requeued_def)
  qed
  have len: "int (length ((Q(s := remove1 t (Q s))) r)) = max 0 (- s_count (sem k' r))" if r: "r \<noteq> NULL" for r
  proof (cases "r = s")
    case True
    have "0 < length (Q s)" using t by (cases "Q s") auto
    then have "int (length (remove1 t (Q s))) = int (length (Q s)) - 1"
      using t by (simp add: length_remove1 of_nat_diff Suc_leI)
    with i(2) [OF s] True \<open>0 < length (Q s)\<close> show ?thesis by (simp add: cnt)
  qed (use i(2) [OF r] in \<open>simp add: cnt\<close>)
  have mem: "p \<in> set ((Q(s := remove1 t (Q s))) r) \<longleftrightarrow> p \<noteq> NULL \<and> t_wchan (thr k' p) = r" if r: "r \<noteq> NULL" for p r
    using i(3) [OF r] i(5) [OF s] t0 r by (auto simp: wchan)
  have st: "t_state (thr k' p) = TS_SLEEP" if r: "r \<noteq> NULL" "p \<in> set ((Q(s := remove1 t (Q s))) r)" for p r
  proof -
    have "p \<noteq> t" using tn [OF r(1)] r(2) by blast
    moreover have "p \<in> set (Q r)" using r i(5) [OF s] by (auto split: if_splits)
    ultimately show ?thesis using i(4) [OF r(1)] state by auto
  qed
  show ?thesis by (rule sema_invI [OF slp len mem st])
qed

subsection \<open>The operations keep it\<close>

lemma lock_frame [kern_simps]:
  "thr (p_lock_void l m k) = thr k" "thr (v_lock l m k) = thr k" "thr (snd (p_lock l m k)) = thr k"
  "sch (p_lock_void l m k) = sch k" "sch (v_lock l m k) = sch k" "sch (snd (p_lock l m k)) = sch k"
  "s_count (sem (p_lock_void l m k) q) = s_count (sem k q)"
  "s_count (sem (v_lock l m k) q) = s_count (sem k q)"
  "s_count (sem (snd (p_lock l m k)) q) = s_count (sem k q)"
  "s_sleepq (sem (p_lock_void l m k) q) = s_sleepq (sem k q)"
  "s_sleepq (sem (v_lock l m k) q) = s_sleepq (sem k q)"
  "s_sleepq (sem (snd (p_lock l m k)) q) = s_sleepq (sem k q)"
  "this_cpu (p_lock_void l m k) = this_cpu k" "this_cpu (v_lock l m k) = this_cpu k"
  "this_cpu (snd (p_lock l m k)) = this_cpu k"
  "pc_thread (cpus (p_lock_void l m k) c) = pc_thread (cpus k c)"
  "pc_thread (cpus (v_lock l m k) c) = pc_thread (cpus k c)"
  "pc_thread (cpus (snd (p_lock l m k)) c) = pc_thread (cpus k c)"
  "pc_next (cpus (p_lock_void l m k) c) = pc_next (cpus k c)"
  "pc_next (cpus (v_lock l m k) c) = pc_next (cpus k c)"
  "pc_next (cpus (snd (p_lock l m k)) c) = pc_next (cpus k c)"
  by (simp_all add: p_lock_void_def v_lock_def p_lock_def Let_def ATOMIC_INCL_CPU_LOCKS_def
      ATOMIC_DECL_CPU_LOCKS_def kern_simps)

lemma num_run_frame [kern_simps]:
  "thr (ATOMIC_DEC_num_run k) = thr k" "sch (ATOMIC_DEC_num_run k) = sch k"
  "sem (ATOMIC_DEC_num_run k) = sem k" "cpus (ATOMIC_DEC_num_run k) = cpus k"
  "this_cpu (ATOMIC_DEC_num_run k) = this_cpu k"
  by (simp_all add: ATOMIC_DEC_num_run_def)

text \<open>What both ways of taking a semaphore do when they cannot.\<close>

definition go_to_sleep :: "ptr \<Rightarrow> (kern \<Rightarrow> kern) \<Rightarrow> (thread \<Rightarrow> thread) \<Rightarrow> kern \<Rightarrow> kern" where
  "go_to_sleep s unlock g k =
     (let t = curthread k;
          k4 = q_sema s t (upd_thr t g k);
          k5 = unlock (v_lock (SemaLock s) SPLHI_SAME (p_lock_void RunqLock SPLHI_SAME k4))
      in ATOMIC_DEC_num_run (upd_thr t (\<lambda>x. x\<lparr>t_state := TS_SLEEP\<rparr>) k5))"

lemma go_to_sleep_inv:
  assumes inv: "sema_inv k Q" and s: "s \<noteq> NULL" and t: "curthread k \<noteq> NULL" "t_wchan (thr k (curthread k)) = NULL"
    and c: "s_count (sem k s) \<le> 0"
    and k2: "k2 = upd_sem s (\<lambda>x. x\<lparr>s_count := s_count x - 1\<rparr>) (p_lock_void (SemaLock s) SPLHI k)"
    and u: "unlock = (\<lambda>k. k) \<or> unlock = v_lock l m" and g: "t_wchan (g (thr k (curthread k))) = s"
  shows "sema_inv (go_to_sleep s unlock g k2) (Q(s := Q s @ [curthread k]))"
    "sch (go_to_sleep s unlock g k2) = sch k"
proof -
  let ?t = "curthread k" and ?k' = "go_to_sleep s unlock g k2"
  have cur: "curthread k2 = ?t" by (simp add: k2 kern_simps)
  let ?k4 = "q_sema s ?t (upd_thr ?t g k2)"
  have un: "thr (unlock x) = thr x" "same_sems x (unlock x)" "sch (unlock x) = sch x" for x
    using u by (auto simp: same_sems_def kern_simps)
  show "sema_inv ?k' (Q(s := Q s @ [?t]))"
  proof (rule sema_inv_enqueue [OF inv s t(1) t(2)])
    show "thr (upd_thr ?t g k2) = (thr k)(?t := g (thr k ?t))" by (simp add: k2 kern_simps)
    show "thr ?k' = (thr ?k4)(?t := (thr ?k4 ?t)\<lparr>t_state := TS_SLEEP\<rparr>)"
      by (simp add: go_to_sleep_def Let_def cur un kern_simps)
    show "same_sems ?k4 ?k'"
      using un(2) by (simp add: go_to_sleep_def Let_def cur kern_simps same_sems_def)
  qed (use c g in \<open>auto simp: k2 kern_simps\<close>)
  have "sch (q_sema s t x) = sch x" for t x by (simp add: q_sema_def Let_def kern_simps)
  then show "sch ?k' = sch k"
    by (simp add: go_to_sleep_def Let_def un k2 kern_simps)
qed

lemma p_sema_cases:
  fixes s p k
  defines "k2 \<equiv> upd_sem s (\<lambda>x. x\<lparr>s_count := s_count x - 1\<rparr>) (p_lock_void (SemaLock s) SPLHI k)"
  shows "p_sema s p k =
      (if 0 < s_count (sem k s) then Got (v_lock (SemaLock s) SPL0 k2)
       else Sleeps (go_to_sleep s (\<lambda>k. k) (\<lambda>x. x\<lparr>t_wchan := s, t_nointr := (p = PRIHI), t_intr := False\<rparr>) k2))"
    and "p_sema_v_lock s p l k =
      (if 0 < s_count (sem k s) then Got (v_lock l SPL0 (v_lock (SemaLock s) SPLHI_SAME k2))
       else Sleeps (go_to_sleep s (v_lock l SPLHI_SAME)
              (\<lambda>x. x\<lparr>t_wchan := s, t_intr := False, t_nointr := (p = PRIHI)\<rparr>) k2))"
  by (simp_all add: p_sema_def p_sema_v_lock_def go_to_sleep_def Let_def k2_def kern_simps)

text \<open>One attempt to take \<open>s\<close>, as both functions make it.\<close>

definition p_spec :: "ptr \<Rightarrow> kern \<Rightarrow> (ptr \<Rightarrow> ptr list) \<Rightarrow> p_result \<Rightarrow> bool" where
  "p_spec s k Q r \<longleftrightarrow>
     (case r of
        Got k' \<Rightarrow> 0 < s_count (sem k s) \<and> sema_inv k' Q \<and> thr k' = thr k \<and> sch k' = sch k \<and>
          s_count (sem k' s) = s_count (sem k s) - 1
      | Sleeps k' \<Rightarrow> s_count (sem k s) \<le> 0 \<and> sema_inv k' (Q(s := Q s @ [curthread k])) \<and> sch k' = sch k)"

lemma p_sema_inv:
  assumes "sema_inv k Q" "s \<noteq> NULL" "curthread k \<noteq> NULL" "t_wchan (thr k (curthread k)) = NULL"
  shows "p_spec s k Q (p_sema s p k)" "p_spec s k Q (p_sema_v_lock s p l k)"
proof -
  let ?k2 = "upd_sem s (\<lambda>x. x\<lparr>s_count := s_count x - 1\<rparr>) (p_lock_void (SemaLock s) SPLHI k)"
  have got: "sema_inv k' Q" if "0 < s_count (sem k s)" "thr k' = thr k"
    "\<And>q. s_sleepq (sem k' q) = s_sleepq (sem k q)"
    "\<And>q. s_count (sem k' q) = s_count (sem k q) - (if q = s then 1 else 0)" for k'
    using assms(1) that by (auto simp: sema_inv_def sleepers_def)
  show "p_spec s k Q (p_sema s p k)"
    using got [of "v_lock (SemaLock s) SPL0 ?k2"] go_to_sleep_inv [OF assms _ refl disjI1 [OF refl]]
    by (simp add: p_spec_def p_sema_cases not_less kern_simps)
  show "p_spec s k Q (p_sema_v_lock s p l k)"
    using got [of "v_lock l SPL0 (v_lock (SemaLock s) SPLHI_SAME ?k2)"]
      go_to_sleep_inv [OF assms _ refl disjI2 [OF refl]]
    by (simp add: p_spec_def p_sema_cases not_less kern_simps)
qed

lemma cp_sema_inv:
  assumes "sema_inv k Q"
  shows "sema_inv (snd (cp_sema s k)) (Q) \<and> thr (snd (cp_sema s k)) = thr k \<and> sch (snd (cp_sema s k)) = sch k \<and>
    (fst (cp_sema s k) = 0 \<longleftrightarrow> 0 < s_count (sem k s)) \<and>
    s_count (sem (snd (cp_sema s k)) s) = (if 0 < s_count (sem k s) then s_count (sem k s) - 1 else s_count (sem k s))"
proof -
  obtain sp k1 where p: "p_lock (SemaLock s) SPLHI k = (sp, k1)" by (cases "p_lock (SemaLock s) SPLHI k")
  have k1: "k1 = snd (p_lock (SemaLock s) SPLHI k)" by (simp add: p)
  have f: "thr k1 = thr k" "sch k1 = sch k" "\<And>q. s_count (sem k1 q) = s_count (sem k q)"
    "\<And>q. s_sleepq (sem k1 q) = s_sleepq (sem k q)"
    by (simp_all only: k1 lock_frame)
  show ?thesis
    using assms by (auto simp: cp_sema_def p f sema_inv_def sleepers_def kern_simps)
qed

text \<open>Engines and the scheduling tree do not depend on locks.\<close>

lemma engines_cong:
  "(\<And>c. pc_next (cpus k' c) = pc_next (cpus k c)) \<Longrightarrow> nextcpu k' = nextcpu k \<Longrightarrow> engines_ok k' = engines_ok k"
  by (simp add: engines_ok_def)

lemma nextcpu_frame [kern_simps]:
  "nextcpu (set_lock l b k) = nextcpu k" "nextcpu (cli k) = nextcpu k" "nextcpu (sti k) = nextcpu k"
  by (cases l; simp add: kern_simps cli_def sti_def)+

lemma nextcpu_lock [kern_simps]:
  "nextcpu (p_lock_void l m k) = nextcpu k" "nextcpu (v_lock l m k) = nextcpu k"
  "nextcpu (snd (p_lock l m k)) = nextcpu k"
  by (simp_all add: p_lock_void_def v_lock_def p_lock_def Let_def ATOMIC_INCL_CPU_LOCKS_def
      ATOMIC_DECL_CPU_LOCKS_def kern_simps)

lemma engines_locks [simp]:
  "engines_ok (p_lock_void l m k) = engines_ok k" "engines_ok (v_lock l m k) = engines_ok k"
  "engines_ok (snd (p_lock l m k)) = engines_ok k" "engines_ok (upd_thr t f k) = engines_ok k"
  "engines_ok (upd_sem s g k) = engines_ok k"
  by (rule engines_cong; simp add: kern_simps)+

lemma requeued_engines: "requeued s A k k' \<Longrightarrow> engines_ok k' = engines_ok k"
  by (rule engines_cong) (simp_all add: requeued_def)

lemma remove1_hd: "remove1 x (x # xs) = xs"
  by simp

lemma view_enqueue_nodes: "v_nodes (view_enqueue c p s v) = v_nodes v"
  by (simp add: view_enqueue_def)

lemma parked_enqueue:
  assumes "parked k v p" "p \<noteq> s" "others_kept v s k k'"
  shows "parked k' (view_enqueue c q s v) p"
proof -
  have "p \<notin> v_nodes v" using assms(1) by (simp add: parked_def free_leaf_def)
  then have "free_leaf k' (v_nodes v) p" using assms by (simp add: others_kept_def parked_def)
  then show ?thesis using assms(1,2) by (auto simp: parked_def view_enqueue_def)
qed

text \<open>What \<open>v_sema\<close> does to a semaphore nobody sleeps on, and to one with sleepers.\<close>

lemma v_sema_none:
  assumes inv: "sema_inv k Q" and s: "s \<noteq> NULL" "Q s = []"
  shows "\<exists>k'. v_sema s k = Some k' \<and> sema_inv k' Q \<and> thr k' = thr k \<and> sch k' = sch k \<and>
    s_count (sem k' s) = s_count (sem k s) + 1"
proof -
  obtain sp k1 where p: "p_lock (SemaLock s) SPLHI k = (sp, k1)" by (cases "p_lock (SemaLock s) SPLHI k")
  have k1: "k1 = snd (p_lock (SemaLock s) SPLHI k)" by (simp add: p)
  have f: "thr k1 = thr k" "sch k1 = sch k" "\<And>q. s_count (sem k1 q) = s_count (sem k q)"
    "\<And>q. s_sleepq (sem k1 q) = s_sleepq (sem k q)"
    by (simp_all only: k1 lock_frame)
  have nul: "s_sleepq (sem k s) = NULL" using sleepq_null [OF inv s(1)] s(2) by blast
  then have v: "v_sema s k = Some (v_lock (SemaLock s) sp (upd_sem s (\<lambda>x. x\<lparr>s_count := s_count x + 1\<rparr>) k1))"
    by (simp add: v_sema_def p f)
  have "0 \<le> s_count (sem k s)" using count_sleepers [OF inv s(1)] s(2) by simp
  then have "sema_inv (v_lock (SemaLock s) sp (upd_sem s (\<lambda>x. x\<lparr>s_count := s_count x + 1\<rparr>) k1)) Q"
    using inv s nul by (auto simp: sema_inv_def sleepers_def kern_simps f)
  with v show ?thesis by (simp add: kern_simps f)
qed

lemma v_sema_wakes:
  assumes inv: "sema_inv k Q" and s: "s \<noteq> NULL" "Q s = t # ts"
    and run: "runq_inv k v" "engines_ok k" "parked k v (t_runq (thr k t))"
    and room: "unat (s_nrun (sch k sched_root)) + 1 < 2 ^ 32"
  shows "\<exists>k' v' y. v_sema s k = Some k' \<and> sema_inv k' (Q(s := ts)) \<and>
    s_count (sem k' s) = s_count (sem k s) + 1 \<and>
    t_wchan y = NULL \<and> t_state y = TS_RUN \<and> (\<forall>p. p \<noteq> t \<longrightarrow> thr_same (thr k p) (thr k' p)) \<and>
    thr k' t = y \<and> t_runq y = t_runq (thr k t) \<and> runq_inv k' v' \<and> engines_ok k' \<and>
    queued v' = insert (t_runq (thr k t)) (queued v) \<and>
    (\<forall>p. parked k v p \<longrightarrow> p \<noteq> t_runq (thr k t) \<longrightarrow> parked k' v' p) \<and>
    unat (s_nrun (sch k' sched_root)) \<le> unat (s_nrun (sch k sched_root)) + 1"
proof -
  obtain sp k1 where p: "p_lock (SemaLock s) SPLHI k = (sp, k1)" by (cases "p_lock (SemaLock s) SPLHI k")
  have k1: "k1 = snd (p_lock (SemaLock s) SPLHI k)" by (simp add: p)
  have f: "thr k1 = thr k" "sch k1 = sch k" "same_sems k k1" "engines_ok k1"
    by (simp_all add: k1 same_sems_def kern_simps run(2))
  have inv1: "sema_inv k1 Q" using inv sema_inv_core [OF f(1,3)] by blast
  have q: "sleepers k1 s (Q s)" "t \<in> set (Q s)" using sema_invD(1) [OF inv1 s(1)] s(2) by simp_all
  have h: "s_sleepq (sem k1 s) = t" "t \<noteq> NULL"
    using q(1) sema_invD(3) [OF inv1 s(1), of t] s(2) by (auto simp: sleepers_def hring_def)
  note d = dq_sema_sleepers [OF q]
  define k2 where "k2 = dq_sema s t k1"
  define k4 where "k4 = p_lock_void RunqLock SPLHI_SAME (upd_thr t (\<lambda>x. x\<lparr>t_wchan := NULL\<rparr>) k2)"
  have same2: "thr_same (thr k p) (thr k2 p)" for p using d(2) by (simp add: requeued_def k2_def f)
  have s2: "sch k2 = sch k" "engines_ok k2"
    using d(2) f requeued_engines [OF d(2)] by (simp_all add: requeued_def k2_def)
  have k4: "thr k4 = (thr k2)(t := (thr k2 t)\<lparr>t_wchan := NULL\<rparr>)" "sch k4 = sch k" "engines_ok k4"
    "same_sems k2 k4"
    using s2 by (simp_all add: k4_def same_sems_def kern_simps)
  have rq: "t_runq (thr k4 t) = t_runq (thr k t)" using thr_sameD(2) [OF same2 [of t]] by (simp add: k4)
  have run4: "runq_inv k4 v" "parked k4 v (t_runq (thr k t))" "unat (s_nrun (sch k4 sched_root)) + 1 < 2 ^ 32"
    using run room runq_inv_sch [OF k4(2)] parked_sch [OF k4(2)] by (simp_all add: k4(2))
  let ?v' = "view_enqueue (run_class (thr k4 t)) (s_up (sch k4 (t_runq (thr k t)))) (t_runq (thr k t)) v"
  obtain k5 where k5: "lsetrun t k4 = Some k5" "runq_inv k5 ?v'"
    "thr k5 = (thr k4)(t := (thr k4 t)\<lparr>t_state := TS_RUN\<rparr>)" "sem k5 = sem k4"
    "others_kept v (t_runq (thr k t)) k4 k5" "engines_ok k5"
    using lsetrun_inv [OF run4(1) k4(3) run4(2) rq run4(3)] by blast
  define k' where "k' = v_lock (SemaLock s) sp (v_lock RunqLock SPLHI_SAME k5)"
  have fr: "thr k' = thr k5" "sch k' = sch k5" "engines_ok k'" "same_sems k5 k'"
    using k5(6) by (simp_all add: k'_def same_sems_def kern_simps)
  have v: "v_sema s k = Some k'"
    using h k5(1) by (simp add: v_sema_def p k'_def k2_def k4_def Let_def)
  have thr': "thr k' = (thr (dq_sema s t k1))(t := (thr k2 t)\<lparr>t_wchan := NULL, t_state := TS_RUN\<rparr>)"
    by (simp add: fr k5(3) k4(1)) (simp add: k2_def)
  have sems: "same_sems (dq_sema s t k1) k'"
    using k4(4) fr(4) k5(4) by (simp add: same_sems_def k2_def)
  have "sema_inv k' (Q(s := remove1 t (Q s)))"
    by (rule sema_inv_dequeue [OF inv1 s(1) q(2) thr' _ sems]) simp
  moreover have "s_count (sem k' s) = s_count (sem k s) + 1"
    using sems d(3) f(3) by (simp add: same_sems_def)
  moreover have "parked k' ?v' p" if "parked k v p" "p \<noteq> t_runq (thr k t)" for p
  proof -
    have "parked k4 v p" using that(1) parked_sch [OF k4(2)] by blast
    from parked_enqueue [OF this that(2) k5(5)] show ?thesis using parked_sch [OF fr(2)] by blast
  qed
  moreover have "queued ?v' = insert (t_runq (thr k t)) (queued v)" by (rule queued_enqueue [OF run4(2)])
  moreover have "runq_inv k' ?v'" using k5(2) runq_inv_sch [OF fr(2)] by blast
  moreover have "\<forall>p. p \<noteq> t \<longrightarrow> thr_same (thr k p) (thr k' p)" using same2 by (simp add: thr' k2_def)
  moreover have "unat (s_nrun (sch k' sched_root)) \<le> unat (s_nrun (sch k sched_root)) + 1"
    using k5(5) by (simp add: others_kept_def fr(2) k4(2))
  moreover have "thr k' t = (thr k2 t)\<lparr>t_wchan := NULL, t_state := TS_RUN\<rparr>"
    "t_runq (thr k2 t) = t_runq (thr k t)"
    using thr_sameD(2) [OF same2 [of t]] by (simp_all add: thr')
  ultimately show ?thesis using v fr(3) s(2)
    by (intro exI [of _ k'] exI [of _ ?v'] exI [of _ "thr k' t"] conjI) simp_all
qed

lemma vall_sema_wakes:
  assumes "sema_inv k Q" "s \<noteq> NULL" "runq_inv k v" "engines_ok k"
    "\<forall>t\<in>set (Q s). parked k v (t_runq (thr k t))" "distinct (map (\<lambda>t. t_runq (thr k t)) (Q s))"
    "unat (s_nrun (sch k sched_root)) + length (Q s) < 2 ^ 32"
  shows "\<exists>k' v'. vall_sema s k = Some k' \<and> sema_inv k' (Q(s := [])) \<and> runq_inv k' v' \<and>
    queued v' = (\<lambda>t. t_runq (thr k t)) ` set (Q s) \<union> queued v \<and>
    s_count (sem k' s) = max 0 (s_count (sem k s)) \<and>
    (\<forall>t\<in>set (Q s). t_state (thr k' t) = TS_RUN \<and> t_wchan (thr k' t) = NULL) \<and>
    (\<forall>p. p \<notin> set (Q s) \<longrightarrow> thr_same (thr k p) (thr k' p))"
  using assms
proof (induction "Q s" arbitrary: k Q v)
  case Nil
  then have "\<not> s_count (sem k s) < 0" using count_sleepers [of k Q s] by auto
  then have "vall_sema s k = Some k" by (subst vall_sema.simps) simp
  moreover have "Q(s := []) = Q" using Nil.hyps by (simp add: fun_eq_iff)
  ultimately show ?case using Nil \<open>\<not> s_count (sem k s) < 0\<close> by auto
next
  case (Cons t ts)
  note inv = Cons.prems(1) and s = Cons.prems(2)
  have Q: "Q s = t # ts" using Cons.hyps(2) by simp
  have tp: "parked k v (t_runq (thr k t))" "unat (s_nrun (sch k sched_root)) + 1 < 2 ^ 32"
    using Cons.prems(5,7) Q by auto
  have dist: "t \<notin> set ts" "t_runq (thr k t) \<notin> (\<lambda>t. t_runq (thr k t)) ` set ts"
    "distinct (map (\<lambda>t. t_runq (thr k t)) ts)"
    using Cons.prems(6) sema_invD(5) [OF inv s] by (auto simp: Q)
  obtain k1 v1 where w: "v_sema s k = Some k1" "sema_inv k1 (Q(s := ts))"
    "s_count (sem k1 s) = s_count (sem k s) + 1" "t_wchan (thr k1 t) = NULL" "t_state (thr k1 t) = TS_RUN"
    "\<And>p. p \<noteq> t \<Longrightarrow> thr_same (thr k p) (thr k1 p)" "runq_inv k1 v1" "engines_ok k1"
    "queued v1 = insert (t_runq (thr k t)) (queued v)"
    "\<And>p. parked k v p \<Longrightarrow> p \<noteq> t_runq (thr k t) \<Longrightarrow> parked k1 v1 p"
    "unat (s_nrun (sch k1 sched_root)) \<le> unat (s_nrun (sch k sched_root)) + 1"
    using v_sema_wakes [OF inv s Q Cons.prems(3,4) tp] by blast
  have rq: "t_runq (thr k1 p) = t_runq (thr k p)" if "p \<in> set ts" for p
    using thr_sameD(2) [OF w(6), of p] that dist(1) by auto
  then have mp: "map (\<lambda>t. t_runq (thr k1 t)) ts = map (\<lambda>t. t_runq (thr k t)) ts"
    "(\<lambda>t. t_runq (thr k1 t)) ` set ts = (\<lambda>t. t_runq (thr k t)) ` set ts" by auto
  have pk: "\<forall>p\<in>set ts. parked k1 v1 (t_runq (thr k1 p))"
  proof
    fix p assume p: "p \<in> set ts"
    then have "parked k v (t_runq (thr k p))" using Cons.prems(5) by (simp add: Q)
    moreover have "t_runq (thr k p) \<noteq> t_runq (thr k t)" using dist(2) imageI [OF p, of "\<lambda>t. t_runq (thr k t)"] by metis
    ultimately show "parked k1 v1 (t_runq (thr k1 p))" using w(10) rq [OF p] by metis
  qed
  have "ts = (Q(s := ts)) s" by simp
  from Cons.hyps(1) [OF this w(2) s w(7,8)] pk dist(3) mp(1) w(11) Cons.prems(7) Q
  obtain k2 v2 where r: "vall_sema s k1 = Some k2" "sema_inv k2 (Q(s := []))" "runq_inv k2 v2"
    "queued v2 = (\<lambda>t. t_runq (thr k t)) ` set ts \<union> queued v1"
    "s_count (sem k2 s) = max 0 (s_count (sem k1 s))"
    "\<And>p. p \<in> set ts \<Longrightarrow> t_state (thr k2 p) = TS_RUN \<and> t_wchan (thr k2 p) = NULL"
    "\<And>p. p \<notin> set ts \<Longrightarrow> thr_same (thr k1 p) (thr k2 p)"
    by (auto simp: mp(2))
  have neg: "s_count (sem k s) < 0" using count_sleepers [OF inv s] Q by simp
  then have "vall_sema s k = Some k2" using w(1) r(1) by (subst vall_sema.simps) simp
  moreover have "s_count (sem k2 s) = max 0 (s_count (sem k s))" using r(5) w(3) neg by simp
  moreover have "t_state (thr k2 p) = TS_RUN \<and> t_wchan (thr k2 p) = NULL" if "p \<in> set (Q s)" for p
    using that r(6) thr_sameD(1,3) [OF r(7) [OF dist(1)]] w(4,5) by (cases "p = t") (auto simp: Q)
  moreover have "thr_same (thr k p) (thr k2 p)" if "p \<notin> set (Q s)" for p
    using w(6) [of p] r(7) [of p] that by (simp add: Q thr_same_def)
  ultimately show ?case using r(2-4) w(9) by (auto simp: Q)
qed

lemma cunsleep_inv:
  assumes inv: "sema_inv k Q" and t: "t \<noteq> NULL" "t_wchan (thr k t) = s" "s \<noteq> NULL"
  shows "fst (cunsleep t k) = (if s_lock (sem k s) then 1 else 0) \<and>
    (if s_lock (sem k s) then snd (cunsleep t k) = k
     else sema_inv (snd (cunsleep t k)) (Q(s := remove1 t (Q s))) \<and>
       s_count (sem (snd (cunsleep t k)) s) = s_count (sem k s) + 1 \<and>
       t_intr (thr (snd (cunsleep t k)) t) \<and> t_wchan (thr (snd (cunsleep t k)) t) = NULL \<and>
       sch (snd (cunsleep t k)) = sch k)"
proof (cases "s_lock (sem k s)")
  case True
  then show ?thesis by (simp add: cunsleep_def t cp_lock_def)
next
  case False
  define k1 where "k1 = set_lock (SemaLock s) True (ATOMIC_INCL_CPU_LOCKS (cli k))"
  have c: "cp_lock (SemaLock s) SPLHI k = (Some (geti k), k1)" using False by (simp add: cp_lock_def k1_def)
  have f: "thr k1 = thr k" "same_sems k k1" "sch k1 = sch k"
    by (simp_all add: k1_def ATOMIC_INCL_CPU_LOCKS_def same_sems_def kern_simps)
  have inv1: "sema_inv k1 Q" using inv sema_inv_core [OF f(1,2)] by blast
  have m: "t \<in> set (Q s)" using sema_invD(3) [OF inv t(3), of t] t by simp
  define k' where "k' = v_lock (SemaLock s) (geti k)
    (upd_thr t (\<lambda>x. x\<lparr>t_wchan := NULL, t_intr := True\<rparr>) (dq_sema s t k1))"
  have e: "cunsleep t k = (0, k')" by (simp add: cunsleep_def t(2) c k'_def Let_def)
  note d = dq_sema_sleepers [OF sema_invD(1) [OF inv1 t(3)] m]
  have thr': "thr k' = (thr (dq_sema s t k1))(t := (thr (dq_sema s t k1) t)\<lparr>t_wchan := NULL, t_intr := True\<rparr>)"
    "sch k' = sch (dq_sema s t k1)"
    by (simp_all add: k'_def kern_simps)
  have sems: "same_sems (dq_sema s t k1) k'" by (simp add: k'_def same_sems_def kern_simps)
  have "sema_inv k' (Q(s := remove1 t (Q s)))"
    by (rule sema_inv_dequeue [OF inv1 t(3) m thr'(1) _ sems]) simp
  moreover have "s_count (sem k' s) = s_count (sem k s) + 1"
    using sems d(3) f(2) by (simp add: same_sems_def)
  moreover have "sch k' = sch k" using d(2) f(3) thr'(2) by (simp add: requeued_def)
  ultimately show ?thesis using False by (simp add: e thr'(1))
qed

lemma p_sema_spec:
  assumes "sema_inv k Q" "s \<noteq> NULL" "curthread k \<noteq> NULL" "t_wchan (thr k (curthread k)) = NULL"
    and "p_sema s p k = r \<or> p_sema_v_lock s p l k = r"
  shows "p_spec s k Q r"
  using assms(5) p_sema_inv [OF assms(1-4)] by metis

end
