(* ===== verification/Mutex_Spec.thy ===== *)
theory Mutex_Spec
  imports Mutex
begin

text \<open>
  The properties of the sleeping semaphores: what taking and releasing do to the queue of
  sleepers, and that a semaphore initialised by \<open>init_sema\<close> excludes, whatever order its
  operations come in.
\<close>

subsection \<open>Mutual exclusion\<close>

text \<open>
  The life of a semaphore \<open>s\<close> from \<open>init_sema\<close> on, as a history of the operations threads apply to
  it, with the number \<open>h\<close> of threads that hold it: a take that did not sleep makes a holder, a
  release frees the semaphore or hands it to the thread it wakes, an interrupted sleeper goes
  away without it. \<open>other\<close> is whatever else the kernel does between these steps.
\<close>

inductive mutex_history :: "ptr \<Rightarrow> kern \<Rightarrow> (ptr \<Rightarrow> ptr list) \<Rightarrow> nat \<Rightarrow> bool" for s where
  start: "sema_inv (init_sema s k) Q \<Longrightarrow> mutex_history s (init_sema s k) Q 0"
| take: "mutex_history s k Q h \<Longrightarrow> p_sema s p k = Got k' \<or> p_sema_v_lock s p l k = Got k' \<Longrightarrow>
    curthread k \<noteq> NULL \<Longrightarrow> t_wchan (thr k (curthread k)) = NULL \<Longrightarrow> mutex_history s k' Q (Suc h)"
| sleep: "mutex_history s k Q h \<Longrightarrow> p_sema s p k = Sleeps k' \<or> p_sema_v_lock s p l k = Sleeps k' \<Longrightarrow>
    curthread k \<noteq> NULL \<Longrightarrow> t_wchan (thr k (curthread k)) = NULL \<Longrightarrow>
    mutex_history s k' (Q(s := Q s @ [curthread k])) h"
| try_take: "mutex_history s k Q h \<Longrightarrow> cp_sema s k = (r, k') \<Longrightarrow>
    mutex_history s k' Q (if r = 0 then Suc h else h)"
| free: "mutex_history s k Q h \<Longrightarrow> 0 < h \<Longrightarrow> v_sema s k = Some k' \<Longrightarrow> Q s = [] \<Longrightarrow>
    mutex_history s k' Q (h - 1)"
| hand_over: "mutex_history s k Q h \<Longrightarrow> 0 < h \<Longrightarrow> v_sema s k = Some k' \<Longrightarrow> Q s = t # ts \<Longrightarrow>
    runq_inv k v \<Longrightarrow> engines_ok k \<Longrightarrow> parked k v (t_runq (thr k t)) \<Longrightarrow>
    unat (s_nrun (sch k sched_root)) + 1 < 2 ^ 32 \<Longrightarrow> mutex_history s k' (Q(s := ts)) h"
| interrupt: "mutex_history s k Q h \<Longrightarrow> cunsleep t k = (r, k') \<Longrightarrow> t \<noteq> NULL \<Longrightarrow> t_wchan (thr k t) = s \<Longrightarrow>
    mutex_history s k' (if r = 0 then Q(s := remove1 t (Q s)) else Q) h"
| other: "mutex_history s k Q h \<Longrightarrow> sema_inv k' Q' \<Longrightarrow> Q' s = Q s \<Longrightarrow>
    s_count (sem k' s) = s_count (sem k s) \<Longrightarrow> mutex_history s k' Q' h"

lemma mutex_history_inv:
  assumes "mutex_history s k Q h" and s: "s \<noteq> NULL"
  shows "sema_inv k Q \<and> s_count (sem k s) = 1 - int h - int (length (Q s))"
  using assms(1)
proof induction
  case (start k Q)
  have "s_count (sem (init_sema s k) s) = 1"
    by (simp add: init_sema_def init_lock_def kern_simps)
  with sema_invD(2) [OF start s] start show ?case by simp
next
  case (take k Q h p k' l)
  from p_sema_spec [OF conjunct1 [OF take.IH] s take.hyps(3,4,2)] have "p_spec s k Q (Got k')" .
  with take.IH show ?case by (simp add: p_spec_def)
next
  case (sleep k Q h p k' l)
  from p_sema_spec [OF conjunct1 [OF sleep.IH] s sleep.hyps(3,4,2)] have "p_spec s k Q (Sleeps k')" .
  then have a: "s_count (sem k s) \<le> 0" "sema_inv k' (Q(s := Q s @ [curthread k]))"
    by (simp_all add: p_spec_def)
  have "int (length (Q s)) = max 0 (- s_count (sem k s))"
    by (rule sema_invD(2) [OF conjunct1 [OF sleep.IH] s])
  moreover have "int (length ((Q(s := Q s @ [curthread k])) s)) = max 0 (- s_count (sem k' s))"
    by (rule sema_invD(2) [OF a(2) s])
  then have "int (length (Q s)) + 1 = max 0 (- s_count (sem k' s))" by simp
  moreover have "s_count (sem k s) = 1 - int h - int (length (Q s))" by (rule conjunct2 [OF sleep.IH])
  ultimately have "s_count (sem k' s) = 1 - int h - (int (length (Q s)) + 1)" using a(1) by linarith
  then have "s_count (sem k' s) = 1 - int h - int (length ((Q(s := Q s @ [curthread k])) s))" by simp
  with a(2) show ?case by blast
next
  case (try_take k Q h r k')
  note c = cp_sema_inv [OF conjunct1 [OF try_take.IH], of s, unfolded try_take.hyps(2) fst_conv snd_conv]
  have "0 < s_count (sem k s) \<Longrightarrow> length (Q s) = 0"
    using sema_invD(2) [OF conjunct1 [OF try_take.IH] s] by simp
  with c try_take.IH show ?case by (cases "r = 0") simp_all
next
  case (free k Q h k')
  from v_sema_none [OF conjunct1 [OF free.IH] s free.hyps(4)] free.hyps(3)
  have "sema_inv k' Q" "s_count (sem k' s) = s_count (sem k s) + 1" by simp_all
  with free.IH free.hyps(2) show ?case by (simp add: of_nat_diff)
next
  case (hand_over k Q h k' t ts v)
  from v_sema_wakes [OF conjunct1 [OF hand_over.IH] s hand_over.hyps(4-8)] hand_over.hyps(3)
  have w: "sema_inv k' (Q(s := ts))" "s_count (sem k' s) = s_count (sem k s) + 1" by auto
  from w(2) hand_over.IH hand_over.hyps(4)
  have "s_count (sem k' s) = 1 - int h - int (length ((Q(s := ts)) s))" by simp
  with w(1) show ?case by blast
next
  case (interrupt k Q h t r k')
  note c = cunsleep_inv [OF conjunct1 [OF interrupt.IH] interrupt.hyps(3,4) s,
      unfolded interrupt.hyps(2) fst_conv snd_conv]
  have m: "t \<in> set (Q s)"
    using sema_invD(3) [OF conjunct1 [OF interrupt.IH] s, of t] interrupt.hyps(3,4) by simp
  then have "0 < length (Q s)" by (cases "Q s") auto
  then have l: "int (length (remove1 t (Q s))) = int (length (Q s)) - 1"
    using m by (simp add: length_remove1 of_nat_diff Suc_leI)
  show ?case
  proof (cases "s_lock (sem k s)")
    case True
    with c interrupt.IH show ?thesis by simp
  next
    case False
    with c have w: "r = 0" "sema_inv k' (Q(s := remove1 t (Q s)))" "s_count (sem k' s) = s_count (sem k s) + 1"
      by simp_all
    from w(3) l interrupt.IH
    have "s_count (sem k' s) = 1 - int h - int (length ((Q(s := remove1 t (Q s))) s))" by simp
    with w(1,2) show ?thesis unfolding if_P [OF w(1)] by blast
  qed
next
  case (other k Q h k' Q')
  then show ?case by simp
qed

subsection \<open>Properties\<close>

text \<open>The kernels of the witnesses: one thread on the CPU, and one asleep on a semaphore.\<close>

definition running_kern :: kern where
  "running_kern = upd_cpu (\<lambda>c. c\<lparr>pc_thread := 20\<rparr>) one_thread"

definition asleep_kern :: kern where
  "asleep_kern =
     upd_thr 20 (\<lambda>x. x\<lparr>t_wchan := 50, t_state := TS_SLEEP, t_hd := 20, t_tl := 20\<rparr>)
       (upd_sem 50 (\<lambda>x. x\<lparr>s_count := - 1, s_sleepq := 20\<rparr>) one_thread)"

lemma one_thread_sem: "sem one_thread = sem boot_kern"
  by (simp add: one_thread_def sched_thread_def Let_def p_lock_void_def v_lock_def
      ATOMIC_INCL_CPU_LOCKS_def ATOMIC_DECL_CPU_LOCKS_def init_sched_def init_sched2_def init_lock_def
      kern_simps)

lemma running_kern_inv:
  "sema_inv running_kern (\<lambda>_. [])" "curthread running_kern = 20" "thr running_kern = thr boot_kern"
  "sem running_kern = sem boot_kern"
  by (simp_all add: sema_inv_def sleepers_def hring_def running_kern_def one_thread_sem
      one_thread_nodes boot_kern_def kern_simps)

lemma asleep_kern_facts:
  "sema_inv asleep_kern ((\<lambda>_. [])(50 := [20]))" "runq_inv asleep_kern empty_view"
  "parked asleep_kern empty_view 10" "engines_ok asleep_kern" "sch asleep_kern = sch one_thread"
  "t_runq (thr asleep_kern 20) = 10" "s_count (sem asleep_kern 50) = - 1"
proof -
  show s: "sch asleep_kern = sch one_thread" by (simp add: asleep_kern_def kern_simps)
  show "runq_inv asleep_kern empty_view" "parked asleep_kern empty_view 10"
    using one_thread_inv runq_inv_sch [OF s] parked_sch [OF s] by blast+
  show "engines_ok asleep_kern" by (simp add: asleep_kern_def one_thread_engines)
  show "t_runq (thr asleep_kern 20) = 10" "s_count (sem asleep_kern 50) = - 1"
    by (simp_all add: asleep_kern_def kern_simps one_thread_nodes boot_kern_def)
  have "hring 20 (thd asleep_kern) (ttl asleep_kern) [20]"
    using hring_first [of 20 "thd asleep_kern" "ttl asleep_kern"]
    by (simp add: asleep_kern_def kern_simps fun_upd_idem)
  then show "sema_inv asleep_kern ((\<lambda>_. [])(50 := [20]))"
    by (auto intro!: sema_invI simp: sleepers_def asleep_kern_def kern_simps one_thread_sem
        one_thread_nodes boot_kern_def hring_def split: if_splits)
qed

text \<open>
  Taking a semaphore, by \<open>p_sema\<close> or while giving up a spinlock by \<open>p_sema_v_lock\<close>: a positive
  count is decremented and the threads stay as they are; otherwise the current thread joins the
  end of the semaphore's queue and sleeps. Either way counts and queues still agree for every
  semaphore.
\<close>

theorem sema_take_spec:
  assumes "sema_inv k Q" "s \<noteq> NULL" "curthread k \<noteq> NULL" "t_wchan (thr k (curthread k)) = NULL"
    and "p_sema s p k = r \<or> p_sema_v_lock s p l k = r"
  shows "(0 < s_count (sem k s) \<and> (\<exists>k'. r = Got k' \<and> sema_inv k' Q \<and> thr k' = thr k \<and>
      s_count (sem k' s) = s_count (sem k s) - 1)) \<or>
    (s_count (sem k s) \<le> 0 \<and> (\<exists>k'. r = Sleeps k' \<and> sema_inv k' (Q(s := Q s @ [curthread k]))))"
  using p_sema_spec [OF assms] by (cases r) (auto simp: p_spec_def)

theorem sema_take_spec_witness:
  "\<exists>k'. p_sema 50 PRIHI running_kern = Got k' \<and> s_count (sem k' 50) = 0"
proof -
  have "s_count (sem running_kern 50) = 1" by (simp add: running_kern_inv boot_kern_def)
  moreover have "t_wchan (thr running_kern (curthread running_kern)) = NULL"
    by (simp add: running_kern_inv boot_kern_def)
  ultimately show ?thesis
    using sema_take_spec [OF running_kern_inv(1), of 50 PRIHI "p_sema 50 PRIHI running_kern" "OtherLock 0"]
    by (simp add: running_kern_inv(2)) blast
qed

text \<open>
  Releasing a semaphore always returns. With sleepers, the one that has slept longest leaves the
  queue, is runnable, and its node waits for the CPU; without sleepers the count goes up and no
  thread changes.
\<close>

theorem v_sema_spec:
  assumes "sema_inv k Q" "s \<noteq> NULL" "runq_inv k v" "engines_ok k"
    and "Q s \<noteq> [] \<Longrightarrow> parked k v (t_runq (thr k (hd (Q s))))"
    and "unat (s_nrun (sch k sched_root)) + 1 < 2 ^ 32"
  shows "\<exists>k'. v_sema s k = Some k' \<and> s_count (sem k' s) = s_count (sem k s) + 1 \<and>
    sema_inv k' (Q(s := tl (Q s))) \<and>
    (if Q s = [] then thr k' = thr k
     else t_state (thr k' (hd (Q s))) = TS_RUN \<and> t_wchan (thr k' (hd (Q s))) = NULL \<and>
       (\<exists>v'. runq_inv k' v' \<and> queued v' = insert (t_runq (thr k (hd (Q s)))) (queued v)))"
proof (cases "Q s")
  case Nil
  then have "Q(s := tl (Q s)) = Q" by (simp add: fun_eq_iff)
  with v_sema_none [OF assms(1,2) Nil] Nil show ?thesis by auto
next
  case (Cons t ts)
  with assms(5) have "parked k v (t_runq (thr k t))" by simp
  from v_sema_wakes [OF assms(1,2) Cons assms(3,4) this assms(6)] Cons
  show ?thesis by (elim exE conjE) (intro exI conjI, assumption, simp_all, blast)
qed

theorem v_sema_spec_witness:
  "\<exists>k'. v_sema 50 asleep_kern = Some k' \<and> t_state (thr k' 20) = TS_RUN \<and> s_count (sem k' 50) = 0"
  using v_sema_spec [OF asleep_kern_facts(1) _ asleep_kern_facts(2,4), of 50]
  by (auto simp: asleep_kern_facts one_thread_nodes)

text \<open>
  \<open>vall_sema\<close> ends: it wakes every sleeper, each of which then waits for the CPU, and leaves the
  semaphore without sleepers and a count of 0, or the count it had when nobody slept.
\<close>

theorem vall_sema_spec:
  assumes "sema_inv k Q" "s \<noteq> NULL" "runq_inv k v" "engines_ok k"
    "\<forall>t\<in>set (Q s). parked k v (t_runq (thr k t))" "distinct (map (\<lambda>t. t_runq (thr k t)) (Q s))"
    "unat (s_nrun (sch k sched_root)) + length (Q s) < 2 ^ 32"
  shows "\<exists>k' v'. vall_sema s k = Some k' \<and> sema_inv k' (Q(s := [])) \<and> runq_inv k' v' \<and>
    queued v' = (\<lambda>t. t_runq (thr k t)) ` set (Q s) \<union> queued v \<and>
    s_count (sem k' s) = max 0 (s_count (sem k s)) \<and>
    (\<forall>t\<in>set (Q s). t_state (thr k' t) = TS_RUN \<and> t_wchan (thr k' t) = NULL)"
  using vall_sema_wakes [OF assms] by blast

theorem vall_sema_spec_witness:
  "\<exists>k'. vall_sema 50 asleep_kern = Some k' \<and> t_state (thr k' 20) = TS_RUN \<and> s_count (sem k' 50) = 0"
  using vall_sema_spec [OF asleep_kern_facts(1) _ asleep_kern_facts(2,4), of 50]
  by (auto simp: asleep_kern_facts one_thread_nodes)

text \<open>
  C27: Mutual exclusion: in every history of a semaphore that starts with \<open>init_sema\<close> at most one
  thread holds it, and while nobody holds it nobody sleeps on it; the count says both.
\<close>

theorem sema_mutual_exclusion:
  assumes "mutex_history s k Q h" "s \<noteq> NULL"
  shows "h \<le> 1 \<and> (h = 0 \<longrightarrow> Q s = []) \<and> s_count (sem k s) = 1 - int h - int (length (Q s)) \<and> sema_inv k Q"
proof -
  note a = mutex_history_inv [OF assms]
  have "int (length (Q s)) = max 0 (- s_count (sem k s))"
    by (rule sema_invD(2) [OF conjunct1 [OF a] assms(2)])
  with a have "h \<le> 1" "h = 0 \<longrightarrow> length (Q s) = 0" by linarith+
  with a show ?thesis by simp
qed

theorem sema_mutual_exclusion_witness:
  "\<exists>k'. p_sema 50 PRIHI (init_sema 50 running_kern) = Got k' \<and> s_count (sem k' 50) = 0"
proof -
  let ?k = "init_sema 50 running_kern"
  have f: "thr ?k = thr boot_kern" "curthread ?k = 20" "s_count (sem ?k q) = 1"
    "s_sleepq (sem ?k q) = NULL" for q
    using running_kern_inv(2) by (auto simp: init_sema_def init_lock_def kern_simps running_kern_inv boot_kern_def)
  have "sema_inv ?k (\<lambda>_. [])"
    by (rule sema_invI) (simp_all add: sleepers_def hring_def f boot_kern_def)
  then have h: "mutex_history 50 ?k (\<lambda>_. []) 0" by (rule mutex_history.start)
  have w: "t_wchan (thr ?k (curthread ?k)) = NULL" by (simp add: f boot_kern_def)
  obtain k' where k': "p_sema 50 PRIHI ?k = Got k'" by (simp add: p_sema_cases f)
  have "mutex_history 50 k' (\<lambda>_. []) (Suc 0)"
    by (rule mutex_history.take [OF h disjI1 [OF k'] _ w]) (simp add: f)
  from sema_mutual_exclusion [OF this] have "s_count (sem k' 50) = 0" by simp
  with k' show ?thesis by blast
qed

end
