(* ===== verification/Ctype.thy ===== *)
theory Ctype
  imports Prelude
begin

text \<open>
  The character classes of \<open>src/src/lib/ctype.c\<close>. A \<open>char\<close> is a signed byte on the i386, so the
  functions take an \<open>int\<close>, which is negative for bytes from 128 on; the table is indexed by its
  low seven bits.
\<close>

definition CT_DIG :: uchar where "CT_DIG = 1"
definition CT_HEXDIG :: uchar where "CT_HEXDIG = 2"
definition CT_LOWER :: uchar where "CT_LOWER = 4"
definition CT_UPPER :: uchar where "CT_UPPER = 8"
definition CT_WHITE :: uchar where "CT_WHITE = 16"
definition CT_CTRL :: uchar where "CT_CTRL = 32"

lemmas CT_defs = CT_DIG_def CT_HEXDIG_def CT_LOWER_def CT_UPPER_def CT_WHITE_def CT_CTRL_def

definition ctab :: "uchar list" where
  "ctab =
   [32, 32, 32, 32, 32, 32, 32, 32,
    32, 48, 48, 48, 48, 48, 32, 32,
    32, 32, 32, 32, 32, 32, 32, 32,
    32, 32, 32, 32, 32, 32, 32, 32,
    16, 0, 0, 0, 0, 0, 0, 0,
    0, 0, 0, 0, 0, 0, 0, 0,
    3, 3, 3, 3, 3, 3, 3, 3,
    3, 3, 0, 0, 0, 0, 0, 0,
    0, 10, 10, 10, 10, 10, 10, 8,
    8, 8, 8, 8, 8, 8, 8, 8,
    8, 8, 8, 8, 8, 8, 8, 8,
    8, 8, 8, 0, 0, 0, 0, 0,
    0, 6, 6, 6, 6, 6, 6, 4,
    4, 4, 4, 4, 4, 4, 4, 4,
    4, 4, 4, 4, 4, 4, 4, 4,
    4, 4, 4, 0, 0, 0, 0, 0]"

definition ct_bits :: "int \<Rightarrow> uchar \<Rightarrow> bool" where
  "ct_bits c b \<longleftrightarrow> ctab ! nat (c AND 0x7F) AND b \<noteq> 0"

definition isupper :: "int \<Rightarrow> bool" where "isupper c = ct_bits c CT_UPPER"
definition islower :: "int \<Rightarrow> bool" where "islower c = ct_bits c CT_LOWER"
definition isalpha :: "int \<Rightarrow> bool" where "isalpha c = ct_bits c (CT_UPPER OR CT_LOWER)"
definition isalnum :: "int \<Rightarrow> bool" where "isalnum c = ct_bits c (CT_UPPER OR CT_LOWER OR CT_DIG)"
definition isdigit :: "int \<Rightarrow> bool" where "isdigit c = ct_bits c CT_DIG"
definition isxdigit :: "int \<Rightarrow> bool" where "isxdigit c = ct_bits c CT_HEXDIG"
definition isspace :: "int \<Rightarrow> bool" where "isspace c = ct_bits c CT_WHITE"
definition iscntrl :: "int \<Rightarrow> bool" where "iscntrl c = ct_bits c CT_CTRL"
definition ispunct :: "int \<Rightarrow> bool" where "ispunct c \<longleftrightarrow> \<not> iscntrl c \<and> \<not> isalnum c"
definition isprint :: "int \<Rightarrow> bool" where "isprint c \<longleftrightarrow> \<not> iscntrl c"
definition isascii :: "int \<Rightarrow> bool" where "isascii c \<longleftrightarrow> 0 \<le> c \<and> c \<le> 0x7F"
definition tolower :: "int \<Rightarrow> int" where "tolower c = (if isupper c then c - 65 + 97 else c)"
definition toupper :: "int \<Rightarrow> int" where "toupper c = (if islower c then c - 97 + 65 else c)"
definition toascii :: "int \<Rightarrow> int" where "toascii c = c AND 0x7F"

lemmas ctype_defs = isupper_def islower_def isalpha_def isalnum_def isdigit_def isxdigit_def
  isspace_def iscntrl_def ispunct_def isprint_def toupper_def tolower_def ct_bits_def

text \<open>The table row by row: what each class is on the ASCII codes.\<close>

definition ct_class :: "nat \<Rightarrow> uchar" where
  "ct_class i = (if i < 32 \<or> i = 127 then CT_CTRL else 0) OR (if i = 32 \<or> 9 \<le> i \<and> i \<le> 13 then CT_WHITE else 0)
    OR (if 65 \<le> i \<and> i \<le> 90 then CT_UPPER else 0) OR (if 97 \<le> i \<and> i \<le> 122 then CT_LOWER else 0)
    OR (if 48 \<le> i \<and> i \<le> 57 then CT_DIG else 0)
    OR (if 48 \<le> i \<and> i \<le> 57 \<or> 65 \<le> i \<and> i \<le> 70 \<or> 97 \<le> i \<and> i \<le> 102 then CT_HEXDIG else 0)"

lemma ctab_class: "\<forall>i \<in> set [0..<127]. ctab ! i = ct_class i"
  by code_simp

end
