(* ===== verification/Strings_Spec.thy ===== *)
theory Strings_Spec
  imports Strings
begin

text \<open>
  What the string functions do on strings: the relation \<open>str_at\<close>, facts about each loop, and the
  properties of \<open>strcpy\<close>, \<open>strcmp\<close>, \<open>strstr\<close> and \<open>strtok\<close>.
\<close>

subsection \<open>Strings in memory\<close>

primrec str_at :: "mem \<Rightarrow> ptr \<Rightarrow> uchar list \<Rightarrow> bool" where
  "str_at m p [] \<longleftrightarrow> m p = 0"
| "str_at m p (c # s) \<longleftrightarrow> m p = c \<and> c \<noteq> 0 \<and> str_at m (p + 1) s"

primrec store :: "ptr \<Rightarrow> uchar list \<Rightarrow> mem \<Rightarrow> mem" where
  "store p [] m = m"
| "store p (x # xs) m = store (p + 1) xs (m(p := x))"

lemma store_apply:
  "store p xs m a = (if p \<le> a \<and> a < p + length xs then xs ! (a - p) else m a)"
proof (induction xs arbitrary: p m a)
  case (Cons x xs)
  consider "a = p" | "a < p" | "p + 1 \<le> a" by linarith
  then show ?case
  proof cases
    case 3
    then have "a - p = Suc (a - (p + 1))" by simp
    with 3 show ?thesis by (simp add: Cons.IH)
  qed (auto simp: Cons.IH)
qed auto

lemma str_at_nth: "str_at m p s \<longleftrightarrow> (\<forall>i<length s. m (p + i) = s ! i \<and> s ! i \<noteq> 0) \<and> m (p + length s) = 0"
proof (induction s arbitrary: p)
  case (Cons c s)
  have "(\<forall>i<length (c # s). m (p + i) = (c # s) ! i \<and> (c # s) ! i \<noteq> 0) \<longleftrightarrow>
    (m p = c \<and> c \<noteq> 0) \<and> (\<forall>i<length s. m (p + 1 + i) = s ! i \<and> s ! i \<noteq> 0)"
    by (simp only: length_Cons All_less_Suc2) simp
  with Cons show ?case by auto
qed simp

lemma str_at_nonzero: "str_at m p s \<Longrightarrow> 0 \<notin> set s"
  by (induction s arbitrary: p) auto

lemma str_at_cong:
  assumes "\<And>a. p \<le> a \<Longrightarrow> a \<le> p + length s \<Longrightarrow> m' a = m a"
  shows "str_at m' p s = str_at m p s"
  by (simp add: str_at_nth assms)

lemma str_at_upd: "a < p \<or> p + length s < a \<Longrightarrow> str_at (m(a := x)) p s = str_at m p s"
  by (rule str_at_cong) auto

lemma str_at_append:
  "str_at m p (s @ t) \<longleftrightarrow> (\<forall>i<length s. m (p + i) = s ! i \<and> s ! i \<noteq> 0) \<and> str_at m (p + length s) t"
proof (induction s arbitrary: p)
  case (Cons c s)
  have "(\<forall>i<length (c # s). m (p + i) = (c # s) ! i \<and> (c # s) ! i \<noteq> 0) \<longleftrightarrow>
    (m p = c \<and> c \<noteq> 0) \<and> (\<forall>i<length s. m (p + 1 + i) = s ! i \<and> s ! i \<noteq> 0)"
    by (simp only: length_Cons All_less_Suc2) simp
  with Cons show ?case by auto
qed simp

lemma str_at_drop:
  assumes "str_at m p s" "i \<le> length s"
  shows "str_at m (p + i) (drop i s)"
proof -
  have "str_at m p (take i s @ drop i s)" using assms(1) by simp
  then show ?thesis unfolding str_at_append using assms(2) by (simp add: min_absorb2)
qed

lemma str_at_unique: "str_at m p s \<Longrightarrow> str_at m p t \<Longrightarrow> s = t"
proof (induction s arbitrary: p t)
  case Nil
  then show ?case by (cases t) auto
next
  case (Cons c s)
  then show ?case by (cases t) auto
qed

lemma ch_eq: "ch m p = ch m' q \<longleftrightarrow> m p = m' q"
  by (simp add: ch_def)

subsection \<open>Copying\<close>

lemma strlen_at:
  assumes "str_at m p s" "p \<noteq> NULL"
  shows "strlen m p = Some (of_nat (length s))"
proof -
  have "strlen_loop m p x = Some (x + of_nat (length s))" if "str_at m p s" for x p
    using that
  proof (induction s arbitrary: p x)
    case Nil
    then show ?case by (subst strlen_loop.simps) simp
  next
    case (Cons c s)
    then show ?case by (subst strlen_loop.simps) (simp add: add.assoc)
  qed
  with assms show ?thesis by (simp add: strlen_def)
qed

lemma strcpy_loop_at:
  assumes "str_at m src s" "p \<le> src \<or> src + length s < p"
  shows "strcpy_loop p src m = Some (store p (s @ [0]) m)"
  using assms
proof (induction s arbitrary: p src m)
  case Nil
  then show ?case by (subst strcpy_loop.simps) simp
next
  case (Cons c s)
  then have "p < src + 1 \<or> src + 1 + length s < p" by auto
  with Cons.prems(1) have s: "str_at (m(p := c)) (src + 1) s" by (simp only: str_at_upd str_at.simps)
  have "p + 1 \<le> src + 1 \<or> src + 1 + length s < p + 1" using Cons.prems(2) by auto
  from Cons.IH [OF s this]
  have "strcpy_loop (p + 1) (src + 1) (m(p := c)) = Some (store (p + 1) (s @ [0]) (m(p := c)))" .
  moreover have "m src = c" "c \<noteq> 0" using Cons.prems(1) by simp_all
  ultimately show ?case
    by (subst strcpy_loop.simps) (simp only: if_False store.simps append.simps)
qed

lemma strcpy_loop_never:
  assumes "src < p" "\<forall>a. src \<le> a \<and> a < p \<longrightarrow> m a \<noteq> 0"
  shows "strcpy_loop p src m = None"
proof -
  have "\<not> (src < p \<and> (\<forall>a. src \<le> a \<and> a < p \<longrightarrow> m a \<noteq> 0))"
    if "strcpy_loop p src m = Some m'" for p src :: ptr and m m' :: mem
  proof (rule strcpy_loop.raw_induct [of "\<lambda>p src m m'. \<not> (src < p \<and> (\<forall>a. src \<le> a \<and> a < p \<longrightarrow> m a \<noteq> 0))", OF _ that])
    fix f and p src :: ptr and m m' :: mem
    assume IH: "\<And>p src m m'. f p src m = Some m' \<Longrightarrow> \<not> (src < p \<and> (\<forall>a. src \<le> a \<and> a < p \<longrightarrow> m a \<noteq> 0))"
      and step: "(if m src = 0 then Some (m(p := m src)) else f (p + 1) (src + 1) (m(p := m src))) = Some m'"
    show "\<not> (src < p \<and> (\<forall>a. src \<le> a \<and> a < p \<longrightarrow> m a \<noteq> 0))"
    proof
      assume *: "src < p \<and> (\<forall>a. src \<le> a \<and> a < p \<longrightarrow> m a \<noteq> 0)"
      then have "m src \<noteq> 0" by simp
      with step have "f (p + 1) (src + 1) (m(p := m src)) = Some m'" by simp
      from IH [OF this] * \<open>m src \<noteq> 0\<close> show False by (auto simp: less_Suc_eq)
    qed
  qed
  with assms show ?thesis by (cases "strcpy_loop p src m") blast+
qed

text \<open>
  C39: \<open>strcpy\<close> of a string: the call returns exactly when the destination does not start inside the
  source, terminating null included. Then the string is at the destination, which is the result,
  and no byte outside \<open>dest..dest + n\<close> changes; otherwise it runs for ever.
\<close>

theorem strcpy_spec:
  assumes "str_at m src s"
  shows "if src < dest \<and> dest \<le> src + length s then strcpy dest src m = None
    else \<exists>m'. strcpy dest src m = Some (dest, m') \<and> str_at m' dest s \<and>
      (\<forall>a. a < dest \<or> dest + length s < a \<longrightarrow> m' a = m a)"
proof (cases "src < dest \<and> dest \<le> src + length s")
  case True
  have "m a \<noteq> 0" if a: "src \<le> a" "a < dest" for a
  proof -
    obtain i where i: "a = src + i" using a(1) le_Suc_ex by blast
    with a(2) True have "i < length s" by simp
    with assms show ?thesis unfolding str_at_nth i by metis
  qed
  with True strcpy_loop_never [of src dest m] show ?thesis by (auto simp: strcpy_def)
next
  case False
  then have "strcpy_loop dest src m = Some (store dest (s @ [0]) m)"
    by (intro strcpy_loop_at [OF assms]) auto
  moreover have "str_at (store dest (s @ [0]) m) dest s"
    using assms by (simp add: str_at_nth store_apply nth_append)
  ultimately show ?thesis using False by (auto simp: strcpy_def store_apply)
qed

text \<open>A memory with two strings, for the witnesses.\<close>

definition text_mem :: mem where
  "text_mem = store 100 [44, 97, 98, 44, 44, 99, 0] (store 200 [44, 0] (\<lambda>_. 0))"

lemma text_mem_at:
  "str_at text_mem 100 [44, 97, 98, 44, 44, 99]" "str_at text_mem 200 [44]" "str_at text_mem 101 [97, 98, 44, 44, 99]"
  by (simp_all add: text_mem_def)

theorem strcpy_spec_witness: "strcpy 103 100 text_mem = None \<and> (\<exists>m'. strcpy 98 100 text_mem = Some (98, m'))"
  using strcpy_spec [OF text_mem_at(1), of 103] strcpy_spec [OF text_mem_at(1), of 98] by auto

subsection \<open>Comparing\<close>

lemma strcmp_at:
  assumes "str_at m a x" "str_at m b y"
  shows "\<exists>r. strcmp m a b = Some r \<and> (r = 0 \<longleftrightarrow> x = y) \<and> strcmp m b a = Some (- r) \<and>
    (r < 0 \<longleftrightarrow> ord_class.lexordp (map sint (x @ [0])) (map sint (y @ [0])))"
  using assms
proof (induction x arbitrary: a b y)
  case Nil
  then show ?case
    by (cases y; subst strcmp.simps, subst (2) strcmp.simps) (auto simp: ch_def not_less order_le_less)
next
  case (Cons c x)
  show ?case
  proof (cases "m a = m b")
    case True
    with Cons.prems obtain y' where y: "y = c # y'" "str_at m (b + 1) y'" by (cases y) auto
    with Cons.prems Cons.IH [of "a + 1" "b + 1" y'] True show ?thesis
      by (subst strcmp.simps, subst (2) strcmp.simps) auto
  next
    case False
    with Cons.prems have ne: "m b \<noteq> c" "sint (m b) \<noteq> sint c" by (auto intro: signed_word_eqI)
    from Cons.prems have "\<exists>ys. map sint (y @ [0]) = sint (m b) # ys" by (cases y) auto
    with Cons.prems False ne show ?thesis
      by (subst strcmp.simps, subst (2) strcmp.simps) (auto simp: ch_def not_less order_le_less)
  qed
qed

text \<open>
  \<open>strcmp\<close> of two strings returns, with 0 exactly for equal strings, and with the sign of the
  lexicographic order of their signed characters, the terminating null included; exchanging the
  strings negates the result.
\<close>

theorem strcmp_spec:
  assumes "str_at m a x" "str_at m b y"
  shows "\<exists>r. strcmp m a b = Some r \<and> (r = 0 \<longleftrightarrow> x = y) \<and> strcmp m b a = Some (- r) \<and>
    (r < 0 \<longleftrightarrow> ord_class.lexordp (map sint (x @ [0])) (map sint (y @ [0])))"
  by (rule strcmp_at [OF assms])

theorem strcmp_spec_witness: "\<exists>r. strcmp text_mem 100 101 = Some r \<and> r < 0"
  using strcmp_spec [OF text_mem_at(1) text_mem_at(3)] by auto

text \<open>\<open>strncmp\<close> against a string with the length of that string: is it a prefix?\<close>

lemma strncmp_prefix:
  assumes "str_at m a x" "str_at m b y" "unat n = length y"
  shows "strncmp m a b n = 0 \<longleftrightarrow> take (length y) x = y"
  using assms
proof (induction y arbitrary: a b x n)
  case Nil
  then show ?case by (simp add: strncmp.simps unat_eq_0)
next
  case (Cons c y)
  have n: "n \<noteq> 0" "unat (n - 1) = length y"
    using Cons.prems(3) unat_sub_u32 [of 1 n] by auto
  show ?case
  proof (cases "m a = m b")
    case True
    with Cons.prems obtain x' where x: "x = c # x'" "str_at m (a + 1) x'" by (cases x) auto
    from Cons.prems(2) have "str_at m (b + 1) y" by simp
    from Cons.IH [OF x(2) this n(2)] Cons.prems True n x show ?thesis
      by (subst strncmp.simps) simp
  next
    case False
    then have "ch m a \<noteq> ch m b" by (simp add: ch_eq)
    moreover have "take (length (c # y)) x \<noteq> c # y" using False Cons.prems by (cases x) auto
    ultimately show ?thesis using False n by (subst strncmp.simps) simp
  qed
qed

subsection \<open>Searching\<close>

lemma in_set_at: "str_at m p s \<Longrightarrow> in_set m p c = Some (c \<in> sint ` set s)"
proof (induction s arbitrary: p)
  case (Cons d s)
  then show ?case by (subst in_set.simps) (auto simp: ch_def)
qed (subst in_set.simps, simp)

lemma in_set_byte: "str_at m p s \<Longrightarrow> in_set m p (ch m' q) = Some (m' q \<in> set s)"
  by (auto simp: in_set_at ch_def image_iff intro: signed_word_eqI)

lemma strchr_at:
  assumes "str_at m p s"
  shows "strchr m p (sint c) = Some (case find (\<lambda>i. (s @ [0]) ! i = c) [0..<length s + 1] of
    Some i \<Rightarrow> p + i | None \<Rightarrow> NULL)"
proof -
  have "strchr m (p + i) (sint c) = Some (case find (\<lambda>i. (s @ [0]) ! i = c) [i..<length s + 1] of
    Some i \<Rightarrow> p + i | None \<Rightarrow> NULL)" if "i \<le> length s" for i
    using that
  proof (induction "length s - i" arbitrary: i)
    case 0
    then show ?case using assms
      by (subst strchr.simps) (auto simp: str_at_nth ch_def nth_append intro: signed_word_eqI)
  next
    case (Suc n)
    then have i: "i < length s" "n = length s - (i + 1)" by auto
    have "m (p + i) = s ! i" "s ! i \<noteq> 0" using assms i by (simp_all add: str_at_nth)
    with Suc.hyps(1) [OF i(2)] i show ?case
      by (subst strchr.simps) (auto simp: ch_def upt_rec [of i] nth_append intro: signed_word_eqI)
  qed
  from this [of 0] show ?thesis by simp
qed

text \<open>Where a pattern starts in a text.\<close>

definition occurs_at :: "uchar list \<Rightarrow> uchar list \<Rightarrow> nat \<Rightarrow> bool" where
  "occurs_at pat txt i \<longleftrightarrow> take (length pat) (drop i txt) = pat"

lemma strstr_loop_at:
  assumes "str_at m p s" "str_at m q rest" "c \<noteq> 0" "unat len = length rest" "p \<noteq> NULL"
  shows "strstr_loop m p c q len = Some (case find (occurs_at (c # rest) s) [0..<length s] of
    Some i \<Rightarrow> p + i | None \<Rightarrow> NULL)"
  using assms(1,5)
proof (induction s arbitrary: p)
  case Nil
  then show ?case by (subst strstr_loop.simps) simp
next
  case (Cons d s)
  have f: "find (occurs_at (c # rest) (d # s)) [0..<length (d # s)] =
    (if occurs_at (c # rest) (d # s) 0 then Some 0
     else map_option Suc (find (occurs_at (c # rest) s) [0..<length s]))"
  proof -
    have "[0..<length (d # s)] = 0 # map Suc [0..<length s]"
      by (simp add: upt_conv_Cons map_Suc_upt del: upt_Suc)
    moreover have "(occurs_at (c # rest) (d # s)) \<circ> Suc = occurs_at (c # rest) s"
      by (auto simp: occurs_at_def)
    ultimately show ?thesis by (simp add: find_map_comp)
  qed
  have z: "occurs_at (c # rest) (d # s) 0 \<longleftrightarrow> d = c \<and> strncmp m (p + 1) q len = 0"
    using strncmp_prefix [of m "p + 1" s q rest len] Cons.prems assms(2,4)
    by (auto simp: occurs_at_def)
  have ih: "strstr_loop m (p + 1) c q len = Some (case find (occurs_at (c # rest) s) [0..<length s] of
    Some i \<Rightarrow> p + 1 + i | None \<Rightarrow> NULL)"
    using Cons.IH [of "p + 1"] Cons.prems by simp
  show ?case
  proof (cases "occurs_at (c # rest) (d # s) 0")
    case True
    with z Cons.prems assms(3) show ?thesis unfolding f by (subst strstr_loop.simps) simp
  next
    case False
    then have "strstr_loop m p c q len = strstr_loop m (p + 1) c q len"
      using z Cons.prems by (subst strstr_loop.simps) auto
    with ih False show ?thesis unfolding f by (cases "find (occurs_at (c # rest) s) [0..<length s]") auto
  qed
qed

text \<open>
  \<open>strstr\<close> finds the first occurrence of the pattern: the result is the smallest address at
  which the text goes on with the pattern, null when there is none, and the text itself for the
  empty pattern.
\<close>

theorem strstr_spec:
  assumes "str_at m p txt" "str_at m q pat" "p \<noteq> NULL" "length pat \<le> 2 ^ 32"
  shows "strstr m p q = Some (if pat = [] then p
    else case find (occurs_at pat txt) [0..<length txt] of Some i \<Rightarrow> p + i | None \<Rightarrow> NULL)"
proof (cases pat)
  case Nil
  with assms show ?thesis by (simp add: strstr_def)
next
  case (Cons c rest)
  have r: "str_at m (q + 1) rest" "m q = c" "c \<noteq> 0" using assms(2) Cons by simp_all
  then have "strlen m (q + 1) = Some (of_nat (length rest))" by (simp add: strlen_at)
  moreover have "unat (of_nat (length rest) :: ulong) = length rest"
    using assms(4) Cons by (simp add: unat_of_nat_u32)
  ultimately show ?thesis
    using strstr_loop_at [OF assms(1) r(1,3) _ assms(3)] r Cons by (simp add: strstr_def)
qed

theorem strstr_spec_witness: "strstr text_mem 100 200 = Some 100"
  using strstr_spec [OF text_mem_at(1,2)] by (simp add: occurs_at_def upt_rec)

subsection \<open>Splitting\<close>

text \<open>The maximal runs of characters outside \<open>D\<close>.\<close>

function tokens :: "uchar set \<Rightarrow> uchar list \<Rightarrow> uchar list list" where
  "tokens D s =
     (case dropWhile (\<lambda>c. c \<in> D) s of
        [] \<Rightarrow> []
      | c # r \<Rightarrow> (c # takeWhile (\<lambda>c. c \<notin> D) r) # tokens D (dropWhile (\<lambda>c. c \<notin> D) r))"
  by pat_completeness auto
termination
proof (relation "measure (\<lambda>(D, s). length s)", simp)
  fix D s and c :: uchar and r
  assume "dropWhile (\<lambda>c. c \<in> D) s = c # r"
  then have "length r < length s" using length_dropWhile_le [of "\<lambda>c. c \<in> D" s] by simp
  then show "((D, dropWhile (\<lambda>c. c \<notin> D) r), D, s) \<in> measure (\<lambda>(D, s). length s)"
    using length_dropWhile_le [of "\<lambda>c. c \<notin> D" r] by simp
qed

declare tokens.simps [simp del]

text \<open>\<open>n\<close> calls of \<open>strtok\<close>, the first with \<open>s0\<close>, until one returns null: the tokens.\<close>

fun strtok_calls :: "nat \<Rightarrow> ptr \<Rightarrow> ptr \<Rightarrow> ptr \<Rightarrow> mem \<Rightarrow> (ptr list \<times> ptr \<times> mem) option" where
  "strtok_calls 0 last0 s0 delim m = Some ([], last0, m)"
| "strtok_calls (Suc n) last0 s0 delim m =
     Option.bind (strtok last0 s0 delim m) (\<lambda>(tok, last1, m1).
       if tok = NULL then Some ([], last1, m1)
       else map_option (\<lambda>(toks, last2, m2). (tok # toks, last2, m2)) (strtok_calls n last1 NULL delim m1))"

lemma skip_delim_at:
  assumes "str_at m delim ds"
  shows "str_at m p s \<Longrightarrow> skip_delim m delim p = Some (p + length (takeWhile (\<lambda>c. c \<in> set ds) s))"
proof (induction s arbitrary: p)
  case Nil
  then show ?case
    using str_at_nonzero [OF assms] by (subst skip_delim.simps) (simp add: in_set_byte [OF assms])
next
  case (Cons c s)
  then show ?case by (subst skip_delim.simps) (simp add: in_set_byte [OF assms])
qed

lemma scan_token_at:
  assumes "str_at m delim ds"
  shows "str_at m p s \<Longrightarrow> scan_token m delim p = Some (p + length (takeWhile (\<lambda>c. c \<notin> set ds) s))"
proof (induction s arbitrary: p)
  case Nil
  then show ?case by (subst scan_token.simps) (simp add: in_set_byte [OF assms])
next
  case (Cons c s)
  then show ?case by (subst scan_token.simps) (simp add: in_set_byte [OF assms])
qed

lemma str_at_prefix:
  assumes "\<forall>i<length s. m (p + i) = s ! i \<and> s ! i \<noteq> 0" "m (p + length s) = 0"
  shows "str_at m p s"
  using assms by (simp add: str_at_nth)

text \<open>One call on a text: the token, the text after it, and the memory with its end marked.\<close>

lemma strtok_at:
  assumes s: "str_at m p s" and d: "str_at m delim ds" and p: "p \<noteq> NULL"
  shows "dropWhile (\<lambda>c. c \<in> set ds) s = [] \<Longrightarrow> strtok p NULL delim m = Some (NULL, NULL, m)"
    and "dropWhile (\<lambda>c. c \<in> set ds) s = c # r \<Longrightarrow> dropWhile (\<lambda>c. c \<notin> set ds) r = x \<Longrightarrow>
      \<exists>tok e. p \<le> tok \<and> tok < e \<and> e + length x = p + length s \<and> str_at m e x \<and>
        (\<forall>i<length (c # takeWhile (\<lambda>c. c \<notin> set ds) r). m (tok + i) = (c # takeWhile (\<lambda>c. c \<notin> set ds) r) ! i \<and>
          (c # takeWhile (\<lambda>c. c \<notin> set ds) r) ! i \<noteq> 0) \<and>
        e = tok + length (c # takeWhile (\<lambda>c. c \<notin> set ds) r) \<and>
        strtok p NULL delim m = Some (if x = [] then (tok, NULL, m) else (tok, e + 1, m(e := 0)))"
proof -
  let ?u = "takeWhile (\<lambda>c. c \<in> set ds) s" and ?v = "dropWhile (\<lambda>c. c \<in> set ds) s"
  let ?tok = "p + length ?u"
  have v: "str_at m ?tok ?v" using s str_at_append [of m p ?u ?v] by simp
  have skip: "skip_delim m delim p = Some ?tok" by (rule skip_delim_at [OF d s])
  show "strtok p NULL delim m = Some (NULL, NULL, m)" if "?v = []"
    using v that p by (simp add: strtok_def skip)
  assume v1: "?v = c # r" and x: "dropWhile (\<lambda>c. c \<notin> set ds) r = x"
  let ?w = "takeWhile (\<lambda>c. c \<notin> set ds) r"
  let ?e = "?tok + 1 + length ?w"
  have r: "r = ?w @ x" using x by auto
  have cr: "str_at m ?tok ((c # ?w) @ x)" using v v1 r by simp
  then have w: "\<forall>i<length (c # ?w). m (?tok + i) = (c # ?w) ! i \<and> (c # ?w) ! i \<noteq> 0" and e: "str_at m ?e x"
    unfolding str_at_append by simp_all
  have scan: "scan_token m delim (?tok + 1) = Some ?e"
    using scan_token_at [OF d, of "?tok + 1" r] v v1 by simp
  have "m ?tok \<noteq> 0" using w by force
  then have res: "strtok p NULL delim m = Some (if m ?e = 0 then (?tok, NULL, m) else (?tok, ?e + 1, m(?e := 0)))"
    using p by (simp add: strtok_def skip scan [simplified])
  have "m ?e = 0 \<longleftrightarrow> x = []" using e by (cases x) auto
  moreover have "?e + length x = p + length s"
  proof -
    have "length s = length ?u + length ?v" by (metis length_append takeWhile_dropWhile_id)
    moreover have "length r = length ?w + length x" by (metis length_append r)
    ultimately show ?thesis using v1 by simp
  qed
  ultimately show "\<exists>tok e. p \<le> tok \<and> tok < e \<and> e + length x = p + length s \<and> str_at m e x \<and>
        (\<forall>i<length (c # ?w). m (tok + i) = (c # ?w) ! i \<and> (c # ?w) ! i \<noteq> 0) \<and>
        e = tok + length (c # ?w) \<and>
        strtok p NULL delim m = Some (if x = [] then (tok, NULL, m) else (tok, e + 1, m(e := 0)))"
    using w e res by (intro exI [of _ ?tok] exI [of _ ?e] conjI) simp_all
qed

lemma tokens_delim: "c \<in> D \<Longrightarrow> tokens D (c # s) = tokens D s"
  by (subst (1 2) tokens.simps) simp

lemma tokens_Nil: "tokens D [] = []"
  by (simp add: tokens.simps)

lemma strtok_calls_at:
  assumes "str_at m p s" "str_at m delim ds" "delim + length ds < p \<or> p + length s < delim"
    "p \<noteq> NULL" "length s < n"
  shows "\<exists>ps m'. strtok_calls n p NULL delim m = Some (ps, NULL, m') \<and>
    list_all2 (str_at m') ps (tokens (set ds) s) \<and> (\<forall>a. a < p \<or> p + length s < a \<longrightarrow> m' a = m a)"
  using assms
proof (induction n arbitrary: p s m)
  case (Suc n)
  note d = Suc.prems(2)
  show ?case
  proof (cases "dropWhile (\<lambda>c. c \<in> set ds) s")
    case Nil
    then have "tokens (set ds) s = []" by (subst tokens.simps) (simp only: list.case)
    with strtok_at(1) [OF Suc.prems(1) d Suc.prems(4) Nil] show ?thesis by simp
  next
    case (Cons c r)
    obtain x where x: "dropWhile (\<lambda>c. c \<notin> set ds) r = x" by blast
    let ?w = "takeWhile (\<lambda>c. c \<notin> set ds) r"
    have tk: "tokens (set ds) s = (c # ?w) # tokens (set ds) x" by (subst tokens.simps) (simp add: Cons x)
    obtain tok e where t: "p \<le> tok" "tok < e" "e + length x = p + length s" "str_at m e x"
      "\<forall>i<length (c # ?w). m (tok + i) = (c # ?w) ! i \<and> (c # ?w) ! i \<noteq> 0" "e = tok + length (c # ?w)"
      "strtok p NULL delim m = Some (if x = [] then (tok, NULL, m) else (tok, e + 1, m(e := 0)))"
      using strtok_at(2) [OF Suc.prems(1) d Suc.prems(4) Cons x] by blast
    have t0: "tok \<noteq> NULL" using t(1) Suc.prems(4) by simp
    show ?thesis
    proof (cases x)
      case Nil
      have "strtok_calls n NULL NULL delim m = Some ([], NULL, m)" by (cases n) (simp_all add: strtok_def)
      moreover have "str_at m tok (c # ?w)"
        by (rule str_at_prefix [OF t(5)]) (use t(4,6) Nil in \<open>simp add: add.commute\<close>)
      ultimately show ?thesis using t(7) t0 Nil by (simp add: tk tokens_Nil)
    next
      case (Cons y z)
      have yD: "y \<in> set ds" using x Cons hd_dropWhile [of "\<lambda>c. c \<notin> set ds" r] by auto
      have z: "str_at (m(e := 0)) (e + 1) z" using t(4) Cons by (simp add: str_at_upd)
      have de: "delim + length ds < e \<or> e < delim" using Suc.prems(3) t(1-3) by linarith
      then have dm: "str_at (m(e := 0)) delim ds" using d by (simp add: str_at_upd disj_commute)
      have "delim + length ds < e + 1 \<or> e + 1 + length z < delim" "e + 1 \<noteq> NULL" "length z < n"
        using Suc.prems(3,5) t(1-3) Cons by auto
      from Suc.IH [OF z dm this] obtain ps m' where
        m': "strtok_calls n (e + 1) NULL delim (m(e := 0)) = Some (ps, NULL, m')"
        "list_all2 (str_at m') ps (tokens (set ds) z)"
        "\<forall>a. a < e + 1 \<or> e + 1 + length z < a \<longrightarrow> m' a = (m(e := 0)) a"
        by blast
      have "str_at m' tok (c # ?w)"
      proof (rule str_at_prefix)
        show "m' (tok + length (c # ?w)) = 0" using m'(3) t(6) by simp
        show "\<forall>i<length (c # ?w). m' (tok + i) = (c # ?w) ! i \<and> (c # ?w) ! i \<noteq> 0"
          using m'(3) t(5,6) by simp
      qed
      moreover have "m' a = m a" if "a < p \<or> p + length s < a" for a
      proof -
        have "a < e \<or> e + 1 + length z < a" using that t(1-3) Cons by auto
        then show ?thesis using m'(3) by auto
      qed
      ultimately show ?thesis
        using t(7) t0 m'(1,2) Cons yD by (simp add: tk tokens_delim)
    qed
  qed
qed simp

text \<open>
  Calling \<open>strtok\<close> on a text and then on null until it returns null yields, in order, exactly the
  maximal runs of characters outside the delimiters, each as a string in place; nothing outside
  the text is written, and as many calls as the text has characters, and one more, are enough.
\<close>

theorem strtok_spec:
  assumes "str_at m p s" "str_at m delim ds" "delim + length ds < p \<or> p + length s < delim" "p \<noteq> NULL"
  shows "\<exists>ps m'. strtok_calls (length s + 1) last0 p delim m = Some (ps, NULL, m') \<and>
    list_all2 (str_at m') ps (tokens (set ds) s) \<and> (\<forall>a. a < p \<or> p + length s < a \<longrightarrow> m' a = m a)"
proof -
  have "strtok last0 p delim m = strtok p NULL delim m" using assms(4) by (simp add: strtok_def Let_def)
  then have "strtok_calls (length s + 1) last0 p delim m = strtok_calls (length s + 1) p NULL delim m" by simp
  with strtok_calls_at [OF assms, of "length s + 1"] show ?thesis by simp
qed

theorem strtok_spec_witness:
  "\<exists>ps m'. strtok_calls 7 0 100 200 text_mem = Some (ps, NULL, m') \<and> list_all2 (str_at m') ps [[97, 98], [99]]"
proof -
  have "tokens (set [44]) [44, 97, 98, 44, 44, 99] = [[97, 98], [99]]" by (simp add: tokens.simps)
  moreover have "length [44, 97, 98, 44, 44, 99 :: uchar] + 1 = 7" by simp
  ultimately show ?thesis
    using strtok_spec [OF text_mem_at(1,2), of 0] by (simp only: text_mem_at) force
qed

end
