(* ===== verification/Numbers.thy ===== *)
theory Numbers
  imports Ctype
begin

text \<open>
  Numbers as text: \<open>strtoul\<close> and \<open>strtol\<close> of \<open>src/src/lib/strtol.c\<close>, \<open>atoi\<close> and \<open>atol\<close> of
  \<open>scanf.c\<close>, and the formatter of the servers, \<open>src/src/lib/srv/srvprnt.c\<close>.

  A pointer into a string is the rest of the string, its terminating null left out: a loop over
  \<open>*s\<close> ends at the empty list at the latest. What is written through such a pointer is returned.
\<close>

text \<open>The \<open>char\<close> at a pointer as an \<open>int\<close>: a signed byte, 0 at the end.\<close>

definition cval :: "char \<Rightarrow> int" where
  "cval c = (let n = of_char c in if n < 128 then n else n - 256)"

definition peek :: "string \<Rightarrow> int" where
  "peek s = (case s of [] \<Rightarrow> 0 | c # _ \<Rightarrow> cval c)"

subsection \<open>strtol.c\<close>

definition Isspace :: "int \<Rightarrow> bool" where
  "Isspace c \<longleftrightarrow> c = 32 \<or> c = 9 \<or> c = 10 \<or> c = 11 \<or> c = 13 \<or> c = 12"

definition skip_space :: "string \<Rightarrow> string" where
  "skip_space s = dropWhile (\<lambda>c. Isspace (cval c)) s"

definition ULONG_MAX :: ulong where "ULONG_MAX = - 1"
definition LONG_MAX :: ulong where "LONG_MAX = 0x7FFFFFFF"
definition LONG_MIN :: ulong where "LONG_MIN = 0x80000000"

text \<open>The sign: whether it was a minus, and the text after it.\<close>

definition take_sign :: "string \<Rightarrow> bool \<times> string" where
  "take_sign s = (if peek s = 45 then (True, tl s) else if peek s = 43 then (False, tl s) else (False, s))"

text \<open>The value of a digit in the radix; \<open>None\<close> ends the number.\<close>

definition digit_val :: "uint \<Rightarrow> uint \<Rightarrow> uint option" where
  "digit_val radix digit =
     (if 48 \<le> digit \<and> digit \<le> 57 \<and> digit < 48 + radix then Some (digit - 48)
      else if 10 <s radix then
        if 97 \<le> digit \<and> digit < 97 + radix - 10 then Some (digit - 97 + 10)
        else if 65 \<le> digit \<and> digit < 65 + radix - 10 then Some (digit - 65 + 10)
        else None
      else None)"

text \<open>The digits: the tot, the text after them, \<open>did_conversion\<close> and \<open>overflow\<close>.\<close>

fun digits_loop :: "uint \<Rightarrow> ulong \<Rightarrow> ulong \<Rightarrow> string \<Rightarrow> ulong \<Rightarrow> bool \<Rightarrow> bool \<Rightarrow> ulong \<times> string \<times> bool \<times> bool" where
  "digits_loop radix maxdiv maxrem [] tot conv ovf = (tot, [], conv, ovf)"
| "digits_loop radix maxdiv maxrem (c # s) tot conv ovf =
     (if cval c = 0 then (tot, c # s, conv, ovf)
      else case digit_val radix (of_int (cval c)) of
        None \<Rightarrow> (tot, c # s, conv, ovf)
      | Some d \<Rightarrow>
          digits_loop radix maxdiv maxrem s (tot * radix + d) True
            (ovf \<or> maxdiv < tot \<or> (tot = maxdiv \<and> maxrem < d)))"

text \<open>The radix and the text after a prefix \<open>0\<close> or \<open>0x\<close>, and whether the \<open>0\<close> counts as a number.\<close>

definition infer_radix :: "string \<Rightarrow> uint \<Rightarrow> uint \<times> string \<times> bool" where
  "infer_radix s base =
     (if (base = 0 \<or> base = 16) \<and> peek s = 48 then
        (let radix = (if base = 0 then 8 else base); s1 = tl s
         in if peek s1 = 88 \<or> peek s1 = 120 then (16, tl s1, False) else (radix, s1, True))
      else (base, s, False))"

text \<open>The value, what \<open>*ptr\<close> becomes, and whether \<open>ERANGE\<close> is raised.\<close>

definition strtoul :: "string \<Rightarrow> uint \<Rightarrow> ulong \<times> string \<times> bool" where
  "strtoul start base =
     (let (minus, s1) = take_sign (skip_space start);
          (radix0, s2, conv) = infer_radix s1 base;
          radix = (if radix0 = 0 then 10 else radix0);
          (tot, s3, did_conversion, overflow) =
            digits_loop radix (ULONG_MAX div radix) (ULONG_MAX mod radix) s2 0 conv False
      in if overflow then (ULONG_MAX, s3, True)
         else (if minus then - tot else tot, if did_conversion then s3 else start, False))"

definition strtol_str :: "string \<Rightarrow> uint \<Rightarrow> ulong \<times> string \<times> bool" where
  "strtol_str start base =
     (let (minus, s) = take_sign (skip_space start);
          (tmp, eptr, erange) = strtoul s base;
          ptr = (if eptr = s then start else eptr)
      in if (if minus then - LONG_MIN else LONG_MAX) < tmp
         then (if minus then LONG_MIN else LONG_MAX, ptr, True)
         else (if minus then - tmp else tmp, ptr, erange))"

text \<open>
  \<open>strtol\<close> with its null cases: a null string with a null \<open>ptr\<close> stores through that \<open>ptr\<close>.
  The result for a null string leaves \<open>*ptr\<close> alone (\<open>None\<close>).
\<close>

definition strtol :: "string option \<Rightarrow> bool \<Rightarrow> uint \<Rightarrow> (ulong \<times> string option \<times> bool) outcome" where
  "strtol s ptr base =
     (case s of
        None \<Rightarrow> if \<not> ptr then Inl NullDeref else Inr (0, None, True)
      | Some t \<Rightarrow> (case strtol_str t base of (v, e, r) \<Rightarrow> Inr (v, Some e, r)))"

definition atoi :: "string option \<Rightarrow> uint outcome" where
  "atoi p = obind (strtol p False 10) (\<lambda>(v, _). Inr v)"

definition atol :: "string option \<Rightarrow> ulong outcome" where
  "atol p = obind (strtol p False 10) (\<lambda>(v, _). Inr v)"

subsection \<open>srvprnt.c\<close>

definition digit_char :: "uint \<Rightarrow> char" where
  "digit_char c = (if c < 10 then char_of (48 + unat c) else char_of (97 + unat (c - 10)))"

text \<open>The digits of \<open>num\<close>, last first, put in front of \<open>p\<close>.\<close>

partial_function (option) num_loop :: "uint \<Rightarrow> uint \<Rightarrow> string \<Rightarrow> string option" where
  "num_loop x base p =
     (let p1 = digit_char (x mod base) # p
      in if x div base \<noteq> 0 then num_loop (x div base) base p1 else Some p1)"

declare num_loop.simps [code]

definition num_str :: "uint \<Rightarrow> uint \<Rightarrow> bool \<Rightarrow> string option" where
  "num_str x base is_unsigned =
     (let neg = (base = 10 \<and> \<not> is_unsigned \<and> x <s 0)
      in map_option (\<lambda>p. if neg then CHR 0x2D # p else p) (num_loop (if neg then - x else x) base []))"

definition baseof :: "char \<Rightarrow> uint" where
  "baseof c =
     (if c \<in> {CHR ''u'', CHR ''d'', CHR ''U'', CHR ''D''} then 10
      else if c \<in> {CHR ''x'', CHR ''X''} then 16
      else if c \<in> {CHR ''o'', CHR ''O''} then 8 else 10)"

text \<open>The arguments of a format: integers, and strings, which may be null.\<close>

datatype parg = AInt uint | AStr "string option"

text \<open>
  A format read piece by piece: the character at the pointer and the text after it. Reading on
  after the terminating null leaves the string.
\<close>

definition next_char :: "string \<Rightarrow> char \<times> string option" where
  "next_char s = (case s of [] \<Rightarrow> (NUL, None) | c # r \<Rightarrow> (c, Some r))"

definition is_dig :: "char \<Rightarrow> bool" where
  "is_dig c = isdigit (cval c)"

record pspec =
  ps_adj :: bool
  ps_width :: int
  ps_zero :: bool
  ps_prec :: "int option"
  ps_unsigned :: bool
  ps_conv :: char

text \<open>
  The flags and numbers after a percent sign: the specification, the format after it and the
  arguments left. \<open>ps_prec\<close> is \<open>None\<close> where the code leaves \<open>precision\<close> unset (a point with neither
  digits nor a star).
\<close>

definition cons_from :: "char \<Rightarrow> string option \<Rightarrow> string" where
  "cons_from c r = (case r of None \<Rightarrow> [] | Some s \<Rightarrow> c # s)"

definition step_fmt :: "string option \<Rightarrow> (char \<times> string option) outcome" where
  "step_fmt r = (case r of None \<Rightarrow> Inl BufferOverrun | Some s \<Rightarrow> Inr (next_char s))"

definition parse_width :: "char \<Rightarrow> string option \<Rightarrow> (int \<times> char \<times> string option) outcome" where
  "parse_width c r =
     (if is_dig c then
        obind (atoi (Some (cons_from c r))) (\<lambda>w.
          obind (step_fmt (map_option (dropWhile is_dig) r)) (\<lambda>(c', r'). Inr (sint w, c', r')))
      else Inr (0, c, r))"

definition parse_prec :: "char \<Rightarrow> string option \<Rightarrow> parg list \<Rightarrow>
    (int option \<times> char \<times> string option \<times> parg list) outcome" where
  "parse_prec c r args =
     (if c = CHR ''.'' then
        obind (step_fmt r) (\<lambda>(c1, r1).
          if is_dig c1 then
            obind (atoi (Some (cons_from c1 r1))) (\<lambda>w.
              obind (step_fmt (map_option (dropWhile is_dig) r1)) (\<lambda>(c', r'). Inr (Some (sint w), c', r', args)))
          else if c1 = CHR ''*'' then
            (case args of
               AInt x # args1 \<Rightarrow> obind (step_fmt r1) (\<lambda>(c', r'). Inr (Some (sint x), c', r', args1))
             | _ \<Rightarrow> Inl BufferOverrun)
          else Inr (None, c1, r1, args))
      else Inr (Some 0, c, r, args))"

definition parse_spec :: "string \<Rightarrow> parg list \<Rightarrow> (pspec \<times> string option \<times> parg list) outcome" where
  "parse_spec p args =
     (let (c0, r0) = next_char p
      in obind (if c0 = CHR ''-'' then obind (step_fmt r0) (\<lambda>(c, r). Inr (True, c, r)) else Inr (False, c0, r0))
          (\<lambda>(adj, c1, r1).
         obind (if c1 = CHR ''0'' then obind (step_fmt r1) (\<lambda>(c, r). Inr (True, c, r)) else Inr (False, c1, r1))
          (\<lambda>(zero, c2, r2).
         obind (parse_width c2 r2) (\<lambda>(width, c3, r3).
         obind (parse_prec c3 r3 args) (\<lambda>(prec, c4, r4, args1).
         obind (if c4 = CHR ''l'' then step_fmt r4 else Inr (c4, r4)) (\<lambda>(c5, r5).
         Inr (\<lparr>ps_adj = adj, ps_width = width, ps_zero = zero, ps_prec = prec,
                ps_unsigned = (c5 = CHR ''u''), ps_conv = c5\<rparr>, r5, args1)))))))"

text \<open>What one specification writes, and the arguments left.\<close>

definition do_conv :: "pspec \<Rightarrow> parg list \<Rightarrow> (string \<times> parg list) outcome" where
  "do_conv ps args =
     (let c = ps_conv ps; w = ps_width ps
      in if c \<in> set ''XODUxodu'' then
           (case args of
              AInt a # args1 \<Rightarrow>
                (case num_str a (baseof c) (ps_unsigned ps) of
                   None \<Rightarrow> Inl Starved
                 | Some t \<Rightarrow>
                     (let pad = nat (w - int (length t))
                      in Inr (if ps_adj ps then t @ replicate pad CHR '' ''
                              else replicate pad (if ps_zero ps then CHR ''0'' else CHR '' '') @ t, args1)))
            | _ \<Rightarrow> Inl BufferOverrun)
         else if c = CHR ''s'' then
           (case args of
              AStr a # args1 \<Rightarrow>
                (let t = (case a of None \<Rightarrow> ''(null)'' | Some t \<Rightarrow> t)
                 in case ps_prec ps of
                      None \<Rightarrow> Inl Starved
                    | Some pr \<Rightarrow>
                        (let x = (if pr \<noteq> 0 \<and> pr < int (length t) then pr else int (length t));
                             pad = nat (w - x)
                         in if x < 0 then Inl BufferOverrun
                            else Inr (if ps_adj ps then take (nat x) t @ replicate pad CHR '' ''
                                      else replicate pad CHR '' '' @ take (nat x) t, args1)))
            | _ \<Rightarrow> Inl BufferOverrun)
         else if c = CHR ''c'' then
           (case args of
              AInt a # args1 \<Rightarrow> Inr ([char_of (unat a mod 256)], args1)
            | _ \<Rightarrow> Inl BufferOverrun)
         else Inr ([c], args))"

text \<open>
  The formatter: the text written, the terminating null left out. The fuel bounds the
  specifications of the format, of which there are at most as many as characters.
\<close>

fun doprnt_loop :: "nat \<Rightarrow> string \<Rightarrow> parg list \<Rightarrow> string outcome" where
  "doprnt_loop 0 p args = Inl Starved"
| "doprnt_loop (Suc n) [] args = Inr []"
| "doprnt_loop (Suc n) (c # p) args =
     (if c \<noteq> CHR ''%'' then obind (doprnt_loop n p args) (\<lambda>t. Inr (c # t))
      else obind (parse_spec p args) (\<lambda>(ps, r, args2).
        obind (do_conv ps args2) (\<lambda>(out, args3).
          case r of
            None \<Rightarrow> Inl BufferOverrun
          | Some p1 \<Rightarrow> obind (doprnt_loop n p1 args3) (\<lambda>t. Inr (out @ t)))))"

definition doprnt :: "string \<Rightarrow> parg list \<Rightarrow> string outcome" where
  "doprnt fmt args = doprnt_loop (length fmt + 1) fmt args"

end
