(* ===== verification/Numbers_Spec.thy ===== *)
theory Numbers_Spec
  imports Numbers
begin

text \<open>
  Reading numbers: \<open>strtoul\<close> computes the value of a digit string or reports overflow exactly when
  it does not fit; reading back what the formatter printed gives the number.
\<close>

subsection \<open>Digits\<close>

lemma cval_char_of: "n < 128 \<Longrightarrow> cval (char_of n) = int n"
proof -
  assume n: "n < 128"
  have "(of_char (char_of n :: char) :: int) = int (of_char (char_of n :: char))"
    by (rule of_nat_of_char [symmetric])
  also have "\<dots> = int n" using n by simp
  finally show ?thesis using n by (simp add: cval_def)
qed

definition dval :: "nat \<Rightarrow> nat" where
  "dval d = (if d < 10 then 48 + d else 87 + d)"

lemma digit_char_dval:
  assumes "unat d < 36"
  shows "digit_char d = char_of (dval (unat d))" "cval (digit_char d) = int (dval (unat d))"
proof -
  have "\<not> d < 10 \<Longrightarrow> unat (d - 10) = unat d - 10" by (simp add: word_nat)
  then show a: "digit_char d = char_of (dval (unat d))"
    by (auto simp: digit_char_def dval_def word_nat)
  show "cval (digit_char d) = int (dval (unat d))"
    unfolding a using assms by (intro cval_char_of) (simp add: dval_def)
qed

lemma unat_of_dval: "d < 36 \<Longrightarrow> unat (of_int (int (dval d)) :: uint) = dval d"
  by (simp add: unat_of_nat_u32 dval_def)

lemma digit_val_digit:
  assumes "unat d < unat b" "unat b \<le> 36"
  shows "digit_val b (of_int (cval (digit_char d))) = Some d"
proof -
  let ?w = "of_int (int (dval (unat d))) :: uint"
  have w: "unat ?w = dval (unat d)" using assms by (intro unat_of_dval) simp
  have b: "unat (48 + b) = 48 + unat b" "unat (97 + b) = 97 + unat b"
    using assms by (simp_all add: unat_add_u32)
  have bs: "10 <s b \<longleftrightarrow> 10 < unat b"
  proof -
    have "sint b = int (unat b)" using assms(2) by (simp add: sint_u32)
    moreover have "sint (10 :: uint) = 10" by simp
    ultimately show ?thesis unfolding word_sless_alt by linarith
  qed
  have "digit_val b ?w = Some d"
  proof (cases "unat d < 10")
    case True
    then have "?w - 48 = d" using w by (simp add: word_eq_unat word_nat dval_def)
    moreover have "48 \<le> ?w \<and> ?w \<le> 57 \<and> ?w < 48 + b"
      using w b True assms by (simp add: word_nat dval_def)
    ultimately show ?thesis by (simp add: digit_val_def)
  next
    case False
    have "97 + b - 10 = 87 + b" by simp
    then have b97: "unat (97 + b - 10) = 87 + unat b" using assms by (simp only:) (simp add: unat_add_u32)
    have "?w - 97 + 10 = d"
    proof -
      have "unat (?w - 87) = unat d" using w False by (simp add: unat_sub_u32 dval_def)
      then have "?w - 87 = d" by (simp only: word_eq_unat)
      then show ?thesis by simp
    qed
    moreover have "\<not> ?w \<le> 57" "97 \<le> ?w" "?w < 97 + b - 10" "10 <s b"
      using w b97 bs False assms by (simp_all add: word_le_unat word_less_unat dval_def)
    ultimately show ?thesis by (simp add: digit_val_def)
  qed
  then show ?thesis using digit_char_dval(2) [of d] assms by simp
qed

text \<open>The value of a list of digits, and the digits a number is printed with.\<close>

definition dig_val :: "nat \<Rightarrow> nat \<Rightarrow> uint list \<Rightarrow> nat" where
  "dig_val b n ds = foldl (\<lambda>n d. n * b + unat d) n ds"

lemma dig_val_simps [simp]:
  "dig_val b n [] = n" "dig_val b n (d # ds) = dig_val b (n * b + unat d) ds"
  "dig_val b n (ds @ [d]) = dig_val b n ds * b + unat d"
  by (simp_all add: dig_val_def)

lemma dig_val_ge: "0 < b \<Longrightarrow> n \<le> dig_val b n ds"
proof (induction ds arbitrary: n)
  case (Cons d ds)
  then have "n * b + unat d \<le> dig_val b n (d # ds)" by simp
  moreover have "n \<le> n * b" using Cons.prems by simp
  ultimately show ?case by linarith
qed simp

text \<open>Where a number ends: at no digit of its radix.\<close>

definition num_end :: "uint \<Rightarrow> string \<Rightarrow> bool" where
  "num_end b r \<longleftrightarrow> (case r of [] \<Rightarrow> True | c # _ \<Rightarrow> cval c = 0 \<or> digit_val b (of_int (cval c)) = None)"

lemma overflow_test:
  fixes b :: uint
  assumes b: "0 < unat b" and d: "unat d < unat b"
  shows "(ULONG_MAX div b < w \<or> (w = ULONG_MAX div b \<and> ULONG_MAX mod b < d)) \<longleftrightarrow>
    4294967296 \<le> unat w * unat b + unat d"
proof -
  let ?q = "4294967295 div unat b" and ?r = "4294967295 mod unat b"
  have q: "unat (ULONG_MAX div b) = ?q" "unat (ULONG_MAX mod b) = ?r"
    by (simp_all add: ULONG_MAX_def unat_div unat_mod unsigned_minus_1_eq_mask mask_eq_exp_minus_1)
  have e: "?q * unat b + ?r = 4294967295" by simp
  have r: "?r < unat b" using b by simp
  have "(?q < unat w \<or> (unat w = ?q \<and> ?r < unat d)) \<longleftrightarrow> 4294967296 \<le> unat w * unat b + unat d"
  proof (cases "unat w" ?q rule: linorder_cases)
    case less
    then have "(unat w + 1) * unat b \<le> ?q * unat b" by (intro mult_right_mono) auto
    then have "unat w * unat b + unat b \<le> ?q * unat b" by (simp add: add.commute)
    with d e have "unat w * unat b + unat d < 4294967296" by linarith
    with less show ?thesis by simp
  next
    case equal
    have "?r < unat d \<longleftrightarrow> 4294967296 \<le> ?q * unat b + unat d" using e by linarith
    with equal show ?thesis by simp
  next
    case greater
    then have "(?q + 1) * unat b \<le> unat w * unat b" by (intro mult_right_mono) auto
    then have "?q * unat b + unat b \<le> unat w * unat b" by (simp add: add.commute)
    with r e have "4294967296 \<le> unat w * unat b + unat d" by linarith
    with greater show ?thesis by simp
  qed
  then show ?thesis by (simp only: word_less_unat word_eq_unat q)
qed

lemma digits_loop_digits:
  assumes b: "1 < unat b" "unat b \<le> 36" and r: "num_end b r"
  shows "list_all (\<lambda>d. unat d < unat b) ds \<Longrightarrow>
    \<exists>t. digits_loop b (ULONG_MAX div b) (ULONG_MAX mod b) (map digit_char ds @ r) w conv ovf =
      (t, r, conv \<or> ds \<noteq> [], ovf \<or> (ds \<noteq> [] \<and> 4294967296 \<le> dig_val (unat b) (unat w) ds)) \<and>
      (dig_val (unat b) (unat w) ds < 4294967296 \<longrightarrow> unat t = dig_val (unat b) (unat w) ds)"
proof (induction ds arbitrary: w conv ovf)
  case Nil
  from r show ?case by (cases r) (auto simp: num_end_def)
next
  case (Cons d ds)
  then have d: "unat d < unat b" and ds: "list_all (\<lambda>d. unat d < unat b) ds" by simp_all
  have c: "cval (digit_char d) \<noteq> 0" using digit_char_dval(2) [of d] d b by (simp add: dval_def)
  note dv = digit_val_digit [OF d b(2)]
  let ?o = "4294967296 \<le> unat w * unat b + unat d"
  have o: "(ULONG_MAX div b < w \<or> (w = ULONG_MAX div b \<and> ULONG_MAX mod b < d)) = ?o"
    using overflow_test [of b d w] d b by simp
  have ge: "unat w * unat b + unat d \<le> dig_val (unat b) (unat w) (d # ds)"
    using dig_val_ge [of "unat b"] b by simp
  obtain t where t: "digits_loop b (ULONG_MAX div b) (ULONG_MAX mod b) (map digit_char ds @ r) (w * b + d) True (ovf \<or> ?o) =
      (t, r, True, (ovf \<or> ?o) \<or> (ds \<noteq> [] \<and> 4294967296 \<le> dig_val (unat b) (unat (w * b + d)) ds))"
    "dig_val (unat b) (unat (w * b + d)) ds < 4294967296 \<Longrightarrow> unat t = dig_val (unat b) (unat (w * b + d)) ds"
    using Cons.IH [OF ds, of "w * b + d" True "ovf \<or> ?o"] by auto
  have u: "unat (w * b + d) = unat w * unat b + unat d" if "\<not> ?o"
  proof -
    have "unat (w * b) = unat w * unat b" using that by (simp add: unat_mult_lem [symmetric])
    then show ?thesis using that by (simp add: unat_add_u32)
  qed
  have "digits_loop b (ULONG_MAX div b) (ULONG_MAX mod b) (map digit_char (d # ds) @ r) w conv ovf =
      (t, r, True, ovf \<or> 4294967296 \<le> dig_val (unat b) (unat w) (d # ds))"
  proof (cases ?o)
    case True
    then show ?thesis using t(1) ge by (simp add: c dv o)
  next
    case False
    have "ds = [] \<Longrightarrow> dig_val (unat b) (unat w) (d # ds) < 4294967296" using False by simp
    with False show ?thesis using t(1) u by (auto simp: c dv o)
  qed
  moreover have "unat t = dig_val (unat b) (unat w) (d # ds)" if "dig_val (unat b) (unat w) (d # ds) < 4294967296"
    using that ge t(2) u by simp
  ultimately show ?case by auto
qed

subsection \<open>strtoul\<close>

lemma not_space_digit:
  assumes "unat d < 36"
  shows "\<not> Isspace (cval (digit_char d))" "cval (digit_char d) \<noteq> 45" "cval (digit_char d) \<noteq> 43"
    "cval (digit_char d) \<noteq> 0"
  using assms by (simp_all add: digit_char_dval(2) Isspace_def dval_def del: digit_char_dval(1))

lemma strtoul_digits:
  assumes b: "1 < unat b" "unat b \<le> 36" "b \<noteq> 16" and r: "num_end b r"
    and ds: "list_all (\<lambda>d. unat d < unat b) ds" "ds \<noteq> []"
  shows "\<exists>t. strtoul (map digit_char ds @ r) b =
      (if 4294967296 \<le> dig_val (unat b) 0 ds then (ULONG_MAX, r, True) else (t, r, False)) \<and>
    (dig_val (unat b) 0 ds < 4294967296 \<longrightarrow> unat t = dig_val (unat b) 0 ds)"
proof -
  obtain d ds' where c: "ds = d # ds'" using ds(2) by (cases ds) auto
  have d: "unat d < 36" using ds(1) c b(2) by simp
  have sp: "take_sign (skip_space (map digit_char ds @ r)) = (False, map digit_char ds @ r)"
    using not_space_digit [OF d] by (simp add: c skip_space_def take_sign_def peek_def)
  have b0: "b \<noteq> 0" using b(1) by auto
  obtain t where t: "digits_loop b (ULONG_MAX div b) (ULONG_MAX mod b) (map digit_char ds @ r) 0 False False =
      (t, r, True, 4294967296 \<le> dig_val (unat b) 0 ds)"
    "dig_val (unat b) 0 ds < 4294967296 \<longrightarrow> unat t = dig_val (unat b) 0 ds"
    using digits_loop_digits [OF b(1,2) r ds(1), of 0 False False] ds(2) by auto
  have "strtoul (map digit_char ds @ r) b =
      (if 4294967296 \<le> dig_val (unat b) 0 ds then (ULONG_MAX, r, True) else (t, r, False))"
    unfolding strtoul_def sp using b0 b(3) t(1) by (simp add: infer_radix_def)
  with t(2) show ?thesis by blast
qed

text \<open>
  \<open>strtoul\<close> on digits of a radix from 2 to 36 (a prefix is only read for radix 0 and 16) consumes
  exactly the digits; it returns their value when that fits 32 bits, and otherwise
  \<open>ULONG_MAX\<close> with \<open>ERANGE\<close>.
\<close>

theorem strtoul_spec:
  assumes "1 < unat b" "unat b \<le> 36" "b \<noteq> 16" "num_end b r"
    and "list_all (\<lambda>d. unat d < unat b) ds" "ds \<noteq> []"
  shows "strtoul (map digit_char ds @ r) b =
    (if dig_val (unat b) 0 ds < 4294967296 then (of_nat (dig_val (unat b) 0 ds), r, False)
     else (ULONG_MAX, r, True))"
proof -
  obtain t where t: "strtoul (map digit_char ds @ r) b =
      (if 4294967296 \<le> dig_val (unat b) 0 ds then (ULONG_MAX, r, True) else (t, r, False))"
    "dig_val (unat b) 0 ds < 4294967296 \<longrightarrow> unat t = dig_val (unat b) 0 ds"
    using strtoul_digits [OF assms] by blast
  have "dig_val (unat b) 0 ds < 4294967296 \<Longrightarrow> t = of_nat (dig_val (unat b) 0 ds)"
    using t(2) by (simp add: word_eq_unat unat_of_nat_u32)
  with t(1) show ?thesis by auto
qed

theorem strtoul_spec_witness: "strtoul ''4294967296z'' 10 = (ULONG_MAX, ''z'', True)"
proof -
  have "num_end 10 ''z''" by (simp add: num_end_def cval_def digit_val_def)
  moreover have "''4294967296z'' = map digit_char [4, 2, 9, 4, 9, 6, 7, 2, 9, 6] @ ''z''"
    by code_simp
  ultimately show ?thesis using strtoul_spec [of 10 "''z''" "[4, 2, 9, 4, 9, 6, 7, 2, 9, 6]"] by simp
qed

subsection \<open>Printing\<close>

function num_digits :: "nat \<Rightarrow> nat \<Rightarrow> uint list" where
  "num_digits b n = (if 1 < b \<and> b \<le> n then num_digits b (n div b) else []) @ [of_nat (n mod b)]"
  by pat_completeness auto
termination by (relation "measure (\<lambda>(b, n). n)") auto

declare num_digits.simps [simp del]

lemma num_digits_ok:
  assumes "1 < b" "b < 4294967296"
  shows "dig_val b 0 (num_digits b n) = n \<and> list_all (\<lambda>d. unat d < b) (num_digits b n) \<and> num_digits b n \<noteq> []"
proof (induction n rule: less_induct)
  case (less n)
  have u: "unat (of_nat (n mod b) :: uint) = n mod b"
    using assms by (intro unat_of_nat_u32) (simp add: less_trans [of _ b])
  show ?case
  proof (cases "b \<le> n")
    case True
    then have "n div b < n" using assms by simp
    from less [OF this] show ?thesis using True assms u
      by (subst (1 2 3) num_digits.simps) simp
  next
    case False
    with u assms show ?thesis by (subst (1 2 3) num_digits.simps) simp
  qed
qed

lemma num_loop_digits:
  assumes "1 < unat b"
  shows "num_loop x b p = Some (map digit_char (num_digits (unat b) (unat x)) @ p)"
proof (induction "unat x" arbitrary: x p rule: less_induct)
  case less
  have m: "x mod b = of_nat (unat x mod unat b)"
    by (simp add: unat_mod [symmetric])
  show ?case
  proof (cases "unat b \<le> unat x")
    case True
    have z: "x div b \<noteq> 0" using True assms by (simp add: word_eq_unat unat_div div_eq_0_iff)
    have "unat (x div b) < unat x" using True assms by (simp add: unat_div)
    from less [OF this] z True assms show ?thesis
      by (subst num_loop.simps, subst num_digits.simps) (simp add: unat_div m)
  next
    case False
    then have "x div b = 0" using assms by (simp add: word_eq_unat unat_div)
    with False show ?thesis by (subst num_loop.simps, subst num_digits.simps) (simp add: m)
  qed
qed

lemma cval_nat: "cval c = (if of_char c < (128 :: nat) then int (of_char c) else int (of_char c) - 256)"
proof -
  have "(of_char c :: int) = int (of_char c)" by (rule of_nat_of_char [symmetric])
  then show ?thesis by (simp add: cval_def Let_def)
qed

lemma cval_bounds: "- 128 \<le> cval c" "cval c < 128"
  using nat_of_char_less_256 [of c] by (cases "of_char c < (128 :: nat)"; simp only: cval_nat if_True if_False; linarith)+

lemma cval_eq_iff [simp]: "cval c = cval d \<longleftrightarrow> c = d"
proof
  assume "cval c = cval d"
  then have "(of_char c :: nat) = of_char d"
    using nat_of_char_less_256 [of c] nat_of_char_less_256 [of d] unfolding cval_nat
    by (cases "of_char c < (128 :: nat)"; cases "of_char d < (128 :: nat)"; simp only: if_True if_False; linarith)
  then show "c = d" by simp
qed simp

lemma unat_of_cval: "unat (of_int x :: uint) \<le> 57 \<Longrightarrow> - 128 \<le> x \<Longrightarrow> x < 128 \<Longrightarrow> x = int (unat (of_int x :: uint))"
proof -
  assume u: "unat (of_int x :: uint) \<le> 57" and x: "- 128 \<le> x" "x < 128"
  have e: "int (unat (of_int x :: uint)) = x mod 4294967296"
    unfolding uint_nat [symmetric] by (simp only: uint_word_of_int) simp
  show "x = int (unat (of_int x :: uint))"
  proof (cases "0 \<le> x")
    case True
    with x e show ?thesis by (simp add: mod_pos_pos_trivial)
  next
    case False
    have "x mod 4294967296 = (x + 4294967296) mod 4294967296" by simp
    also have "\<dots> = x + 4294967296" using False x by (intro mod_pos_pos_trivial) linarith+
    finally show ?thesis using e u x by linarith
  qed
qed

text \<open>Where a decimal number may end.\<close>

definition no_digit :: "string \<Rightarrow> bool" where
  "no_digit r \<longleftrightarrow> (case r of [] \<Rightarrow> True | c # _ \<Rightarrow> \<not> (48 \<le> cval c \<and> cval c \<le> 57))"

lemma num_end_10: "no_digit r \<Longrightarrow> num_end 10 r"
proof (cases r)
  case (Cons c s)
  have "digit_val 10 (of_int (cval c)) = None" if "\<not> (48 \<le> cval c \<and> cval c \<le> 57)"
  proof -
    have "\<not> (48 \<le> (of_int (cval c) :: uint) \<and> (of_int (cval c) :: uint) \<le> 57)"
    proof
      assume *: "48 \<le> (of_int (cval c) :: uint) \<and> (of_int (cval c) :: uint) \<le> 57"
      then have "unat (of_int (cval c) :: uint) \<le> 57" "48 \<le> unat (of_int (cval c) :: uint)"
        by (simp_all add: word_le_unat)
      with unat_of_cval [OF this(1) cval_bounds] that show False by linarith
    qed
    then show ?thesis by (auto simp: digit_val_def)
  qed
  then show "no_digit r \<Longrightarrow> num_end 10 r" using Cons by (auto simp: num_end_def no_digit_def)
qed (simp add: num_end_def)

text \<open>The decimal text of a signed number.\<close>

definition dec :: "uint \<Rightarrow> string" where
  "dec x = (if sint x < 0 then CHR 0x2D # map digit_char (num_digits 10 (unat (- x)))
            else map digit_char (num_digits 10 (unat x)))"

lemma num_str_dec: "num_str x 10 False = Some (dec x)"
  using num_loop_digits [of 10] by (simp add: num_str_def dec_def word_sless_alt)

lemma num_digits_chars: "c \<in> set (map digit_char (num_digits 10 n)) \<Longrightarrow> 48 \<le> cval c \<and> cval c \<le> 57"
proof -
  assume "c \<in> set (map digit_char (num_digits 10 n))"
  then obtain d where d: "c = digit_char d" "d \<in> set (num_digits 10 n)" by auto
  then have "unat d < 10" using num_digits_ok [of 10 n] by (simp add: list_all_iff)
  then have "dval (unat d) = 48 + unat d" "cval c = int (dval (unat d))"
    using digit_char_dval(2) [of d] d(1) by (simp_all add: dval_def)
  with \<open>unat d < 10\<close> show ?thesis by linarith
qed

lemma dec_chars: "c \<in> set (dec x) \<Longrightarrow> cval c = 45 \<or> (48 \<le> cval c \<and> cval c \<le> 57)"
  using num_digits_chars by (auto simp: dec_def cval_def split: if_splits)

lemma num_digits_Cons:
  obtains d ds where "map digit_char (num_digits 10 n) = digit_char d # ds" "unat d < 10"
proof -
  obtain d ds where c: "num_digits 10 n = d # ds" using num_digits_ok [of 10 n] by (cases "num_digits 10 n") auto
  then have "unat d < 10" using num_digits_ok [of 10 n] by simp
  with c that show thesis by simp
qed

lemma strtoul_dec:
  assumes "no_digit r" "n < 4294967296"
  shows "strtoul (map digit_char (num_digits 10 n) @ r) 10 = (of_nat n, r, False)"
proof -
  have ok: "dig_val 10 0 (num_digits 10 n) = n" "list_all (\<lambda>d. unat d < unat (10 :: uint)) (num_digits 10 n)"
    "num_digits 10 n \<noteq> []"
    using num_digits_ok [of 10 n] by simp_all
  obtain t where t: "strtoul (map digit_char (num_digits 10 n) @ r) 10 =
      (if 4294967296 \<le> dig_val (unat (10 :: uint)) 0 (num_digits 10 n) then (ULONG_MAX, r, True) else (t, r, False))"
    "dig_val (unat (10 :: uint)) 0 (num_digits 10 n) < 4294967296 \<longrightarrow> unat t = dig_val (unat (10 :: uint)) 0 (num_digits 10 n)"
    using strtoul_digits [of 10, OF _ _ _ num_end_10 [OF assms(1)] ok(2,3)] by auto
  have "unat t = n" using t(2) ok(1) assms(2) by simp
  then have "t = of_nat n" using assms(2) by (simp add: word_eq_unat unat_of_nat_u32)
  with t(1) ok(1) assms(2) show ?thesis by simp
qed

lemma sign_digits:
  "take_sign (skip_space (map digit_char (num_digits 10 n) @ r)) = (False, map digit_char (num_digits 10 n) @ r)"
proof -
  obtain d ds where c: "map digit_char (num_digits 10 n) = digit_char d # ds" "unat d < 10"
    by (rule num_digits_Cons)
  then have "unat d < 36" by simp
  from not_space_digit [OF this] c(1) show ?thesis by (simp add: skip_space_def take_sign_def peek_def)
qed

lemma unat_uminus_u32: "x \<noteq> 0 \<Longrightarrow> unat (- x :: uint) = 4294967296 - unat x"
proof -
  assume "x \<noteq> 0"
  have "- x = - 1 - x + 1" by simp
  have "int (unat (- x)) = (- int (unat x)) mod 4294967296"
    by (simp add: uint_word_ariths(4) take_bit_eq_mod)
  also have "\<dots> = (4294967296 - int (unat x)) mod 4294967296"
    by (metis add.commute minus_mod_self1 mod_add_self1 uminus_add_conv_diff)
  also have "\<dots> = 4294967296 - int (unat x)"
    using unat_u32_lt [of x] \<open>x \<noteq> 0\<close> unat_pos_iff [of x] by (intro mod_pos_pos_trivial) linarith+
  finally show ?thesis by linarith
qed

lemma atoi_dec:
  assumes r: "no_digit r"
  shows "atoi (Some (dec x @ r)) = Inr x"
proof (cases "sint x < 0")
  case True
  then have x: "2147483648 \<le> unat x" by (simp add: sint_neg_iff)
  then have "x \<noteq> 0" by auto
  then have m: "unat (- x) = 4294967296 - unat x" by (rule unat_uminus_u32)
  let ?s = "map digit_char (num_digits 10 (unat (- x))) @ r"
  have s: "strtoul ?s 10 = (- x, r, False)" using strtoul_dec [OF r, of "unat (- x)"] by simp
  have "take_sign (skip_space (dec x @ r)) = (True, ?s)"
    using True by (simp add: dec_def skip_space_def take_sign_def peek_def cval_def Isspace_def)
  moreover have "\<not> - LONG_MIN < - x" using m x by (simp add: LONG_MIN_def word_less_unat)
  ultimately have "strtol_str (dec x @ r) 10 = (x, if r = ?s then dec x @ r else r, False)"
    by (simp add: strtol_str_def s)
  then show ?thesis by (simp add: atoi_def strtol_def obind_def)
next
  case False
  then have x: "unat x < 2147483648" unfolding sint_neg_iff by simp
  have s: "strtoul (dec x @ r) 10 = (x, r, False)"
    using strtoul_dec [OF r, of "unat x"] False by (simp add: dec_def)
  have "take_sign (skip_space (dec x @ r)) = (False, dec x @ r)"
    using False sign_digits by (simp add: dec_def)
  moreover have "\<not> LONG_MAX < x" using x by (simp add: LONG_MAX_def word_less_unat)
  ultimately have "strtol_str (dec x @ r) 10 = (x, if r = dec x @ r then dec x @ r else r, False)"
    by (simp add: strtol_str_def s)
  then show ?thesis by (simp add: atoi_def strtol_def obind_def)
qed

text \<open>
  C40: Reading back a printed number: \<open>atoi\<close> of what the formatter prints for any 32-bit integer is
  that integer, also when text follows that does not go on with a digit.
\<close>

theorem atoi_num_roundtrip:
  assumes "no_digit r"
  shows "\<exists>t. num_str x 10 False = Some t \<and> atoi (Some (t @ r)) = Inr x"
  using num_str_dec atoi_dec [OF assms] by simp

theorem atoi_num_roundtrip_witness: "\<exists>t. num_str (- 17) 10 False = Some t \<and> atoi (Some (t @ ''/3'')) = Inr (- 17)"
  by (rule atoi_num_roundtrip) (simp add: no_digit_def cval_def)

end
