(* ===== verification/Scan.thy ===== *)
theory Scan
  imports Numbers
begin

text \<open>
  Scanning of input, \<open>src/src/lib/scanf.c\<close>: \<open>instr\<close>, \<open>innum\<close>, \<open>getccl\<close> and \<open>_doscan\<close>.

  A stream is the characters that are left of it; \<open>getc\<close> yields -1 at its end and characters as
  unsigned numbers otherwise. What is stored through the argument pointers is returned, one entry for
  each pointer taken from the list, \<open>None\<close> when nothing was stored through it.
\<close>

subsection \<open>Streams\<close>

text \<open>The stream, the count \<open>nread\<close>, and the \<open>STP\<close> bits of \<open>_sctab\<close>, which outlive a call.\<close>

record scan =
  sc_in :: string
  sc_nread :: int
  sc_stp :: "int \<Rightarrow> bool"

datatype sval = SShort "16 word" | SInt uint | SLong uint | SFloat string | SDouble string | SStr string

datatype ssize = SHORT | REGULAR | LONG

definition next_ch :: "string \<Rightarrow> int \<times> string" where
  "next_ch s = (case s of [] \<Rightarrow> (- 1, []) | c # t \<Rightarrow> (of_char c, t))"

definition push_ch :: "int \<Rightarrow> string \<Rightarrow> string" where
  "push_ch c s = (if c = - 1 then s else char_of c # s)"

text \<open>\<open>SPC\<close> of \<open>_sctab\<close>: tab, newline and space.\<close>

definition SPC :: "int \<Rightarrow> bool" where
  "SPC c \<longleftrightarrow> c = 9 \<or> c = 10 \<or> c = 32"

text \<open>Read on while the characters satisfy \<open>P\<close>: the first one that does not, counted as read.\<close>

fun skip_chars :: "(int \<Rightarrow> bool) \<Rightarrow> string \<Rightarrow> int \<Rightarrow> int \<times> string \<times> int" where
  "skip_chars P [] n = (- 1, [], n)"
| "skip_chars P (c # s) n = (if P (of_char c) then skip_chars P s (n + 1) else (of_char c, s, n + 1))"

subsection \<open>Strings\<close>

function take_chars :: "(int \<Rightarrow> bool) \<Rightarrow> int \<Rightarrow> string \<Rightarrow> int \<Rightarrow> string \<Rightarrow> int \<Rightarrow> int \<times> string \<times> int \<times> string \<times> int" where
  "take_chars ends c s len acc n =
     (if c = - 1 \<or> ends c then (c, s, len, acc, n)
      else if len - 1 \<le> 0 then (c, s, len - 1, acc @ [char_of c], n)
      else (case next_ch s of
              (d, t) \<Rightarrow> take_chars ends d t (len - 1) (acc @ [char_of c]) (if d = - 1 then n else n + 1)))"
  by pat_completeness auto
termination by (relation "measure (\<lambda>(e, c, s, len, acc, n). nat len)") auto

declare take_chars.simps [simp del]

text \<open>The result: whether a string was stored, the string with its end, and whether the input is at its end.\<close>

definition instr :: "bool \<Rightarrow> int \<Rightarrow> int \<Rightarrow> scan \<Rightarrow> bool \<times> sval option \<times> bool \<times> scan" where
  "instr ptr type len0 sc =
     (let len = (if type = 99 \<and> len0 = 30000 then 1 else len0);
          (c, s, n) = skip_chars (\<lambda>c. type = 115 \<and> SPC c) (sc_in sc) (sc_nread sc);
          ends = (\<lambda>c. if type = 99 then False else if type = 91 then sc_stp sc c else SPC c);
          (c1, s1, len1, acc, n1) = take_chars ends c s len [] n;
          sc1 = (if c1 \<noteq> - 1 \<and> 0 < len1 then sc\<lparr>sc_in := push_ch c1 s1, sc_nread := n1 - 1\<rparr>
                 else sc\<lparr>sc_in := s1, sc_nread := n1\<rparr>)
      in if ptr \<and> acc \<noteq> [] then (True, Some (SStr (if type \<noteq> 99 then acc @ [NUL] else acc)), c1 = - 1, sc1)
         else (False, None, c1 = - 1, sc1))"

subsection \<open>Numbers\<close>

definition scan_shift :: "int \<Rightarrow> uint \<Rightarrow> uint" where
  "scan_shift base v =
     (if base = 8 then push_bit 3 v else if base = 10 then push_bit 1 (push_bit 2 v + v) else push_bit 4 v)"

definition scan_digit :: "int \<Rightarrow> int" where
  "scan_digit c = (if isdigit c then c - 48 else if 97 \<le> c \<and> c \<le> 102 then c - 87 else c - 55)"

text \<open>
  The loop of \<open>innum\<close>: the character it stops at, what follows, the text in \<open>numbuf\<close>, the value and
  the count of characters read.
\<close>

function scan_digits ::
  "int \<Rightarrow> bool \<Rightarrow> int \<Rightarrow> int \<Rightarrow> string \<Rightarrow> string \<Rightarrow> uint \<Rightarrow> nat \<Rightarrow> bool \<Rightarrow> int \<Rightarrow> int \<times> string \<times> string \<times> uint \<times> int" where
  "scan_digits base flt len c s np lcval ndigit expseen n =
     (if len - 1 < 0 then (c, s, np, lcval, n)
      else if isdigit c \<or> base = 16 \<and> (97 \<le> c \<and> c \<le> 102 \<or> 65 \<le> c \<and> c \<le> 70) then
        (case next_ch s of
           (d, t) \<Rightarrow> scan_digits base flt (len - 1) d t (np @ [char_of c])
                      (scan_shift base lcval + of_int (scan_digit c)) (ndigit + 1) expseen (n + 1))
      else if c = 46 then
        (if base \<noteq> 10 \<or> \<not> flt then (c, s, np, lcval, n)
         else (case next_ch s of
                 (d, t) \<Rightarrow> scan_digits base flt (len - 1) d t (np @ [char_of c]) lcval (ndigit + 1) expseen (n + 1)))
      else if (c = 101 \<or> c = 69) \<and> \<not> expseen then
        (if base \<noteq> 10 \<or> \<not> flt \<or> ndigit = 0 then (c, s, np, lcval, n)
         else (case next_ch s of
                 (d, t) \<Rightarrow>
                   (let n1 = (if d = - 1 then n else n + 1)
                    in if d \<noteq> 43 \<and> d \<noteq> 45 \<and> (d < 48 \<or> 57 < d) then (d, t, np @ [char_of c], lcval, n1)
                       else (case next_ch t of
                               (d2, t2) \<Rightarrow> scan_digits base flt (len - 1) d2 t2 (np @ [char_of c, char_of d]) lcval ndigit True (n1 + 1)))))
      else (c, s, np, lcval, n))"
  by pat_completeness auto
termination by (relation "measure (\<lambda>(b, f, len, r). nat len)") auto

declare scan_digits.simps [simp del]

text \<open>A value of the given size; \<open>numbuf\<close> has 64 bytes.\<close>

definition store_num :: "bool \<Rightarrow> ssize \<Rightarrow> string \<Rightarrow> uint \<Rightarrow> sval" where
  "store_num flt wid np lcval =
     (if flt then (if wid = LONG then SDouble np else SFloat np)
      else (case wid of SHORT \<Rightarrow> SShort (ucast lcval) | REGULAR \<Rightarrow> SInt lcval | LONG \<Rightarrow> SLong lcval))"

definition innum :: "bool \<Rightarrow> int \<Rightarrow> int \<Rightarrow> ssize \<Rightarrow> scan \<Rightarrow> (bool \<times> sval option \<times> bool \<times> scan) outcome" where
  "innum ptr type len wid sc =
     (if type = 99 \<or> type = 115 \<or> type = 91 then Inr (instr ptr type len sc)
      else
        (let flt = (type = 101 \<or> type = 102);
             base = (if type = 111 then 8 else if type = 120 then 16 else 10);
             (c, s, n) = skip_chars (\<lambda>c. c = 32 \<or> c = 9 \<or> c = 10) (sc_in sc) (sc_nread sc);
             sign = (c = 45 \<or> c = 43);
             (c1, s1) = (if sign then next_ch s else (c, s));
             n1 = (if sign \<and> c1 \<noteq> - 1 then n + 1 else n);
             np0 = (if c = 45 then [CHR ''-''] else []);
             (c2, s2, np, lcval, n2) = scan_digits base flt (if sign then len - 1 else len) c1 s1 np0 0 0 False n1;
             sc1 = (if c2 \<noteq> - 1 then sc\<lparr>sc_in := push_ch c2 s2, sc_nread := n2 - 1\<rparr> else sc\<lparr>sc_in := s2, sc_nread := n2\<rparr>);
             v = (if c = 45 then - lcval else lcval)
         in if 64 < length np then Inl BufferOverrun
            else if \<not> ptr \<or> np = [] \<or> (c = 45 \<and> length np = 1) then Inr (False, None, c2 = - 1, sc1)
            else if length np = 64 then Inl BufferOverrun
            else Inr (True, Some (store_num flt wid np v), c2 = - 1, sc1)))"

subsection \<open>Formats\<close>

text \<open>
  The set of a \<open>%[\<close> from its first character on, with the character before; the format ends in its null.
\<close>

fun ccl_loop :: "bool \<Rightarrow> int \<Rightarrow> string \<Rightarrow> (int \<Rightarrow> bool) \<Rightarrow> (int \<Rightarrow> bool) \<times> string" where
  "ccl_loop t prev [] stp = (stp, [])"
| "ccl_loop t prev (c # s) stp =
     (if c = CHR '']'' then (stp, s)
      else
        (let nxt = (case s of [] \<Rightarrow> 0 | d # _ \<Rightarrow> of_char d)
         in if c = CHR ''-'' \<and> nxt \<noteq> of_char (CHR '']'') \<and> prev < nxt
            then ccl_loop t (of_char c) s (\<lambda>i. if prev < i \<and> i < nxt then t else stp i)
            else ccl_loop t (of_char c) s (stp(of_char c := t))))"

definition getccl :: "string \<Rightarrow> (int \<Rightarrow> bool) \<times> string" where
  "getccl s =
     (let t = (s \<noteq> [] \<and> hd s = CHR ''^''); s1 = (if t then tl s else s); stp = (\<lambda>_. \<not> t)
      in case s1 of
           [] \<Rightarrow> (stp, [])
         | c # s2 \<Rightarrow>
             if c = CHR '']'' \<or> c = CHR ''-'' then ccl_loop t (of_char c) s2 (stp(of_char c := t))
             else ccl_loop t 0 s1 stp)"

definition fmt_next :: "string \<Rightarrow> int \<times> string" where
  "fmt_next f = (case f of [] \<Rightarrow> (0, []) | c # t \<Rightarrow> (cval c, t))"

fun scan_width :: "int \<Rightarrow> string \<Rightarrow> int \<Rightarrow> int \<times> int \<times> string" where
  "scan_width ch [] len = (if isdigit ch then (len * 10 + ch - 48, 0, []) else (len, ch, []))"
| "scan_width ch (c # f) len = (if isdigit ch then scan_width (cval c) f (len * 10 + ch - 48) else (len, ch, c # f))"

text \<open>
  A directive after its percent sign: whether a pointer belongs to it, the width, the size, the
  character of the conversion, and the rest of the format.
\<close>

definition scan_spec :: "string \<Rightarrow> (int \<Rightarrow> bool) \<Rightarrow> bool \<times> int \<times> ssize \<times> int \<times> string \<times> (int \<Rightarrow> bool)" where
  "scan_spec f stp =
     (let (ch0, f1) = fmt_next f;
          (ch1, f2) = (if ch0 = 42 then fmt_next f1 else (ch0, f1));
          (len0, ch2, f3) = scan_width ch1 f2 0;
          len = (if len0 = 0 then 30000 else len0);
          (wid, ch3, f4, stp1) =
            (if ch2 = 108 then (case fmt_next f3 of (c, g) \<Rightarrow> (LONG, c, g, stp))
             else if ch2 = 104 then (case fmt_next f3 of (c, g) \<Rightarrow> (SHORT, c, g, stp))
             else if ch2 = 91 then (case getccl f3 of (stp2, g) \<Rightarrow> (REGULAR, ch2, g, stp2))
             else (REGULAR, ch2, f3, stp))
      in (ch0 \<noteq> 42, len, (if isupper ch3 then LONG else wid), (if isupper ch3 then tolower ch3 else ch3), f4, stp1))"

lemma fmt_next_length: "fmt_next f = (c, g) \<Longrightarrow> length g \<le> length f"
  by (auto simp: fmt_next_def split: list.splits)

lemma scan_width_length: "scan_width ch f len = (n, c, g) \<Longrightarrow> length g \<le> length f"
  by (induction ch f len rule: scan_width.induct) (auto split: if_splits)

lemma ccl_loop_length: "ccl_loop t prev f stp = (stp1, g) \<Longrightarrow> length g \<le> length f"
proof (induction f arbitrary: prev stp)
  case (Cons c s)
  have "ccl_loop t prev (c # s) stp = (stp, s) \<or> (\<exists>p x. ccl_loop t prev (c # s) stp = ccl_loop t p s x)"
    unfolding ccl_loop.simps Let_def by metis
  then show ?case using Cons by (metis Pair_inject le_SucI length_Cons order_refl)
qed simp

lemma getccl_length: "getccl f = (stp1, g) \<Longrightarrow> length g \<le> length f"
proof -
  assume a: "getccl f = (stp1, g)"
  define s1 where "s1 = (if f \<noteq> [] \<and> hd f = CHR ''^'' then tl f else f)"
  have "length g \<le> length s1"
    using a ccl_loop_length unfolding getccl_def Let_def s1_def [symmetric]
    by (auto split: list.splits if_splits dest!: ccl_loop_length)
  also have "\<dots> \<le> length f" by (simp add: s1_def)
  finally show ?thesis .
qed

lemma scan_spec_length: "scan_spec f stp = (a, len, wid, ch, g, stp1) \<Longrightarrow> length g \<le> length f"
  unfolding scan_spec_def Let_def
  by (auto split: prod.splits if_splits dest!: fmt_next_length scan_width_length getccl_length)

text \<open>The format from where it is on; the count of matches and what is stored so far.\<close>

function doscan :: "string \<Rightarrow> scan \<Rightarrow> int \<Rightarrow> sval option list \<Rightarrow> (int \<times> sval option list \<times> scan) outcome" where
  "doscan [] sc nmatch out = Inr (nmatch, out, sc)"
| "doscan (f0 # f) sc nmatch out =
     (if f0 = CHR ''%'' \<and> fst (fmt_next f) \<noteq> 37 then
        (case scan_spec f (sc_stp sc) of
           (assign, len, wid, ch, g, stp) \<Rightarrow>
             (let sc1 = sc\<lparr>sc_stp := stp\<rparr>; out1 = (\<lambda>v. if assign then out @ [v] else out)
              in if ch = 0 then Inr (- 1, out1 None, sc1)
                 else if ch = 110 then
                   doscan g sc1 (if assign then nmatch + 1 else nmatch) (out1 (Some (SInt (of_int (sc_nread sc1)))))
                 else
                   obind (innum assign ch len wid sc1) (\<lambda>(ok, v, fileended, sc2).
                     let nm = (if ok \<and> assign then nmatch + 1 else nmatch)
                     in if fileended then Inr (if nm \<noteq> 0 then nm else - 1, out1 v, sc2)
                        else doscan g sc2 nm (out1 v))))
      else if f0 = CHR '' '' \<or> f0 = CHR 0x0A \<or> f0 = CHR 0x09 then
        (case skip_chars (\<lambda>c. c = 32 \<or> c = 9 \<or> c = 10) (sc_in sc) (sc_nread sc) of
           (c, s, n) \<Rightarrow>
             doscan f (if c \<noteq> - 1 then sc\<lparr>sc_in := push_ch c s, sc_nread := n - 1\<rparr> else sc\<lparr>sc_in := s, sc_nread := n\<rparr>) nmatch out)
      else
        (let ch = (if f0 = CHR ''%'' then 37 else cval f0); g = (if f0 = CHR ''%'' then tl f else f)
         in case next_ch (sc_in sc) of
              (c, s) \<Rightarrow>
                (let sc1 = sc\<lparr>sc_in := s, sc_nread := sc_nread sc + 1\<rparr>
                 in if c \<noteq> ch then Inr (if c = - 1 then - 1 else nmatch, out, sc1\<lparr>sc_in := push_ch c s\<rparr>)
                    else doscan g sc1 nmatch out)))"
  by pat_completeness auto
termination
proof (relation "measure (\<lambda>(f, sc, n, out). length f)", goal_cases)
  case 2
  then show ?case by (auto dest!: scan_spec_length [OF sym])
next
  case 3
  then show ?case by (auto dest!: scan_spec_length [OF sym])
qed auto

declare doscan.simps(2) [simp del]

text \<open>\<open>sscanf\<close>; \<open>ok\<close>: the stream over the string could be opened. The result -1 is \<open>EOF\<close>.\<close>

definition sscanf :: "bool \<Rightarrow> (int \<Rightarrow> bool) \<Rightarrow> string \<Rightarrow> string \<Rightarrow> (int \<times> sval option list \<times> scan) outcome" where
  "sscanf ok stp str fmt =
     (let sc = \<lparr>sc_in = str, sc_nread = 0, sc_stp = stp\<rparr>
      in if \<not> ok then Inr (- 1, [], sc) else doscan fmt sc 0 [])"

end
