(* ===== verification/Scan_Spec.thy ===== *)
theory Scan_Spec
  imports Scan Numbers_Spec
begin

text \<open>
  Scanning a decimal number: the value is what the digits say, modulo the width of a \<open>long\<close>, up to 63
  digits; more digits run over the buffer of \<open>innum\<close>. What the formatter printed is read back.
\<close>

text \<open>A decimal digit as a character of a stream.\<close>

lemma of_digit_char: "unat d < 10 \<Longrightarrow> (of_char (digit_char d) :: int) = 48 + int (unat d)"
proof -
  assume d: "unat d < 10"
  have "(of_char (char_of (dval (unat d)) :: char) :: int) = int (of_char (char_of (dval (unat d)) :: char) :: nat)"
    by (rule of_nat_of_char [symmetric])
  also have "\<dots> = 48 + int (unat d)" using d by (simp add: dval_def)
  finally show ?thesis using digit_char_dval(1) [of d] d by simp
qed

lemma isdigit_code: "48 \<le> c \<Longrightarrow> c \<le> 57 \<Longrightarrow> isdigit c"
proof -
  assume c: "48 \<le> c" "c \<le> 57"
  have "\<forall>i \<in> set [48..57]. isdigit i" by code_simp
  moreover have "c \<in> set [48..57]" using c by simp presburger
  ultimately show ?thesis by (rule bspec)
qed

lemma digit_char_scan:
  assumes "unat d < 10"
  shows "isdigit (of_char (digit_char d))" "scan_digit (of_char (digit_char d)) = int (unat d)"
    "of_char (digit_char d) \<noteq> (- 1 :: int)" "char_of (of_char (digit_char d) :: int) = digit_char d"
proof -
  let ?c = "of_char (digit_char d) :: int"
  have c: "?c = 48 + int (unat d)" by (rule of_digit_char [OF assms])
  have "unat d \<le> 9" using assms by simp
  then show i: "isdigit ?c" using c by (intro isdigit_code) linarith+
  show "scan_digit ?c = int (unat d)" using i c by (simp add: scan_digit_def)
  show "?c \<noteq> - 1" using c by linarith
  show "char_of ?c = digit_char d" by (rule char_of_char)
qed

lemma scan_shift_10: "scan_shift 10 v = v * 10"
  by (simp add: scan_shift_def push_bit_eq_mult)

text \<open>Where the digits of a number end.\<close>

definition scan_end :: "string \<Rightarrow> bool" where
  "scan_end r \<longleftrightarrow> (case r of [] \<Rightarrow> True | c # _ \<Rightarrow> \<not> isdigit (of_char c))"

abbreviation fst_ch :: "string \<Rightarrow> int" where "fst_ch s \<equiv> fst (next_ch s)"
abbreviation rest_ch :: "string \<Rightarrow> string" where "rest_ch s \<equiv> snd (next_ch s)"

lemma next_ch_simps [simp]: "next_ch [] = (- 1, [])" "next_ch (c # s) = (of_char c, s)"
  by (simp_all add: next_ch_def)

lemma of_char_not_EOF [simp]: "(of_char c :: int) \<noteq> - 1"
proof -
  have "(of_char c :: int) = int (of_char c)" by (rule of_nat_of_char [symmetric])
  then show ?thesis by linarith
qed

lemma scan_end_stop: "scan_end r \<Longrightarrow> \<not> isdigit (fst_ch r)"
  by (cases r) (simp_all add: scan_end_def isdigit_def ct_bits_def ctab_def CT_DIG_def)

text \<open>The loop reads all digits, as many as the width allows.\<close>

lemma scan_digits_all:
  assumes "list_all (\<lambda>d. unat d < 10) ds" "scan_end r" "int (length ds) < len"
  shows "scan_digits 10 False len (fst_ch (map digit_char ds @ r)) (rest_ch (map digit_char ds @ r)) np v nd ex n =
    (fst_ch r, rest_ch r, np @ map digit_char ds, of_nat (dig_val 10 (unat v) ds), n + int (length ds))"
  using assms
proof (induction ds arbitrary: len np v nd n)
  case Nil
  then show ?case using scan_end_stop [OF Nil(2)] by (subst scan_digits.simps) auto
next
  case (Cons d ds)
  have d: "unat d < 10" "list_all (\<lambda>d. unat d < 10) ds" "int (length ds) < len - 1" using Cons.prems by simp_all
  let ?t = "map digit_char ds @ r"
  have v: "(of_nat (dig_val 10 (unat (v * 10 + d)) ds) :: uint) = of_nat (dig_val 10 (unat v * 10 + unat d) ds)"
  proof -
    have h: "(of_nat (dig_val 10 a ds) :: uint) = of_nat (dig_val 10 b ds)" if "(of_nat a :: uint) = of_nat b" for a b
      using that by (induction ds arbitrary: a b) simp_all
    show ?thesis by (rule h) simp
  qed
  have "scan_digits 10 False len (fst_ch (map digit_char (d # ds) @ r)) (rest_ch (map digit_char (d # ds) @ r)) np v nd ex n =
    scan_digits 10 False (len - 1) (fst_ch ?t) (rest_ch ?t) (np @ [digit_char d]) (v * 10 + d) (nd + 1) ex (n + 1)"
    using digit_char_scan [OF d(1)] d(3)
    by (subst scan_digits.simps) (simp add: scan_shift_10 split_beta)
  then show ?case using Cons.IH [OF d(2) Cons.prems(2) d(3)] v by simp
qed

lemma innum_decimal:
  assumes d: "list_all (\<lambda>d. unat d < 10) ds" "ds \<noteq> []" "scan_end r" "length ds < 30000"
    and s: "sc_in sc = map digit_char ds @ r"
  shows "innum True 100 30000 LONG sc =
    (if 63 < length ds then Inl BufferOverrun
     else Inr (True, Some (SLong (of_nat (dig_val 10 0 ds))), r = [],
       sc\<lparr>sc_in := r, sc_nread := sc_nread sc + int (length ds) + (if r = [] then 1 else 0)\<rparr>))"
proof -
  obtain x xs where ds: "ds = x # xs" using d(2) by (cases ds) auto
  have x: "unat x < 10" using d(1) ds by simp
  let ?c = "of_char (digit_char x) :: int"
  have c: "?c = 48 + int (unat x)" by (rule of_digit_char [OF x])
  have nb: "?c \<noteq> 32" "?c \<noteq> 9" "?c \<noteq> 10" using c by linarith+
  have sk: "skip_chars (\<lambda>c. c = 32 \<or> c = 9 \<or> c = 10) (sc_in sc) (sc_nread sc) = (?c, map digit_char xs @ r, sc_nread sc + 1)"
    unfolding s ds using nb by simp
  have ns: "\<not> (?c = 45 \<or> ?c = 43)" "?c \<noteq> 45" using c by linarith+
  have "scan_digits 10 False 30000 (fst_ch (map digit_char ds @ r)) (rest_ch (map digit_char ds @ r)) [] 0 0 False (sc_nread sc + 1) =
    (fst_ch r, rest_ch r, [] @ map digit_char ds, of_nat (dig_val 10 (unat (0 :: uint)) ds), sc_nread sc + 1 + int (length ds))"
    using d by (intro scan_digits_all) simp_all
  then have sd: "scan_digits 10 False 30000 ?c (map digit_char xs @ r) [] 0 0 False (sc_nread sc + 1) =
    (fst_ch r, rest_ch r, map digit_char ds, of_nat (dig_val 10 0 ds), sc_nread sc + 1 + int (length ds))"
    by (simp add: ds)
  have e: "innum True 100 30000 LONG sc =
    (let sc1 = (if fst_ch r \<noteq> - 1 then sc\<lparr>sc_in := push_ch (fst_ch r) (rest_ch r), sc_nread := sc_nread sc + 1 + int (length ds) - 1\<rparr>
                else sc\<lparr>sc_in := rest_ch r, sc_nread := sc_nread sc + 1 + int (length ds)\<rparr>)
     in if 64 < length ds then Inl BufferOverrun
        else if length ds = 64 then Inl BufferOverrun
        else Inr (True, Some (SLong (of_nat (dig_val 10 0 ds))), fst_ch r = - 1, sc1))"
    unfolding innum_def sk Let_def split_conv using sd ns d(2) by (simp add: store_num_def)
  show ?thesis unfolding e by (cases r) (simp_all add: push_ch_def)
qed

lemma scan_number_calc:
  assumes "list_all (\<lambda>d. unat d < 10) ds" "ds \<noteq> []" "scan_end r" "length ds < 30000"
  shows "sscanf True stp (map digit_char ds @ r) ''%ld'' =
    (if 63 < length ds then Inl BufferOverrun
     else Inr (1, [Some (SLong (of_nat (dig_val 10 0 ds)))],
       \<lparr>sc_in = r, sc_nread = int (length ds) + (if r = [] then 1 else 0), sc_stp = stp\<rparr>))"
proof -
  have sp: "scan_spec ''ld'' stp = (True, 30000, LONG, 100, [], stp)"
    by (simp add: scan_spec_def fmt_next_def cval_def ctype_defs ctab_def CT_defs)
  have f: "fst (fmt_next ''ld'') \<noteq> 37" by code_simp
  show ?thesis
    using innum_decimal [OF assms, of "\<lparr>sc_in = map digit_char ds @ r, sc_nread = 0, sc_stp = stp\<rparr>"]
    by (simp add: sscanf_def doscan.simps(2) f sp obind_def)
qed

text \<open>
  C8: scanning digits with \<open>%ld\<close> stores their value modulo the width of a \<open>long\<close>, without any sign of
  an overflow, and leaves the input after them, when there are at most 63; a longer number is
  written over the end of the buffer the digits are collected in.
\<close>

theorem scan_number_spec:
  assumes "list_all (\<lambda>d. unat d < 10) ds" "ds \<noteq> []" "scan_end r" "length ds < 30000"
  shows "sscanf True stp (map digit_char ds @ r) ''%ld'' =
    (if 63 < length ds then Inl BufferOverrun
     else Inr (1, [Some (SLong (of_nat (dig_val 10 0 ds)))],
       \<lparr>sc_in = r, sc_nread = int (length ds) + (if r = [] then 1 else 0), sc_stp = stp\<rparr>))"
  by (rule scan_number_calc [OF assms])

lemma scan_number_spec_witness:
  "sscanf True (\<lambda>_. False) ''4294967297 x'' ''%ld'' = Inr (1, [Some (SLong 1)], \<lparr>sc_in = '' x'', sc_nread = 10, sc_stp = (\<lambda>_. False)\<rparr>)"
proof -
  have "''4294967297 x'' = map digit_char [4, 2, 9, 4, 9, 6, 7, 2, 9, 7] @ '' x''" by code_simp
  moreover have "scan_end '' x''" by code_simp
  ultimately show ?thesis using scan_number_spec [of "[4, 2, 9, 4, 9, 6, 7, 2, 9, 7]" "'' x''" "\<lambda>_. False"] by simp
qed

lemma num_digits_length: "1 < b \<Longrightarrow> b ^ (length (num_digits b n) - 1) \<le> max 1 n"
proof (induction b n rule: num_digits.induct)
  case (1 b n)
  show ?case
  proof (cases "b \<le> n")
    case True
    let ?l = "length (num_digits b (n div b))"
    have l: "0 < ?l" by (subst num_digits.simps) simp
    have "b ^ ?l = b * b ^ (?l - 1)" using l by (cases ?l) simp_all
    also have "\<dots> \<le> b * max 1 (n div b)" using "1.IH" "1.prems" True by simp
    also have "max 1 (n div b) = n div b" using True "1.prems" by (simp add: max_def div_eq_0_iff Suc_le_eq)
    also have "b * (n div b) \<le> n" by simp
    finally show ?thesis using True "1.prems" by (subst num_digits.simps) simp
  qed (use "1.prems" in \<open>subst num_digits.simps, simp\<close>)
qed

text \<open>The text a number is printed with is read back.\<close>

lemma scan_printed:
  assumes "num_str x 10 True = Some t" "scan_end r"
  shows "\<exists>sc. sscanf True stp (t @ r) ''%ld'' = Inr (1, [Some (SLong x)], sc)"
proof -
  let ?ds = "num_digits 10 (unat x)"
  have d: "dig_val 10 0 ?ds = unat x" "list_all (\<lambda>d. unat d < 10) ?ds" "?ds \<noteq> []"
    using num_digits_ok [of 10 "unat x"] by simp_all
  have t: "t = map digit_char ?ds" using assms(1) num_loop_digits [of 10 x "[]"] by (simp add: num_str_def)
  have "10 ^ (length ?ds - 1) \<le> max 1 (unat x)" by (rule num_digits_length) simp
  moreover have "(10 :: nat) ^ 63 \<le> 10 ^ (length ?ds - 1)" if "63 < length ?ds"
    using that by (intro power_increasing) simp_all
  moreover have "max 1 (unat x) < 10 ^ 63"
    by (rule order_less_le_trans [of _ 4294967296]) (use unat_u32_lt [of x] in simp_all)
  ultimately have "length ?ds \<le> 63" by (meson not_le order_less_le_trans order_le_less_trans less_irrefl)
  then have l: "\<not> 63 < length ?ds" "length ?ds < 30000" by simp_all
  show ?thesis
    unfolding t using scan_number_calc [OF d(2,3) assms(2) l(2)] l(1) d(1) by simp
qed

end
