(* ===== verification/Srvlib.thy ===== *)
theory Srvlib
  imports Perm Numbers
begin

text \<open>
  What the servers share: messages and replies (\<open>include/sys/msg.h\<close>, \<open>include/sys/fs.h\<close>), the check
  of file names (\<open>src/src/lib/files.c\<close>), printing and parsing of protections (\<open>permpr.c\<close>) and the
  common part of writing stat fields (\<open>statsup.c\<close>).

  A message carries its segments as the bytes in them; \<open>m_nseg\<close> is their number, \<open>m_buf\<close> and
  \<open>m_buflen\<close> are the first one. A handler's replies are collected in the order they are sent.
\<close>

subsection \<open>Messages\<close>

record msg =
  m_sender :: ulong
  m_op :: uint
  m_arg :: ulong
  m_arg1 :: ulong
  m_segs :: "string list"

definition m_nseg :: "msg \<Rightarrow> nat" where "m_nseg m = length (m_segs m)"

definition m_buf :: "msg \<Rightarrow> string" where
  "m_buf m = (case m_segs m of [] \<Rightarrow> [] | s # _ \<Rightarrow> s)"

text \<open>\<open>msg_err\<close>, \<open>msg_accept\<close>, and \<open>msg_reply\<close> with its two arguments and segments.\<close>

datatype reply = Err string | Accept | Reply ulong ulong "string list"

definition ACC_EXEC :: uint where "ACC_EXEC = 0x1"
definition ACC_WRITE :: uint where "ACC_WRITE = 0x2"
definition ACC_READ :: uint where "ACC_READ = 0x4"
definition ACC_CREATE :: uint where "ACC_CREATE = 0x10"
definition ACC_DIR :: uint where "ACC_DIR = 0x20"
definition ACC_CHMOD :: uint where "ACC_CHMOD = 0x40"

lemmas ACC_defs = ACC_EXEC_def ACC_WRITE_def ACC_READ_def ACC_CREATE_def ACC_DIR_def ACC_CHMOD_def

definition E_PERM :: string where "E_PERM = ''perm''"
definition E_SRCH :: string where "E_SRCH = ''no entry''"
definition E_NOMEM :: string where "E_NOMEM = ''no mem''"
definition E_NOTDIR :: string where "E_NOTDIR = ''not dir''"
definition E_ISDIR :: string where "E_ISDIR = ''is dir''"
definition E_INVAL :: string where "E_INVAL = ''invalid''"
definition E_IO :: string where "E_IO = ''io err''"
definition E_BUSY :: string where "E_BUSY = ''busy''"
definition E_AGAIN :: string where "E_AGAIN = ''again''"
definition E_EXIST :: string where "E_EXIST = ''exists''"

definition FS_OPEN :: uint where "FS_OPEN = 100"
definition FS_READ :: uint where "FS_READ = 101"
definition FS_SEEK :: uint where "FS_SEEK = 102"
definition FS_WRITE :: uint where "FS_WRITE = 103"
definition FS_REMOVE :: uint where "FS_REMOVE = 104"
definition FS_STAT :: uint where "FS_STAT = 105"
definition FS_WSTAT :: uint where "FS_WSTAT = 106"
definition FS_ABSREAD :: uint where "FS_ABSREAD = 150"
definition FS_ABSWRITE :: uint where "FS_ABSWRITE = 151"
definition FS_FID :: uint where "FS_FID = 152"

lemmas FS_defs = FS_OPEN_def FS_READ_def FS_SEEK_def FS_WRITE_def FS_REMOVE_def FS_STAT_def
  FS_WSTAT_def FS_ABSREAD_def FS_ABSWRITE_def FS_FID_def

definition M_CONNECT :: uint where "M_CONNECT = 1"
definition M_DISCONNECT :: uint where "M_DISCONNECT = 2"
definition M_DUP :: uint where "M_DUP = 3"
definition M_ABORT :: uint where "M_ABORT = 4"
definition MSG_MASK :: uint where "MSG_MASK = 0xFFF"

lemmas M_defs = M_CONNECT_def M_DISCONNECT_def M_DUP_def M_ABORT_def

definition MAXSTAT :: nat where "MAXSTAT = 256"
definition MSGSEGS :: nat where "MSGSEGS = 4"

text \<open>
  What the environment decides while a handler runs: whether its \<open>i\<close>-th allocation succeeds, the
  address of a new structure, what is in storage nobody has written yet, and the text \<open>strerror\<close>
  returns after a failure.
\<close>

record env =
  e_ok :: "nat \<Rightarrow> bool"
  e_addr :: ptr
  e_junk :: perm
  e_err :: string

text \<open>
  A server's table of its clients: a hash keyed by the sender (\<open>Hash\<close> proves what its operations
  do). The newest entry of a key is in front; it is the one found, changed in place, and deleted.
\<close>

type_synonym 'f clients = "(ulong \<times> 'f) list"

fun put_client :: "ulong \<Rightarrow> 'f \<Rightarrow> 'f clients \<Rightarrow> 'f clients" where
  "put_client k f [] = []"
| "put_client k f ((j, g) # cl) = (if j = k then (j, f) # cl else (j, g) # put_client k f cl)"

fun del_client :: "ulong \<Rightarrow> 'f clients \<Rightarrow> 'f clients" where
  "del_client k [] = []"
| "del_client k ((j, g) # cl) = (if j = k then cl else (j, g) # del_client k cl)"

text \<open>The abilities in the message of a new client: structures of 12 bytes.\<close>

definition byte :: "char \<Rightarrow> uchar" where "byte c = of_nat (of_char c)"

definition perm_of_bytes :: "string \<Rightarrow> perm" where
  "perm_of_bytes b = \<lparr>perm_len = byte (b ! 0), perm_id = map byte (take PERMLEN (drop 1 b)),
     perm_uid = of_nat (of_char (b ! 8) + 256 * of_char (b ! 9) + 65536 * of_char (b ! 10) +
       16777216 * of_char (b ! 11))\<rparr>"

definition perms_in :: "string \<Rightarrow> perm list" where
  "perms_in b = map (\<lambda>i. perm_of_bytes (drop (12 * i) b)) [0..<length b div 12]"

text \<open>
  The copy of \<open>new_client\<close> into the six slots of a client: more abilities than slots run over
  the end of them.
\<close>

definition client_perms :: "env \<Rightarrow> string \<Rightarrow> perm list outcome" where
  "client_perms e b =
     (if PROCPERMS < length (perms_in b) then Inl BufferOverrun
      else Inr (perms_in b @ replicate (PROCPERMS - length (perms_in b)) (e_junk e)))"

subsection \<open>files.c\<close>

text \<open>An empty name makes the check read the byte before the buffer.\<close>

definition valid_fname :: "string \<Rightarrow> bool outcome" where
  "valid_fname buf =
     (if 128 < length buf then Inr False
      else if buf = [] then Inl BufferOverrun
      else Inr (last buf = NUL))"

subsection \<open>permpr.c\<close>

definition sprint_int :: "string \<Rightarrow> uchar \<Rightarrow> string outcome" where
  "sprint_int fmt x = doprnt fmt [AInt (ucast x)]"

fun print_ids :: "nat \<Rightarrow> uchar list \<Rightarrow> string outcome" where
  "print_ids x [] = Inr []"
| "print_ids x (i # ids) =
     obind (sprint_int ''%d'' i) (\<lambda>b. obind (print_ids (x + 1) ids) (\<lambda>r.
       Inr ((if 0 < x then ''/'' else []) @ b @ r)))"

fun print_bits :: "uchar list \<Rightarrow> string outcome" where
  "print_bits [] = Inr []"
| "print_bits (i # ids) =
     obind (sprint_int ''/%d'' i) (\<lambda>b. obind (print_bits ids) (\<lambda>r. Inr (b @ r)))"

definition perm_print :: "prot \<Rightarrow> string outcome" where
  "perm_print prot =
     (let n = (if PERMLEN < unat (prot_len prot) then PERMLEN else unat (prot_len prot))
      in obind (print_ids 0 (map (\<lambda>x. prot_id prot ! x) [0..<n])) (\<lambda>ids.
         obind (sprint_int ''%d'' (prot_default prot)) (\<lambda>d.
         obind (print_bits (map (\<lambda>x. prot_bits prot ! x) [0..<n])) (\<lambda>bits.
         Inr (''perm='' @ ids @ CHR 0x0A # ''acc='' @ d @ bits @ [CHR 0x0A])))))"

text \<open>The numbers \<open>perm_set\<close> parses, at most \<open>n\<close> of them; a null text has none.\<close>

primrec perm_set_loop :: "nat \<Rightarrow> string option \<Rightarrow> uchar list outcome" where
  "perm_set_loop 0 val = Inr []"
| "perm_set_loop (Suc n) val =
     (case val of
        None \<Rightarrow> Inr []
      | Some [] \<Rightarrow> Inr []
      | Some (c # v) \<Rightarrow>
          obind (atoi val) (\<lambda>i.
            (case dropWhile (\<lambda>c. c \<noteq> CHR ''/'') (c # v) of
               [] \<Rightarrow> Inr [ucast i]
             | _ # p \<Rightarrow> obind (perm_set_loop n (Some p)) (\<lambda>l. Inr (ucast i # l)))))"

definition perm_set :: "string option \<Rightarrow> (nat \<times> uchar list) outcome" where
  "perm_set val =
     obind (perm_set_loop PERMLEN val) (\<lambda>l. Inr (length l, l @ replicate (PERMLEN - length l) 0))"

subsection \<open>statsup.c\<close>

text \<open>\<open>Done\<close>: the message was answered. \<open>Field\<close>: the caller has to handle this field and value.\<close>

datatype wstat_result = Done reply "prot option" | Field string "string option"

text \<open>
  The field and value of a message, \<open>None\<close> when there is none. Both loops look at the byte at the
  end of the text before they compare the pointer with the end, which for a text that fills the
  buffer is the byte after it.
\<close>

definition end_of_buf :: "string \<Rightarrow> (string \<times> string option) option outcome" where
  "end_of_buf b = (if length b = MAXSTAT then Inl BufferOverrun else Inr None)"

definition wstat_field :: "string \<Rightarrow> (string \<times> string option) option outcome" where
  "wstat_field data =
     (let b = (if length data = MAXSTAT then take (MAXSTAT - 1) data @ [NUL] else data);
          field = takeWhile (\<lambda>c. c \<noteq> CHR 0x0A \<and> c \<noteq> CHR ''='') b
      in case drop (length field) b of
           [] \<Rightarrow> end_of_buf b
         | sep # rest \<Rightarrow>
             (if sep = CHR ''='' then
                (let val = takeWhile (\<lambda>c. c \<noteq> CHR 0x0A) rest
                 in if length val = length rest then end_of_buf b
                    else Inr (Some (cstr field, Some (cstr val))))
              else Inr (Some (cstr field, None))))"

definition wstat_acc :: "prot \<Rightarrow> string option \<Rightarrow> prot outcome" where
  "wstat_acc prot val =
     obind (atoi val) (\<lambda>d.
       (case val of
          None \<Rightarrow> Inl NullDeref
        | Some v \<Rightarrow>
            (let rest = (case dropWhile (\<lambda>c. c \<noteq> CHR ''/'') v of [] \<Rightarrow> None | _ # p \<Rightarrow> Some p)
             in obind (perm_set rest) (\<lambda>(_, bits).
                  Inr (prot\<lparr>prot_default := ucast d, prot_bits := bits\<rparr>)))))"

definition wstat_perm :: "prot \<Rightarrow> string option \<Rightarrow> prot outcome" where
  "wstat_perm prot val =
     obind (perm_set val) (\<lambda>(len, ids).
       (if len \<noteq> unat (prot_len prot) then
          (let x = (if unat (prot_len prot) < len then unat (prot_len prot) else len)
           in Inr (prot\<lparr>prot_id := ids, prot_len := of_nat len,
                prot_bits := foldl (\<lambda>bits x. bits[x := 0]) (prot_bits prot) [x..<PERMLEN]\<rparr>))
        else Inr (prot\<lparr>prot_id := ids\<rparr>)))"

definition do_wstat :: "msg \<Rightarrow> prot option \<Rightarrow> uint \<Rightarrow> wstat_result outcome" where
  "do_wstat m prot acc =
     (if acc AND ACC_CHMOD = 0 then Inr (Done (Err E_PERM) prot)
      else if m_nseg m \<noteq> 1 \<or> MAXSTAT < length (m_buf m) then Inr (Done (Err E_INVAL) prot)
      else obind (wstat_field (m_buf m)) (\<lambda>fv.
        (case fv of
           None \<Rightarrow> Inr (Done (Err E_INVAL) prot)
         | Some (field, val) \<Rightarrow>
             (case prot of
                Some p \<Rightarrow>
                  if field = ''acc'' then
                    obind (wstat_acc p val) (\<lambda>p'. Inr (Done (Reply 0 (m_arg1 m) []) (Some p')))
                  else if field = ''perm'' then
                    obind (wstat_perm p val) (\<lambda>p'. Inr (Done (Reply 0 (m_arg1 m) []) (Some p')))
                  else Inr (Field field val)
              | None \<Rightarrow> Inr (Field field val)))))"

subsection \<open>Directories and new files\<close>

abbreviation nl :: string where "nl \<equiv> [CHR 0x0A]"

text \<open>The names a directory read puts into its buffer, and the position after the last one seen.\<close>

fun readdir_loop :: "string list \<Rightarrow> ulong \<Rightarrow> uint \<Rightarrow> uint \<Rightarrow> string \<times> uint" where
  "readdir_loop [] fpos len pos = ([], pos)"
| "readdir_loop (nm # nms) fpos len pos =
     (let slen = of_nat (length nm + 1)
      in if fpos \<le> pos then
           (if len \<le> slen then ([], pos)
            else (case readdir_loop nms fpos (len - slen) (pos + slen) of
                    (t, pos1) \<Rightarrow> (nm @ [CHR 0x0A] @ t, pos1)))
         else readdir_loop nms fpos len (pos + slen))"

text \<open>
  The protection of a new file. \<open>prot_bits\<close> follows \<open>prot_id\<close> in memory, so that for a label of
  length 0 the store before \<open>prot_bits\<close> hits the last byte of \<open>prot_id\<close>.
\<close>

definition new_prot :: "perm \<Rightarrow> prot" where
  "new_prot p =
     (let n = PERM_LEN p; bits = ucast (ACC_READ OR ACC_WRITE OR ACC_CHMOD)
      in if n = 0
         then \<lparr>prot_len = 0, prot_default = 0, prot_id = (perm_id p)[PERMLEN - 1 := bits],
               prot_bits = replicate PERMLEN 0\<rparr>
         else \<lparr>prot_len = of_nat n, prot_default = 0, prot_id = perm_id p,
               prot_bits = (replicate PERMLEN 0)[n - 1 := bits]\<rparr>)"

end
