(* ===== verification/Srvlib_Spec.thy ===== *)
theory Srvlib_Spec
  imports Srvlib Numbers_Spec
begin

text \<open>
  Protections survive printing and parsing: what \<open>stat\<close> shows of a protection, written back with
  \<open>wstat\<close>, restores it. And what printing needs of its buffer.
\<close>

lemma obind_simps [simp]: "obind (Inr x) f = f x" "obind (Inl e) f = Inl e"
  by (simp_all add: obind_def)

lemma dig_d: "\<not> is_dig CHR ''d''" "CHR ''d'' \<noteq> CHR ''-''"
  by code_simp+

lemma parse_spec_d: "parse_spec (CHR ''d'' # r) args =
    Inr (\<lparr>ps_adj = False, ps_width = 0, ps_zero = False, ps_prec = Some 0, ps_unsigned = False,
      ps_conv = CHR ''d''\<rparr>, Some r, args)"
  by (simp add: parse_spec_def next_char_def parse_width_def parse_prec_def dig_d)

lemma do_conv_d: "do_conv \<lparr>ps_adj = False, ps_width = 0, ps_zero = False, ps_prec = Some 0,
      ps_unsigned = False, ps_conv = CHR ''d''\<rparr> (AInt x # args) = Inr (dec x, args)"
  by (simp add: do_conv_def baseof_def num_str_dec)

lemma doprnt_loop_d:
  "doprnt_loop (Suc n) (CHR ''%'' # CHR ''d'' # p) (AInt x # args) =
    obind (doprnt_loop n p args) (\<lambda>t. Inr (dec x @ t))"
  by (simp add: parse_spec_d do_conv_d)

lemma doprnt_loop_c:
  "c \<noteq> CHR ''%'' \<Longrightarrow> doprnt_loop (Suc n) (c # p) args = obind (doprnt_loop n p args) (\<lambda>t. Inr (c # t))"
  by simp

lemma sprint_int_dec: "sprint_int ''%d'' x = Inr (dec (ucast x))" "sprint_int ''/%d'' x = Inr (CHR ''/'' # dec (ucast x))"
  by (simp_all add: sprint_int_def doprnt_def doprnt_loop_d doprnt_loop_c del: doprnt_loop.simps(3))

text \<open>The numbers with slashes between them.\<close>

fun slashed :: "uchar list \<Rightarrow> string" where
  "slashed [] = []"
| "slashed [i] = dec (ucast i)"
| "slashed (i # is) = dec (ucast i) @ CHR ''/'' # slashed is"

lemma print_bits_slashed: "print_bits is = Inr (concat (map (\<lambda>i. CHR ''/'' # dec (ucast i)) is))"
  by (induction "is") (simp_all add: sprint_int_dec)

lemma print_ids_Suc: "print_ids (Suc x) is = print_bits is"
  by (induction "is" arbitrary: x) (simp_all add: sprint_int_dec)

lemma slashed_concat: "slashed (i # is) = dec (ucast i) @ concat (map (\<lambda>i. CHR ''/'' # dec (ucast i)) is)"
  by (induction "is" arbitrary: i) simp_all

lemma print_ids_slashed: "print_ids 0 is = Inr (slashed is)"
  by (cases "is") (simp_all add: sprint_int_dec print_ids_Suc print_bits_slashed slashed_concat)

lemma perm_print_text:
  assumes "unat (prot_len prot) = n" "n \<le> PERMLEN"
  shows "perm_print prot = Inr (''perm='' @ slashed (map (\<lambda>x. prot_id prot ! x) [0..<n]) @ CHR 0x0A #
    ''acc='' @ slashed (prot_default prot # map (\<lambda>x. prot_bits prot ! x) [0..<n]) @ [CHR 0x0A])"
  using assms by (simp add: perm_print_def print_ids_slashed sprint_int_dec print_bits_slashed slashed_concat)

subsection \<open>Parsing what was printed\<close>

lemma slash_no_digit: "no_digit (CHR ''/'' # r)" "no_digit []" "no_digit (CHR 0x0A # r)"
  by (simp_all add: no_digit_def cval_def)

lemma dec_not: "c \<in> set (dec x) \<Longrightarrow> c \<noteq> CHR ''/'' \<and> c \<noteq> CHR 0x0A \<and> c \<noteq> CHR ''='' \<and> c \<noteq> NUL"
  by (drule dec_chars) (auto simp: cval_def NUL_def)

lemma dec_nonempty: "dec x \<noteq> []"
  using num_digits_ok [of 10] by (simp add: dec_def)

lemma ucast_ucast_u8 [simp]: "(ucast (ucast (x :: uchar) :: uint) :: uchar) = x"
  by (rule ucast_up_ucast_id) (simp add: is_up)

lemma perm_set_loop_slashed:
  "length is \<le> n \<Longrightarrow> perm_set_loop n (Some (slashed is)) = Inr is"
proof (induction n arbitrary: "is")
  case (Suc n)
  show ?case
  proof (cases "is")
    case (Cons i js)
    obtain c v where v: "dec (ucast i) = c # v" using dec_nonempty by (cases "dec (ucast i)") auto
    have nd: "\<forall>x\<in>set (dec (ucast i)). x \<noteq> CHR ''/''" using dec_not by blast
    show ?thesis
    proof (cases js)
      case Nil
      have "dropWhile (\<lambda>c. c \<noteq> CHR ''/'') (dec (ucast i)) = []" using nd by simp
      moreover have "atoi (Some (dec (ucast i))) = Inr (ucast i)"
        using atoi_dec [OF slash_no_digit(2), of "ucast i"] by simp
      ultimately show ?thesis by (simp add: Cons Nil v)
    next
      case (Cons j ks)
      let ?r = "CHR ''/'' # slashed js"
      have s: "slashed is = dec (ucast i) @ ?r" using \<open>is = i # js\<close> Cons by simp
      have "dropWhile (\<lambda>c. c \<noteq> CHR ''/'') (dec (ucast i) @ ?r) = ?r" using nd by simp
      moreover have "atoi (Some (dec (ucast i) @ ?r)) = Inr (ucast i)" by (rule atoi_dec [OF slash_no_digit(1)])
      moreover have "perm_set_loop n (Some (slashed js)) = Inr js"
        using Suc \<open>is = i # js\<close> by simp
      ultimately show ?thesis unfolding s using \<open>is = i # js\<close> by (simp add: v)
    qed
  qed simp
qed simp

lemma perm_set_slashed:
  "length is \<le> PERMLEN \<Longrightarrow> perm_set (Some (slashed is)) = Inr (length is, is @ replicate (PERMLEN - length is) 0)"
  by (simp add: perm_set_def perm_set_loop_slashed)

lemma slashed_chars: "c \<in> set (slashed is) \<Longrightarrow> c \<noteq> CHR 0x0A \<and> c \<noteq> CHR ''='' \<and> c \<noteq> NUL"
  by (induction "is" rule: slashed.induct) (auto simp: NUL_def dest: dec_not)

text \<open>A line of a stat text, as \<open>do_wstat\<close> takes it apart.\<close>

lemma cstr_id: "NUL \<notin> set s \<Longrightarrow> cstr s = s"
  by (auto simp: cstr_def takeWhile_eq_all_conv)

lemma wstat_field_line:
  assumes f: "\<forall>c\<in>set f. c \<noteq> CHR 0x0A \<and> c \<noteq> CHR ''='' \<and> c \<noteq> NUL"
    and v: "\<forall>c\<in>set v. c \<noteq> CHR 0x0A \<and> c \<noteq> NUL" and len: "length f + length v + 2 < MAXSTAT"
  shows "wstat_field (f @ CHR ''='' # v @ [CHR 0x0A]) = Inr (Some (f, Some v))"
proof -
  have "takeWhile (\<lambda>c. c \<noteq> CHR 0x0A \<and> c \<noteq> CHR ''='') (f @ CHR ''='' # v @ [CHR 0x0A]) = f"
    using f by (simp add: takeWhile_append2)
  moreover have "takeWhile (\<lambda>c. c \<noteq> CHR 0x0A) (v @ [CHR 0x0A]) = v"
    using v by (simp add: takeWhile_append2)
  moreover have "cstr f = f" "cstr v = v" using f v by (auto intro: cstr_id)
  ultimately show ?thesis using len by (simp add: wstat_field_def Let_def)
qed

lemma length_num_digits:
  assumes "n < 1000"
  shows "length (num_digits 10 n) = (if n < 10 then 1 else if n < 100 then 2 else 3)"
proof -
  have 1: "length (num_digits 10 n) = 1" if "n < 10" for n using that by (subst num_digits.simps) simp
  have 2: "length (num_digits 10 n) = 2" if "\<not> n < 10" "n < 100" for n
    using that 1 [of "n div 10"] by (subst num_digits.simps) simp
  have 3: "length (num_digits 10 n) = 3" if "\<not> n < 100"
    using that assms 2 [of "n div 10"] by (subst num_digits.simps) simp
  from 1 [of n] 2 [of n] 3 show ?thesis by simp
qed

lemma unat_u8_lt: "unat (x :: uchar) < 256"
  using unsigned_less [of x] by simp

lemma unat_ucast_u8: "unat (ucast (x :: uchar) :: uint) = unat x"
  using unat_u8_lt [of x] by (simp add: unsigned_ucast_eq take_bit_nat_eq_self)

lemma length_dec_u8: "length (dec (ucast (x :: uchar))) = (if unat x < 10 then 1 else if unat x < 100 then 2 else 3)"
proof -
  have "\<not> sint (ucast x :: uint) < 0" using unat_u8_lt [of x] by (simp only: sint_neg_iff unat_ucast_u8)
  then show ?thesis using unat_u8_lt [of x] by (simp add: dec_def unat_ucast_u8 length_num_digits)
qed

lemma length_slashed: "length (slashed is) \<le> 4 * length is - 1"
  by (induction "is" rule: slashed.induct) (auto simp: length_dec_u8)

lemma wstat_line:
  assumes "acc AND ACC_CHMOD \<noteq> 0" "m_segs m = [f @ CHR ''='' # v @ [CHR 0x0A]]"
    and "\<forall>c\<in>set f. c \<noteq> CHR 0x0A \<and> c \<noteq> CHR ''='' \<and> c \<noteq> NUL" "\<forall>c\<in>set v. c \<noteq> CHR 0x0A \<and> c \<noteq> NUL"
    and "length f + length v + 2 < MAXSTAT"
  shows "do_wstat m (Some p) acc =
    (if f = ''acc'' then obind (wstat_acc p (Some v)) (\<lambda>p'. Inr (Done (Reply 0 (m_arg1 m) []) (Some p')))
     else if f = ''perm'' then obind (wstat_perm p (Some v)) (\<lambda>p'. Inr (Done (Reply 0 (m_arg1 m) []) (Some p')))
     else Inr (Field f (Some v)))"
proof -
  have "m_buf m = f @ CHR ''='' # v @ [CHR 0x0A]" "m_nseg m = 1" using assms(2) by (simp_all add: m_buf_def m_nseg_def)
  then show ?thesis using wstat_field_line [OF assms(3-5)] assms(1,5) by (simp add: do_wstat_def)
qed

lemma wstat_perm_slashed:
  assumes "length is \<le> PERMLEN"
  shows "\<exists>p'. wstat_perm p (Some (slashed is)) = Inr p' \<and> prot_id p' = is @ replicate (PERMLEN - length is) 0 \<and>
    unat (prot_len p') = length is"
proof -
  have "unat (of_nat (length is) :: uchar) = length is"
    using assms by (simp add: PERMLEN_def unsigned_of_nat take_bit_nat_eq_self)
  then show ?thesis by (auto simp: wstat_perm_def perm_set_slashed [OF assms] Let_def)
qed

lemma wstat_acc_slashed:
  assumes "length is \<le> PERMLEN"
  shows "wstat_acc p (Some (slashed (d # is))) =
    Inr (p\<lparr>prot_default := d, prot_bits := is @ replicate (PERMLEN - length is) 0\<rparr>)"
proof -
  have nd: "\<forall>x\<in>set (dec (ucast d)). x \<noteq> CHR ''/''" using dec_not by blast
  show ?thesis
  proof (cases "is")
    case Nil
    have "atoi (Some (dec (ucast d))) = Inr (ucast d)"
      using atoi_dec [OF slash_no_digit(2), of "ucast d"] by simp
    moreover have "dropWhile (\<lambda>c. c \<noteq> CHR ''/'') (dec (ucast d)) = []" using nd by simp
    moreover have "perm_set None = Inr (0, replicate PERMLEN 0)" by (simp add: perm_set_def PERMLEN_def numeral_eq_Suc)
    ultimately show ?thesis using Nil by (simp add: wstat_acc_def del: dropWhile_eq_Nil_conv)
  next
    case (Cons j ks)
    let ?r = "CHR ''/'' # slashed is"
    have s: "slashed (d # is) = dec (ucast d) @ ?r" using Cons by simp
    have "dropWhile (\<lambda>c. c \<noteq> CHR ''/'') (dec (ucast d) @ ?r) = ?r" using nd by simp
    moreover have "atoi (Some (dec (ucast d) @ ?r)) = Inr (ucast d)" by (rule atoi_dec [OF slash_no_digit(1)])
    ultimately show ?thesis unfolding s by (simp add: wstat_acc_def perm_set_slashed [OF assms])
  qed
qed

text \<open>
  The protection of a file survives a trip through its stat text: the two lines \<open>perm_print\<close> writes
  for a well-formed protection, sent back in two \<open>wstat\<close> messages by a client that may change
  it, turn any protection into that one.
\<close>

theorem wstat_perm_roundtrip:
  assumes "unat (prot_len prot) = n" "n \<le> PERMLEN" "length (prot_id prot) = PERMLEN"
    "length (prot_bits prot) = PERMLEN" "\<forall>i. n \<le> i \<and> i < PERMLEN \<longrightarrow> prot_id prot ! i = 0 \<and> prot_bits prot ! i = 0"
    and acc: "acc AND ACC_CHMOD \<noteq> 0"
  shows "\<exists>l1 l2. perm_print prot = Inr (l1 @ l2) \<and>
    (\<forall>m1 m2 p0. m_segs m1 = [l1] \<longrightarrow> m_segs m2 = [l2] \<longrightarrow>
      (\<exists>p1. do_wstat m1 (Some p0) acc = Inr (Done (Reply 0 (m_arg1 m1) []) (Some p1)) \<and>
        do_wstat m2 (Some p1) acc = Inr (Done (Reply 0 (m_arg1 m2) []) (Some prot))))"
proof -
  let ?ids = "map (\<lambda>x. prot_id prot ! x) [0..<n]" and ?bits = "map (\<lambda>x. prot_bits prot ! x) [0..<n]"
  have ids: "?ids @ replicate (PERMLEN - length ?ids) 0 = prot_id prot"
    "?bits @ replicate (PERMLEN - length ?bits) 0 = prot_bits prot"
    using assms(2-5) by (auto simp: list_eq_iff_nth_eq nth_append)
  let ?l1 = "''perm'' @ CHR ''='' # slashed ?ids @ [CHR 0x0A]"
  let ?l2 = "''acc'' @ CHR ''='' # slashed (prot_default prot # ?bits) @ [CHR 0x0A]"
  have pp: "perm_print prot = Inr (?l1 @ ?l2)" using perm_print_text [OF assms(1,2)] by simp
  have ln: "length ?ids \<le> PERMLEN" "length ?bits \<le> PERMLEN" using assms(2) by simp_all
  have short: "length (slashed ?ids) < 28" "length (slashed (prot_default prot # ?bits)) < 32"
    using length_slashed [of ?ids] length_slashed [of "prot_default prot # ?bits"] assms(2)
    by (auto simp: PERMLEN_def)
  have "\<exists>p1. do_wstat m1 (Some p0) acc = Inr (Done (Reply 0 (m_arg1 m1) []) (Some p1)) \<and>
        do_wstat m2 (Some p1) acc = Inr (Done (Reply 0 (m_arg1 m2) []) (Some prot))"
    if m1: "m_segs m1 = [?l1]" and m2: "m_segs m2 = [?l2]" for m1 m2 p0
  proof -
    obtain p1 where p1: "wstat_perm p0 (Some (slashed ?ids)) = Inr p1" "prot_id p1 = prot_id prot"
      "unat (prot_len p1) = n"
      using wstat_perm_slashed [OF ln(1), of p0] ids(1) by auto
    have "do_wstat m1 (Some p0) acc = Inr (Done (Reply 0 (m_arg1 m1) []) (Some p1))"
      using short slashed_chars by (subst wstat_line [OF acc m1]) (auto simp: MAXSTAT_def NUL_def p1)
    moreover have "p1\<lparr>prot_default := prot_default prot, prot_bits := prot_bits prot\<rparr> = prot"
      using p1 assms(1) by (simp add: word_eq_unat)
    then have "do_wstat m2 (Some p1) acc = Inr (Done (Reply 0 (m_arg1 m2) []) (Some prot))"
      using short slashed_chars wstat_acc_slashed [OF ln(2), of p1 "prot_default prot"] ids(2)
      by (subst wstat_line [OF acc m2]) (auto simp: MAXSTAT_def NUL_def)
    ultimately show ?thesis by blast
  qed
  with pp show ?thesis by blast
qed

theorem wstat_perm_roundtrip_witness:
  "\<exists>l1 l2. perm_print \<lparr>prot_len = 1, prot_default = 1, prot_id = [5, 0, 0, 0, 0, 0, 0],
     prot_bits = [6, 0, 0, 0, 0, 0, 0]\<rparr> = Inr (l1 @ l2)"
proof -
  let ?p = "\<lparr>prot_len = 1, prot_default = 1, prot_id = [5, 0, 0, 0, 0, 0, 0],
     prot_bits = [6, 0, 0, 0, 0, 0, 0]\<rparr>"
  have "\<forall>i. 1 \<le> i \<and> i < PERMLEN \<longrightarrow> prot_id ?p ! i = 0 \<and> prot_bits ?p ! i = 0"
    by (auto simp: PERMLEN_def less_Suc_eq numeral_eq_Suc)
  then show ?thesis
    using wstat_perm_roundtrip [of ?p 1 "ACC_CHMOD"] by (auto simp: PERMLEN_def ACC_CHMOD_def)
qed

text \<open>
  The buffer of \<open>perm_print\<close> (68 bytes) is enough, terminating null included, for every
  protection of at most six levels, and too small by two bytes for one of seven levels whose
  numbers all have three digits.
\<close>

theorem perm_print_bounds:
  "(unat (prot_len prot) < PERMLEN \<longrightarrow> (\<exists>t. perm_print prot = Inr t \<and> length t + 1 \<le> 68)) \<and>
   (\<exists>t. perm_print \<lparr>prot_len = 7, prot_default = 100, prot_id = replicate 7 100, prot_bits = replicate 7 100\<rparr> = Inr t \<and>
      length t + 1 = 70)"
proof (intro conjI impI)
  assume n: "unat (prot_len prot) < PERMLEN"
  let ?n = "unat (prot_len prot)"
  have "length (slashed (map (\<lambda>x. prot_id prot ! x) [0..<?n])) \<le> 23"
    "length (slashed (prot_default prot # map (\<lambda>x. prot_bits prot ! x) [0..<?n])) \<le> 27"
    using length_slashed [of "map (\<lambda>x. prot_id prot ! x) [0..<?n]"]
      length_slashed [of "prot_default prot # map (\<lambda>x. prot_bits prot ! x) [0..<?n]"] n
    by (auto simp: PERMLEN_def)
  then show "\<exists>t. perm_print prot = Inr t \<and> length t + 1 \<le> 68"
    using perm_print_text [OF refl less_imp_le [OF n]] by simp
next
  let ?p = "\<lparr>prot_len = 7, prot_default = 100, prot_id = replicate 7 100, prot_bits = replicate 7 100\<rparr>"
  have "perm_print ?p = Inr (''perm='' @ slashed (map (\<lambda>x. prot_id ?p ! x) [0..<7]) @ CHR 0x0A #
    ''acc='' @ slashed (prot_default ?p # map (\<lambda>x. prot_bits ?p ! x) [0..<7]) @ [CHR 0x0A])"
    by (rule perm_print_text) (simp_all add: PERMLEN_def)
  moreover have "length (dec (ucast (100 :: uchar))) = 3" by (simp only: length_dec_u8) simp
  ultimately show "\<exists>t. perm_print ?p = Inr t \<and> length t + 1 = 70"
    by (simp add: slashed_concat upt_rec)
qed

theorem perm_print_bounds_witness:
  "\<exists>t. perm_print \<lparr>prot_len = 1, prot_default = 1, prot_id = [5], prot_bits = [6]\<rparr> = Inr t \<and> length t + 1 \<le> 68"
  using perm_print_bounds [of "\<lparr>prot_len = 1, prot_default = 1, prot_id = [5], prot_bits = [6]\<rparr>"]
  by (simp add: PERMLEN_def)

end
