(* ===== verification/Tmpfs.thy ===== *)
theory Tmpfs
  imports Srvlib
begin

text \<open>
  The file server \<open>src/src/srv/tmpfs\<close>: files in memory, found by name in one flat directory, their
  contents in blocks under a hash from block numbers. One function per handler, the environment
  (success of allocations, addresses) as an argument; \<open>tmpfs_main\<close> is one round of the main loop.

  The directory is the list \<open>files\<close> of \<open>openfile\<close>s in the order of the chain (\<open>Ring_List\<close> proves what
  the chain operations do), the hash of blocks a map from block numbers to the bytes of the
  block (\<open>Hash\<close>).
\<close>

subsection \<open>Data\<close>

definition BLOCKSIZE :: uint where "BLOCKSIZE = 16384"
definition BLOCKMIN :: uint where "BLOCKMIN = BLOCKSIZE div 8"
definition BLOCKLOG :: nat where "BLOCKLOG = 14"

record openfile =
  o_name :: string
  o_blocks :: "ulong \<rightharpoonup> string"
  o_len :: ulong
  o_prot :: prot
  o_refs :: uint
  o_owner :: uint
  o_deleted :: bool

record file_t =
  f_file :: ptr
  f_pos :: ulong
  f_perms :: "perm list"
  f_nperm :: nat
  f_perm :: uint

record tmpfs =
  ofs :: "ptr \<Rightarrow> openfile"
  files :: "ptr list"
  filehash :: "file_t clients"

definition upd_of :: "ptr \<Rightarrow> (openfile \<Rightarrow> openfile) \<Rightarrow> tmpfs \<Rightarrow> tmpfs" where
  "upd_of p g s = s\<lparr>ofs := (ofs s)(p := g (ofs s p))\<rparr>"

subsection \<open>rw.c: blocks\<close>

definition blkoff :: "uint \<Rightarrow> uint \<times> uint" where
  "blkoff pos =
     (if pos < BLOCKMIN then (pos, BLOCKMIN - pos)
      else (let off = (pos - BLOCKMIN) AND (BLOCKSIZE - 1) in (off, BLOCKSIZE - off)))"

definition blknum :: "uint \<Rightarrow> uint" where
  "blknum pos = (if pos < BLOCKMIN then 0 else drop_bit BLOCKLOG (pos - BLOCKMIN) + 1)"

definition blksize :: "uint \<Rightarrow> nat" where
  "blksize blk = (if blk \<noteq> 0 then unat BLOCKSIZE else unat BLOCKMIN)"

lemma blkoff_pos: "0 < unat (snd (blkoff pos))"
proof (cases "pos < BLOCKMIN")
  case True
  then have "unat (BLOCKMIN - pos) = unat BLOCKMIN - unat pos" "unat pos < unat BLOCKMIN"
    by (simp_all add: unat_sub_u32 word_le_unat word_less_unat)
  then show ?thesis using True by (simp add: blkoff_def)
next
  case False
  let ?o = "(pos - BLOCKMIN) AND (BLOCKSIZE - 1)"
  have "?o \<le> BLOCKSIZE - 1" by (rule word_and_le1)
  then have "unat ?o < unat BLOCKSIZE" by (simp add: word_le_unat BLOCKSIZE_def)
  then have "unat (BLOCKSIZE - ?o) = unat BLOCKSIZE - unat ?o" by (simp add: unat_sub_u32)
  then show ?thesis using False \<open>unat ?o < unat BLOCKSIZE\<close> by (simp add: blkoff_def Let_def)
qed

text \<open>
  \<open>do_write\<close> from position \<open>pos\<close>, with the bytes of the buffer not written yet; \<open>i\<close> counts the
  allocations made so far (a block, and the hash node for it). The result 1 is \<open>True\<close>.
\<close>

function do_write :: "env \<Rightarrow> openfile \<Rightarrow> uint \<Rightarrow> string \<Rightarrow> nat \<Rightarrow> bool \<times> openfile \<times> nat" where
  "do_write e f pos buf i =
     (if buf = [] then (False, f, i)
      else
        (let boff = fst (blkoff pos);
             step = min (unat (snd (blkoff pos))) (length buf);
             blk = blknum pos
         in case (case o_blocks f blk of
                    Some b \<Rightarrow> Some (b, i)
                  | None \<Rightarrow> if e_ok e i \<and> e_ok e (i + 1)
                            then Some (replicate (blksize blk) NUL, i + 2) else None) of
              None \<Rightarrow> (True, f, i)
            | Some (b, i1) \<Rightarrow>
                (let b1 = take (unat boff) b @ take step buf @ drop (unat boff + step) b
                 in do_write e (f\<lparr>o_blocks := (o_blocks f)(blk \<mapsto> b1)\<rparr>) (pos + of_nat step) (drop step buf) i1)))"
  by pat_completeness auto
termination
proof (relation "measure (\<lambda>(e, f, pos, buf, i). length buf)", simp)
  fix e :: env and f :: openfile and pos :: uint and buf :: string and i x xa xb x2 xc y xd
  assume "buf \<noteq> []" "x = fst (blkoff pos)" "xa = min (unat (snd (blkoff pos))) (length buf)"
  then show "((e, f\<lparr>o_blocks := (o_blocks f)(xb \<mapsto> xd)\<rparr>, pos + of_nat xa, drop xa buf, y), e, f, pos, buf, i)
    \<in> measure (\<lambda>(e, f, pos, buf, i). length buf)"
    using blkoff_pos [of pos] by simp
qed

declare do_write.simps [simp del]

text \<open>
  The segments of \<open>tmpfs_write\<close>: the error flag, the count, the file and the position. The length
  follows the position after each segment.
\<close>

fun write_segs :: "env \<Rightarrow> string list \<Rightarrow> openfile \<Rightarrow> ulong \<Rightarrow> uint \<Rightarrow> nat \<Rightarrow> bool \<times> uint \<times> openfile \<times> ulong" where
  "write_segs e [] f pos cnt i = (False, cnt, f, pos)"
| "write_segs e (s # segs) f pos cnt i =
     (case do_write e f pos s i of
        (True, f1, i1) \<Rightarrow> (True, cnt, f1, pos)
      | (False, f1, i1) \<Rightarrow>
          (let pos1 = pos + of_nat (length s);
               f2 = (if o_len f1 < pos1 then f1\<lparr>o_len := pos1\<rparr> else f1)
           in write_segs e segs f2 pos1 (cnt + of_nat (length s)) i1))"

definition tmpfs_write :: "env \<Rightarrow> msg \<Rightarrow> file_t \<Rightarrow> tmpfs \<Rightarrow> file_t \<times> tmpfs \<times> reply list" where
  "tmpfs_write e m f s =
     (if f_file f = NULL \<or> f_perm f AND ACC_WRITE = 0 then (f, s, [Err E_PERM])
      else (case write_segs e (m_segs m) (ofs s (f_file f)) (f_pos f) 0 0 of
              (err, cnt, o1, pos1) \<Rightarrow>
                (f\<lparr>f_pos := pos1\<rparr>, upd_of (f_file f) (\<lambda>_. o1) s,
                 if cnt = 0 \<and> err then [Err (e_err e)] else [Reply cnt 0 []])))"

subsection \<open>rw.c: reading\<close>

definition tmpfs_readdir :: "env \<Rightarrow> msg \<Rightarrow> file_t \<Rightarrow> tmpfs \<Rightarrow> file_t \<times> tmpfs \<times> reply list" where
  "tmpfs_readdir e m f s =
     (let len = (if 256 < m_arg m then 256 else m_arg m)
      in if \<not> e_ok e 0 then (f, s, [Err (e_err e)])
         else (case readdir_loop (map (\<lambda>p. o_name (ofs s p)) (files s)) (f_pos f) len 0 of
                 (buf, pos) \<Rightarrow>
                   (f\<lparr>f_pos := pos\<rparr>, s, [Reply (of_nat (length buf)) 0 (if buf = [] then [] else [buf])])))"

text \<open>The block that holds a position (the zeroes for a hole), and how much of it to take.\<close>

definition blk_at :: "openfile \<Rightarrow> uint \<Rightarrow> string" where
  "blk_at f pos = (case o_blocks f (blknum pos) of None \<Rightarrow> replicate (unat BLOCKSIZE) NUL | Some b \<Rightarrow> b)"

definition blk_take :: "uint \<Rightarrow> uint \<Rightarrow> uint \<Rightarrow> uint" where
  "blk_take pos cnt lim = (let sz = snd (blkoff pos) in if lim < cnt + sz then lim - cnt else sz)"

definition blk_part :: "openfile \<Rightarrow> uint \<Rightarrow> uint \<Rightarrow> string" where
  "blk_part f pos sz = take (unat sz) (drop (unat (fst (blkoff pos))) (blk_at f pos))"

text \<open>The first loop of \<open>tmpfs_read\<close>, with the number of segments left.\<close>

fun read_segs :: "nat \<Rightarrow> openfile \<Rightarrow> uint \<Rightarrow> uint \<Rightarrow> uint \<Rightarrow> string list \<times> uint \<times> uint" where
  "read_segs 0 f pos cnt lim = ([], pos, cnt)"
| "read_segs (Suc n) f pos cnt lim =
     (if cnt < lim then
        (let sz = blk_take pos cnt lim
         in case read_segs n f (pos + sz) (cnt + sz) lim of
              (segs, r) \<Rightarrow> (blk_part f pos sz # segs, r))
      else ([], pos, cnt))"

text \<open>The second loop, into the buffer for what the segments do not hold.\<close>

partial_function (option) read_rest :: "openfile \<Rightarrow> uint \<Rightarrow> uint \<Rightarrow> uint \<Rightarrow> string \<Rightarrow> (string \<times> uint \<times> uint) option" where
  "read_rest f pos cnt lim tmpbuf =
     (if cnt < lim then
        (let sz = blk_take pos cnt lim
         in read_rest f (pos + sz) (cnt + sz) lim (tmpbuf @ blk_part f pos sz))
      else Some (tmpbuf, pos, cnt))"

declare read_rest.simps [code]

text \<open>\<open>None\<close>: the second loop does not end.\<close>

definition tmpfs_read :: "env \<Rightarrow> msg \<Rightarrow> file_t \<Rightarrow> tmpfs \<Rightarrow> (file_t \<times> tmpfs \<times> reply list) option" where
  "tmpfs_read e m f s =
     (if f_file f = NULL then Some (tmpfs_readdir e m f s)
      else if f_perm f AND ACC_READ = 0 then Some (f, s, [Err E_PERM])
      else
        (let o1 = ofs s (f_file f)
         in if o_len o1 \<le> f_pos f then Some (f, s, [Reply 0 0 []])
            else
              (let lim = (if o_len o1 - f_pos f < m_arg m then o_len o1 - f_pos f else m_arg m)
               in case read_segs MSGSEGS o1 (f_pos f) 0 lim of
                    (segs, pos, cnt) \<Rightarrow>
                      (if cnt < lim \<and> e_ok e 0 then
                         map_option (\<lambda>(buf, pos1, cnt1).
                             (f\<lparr>f_pos := pos1\<rparr>, s, [Reply cnt1 0 (butlast segs @ [buf])]))
                           (read_rest o1 pos cnt lim (last segs))
                       else Some (f\<lparr>f_pos := pos\<rparr>, s, [Reply cnt 0 segs])))))"

subsection \<open>open.c\<close>

definition dir_lookup :: "string \<Rightarrow> tmpfs \<Rightarrow> ptr" where
  "dir_lookup name s = (case find (\<lambda>p. o_name (ofs s p) = name) (files s) of None \<Rightarrow> NULL | Some p \<Rightarrow> p)"

definition freeup :: "ptr \<Rightarrow> tmpfs \<Rightarrow> tmpfs" where
  "freeup p s = (if p = NULL then s else s\<lparr>files := remove1 p (files s)\<rparr>)"

text \<open>Four allocations: the file, its name, its hash, its entry in the chain.\<close>

definition dir_newfile :: "env \<Rightarrow> file_t \<Rightarrow> string \<Rightarrow> tmpfs \<Rightarrow> ptr \<times> tmpfs" where
  "dir_newfile e f name s =
     (if \<not> e_ok e 0 \<or> \<not> e_ok e 1 \<or> \<not> e_ok e 2 \<or> \<not> e_ok e 3 then (NULL, s)
      else (e_addr e,
            s\<lparr>files := files s @ [e_addr e],
              ofs := (ofs s)(e_addr e := \<lparr>o_name = name, o_blocks = Map.empty, o_len = 0,
                o_prot = new_prot (f_perms f ! 0), o_refs = 0, o_owner = perm_uid (f_perms f ! 0),
                o_deleted = False\<rparr>)\<rparr>))"

text \<open>\<open>blk_trunc\<close> asserts that a new hash can be had; \<open>ok\<close> says so.\<close>

definition blk_trunc :: "bool \<Rightarrow> ptr \<Rightarrow> tmpfs \<Rightarrow> tmpfs outcome" where
  "blk_trunc ok p s =
     (if ok then Inr (upd_of p (\<lambda>x. x\<lparr>o_blocks := Map.empty, o_len := 0\<rparr>) s) else Inl Starved)"

definition tmpfs_open :: "env \<Rightarrow> msg \<Rightarrow> file_t \<Rightarrow> tmpfs \<Rightarrow> (file_t \<times> tmpfs \<times> reply list) outcome" where
  "tmpfs_open e m f s =
     (if f_file f \<noteq> NULL then Inr (f, s, [Err E_NOTDIR])
      else if m_arg m AND ACC_DIR \<noteq> 0 then Inr (f, s, [Err E_INVAL])
      else
        (let p = dir_lookup (cstr (m_buf m)) s
         in if p = NULL \<and> m_arg m AND ACC_CREATE = 0 then Inr (f, s, [Err E_SRCH])
            else if p = NULL then
              (case dir_newfile e f (cstr (m_buf m)) s of
                 (p1, s1) \<Rightarrow>
                   if p1 = NULL then Inr (f, s1, [Err E_NOMEM])
                   else Inr (f\<lparr>f_file := p1, f_perm := ACC_READ OR ACC_WRITE OR ACC_CHMOD\<rparr>,
                             upd_of p1 (\<lambda>x. x\<lparr>o_refs := o_refs x + 1\<rparr>) s1, [Reply 0 0 []]))
            else
              (let x = ucast (perm_calc (f_perms f) (f_nperm f) (o_prot (ofs s p)));
                   want = m_arg m AND (ACC_READ OR ACC_WRITE OR ACC_CHMOD)
               in if want AND x \<noteq> want then Inr (f, s, [Err E_PERM])
                  else obind (if m_arg m AND ACC_CREATE \<noteq> 0 then blk_trunc (e_ok e 0) p s else Inr s) (\<lambda>s1.
                    Inr (f\<lparr>f_file := p, f_perm := want OR (x AND ACC_CHMOD)\<rparr>,
                         upd_of p (\<lambda>x. x\<lparr>o_refs := o_refs x + 1\<rparr>) s1, [Reply 0 0 []])))))"

definition nuke :: "bool \<Rightarrow> ptr \<Rightarrow> tmpfs \<Rightarrow> tmpfs outcome" where
  "nuke ok p s = obind (blk_trunc ok p s) (\<lambda>s1. Inr (freeup p s1))"

definition tmpfs_close :: "env \<Rightarrow> file_t \<Rightarrow> tmpfs \<Rightarrow> tmpfs outcome" where
  "tmpfs_close e f s =
     (if f_file f \<noteq> NULL then
        (let s1 = upd_of (f_file f) (\<lambda>x. x\<lparr>o_refs := o_refs x - 1\<rparr>) s
         in if o_deleted (ofs s1 (f_file f)) \<and> o_refs (ofs s1 (f_file f)) = 0
            then nuke (e_ok e 0) (f_file f) s1 else Inr s1)
      else Inr s)"

definition tmpfs_remove :: "env \<Rightarrow> msg \<Rightarrow> file_t \<Rightarrow> tmpfs \<Rightarrow> (file_t \<times> tmpfs \<times> reply list) outcome" where
  "tmpfs_remove e m f s =
     (if f_file f \<noteq> NULL then Inr (f, s, [Err E_NOTDIR])
      else
        (let p = dir_lookup (cstr (m_buf m)) s
         in if p = NULL then Inr (f, s, [Err E_SRCH])
            else if perm_calc (f_perms f) (f_nperm f) (o_prot (ofs s p)) AND ucast (ACC_WRITE OR ACC_CHMOD) = 0
            then Inr (f, s, [Err E_PERM])
            else obind (if 0 < o_refs (ofs s p) then Inr (upd_of p (\<lambda>x. x\<lparr>o_deleted := True\<rparr>) s)
                        else nuke (e_ok e 0) p s) (\<lambda>s1. Inr (f, s1, [Reply 0 0 []]))))"

subsection \<open>stat.c\<close>

definition tmpfs_stat :: "msg \<Rightarrow> file_t \<Rightarrow> tmpfs \<Rightarrow> (file_t \<times> tmpfs \<times> reply list) outcome" where
  "tmpfs_stat m f s =
     (let p = f_file f;
          len = (if p = NULL then of_nat (length (files s)) else o_len (ofs s p));
          owner = (if p = NULL then 0 else o_owner (ofs s p))
      in obind (doprnt (''size=%d'' @ nl @ ''type=%c'' @ nl @ ''owner=%d'' @ nl @ ''inode=%lu'' @ nl)
                  [AInt len, AInt (if p \<noteq> NULL then 102 else 100), AInt owner, AInt (of_nat p)]) (\<lambda>head.
         obind (if p \<noteq> NULL then perm_print (o_prot (ofs s p))
                else doprnt (''perm=1'' @ nl @ ''acc=%d/%d'' @ nl) [AInt (ACC_READ OR ACC_WRITE), AInt ACC_CHMOD]) (\<lambda>rest.
         (let buf = head @ rest
          in if MAXSTAT \<le> length buf then Inl BufferOverrun
             else Inr (f, s, [Reply (of_nat (length buf)) 0 [buf]])))))"

text \<open>
  For the root directory \<open>tmpfs_wstat\<close> goes on after the error and hands \<open>do_wstat\<close> the address of
  the protection of a null file, which it only touches for a client with the right to.
\<close>

definition tmpfs_wstat :: "msg \<Rightarrow> file_t \<Rightarrow> tmpfs \<Rightarrow> (file_t \<times> tmpfs \<times> reply list) outcome" where
  "tmpfs_wstat m f s =
     (let p = f_file f; pre = (if p = NULL then [Err E_INVAL] else [])
      in if p = NULL \<and> f_perm f AND ACC_CHMOD \<noteq> 0 then Inl NullDeref
         else obind (do_wstat m (Some (o_prot (ofs s p))) (f_perm f)) (\<lambda>r.
           (case r of
              Done rep prot \<Rightarrow>
                Inr (f, (if p = NULL then s else upd_of p (\<lambda>x. x\<lparr>o_prot := the prot\<rparr>) s), pre @ [rep])
            | Field fld val \<Rightarrow> Inr (f, s, pre @ [Err E_INVAL]))))"

definition tmpfs_fid :: "msg \<Rightarrow> file_t \<Rightarrow> tmpfs \<Rightarrow> file_t \<times> tmpfs \<times> reply list" where
  "tmpfs_fid m f s =
     (if f_file f = NULL then (f, s, [Err E_INVAL])
      else (f, s, [Reply (of_nat (f_file f)) (o_len (ofs s (f_file f))) []]))"

subsection \<open>main.c\<close>

definition tmpfs_seek :: "msg \<Rightarrow> file_t \<Rightarrow> tmpfs \<Rightarrow> file_t \<times> tmpfs \<times> reply list" where
  "tmpfs_seek m f s =
     (if m_arg m <s 0 then (f, s, [Err E_INVAL])
      else (f\<lparr>f_pos := m_arg m\<rparr>, s, [Reply 0 0 []]))"

definition new_client :: "env \<Rightarrow> msg \<Rightarrow> tmpfs \<Rightarrow> (tmpfs \<times> reply list) outcome" where
  "new_client e m s =
     (if \<not> e_ok e 0 then Inr (s, [Err (e_err e)])
      else obind (client_perms e (m_buf m)) (\<lambda>perms.
        if \<not> e_ok e 1 then Inr (s, [Err E_NOMEM])
        else Inr (s\<lparr>filehash := (m_sender m, \<lparr>f_file = NULL, f_pos = 0, f_perms = perms,
                     f_nperm = length (m_buf m) div 12, f_perm = ACC_READ OR ACC_WRITE\<rparr>) # filehash s\<rparr>,
                  [Accept])))"

definition dup_client :: "env \<Rightarrow> msg \<Rightarrow> file_t \<Rightarrow> tmpfs \<Rightarrow> tmpfs \<times> reply list" where
  "dup_client e m fold0 s =
     (if \<not> e_ok e 0 then (s, [Err (e_err e)])
      else if \<not> e_ok e 1 then (s, [Err E_NOMEM])
      else (let s1 = s\<lparr>filehash := (m_arg m, fold0) # filehash s\<rparr>
            in (if f_file fold0 \<noteq> NULL then upd_of (f_file fold0) (\<lambda>x. x\<lparr>o_refs := o_refs x + 1\<rparr>) s1 else s1,
                [Reply 0 0 []])))"

definition dead_client :: "env \<Rightarrow> msg \<Rightarrow> file_t \<Rightarrow> tmpfs \<Rightarrow> (tmpfs \<times> reply list) outcome" where
  "dead_client e m f s =
     obind (tmpfs_close e f (s\<lparr>filehash := del_client (m_sender m) (filehash s)\<rparr>)) (\<lambda>s1. Inr (s1, []))"

text \<open>A handler works on the client in place.\<close>

definition put_back :: "msg \<Rightarrow> file_t \<times> tmpfs \<times> reply list \<Rightarrow> tmpfs \<times> reply list" where
  "put_back m r = (case r of (f, s, out) \<Rightarrow> (s\<lparr>filehash := put_client (m_sender m) f (filehash s)\<rparr>, out))"

definition read_from :: "env \<Rightarrow> msg \<Rightarrow> file_t \<Rightarrow> tmpfs \<Rightarrow> (file_t \<times> tmpfs \<times> reply list) outcome" where
  "read_from e m f s = (case tmpfs_read e m f s of None \<Rightarrow> Inl Starved | Some r \<Rightarrow> Inr r)"

text \<open>
  The cases of \<open>tmpfs_main\<close> that work on a client. A handler that is handed a null client
  dereferences it.
\<close>

definition client_op :: "env \<Rightarrow> msg \<Rightarrow> file_t \<Rightarrow> tmpfs \<Rightarrow> (file_t \<times> tmpfs \<times> reply list) outcome" where
  "client_op e m f s =
     (let opc = m_op m AND MSG_MASK
      in if opc = FS_OPEN then tmpfs_open e m f s
         else if opc = FS_ABSREAD then read_from e m (f\<lparr>f_pos := m_arg1 m\<rparr>) s
         else if opc = FS_READ then read_from e m f s
         else if opc = FS_ABSWRITE then Inr (tmpfs_write e m (f\<lparr>f_pos := m_arg1 m\<rparr>) s)
         else if opc = FS_WRITE then Inr (tmpfs_write e m f s)
         else if opc = FS_SEEK then Inr (tmpfs_seek m f s)
         else if opc = FS_REMOVE then tmpfs_remove e m f s
         else if opc = FS_STAT then tmpfs_stat m f s
         else if opc = FS_WSTAT then tmpfs_wstat m f s
         else Inr (tmpfs_fid m f s))"

definition tmpfs_main :: "env \<Rightarrow> msg \<Rightarrow> tmpfs \<Rightarrow> (tmpfs \<times> reply list) outcome" where
  "tmpfs_main e m s =
     (let f = map_of (filehash s) (m_sender m); opc = m_op m AND MSG_MASK
      in if opc = M_CONNECT then new_client e m s
         else if opc = M_DISCONNECT then (case f of None \<Rightarrow> Inl NullDeref | Some f1 \<Rightarrow> dead_client e m f1 s)
         else if opc = M_DUP then
           (case f of
              None \<Rightarrow> if e_ok e 0 then Inl NullDeref else Inr (s, [Err (e_err e)])
            | Some f1 \<Rightarrow> Inr (dup_client e m f1 s))
         else if opc = M_ABORT then Inr (s, [Reply (m_arg m) (m_arg1 m) (m_segs m)])
         else if opc \<notin> {FS_OPEN, FS_ABSREAD, FS_READ, FS_ABSWRITE, FS_WRITE, FS_SEEK, FS_REMOVE, FS_STAT,
           FS_WSTAT, FS_FID} then Inr (s, [Err E_INVAL])
         else obind (if opc = FS_OPEN \<or> opc = FS_REMOVE
                     then (if m_nseg m \<noteq> 1 then Inr False else valid_fname (m_buf m)) else Inr True) (\<lambda>ok.
           if \<not> ok \<or> ((opc = FS_ABSREAD \<or> opc = FS_ABSWRITE) \<and> m_arg1 m <s 0) then Inr (s, [Err E_INVAL])
           else if opc = FS_SEEK \<and> m_arg m <s 0 then Inr (s, [Err E_INVAL])
           else (case f of
                   None \<Rightarrow> Inl NullDeref
                 | Some f1 \<Rightarrow> obind (client_op e m f1 s) (\<lambda>r. Inr (put_back m r)))))"

definition tmpfs_init :: tmpfs where
  "tmpfs_init = \<lparr>ofs = (\<lambda>_. \<lparr>o_name = [], o_blocks = Map.empty, o_len = 0,
     o_prot = \<lparr>prot_len = 0, prot_default = 0, prot_id = [], prot_bits = []\<rparr>, o_refs = 0,
     o_owner = 0, o_deleted = False\<rparr>), files = [], filehash = []\<rparr>"

end
