(* ===== verification/Tmpfs_Blocks.thy ===== *)
theory Tmpfs_Blocks
  imports Tmpfs
begin

text \<open>
  The contents of a file as a function from positions to bytes, and what writing and reading
  through the blocks do to it.
\<close>

subsection \<open>Positions and blocks\<close>

definition off_n :: "nat \<Rightarrow> nat" where
  "off_n p = (if p < 2048 then p else (p - 2048) mod 16384)"

definition num_n :: "nat \<Rightarrow> nat" where
  "num_n p = (if p < 2048 then 0 else (p - 2048) div 16384 + 1)"

definition size_n :: "nat \<Rightarrow> nat" where
  "size_n b = (if b = 0 then 2048 else 16384)"

lemma block_consts: "unat BLOCKMIN = 2048" "unat BLOCKSIZE = 16384" "BLOCKMIN = 2048" "BLOCKSIZE - 1 = mask 14"
  by (simp_all add: BLOCKMIN_def BLOCKSIZE_def mask_eq_exp_minus_1)

lemma unat_blkoff:
  "unat (fst (blkoff pos)) = off_n (unat pos)"
  "unat (snd (blkoff pos)) = size_n (num_n (unat pos)) - off_n (unat pos)"
proof -
  have a: "unat (fst (blkoff pos)) = off_n (unat pos) \<and>
    unat (snd (blkoff pos)) = size_n (num_n (unat pos)) - off_n (unat pos)"
  proof (cases "pos < BLOCKMIN")
    case True
    then have p: "unat pos < 2048" by (simp add: word_less_unat block_consts)
    then have "unat (BLOCKMIN - pos) = 2048 - unat pos" by (simp add: unat_sub_u32 block_consts)
    with True p show ?thesis by (simp add: blkoff_def off_n_def num_n_def size_n_def)
  next
    case False
    then have p: "2048 \<le> unat pos" by (simp add: word_less_unat block_consts)
    let ?o = "(pos - BLOCKMIN) AND (BLOCKSIZE - 1)"
    have "unat (pos - BLOCKMIN) = unat pos - 2048" using p by (simp add: unat_sub_u32 block_consts)
    then have o: "unat ?o = (unat pos - 2048) mod 16384"
      by (simp only: block_consts(4) take_bit_eq_mask [symmetric] unsigned_take_bit_eq take_bit_eq_mod) (simp add: unat_mod)
    then have "unat ?o < 16384" by simp
    then have "unat (BLOCKSIZE - ?o) = 16384 - unat ?o" by (simp add: unat_sub_u32 block_consts)
    with o False p show ?thesis by (simp add: blkoff_def Let_def off_n_def num_n_def size_n_def)
  qed
  then show "unat (fst (blkoff pos)) = off_n (unat pos)"
    "unat (snd (blkoff pos)) = size_n (num_n (unat pos)) - off_n (unat pos)" by blast+
qed

lemma unat_blknum: "unat (blknum pos) = num_n (unat pos)"
proof (cases "pos < BLOCKMIN")
  case True
  then show ?thesis by (simp add: blknum_def num_n_def word_less_unat block_consts)
next
  case False
  then have p: "2048 \<le> unat pos" by (simp add: word_less_unat block_consts)
  then have "unat (pos - BLOCKMIN) = unat pos - 2048" by (simp add: unat_sub_u32 block_consts)
  then have d: "unat (drop_bit BLOCKLOG (pos - BLOCKMIN)) = (unat pos - 2048) div 16384"
    by (simp add: BLOCKLOG_def drop_bit_eq_div unat_div)
  have "(unat pos - 2048) div 16384 < 4294967295" using unat_u32_lt [of pos] div_le_dividend [of "unat pos - 2048" 16384] p by linarith
  then have "unat (drop_bit BLOCKLOG (pos - BLOCKMIN) + 1) = (unat pos - 2048) div 16384 + 1"
    using d by (simp add: unat_add_u32)
  with False p show ?thesis by (simp add: blknum_def num_n_def)
qed

lemma blksize_n: "blksize (blknum pos) = size_n (num_n (unat pos))"
  using unat_blknum [of pos] unat_pos_iff [of "blknum pos"]
  by (auto simp: blksize_def size_n_def block_consts)

lemma off_n_lt: "off_n p < size_n (num_n p)"
  by (simp add: off_n_def size_n_def num_n_def)

lemma div_mod_step:
  fixes a k :: nat
  assumes "a mod 16384 + k < 16384"
  shows "(a + k) mod 16384 = a mod 16384 + k" "(a + k) div 16384 = a div 16384"
proof -
  have "(a + k) mod 16384 = (a mod 16384 + k) mod 16384" by (simp add: mod_simps)
  then show m: "(a + k) mod 16384 = a mod 16384 + k" using assms by simp
  have "(a + k) = (a + k) div 16384 * 16384 + (a + k) mod 16384" "a = a div 16384 * 16384 + a mod 16384"
    by simp_all
  with m show "(a + k) div 16384 = a div 16384" by linarith
qed

lemma block_step:
  assumes "off_n p + k < size_n (num_n p)"
  shows "num_n (p + k) = num_n p" "off_n (p + k) = off_n p + k"
proof -
  have "num_n (p + k) = num_n p \<and> off_n (p + k) = off_n p + k"
  proof (cases "p < 2048")
    case True
    then have "p + k < 2048" using assms by (simp add: off_n_def num_n_def size_n_def)
    with True show ?thesis by (simp add: off_n_def num_n_def)
  next
    case False
    then have e: "p + k - 2048 = (p - 2048) + k" "\<not> p + k < 2048" by simp_all
    have "(p - 2048) mod 16384 + k < 16384"
      using assms by (simp only: off_n_def num_n_def size_n_def False if_False add_eq_0_iff_both_eq_0 one_neq_zero simp_thms)
    from div_mod_step [OF this] show ?thesis by (simp only: off_n_def num_n_def False e if_False simp_thms)
  qed
  then show "num_n (p + k) = num_n p" "off_n (p + k) = off_n p + k" by blast+
qed

lemma pos_of_block: "(if num_n p = 0 then off_n p else 2048 + (num_n p - 1) * 16384 + off_n p) = p"
  by (simp add: num_n_def off_n_def)

lemma block_inj: "num_n p = num_n q \<Longrightarrow> off_n p = off_n q \<Longrightarrow> p = q"
  by (metis pos_of_block)

text \<open>Two positions in one block are as far apart as their offsets.\<close>

lemma same_block: "num_n q = num_n p \<Longrightarrow> off_n q + p = off_n p + q"
  using pos_of_block [of p] pos_of_block [of q] by (auto split: if_splits)

subsection \<open>Bytes of a file\<close>

definition fbyte :: "openfile \<Rightarrow> nat \<Rightarrow> char" where
  "fbyte f q = (case o_blocks f (blknum (of_nat q)) of None \<Rightarrow> NUL | Some b \<Rightarrow> b ! off_n q)"

definition blocks_ok :: "openfile \<Rightarrow> bool" where
  "blocks_ok f \<longleftrightarrow> (\<forall>blk b. o_blocks f blk = Some b \<longrightarrow> length b = blksize blk)"

text \<open>Everything but the blocks is as it was.\<close>

definition same_meta :: "openfile \<Rightarrow> openfile \<Rightarrow> bool" where
  "same_meta f f' \<longleftrightarrow> f' = f\<lparr>o_blocks := o_blocks f'\<rparr>"

lemma same_meta_refl [simp]: "same_meta f f"
  by (simp add: same_meta_def)

lemma same_meta_trans: "same_meta f g \<Longrightarrow> same_meta g h \<Longrightarrow> same_meta f h"
  by (cases f; cases g; cases h) (simp add: same_meta_def)

lemma same_metaD:
  assumes "same_meta f f'"
  shows "o_len f' = o_len f" "o_name f' = o_name f" "o_refs f' = o_refs f" "o_deleted f' = o_deleted f"
    "o_prot f' = o_prot f" "o_owner f' = o_owner f"
  by (subst assms [unfolded same_meta_def], simp)+

text \<open>A step of the write loop: one block takes \<open>step\<close> bytes at the offset of the position.\<close>

lemma block_write:
  assumes ok: "blocks_ok f" and pos: "unat pos + step < 2 ^ 32" and st: "step \<le> length buf" "step \<le> unat (snd (blkoff pos))"
    and b: "b = (case o_blocks f (blknum pos) of None \<Rightarrow> replicate (blksize (blknum pos)) NUL | Some b \<Rightarrow> b)"
  defines "boff \<equiv> unat (fst (blkoff pos))"
  defines "f' \<equiv> f\<lparr>o_blocks := (o_blocks f)(blknum pos \<mapsto> take boff b @ take step buf @ drop (boff + step) b)\<rparr>"
  shows "blocks_ok f'" "q < 2 ^ 32 \<Longrightarrow>
    fbyte f' q = (if unat pos \<le> q \<and> q < unat pos + step then buf ! (q - unat pos) else fbyte f q)"
proof -
  let ?b' = "take boff b @ take step buf @ drop (boff + step) b"
  have lb: "length b = size_n (num_n (unat pos))"
    using ok by (auto simp: b blocks_ok_def blksize_n split: option.splits)
  have bo: "boff = off_n (unat pos)" by (simp add: boff_def unat_blkoff)
  have fit: "boff + step \<le> length b"
    using st(2) off_n_lt [of "unat pos"] by (simp add: unat_blkoff lb bo)
  have len: "length ?b' = length b" using fit st(1) by simp
  then show "blocks_ok f'" using ok lb by (auto simp: f'_def blocks_ok_def blksize_n)
  assume q: "q < 2 ^ 32"
  have num: "blknum (of_nat q) = blknum pos \<longleftrightarrow> num_n q = num_n (unat pos)"
    using unat_blknum [of "of_nat q"] unat_blknum [of pos] q by (simp add: word_eq_unat unat_of_nat_u32)
  show "fbyte f' q = (if unat pos \<le> q \<and> q < unat pos + step then buf ! (q - unat pos) else fbyte f q)"
  proof (cases "num_n q = num_n (unat pos)")
    case True
    have rel: "off_n q + unat pos = boff + q" using same_block [OF True] bo by simp
    have oq: "off_n q < length b" using off_n_lt [of q] True lb by simp
    have new: "fbyte f' q = ?b' ! off_n q" using True num by (simp add: fbyte_def f'_def)
    have old: "fbyte f q = b ! off_n q"
      using True num oq lb by (auto simp: fbyte_def b blksize_n split: option.splits)
    consider "off_n q < boff" | "boff \<le> off_n q" "off_n q < boff + step" | "boff + step \<le> off_n q" by linarith
    then show ?thesis
    proof cases
      case 1
      then have "q < unat pos" using rel by linarith
      with 1 new old fit show ?thesis by (simp add: nth_append)
    next
      case 2
      then have "unat pos \<le> q" "q < unat pos + step" "off_n q - boff = q - unat pos" "q - unat pos < step"
        using rel by linarith+
      with 2 new fit st(1) show ?thesis by (simp add: nth_append min_absorb2)
    next
      case 3
      then have "\<not> q < unat pos + step" using rel by linarith
      moreover have "?b' ! off_n q = b ! off_n q"
      proof -
        have "off_n q - boff - step + (boff + step) = off_n q" "\<not> off_n q - boff < step" using 3 by simp_all
        then show ?thesis using 3 fit st(1) oq by (simp add: nth_append min_absorb2 add.commute)
      qed
      ultimately show ?thesis using new old by simp
    qed
  next
    case False
    have "\<not> (unat pos \<le> q \<and> q < unat pos + step)"
    proof
      assume *: "unat pos \<le> q \<and> q < unat pos + step"
      then have "off_n (unat pos) + (q - unat pos) < size_n (num_n (unat pos))"
        using fit lb bo by linarith
      from block_step(1) [OF this] * False show False by simp
    qed
    moreover have "fbyte f' q = fbyte f q" using False num by (simp add: fbyte_def f'_def)
    ultimately show ?thesis by auto
  qed
qed

lemma unat_add_nat: "unat pos + n < 2 ^ 32 \<Longrightarrow> unat (pos + of_nat n :: uint) = unat pos + n"
  by (simp add: unat_add_u32 unat_of_nat_u32)

text \<open>
  What \<open>do_write\<close> does: it puts the bytes in place or, when storage runs out, some of them; nothing
  outside the range changes, and with enough storage there is no error.
\<close>

lemma do_write_bytes:
  assumes "do_write e f pos buf i = (err, f', j)" "blocks_ok f" "unat pos + length buf < 2 ^ 32"
  shows "blocks_ok f' \<and> same_meta f f' \<and>
    (\<forall>q<2 ^ 32. q < unat pos \<or> unat pos + length buf \<le> q \<longrightarrow> fbyte f' q = fbyte f q) \<and>
    (\<not> err \<longrightarrow> (\<forall>q. unat pos \<le> q \<and> q < unat pos + length buf \<longrightarrow> fbyte f' q = buf ! (q - unat pos))) \<and>
    ((\<forall>k. e_ok e k) \<longrightarrow> \<not> err)"
  using assms
proof (induction e f pos buf i arbitrary: err f' j rule: do_write.induct)
  case (1 e f pos buf i)
  note ok = "1.prems"(2) and range = "1.prems"(3)
  show ?case
  proof (cases "buf = []")
    case True
    with "1.prems" show ?thesis by (auto simp: do_write.simps)
  next
    case False
    let ?boff = "fst (blkoff pos)" and ?step = "min (unat (snd (blkoff pos))) (length buf)"
    let ?blk = "blknum pos"
    let ?b = "case o_blocks f ?blk of None \<Rightarrow> replicate (blksize ?blk) NUL | Some b \<Rightarrow> b"
    let ?f1 = "f\<lparr>o_blocks := (o_blocks f)(?blk \<mapsto> take (unat ?boff) ?b @ take ?step buf @ drop (unat ?boff + ?step) ?b)\<rparr>"
    let ?get = "case o_blocks f ?blk of Some b \<Rightarrow> Some (b, i)
      | None \<Rightarrow> if e_ok e i \<and> e_ok e (i + 1) then Some (replicate (blksize ?blk) NUL, i + 2) else None"
    have step: "?step \<le> length buf" "?step \<le> unat (snd (blkoff pos))" "unat pos + ?step < 2 ^ 32"
      using range by simp_all
    show ?thesis
    proof (cases ?get)
      case None
      then have "err" "f' = f" "\<not> (\<forall>k. e_ok e k)" using "1.prems"(1) False
        by (auto simp: do_write.simps [of e f pos buf i] Let_def split: option.splits if_splits)
      with ok show ?thesis by simp
    next
      case (Some r)
      obtain i1 where r: "?get = Some (?b, i1)" using Some by (cases "o_blocks f ?blk") (auto split: if_splits)
      have dw: "do_write e ?f1 (pos + of_nat ?step) (drop ?step buf) i1 = (err, f', j)"
        using "1.prems"(1) False r by (simp add: do_write.simps [of e f pos buf i] Let_def)
      have ps: "unat (pos + of_nat ?step) = unat pos + ?step" by (rule unat_add_nat [OF step(3)])
      note w = block_write [OF ok step(3) step(1,2) refl]
      have l: "unat (pos + of_nat ?step) + length (drop ?step buf) < 2 ^ 32"
        unfolding ps using range step(1) by simp
      note IH = "1.IH" [OF False refl refl refl Some]
      have ih: "blocks_ok f' \<and> same_meta ?f1 f' \<and>
        (\<forall>q<2 ^ 32. q < unat (pos + of_nat ?step) \<or> unat (pos + of_nat ?step) + length (drop ?step buf) \<le> q \<longrightarrow> fbyte f' q = fbyte ?f1 q) \<and>
        (\<not> err \<longrightarrow> (\<forall>q. unat (pos + of_nat ?step) \<le> q \<and> q < unat (pos + of_nat ?step) + length (drop ?step buf) \<longrightarrow>
          fbyte f' q = drop ?step buf ! (q - unat (pos + of_nat ?step)))) \<and>
        ((\<forall>k. e_ok e k) \<longrightarrow> \<not> err)"
        using IH [OF _ refl dw w(1) l] r Some by simp
      have rest: "unat pos + ?step + length (drop ?step buf) = unat pos + length buf" using step(1) by simp
      show ?thesis
      proof (intro conjI impI allI)
        show "blocks_ok f'" using ih by blast
        have "same_meta f ?f1" by (simp add: same_meta_def)
        with ih show "same_meta f f'" using same_meta_trans by blast
        show "(\<forall>k. e_ok e k) \<Longrightarrow> \<not> err" using ih by blast
      next
        fix q :: nat assume q: "q < 2 ^ 32" "q < unat pos \<or> unat pos + length buf \<le> q"
        then have "q < unat pos + ?step \<or> unat pos + ?step + length (drop ?step buf) \<le> q" using rest by linarith
        with ih q(1) have "fbyte f' q = fbyte ?f1 q" unfolding ps by blast
        also have "\<dots> = fbyte f q" using w(2) [OF q(1)] q(2) step(1) by auto
        finally show "fbyte f' q = fbyte f q" .
      next
        fix q assume err: "\<not> err" and q: "unat pos \<le> q \<and> q < unat pos + length buf"
        then have q32: "q < 2 ^ 32" using range by linarith
        show "fbyte f' q = buf ! (q - unat pos)"
        proof (cases "q < unat pos + ?step")
          case True
          with ih q32 have "fbyte f' q = fbyte ?f1 q" unfolding ps by blast
          with w(2) [OF q32] q True show ?thesis by simp
        next
          case False
          then have "fbyte f' q = drop ?step buf ! (q - (unat pos + ?step))"
            using ih err q rest unfolding ps by simp
          also have "\<dots> = buf ! (q - unat pos)" using False q step(1) by simp
          finally show ?thesis .
        qed
      qed
    qed
  qed
qed

text \<open>Blocks keep their sizes whatever the position; the other fields are not touched.\<close>

lemma block_write_ok:
  assumes ok: "blocks_ok f" and st: "step \<le> length buf" "step \<le> unat (snd (blkoff pos))"
    and b: "length b = blksize (blknum pos)"
  shows "blocks_ok (f\<lparr>o_blocks := (o_blocks f)(blknum pos \<mapsto>
    take (unat (fst (blkoff pos))) b @ take step buf @ drop (unat (fst (blkoff pos)) + step) b)\<rparr>)"
proof -
  have "unat (fst (blkoff pos)) + step \<le> length b"
    using st(2) off_n_lt [of "unat pos"] by (simp add: unat_blkoff b blksize_n)
  then show ?thesis using ok b st(1) by (auto simp: blocks_ok_def)
qed

lemma do_write_ok:
  assumes "do_write e f pos buf i = (err, f', j)" "blocks_ok f"
  shows "blocks_ok f' \<and> same_meta f f'"
  using assms
proof (induction e f pos buf i arbitrary: err f' j rule: do_write.induct)
  case (1 e f pos buf i)
  show ?case
  proof (cases "buf = []")
    case True
    with "1.prems" show ?thesis by (simp add: do_write.simps)
  next
    case False
    let ?get = "case o_blocks f (blknum pos) of Some b \<Rightarrow> Some (b, i)
      | None \<Rightarrow> if e_ok e i \<and> e_ok e (i + 1) then Some (replicate (blksize (blknum pos)) NUL, i + 2) else None"
    show ?thesis
    proof (cases ?get)
      case None
      with "1.prems" False show ?thesis by (auto simp: do_write.simps [of e f pos buf i] Let_def)
    next
      case (Some r)
      obtain b i1 where r: "r = (b, i1)" by (cases r)
      have lb: "length b = blksize (blknum pos)"
        using Some r "1.prems"(2) by (auto simp: blocks_ok_def split: option.splits if_splits)
      let ?step = "min (unat (snd (blkoff pos))) (length buf)"
      let ?f1 = "f\<lparr>o_blocks := (o_blocks f)(blknum pos \<mapsto> take (unat (fst (blkoff pos))) b @ take ?step buf @
        drop (unat (fst (blkoff pos)) + ?step) b)\<rparr>"
      have dw: "do_write e ?f1 (pos + of_nat ?step) (drop ?step buf) i1 = (err, f', j)"
        using "1.prems"(1) False Some r by (simp add: do_write.simps [of e f pos buf i] Let_def)
      have "blocks_ok ?f1" by (rule block_write_ok [OF "1.prems"(2) _ _ lb]) simp_all
      from "1.IH" [OF False refl refl refl Some r [symmetric] refl dw this]
      have "blocks_ok f'" "same_meta ?f1 f'" by blast+
      moreover have "same_meta f ?f1" by (simp add: same_meta_def)
      ultimately show ?thesis using same_meta_trans by blast
    qed
  qed
qed

text \<open>The same for all segments of a message: only blocks and length change.\<close>

definition same_meta2 :: "openfile \<Rightarrow> openfile \<Rightarrow> bool" where
  "same_meta2 f f' \<longleftrightarrow> f' = f\<lparr>o_blocks := o_blocks f', o_len := o_len f'\<rparr>"

lemma same_meta2D:
  assumes "same_meta2 f f'"
  shows "o_name f' = o_name f" "o_refs f' = o_refs f" "o_deleted f' = o_deleted f"
    "o_prot f' = o_prot f" "o_owner f' = o_owner f"
  by (subst assms [unfolded same_meta2_def], simp)+

lemma write_segs_ok:
  "write_segs e segs f pos cnt i = (err, cnt', f', pos') \<Longrightarrow> blocks_ok f \<Longrightarrow> blocks_ok f' \<and> same_meta2 f f'"
proof (induction e segs f pos cnt i arbitrary: err cnt' f' pos' rule: write_segs.induct)
  case (2 e s segs f pos cnt i)
  obtain er f1 i1 where d: "do_write e f pos s i = (er, f1, i1)" by (cases "do_write e f pos s i")
  have w: "blocks_ok f1" "same_meta f f1" using do_write_ok [OF d "2.prems"(2)] by blast+
  show ?case
  proof (cases er)
    case True
    with d w "2.prems" show ?thesis by (cases f; cases f1) (auto simp: same_meta_def same_meta2_def)
  next
    case False
    let ?f2 = "if o_len f1 < pos + of_nat (length s) then f1\<lparr>o_len := pos + of_nat (length s)\<rparr> else f1"
    have "blocks_ok ?f2" using w(1) by (simp add: blocks_ok_def)
    moreover have "write_segs e segs ?f2 (pos + of_nat (length s)) (cnt + of_nat (length s)) i1 = (err, cnt', f', pos')"
      using "2.prems"(1) d False by (simp add: Let_def)
    moreover have "er = False" using False by simp
    ultimately have "blocks_ok f' \<and> same_meta2 ?f2 f'"
      using "2.IH" [OF d [symmetric] _ refl refl refl] by blast
    moreover have "same_meta2 f ?f2" using w(2) by (cases f; cases f1) (auto simp: same_meta_def same_meta2_def)
    ultimately show ?thesis by (cases f; cases ?f2; cases f') (auto simp: same_meta2_def)
  qed
qed (simp add: same_meta2_def)

lemma fbyte_len [simp]: "fbyte (f\<lparr>o_len := x\<rparr>) = fbyte f" "blocks_ok (f\<lparr>o_len := x\<rparr>) = blocks_ok f"
  by (simp_all add: fun_eq_iff fbyte_def blocks_ok_def)

text \<open>With storage for every block, a message's segments go to the file one after another.\<close>

lemma write_segs_bytes:
  "write_segs e segs f pos cnt i = (err, cnt', f', pos') \<Longrightarrow> blocks_ok f \<Longrightarrow> \<forall>k. e_ok e k \<Longrightarrow>
    unat pos + length (concat segs) < 2 ^ 32 \<Longrightarrow>
   \<not> err \<and> unat pos' = unat pos + length (concat segs) \<and> cnt' = cnt + of_nat (length (concat segs)) \<and>
   (\<forall>q<2 ^ 32. fbyte f' q = (if unat pos \<le> q \<and> q < unat pos + length (concat segs)
      then concat segs ! (q - unat pos) else fbyte f q)) \<and>
   unat (o_len f') = (if segs = [] then unat (o_len f) else max (unat (o_len f)) (unat pos + length (concat segs)))"
proof (induction e segs f pos cnt i arbitrary: err cnt' f' pos' rule: write_segs.induct)
  case (1 e f pos cnt i)
  then show ?case by auto
next
  case (2 e s segs f pos cnt i)
  obtain er f1 i1 where d: "do_write e f pos s i = (er, f1, i1)" by (cases "do_write e f pos s i")
  have range: "unat pos + length s < 2 ^ 32" using "2.prems"(4) by simp
  note w = do_write_bytes [OF d "2.prems"(2) range]
  have er: "er = False" using w "2.prems"(3) by blast
  let ?pos1 = "pos + of_nat (length s)"
  let ?f2 = "if o_len f1 < ?pos1 then f1\<lparr>o_len := ?pos1\<rparr> else f1"
  have p1: "unat ?pos1 = unat pos + length s" by (rule unat_add_nat [OF range])
  have ws: "write_segs e segs ?f2 ?pos1 (cnt + of_nat (length s)) i1 = (err, cnt', f', pos')"
    using "2.prems"(1) d er by (simp add: Let_def)
  have ok: "blocks_ok ?f2" using w by simp
  have r2: "unat ?pos1 + length (concat segs) < 2 ^ 32" unfolding p1 using "2.prems"(4) by simp
  have ih: "\<not> err \<and> unat pos' = unat ?pos1 + length (concat segs) \<and>
    cnt' = cnt + of_nat (length s) + of_nat (length (concat segs)) \<and>
    (\<forall>q<2 ^ 32. fbyte f' q = (if unat ?pos1 \<le> q \<and> q < unat ?pos1 + length (concat segs)
      then concat segs ! (q - unat ?pos1) else fbyte ?f2 q)) \<and>
    unat (o_len f') = (if segs = [] then unat (o_len ?f2) else max (unat (o_len ?f2)) (unat ?pos1 + length (concat segs)))"
    by (rule "2.IH" [OF d [symmetric] er refl refl refl ws ok "2.prems"(3) r2])
  have f2: "fbyte ?f2 = fbyte f1" by simp
  have len2: "unat (o_len ?f2) = max (unat (o_len f)) (unat pos + length s)"
    using same_metaD(1) [of f f1] w p1 by (auto simp: word_less_unat max_def)
  have bytes: "fbyte f' q = (if unat pos \<le> q \<and> q < unat pos + length (concat (s # segs))
      then concat (s # segs) ! (q - unat pos) else fbyte f q)" if q: "q < 2 ^ 32" for q
  proof -
    have e: "fbyte f' q = (if unat pos + length s \<le> q \<and> q < unat pos + length s + length (concat segs)
      then concat segs ! (q - (unat pos + length s)) else fbyte f1 q)"
      using ih q unfolding f2 p1 by blast
    consider "q < unat pos \<or> unat pos + length s + length (concat segs) \<le> q" | "unat pos \<le> q" "q < unat pos + length s"
      | "unat pos + length s \<le> q" "q < unat pos + length s + length (concat segs)" by linarith
    then show ?thesis
    proof cases
      case 1
      then have "fbyte f1 q = fbyte f q" using w q by auto
      with 1 e show ?thesis by auto
    next
      case 2
      then have s: "fbyte f1 q = s ! (q - unat pos)" using w er by blast
      have lt: "q - unat pos < length s" using 2 by linarith
      have "fbyte f' q = s ! (q - unat pos)" using e s 2 by simp
      moreover have "concat (s # segs) ! (q - unat pos) = s ! (q - unat pos)" using lt by (simp add: nth_append)
      ultimately show ?thesis using 2 by simp
    next
      case 3
      then have "\<not> q - unat pos < length s" "q - unat pos - length s = q - (unat pos + length s)" by linarith+
      then have "concat segs ! (q - (unat pos + length s)) = concat (s # segs) ! (q - unat pos)"
        by (simp only: concat.simps nth_append if_False simp_thms)
      with 3 e show ?thesis by simp
    qed
  qed
  have "unat (o_len f') = max (unat (o_len f)) (unat pos + length (concat (s # segs)))"
    using ih len2 p1 by (cases "segs = []") (simp_all add: max_def)
  moreover have "unat pos' = unat pos + length (concat (s # segs))" using ih p1 by simp
  moreover have "cnt' = cnt + of_nat (length (concat (s # segs)))" using ih by (simp add: add.assoc)
  ultimately show ?case using ih bytes by simp
qed

subsection \<open>Reading\<close>

definition bytes_at :: "openfile \<Rightarrow> nat \<Rightarrow> nat \<Rightarrow> string" where
  "bytes_at f p n = map (fbyte f) [p..<p + n]"

lemma bytes_at_append: "bytes_at f p m @ bytes_at f (p + m) n = bytes_at f p (m + n)"
  using upt_add_eq_append [of p "p + m" n] by (simp add: bytes_at_def add.assoc)

lemma blk_part_bytes:
  assumes ok: "blocks_ok f" and sz: "unat sz \<le> unat (snd (blkoff pos))" "unat pos + unat sz \<le> 2 ^ 32"
  shows "blk_part f pos sz = bytes_at f (unat pos) (unat sz)"
proof (rule nth_equalityI)
  let ?o = "off_n (unat pos)"
  have fit: "?o + unat sz \<le> size_n (num_n (unat pos))" using sz(1) off_n_lt [of "unat pos"] by (simp add: unat_blkoff)
  have lb: "?o + unat sz \<le> length (blk_at f pos)"
  proof (cases "o_blocks f (blknum pos)")
    case None
    then have "length (blk_at f pos) = 16384" by (simp add: blk_at_def block_consts)
    moreover have "size_n (num_n (unat pos)) \<le> 16384" by (simp add: size_n_def)
    ultimately show ?thesis using fit by linarith
  next
    case (Some b)
    then have "length (blk_at f pos) = blksize (blknum pos)" using ok by (simp add: blk_at_def blocks_ok_def)
    then show ?thesis using fit by (simp only: blksize_n)
  qed
  then show "length (blk_part f pos sz) = length (bytes_at f (unat pos) (unat sz))"
    by (simp add: blk_part_def bytes_at_def unat_blkoff)
  fix j assume "j < length (blk_part f pos sz)"
  then have j: "j < unat sz" by (simp add: blk_part_def)
  then have jf: "?o + j < size_n (num_n (unat pos))" using fit by linarith
  note st = block_step [OF jf]
  have "unat pos + j < 2 ^ 32" using sz(2) j by linarith
  then have "unat (of_nat (unat pos + j) :: uint) = unat pos + j" by (rule unat_of_nat_u32)
  then have "unat (blknum (of_nat (unat pos + j))) = unat (blknum pos)"
    unfolding unat_blknum using st(1) by simp
  then have num: "blknum (of_nat (unat pos + j)) = blknum pos" by (simp only: word_eq_unat)
  have "blk_part f pos sz ! j = blk_at f pos ! (?o + j)"
    using j lb by (simp add: blk_part_def unat_blkoff)
  also have "\<dots> = fbyte f (unat pos + j)"
  proof (cases "o_blocks f (blknum pos)")
    case None
    have "size_n (num_n (unat pos)) \<le> 16384" by (simp add: size_n_def)
    then have "?o + j < 16384" using jf by linarith
    with None show ?thesis unfolding fbyte_def num by (simp add: blk_at_def block_consts)
  next
    case (Some b)
    then show ?thesis unfolding fbyte_def num by (simp only: blk_at_def option.case st(2))
  qed
  finally show "blk_part f pos sz ! j = bytes_at f (unat pos) (unat sz) ! j"
    using j by (simp add: bytes_at_def)
qed

end
