(* ===== verification/Tmpfs_Inv.thy ===== *)
theory Tmpfs_Inv
  imports Tmpfs_Blocks
begin

text \<open>
  The state of the file server between messages: the directory holds each file once and under a
  name of its own, every client has the root or a file of the directory open, every file counts
  the clients that have it open, and a deleted file is there only as long as it is open.
\<close>

definition opens :: "ptr \<Rightarrow> file_t clients \<Rightarrow> nat" where
  "opens p cl = length (filter (\<lambda>x. f_file (snd x) = p) cl)"

definition client_ok :: "ptr list \<Rightarrow> file_t \<Rightarrow> bool" where
  "client_ok ps f \<longleftrightarrow> (if f_file f = NULL then f_perm f AND ACC_CHMOD = 0 else f_file f \<in> set ps)"

definition open_ok :: "file_t clients \<Rightarrow> ptr \<Rightarrow> openfile \<Rightarrow> bool" where
  "open_ok cl p x \<longleftrightarrow> o_refs x = of_nat (opens p cl) \<and> (o_deleted x \<longrightarrow> o_refs x \<noteq> 0) \<and> blocks_ok x"

definition dir_ok :: "ptr list \<Rightarrow> (ptr \<Rightarrow> openfile) \<Rightarrow> file_t clients \<Rightarrow> bool" where
  "dir_ok ps fs cl \<longleftrightarrow>
     distinct ps \<and> NULL \<notin> set ps \<and> (\<forall>p \<in> set ps. \<forall>q \<in> set ps. o_name (fs p) = o_name (fs q) \<longrightarrow> p = q) \<and>
     (\<forall>x \<in> set cl. client_ok ps (snd x)) \<and> (\<forall>p \<in> set ps. open_ok cl p (fs p))"

definition tmpfs_inv :: "tmpfs \<Rightarrow> bool" where
  "tmpfs_inv s \<longleftrightarrow> dir_ok (files s) (ofs s) (filehash s)"

lemma dir_okI:
  assumes "distinct ps" "NULL \<notin> set ps"
    "\<And>p q. p \<in> set ps \<Longrightarrow> q \<in> set ps \<Longrightarrow> o_name (fs p) = o_name (fs q) \<Longrightarrow> p = q"
    "\<And>x. x \<in> set cl \<Longrightarrow> client_ok ps (snd x)" "\<And>p. p \<in> set ps \<Longrightarrow> open_ok cl p (fs p)"
  shows "dir_ok ps fs cl"
  using assms unfolding dir_ok_def by blast

lemma dir_okD:
  assumes "dir_ok ps fs cl"
  shows "distinct ps" "NULL \<notin> set ps"
    "p \<in> set ps \<Longrightarrow> q \<in> set ps \<Longrightarrow> o_name (fs p) = o_name (fs q) \<Longrightarrow> p = q"
    "x \<in> set cl \<Longrightarrow> client_ok ps (snd x)" "p \<in> set ps \<Longrightarrow> open_ok cl p (fs p)"
  using assms unfolding dir_ok_def by blast+

subsection \<open>The table of clients\<close>

lemma opens_simps [simp]:
  "opens p [] = 0" "opens p (x # cl) = (if f_file (snd x) = p then 1 else 0) + opens p cl"
  by (simp_all add: opens_def)

lemma opens_put: "map_of cl k = Some g \<Longrightarrow>
    opens p (put_client k f cl) + (if f_file g = p then 1 else 0) = opens p cl + (if f_file f = p then 1 else 0)"
proof (induction cl)
  case (Cons x cl)
  show ?case using Cons by (cases x; cases "fst x = k") simp_all
qed simp

lemma opens_del: "map_of cl k = Some g \<Longrightarrow>
    opens p (del_client k cl) + (if f_file g = p then 1 else 0) = opens p cl"
proof (induction cl)
  case (Cons x cl)
  show ?case using Cons by (cases x; cases "fst x = k") simp_all
qed simp

lemma put_client_in: "x \<in> set (put_client k f cl) \<Longrightarrow> snd x = f \<or> x \<in> set cl"
proof (induction cl)
  case (Cons y cl)
  show ?case using Cons by (cases y; cases "fst y = k") auto
qed simp

lemma del_client_in: "x \<in> set (del_client k cl) \<Longrightarrow> x \<in> set cl"
proof (induction cl)
  case (Cons y cl)
  show ?case using Cons by (cases y; cases "fst y = k") auto
qed simp

lemma length_put [simp]: "length (put_client k f cl) = length cl"
proof (induction cl)
  case (Cons y cl)
  show ?case using Cons by (cases y) simp
qed simp

lemma opens_le: "opens p cl \<le> length cl"
  by (simp add: opens_def)

lemma opens_0: "opens p cl = 0 \<longleftrightarrow> (\<forall>x \<in> set cl. f_file (snd x) \<noteq> p)"
  by (simp add: opens_def filter_empty_conv)

lemma refs_0:
  assumes "open_ok cl p x" "length cl < 2 ^ 32"
  shows "o_refs x = 0 \<longleftrightarrow> opens p cl = 0"
proof -
  have "opens p cl < 2 ^ 32" using opens_le [of p cl] assms(2) by linarith
  then have "unat (o_refs x) = opens p cl"
    using assms(1) by (simp only: open_ok_def unat_of_nat_u32)
  then show ?thesis by (metis unat_eq_zero)
qed

lemma open_ok_cong: "open_ok cl p x \<Longrightarrow> opens p cl' = opens p cl \<Longrightarrow> open_ok cl' p x"
  unfolding open_ok_def by (elim conjE) (intro conjI, simp_all only:)

text \<open>A client of the table is as the invariant says, and no client has a file outside the directory.\<close>

lemma dir_ok_client: "dir_ok ps fs cl \<Longrightarrow> map_of cl k = Some f \<Longrightarrow> client_ok ps f"
  using dir_okD(4) map_of_SomeD [of cl k f] by fastforce

lemma opens_outside: "dir_ok ps fs cl \<Longrightarrow> p \<noteq> NULL \<Longrightarrow> p \<notin> set ps \<Longrightarrow> opens p cl = 0"
  unfolding opens_0 by (metis client_ok_def dir_okD(4))

subsection \<open>What keeps the invariant\<close>

text \<open>Changes of files that the directory does not see.\<close>

definition same_dir :: "(ptr \<Rightarrow> openfile) \<Rightarrow> (ptr \<Rightarrow> openfile) \<Rightarrow> bool" where
  "same_dir fs fs' \<longleftrightarrow>
     (\<forall>p. o_name (fs' p) = o_name (fs p) \<and> o_refs (fs' p) = o_refs (fs p) \<and>
       (o_deleted (fs' p) \<longrightarrow> o_deleted (fs p) \<or> o_refs (fs p) \<noteq> 0) \<and>
       (blocks_ok (fs p) \<longrightarrow> blocks_ok (fs' p)))"

lemma same_dir_refl [simp]: "same_dir fs fs"
  by (simp add: same_dir_def)

lemma dir_ok_same_dir:
  assumes "dir_ok ps fs cl" "same_dir fs fs'"
  shows "dir_ok ps fs' cl"
proof (rule dir_okI)
  show "distinct ps" "NULL \<notin> set ps" using dir_okD [OF assms(1)] by blast+
  show "p = q" if "p \<in> set ps" "q \<in> set ps" "o_name (fs' p) = o_name (fs' q)" for p q
    using that assms(2) dir_okD(3) [OF assms(1)] unfolding same_dir_def by metis
  show "client_ok ps (snd x)" if "x \<in> set cl" for x using that dir_okD(4) [OF assms(1)] by blast
  show "open_ok cl p (fs' p)" if "p \<in> set ps" for p
    using dir_okD(5) [OF assms(1) that] assms(2) unfolding same_dir_def open_ok_def by metis
qed

lemma same_dir_upd:
  assumes "o_name x = o_name (fs p)" "o_refs x = o_refs (fs p)"
    "o_deleted x \<Longrightarrow> o_deleted (fs p) \<or> o_refs (fs p) \<noteq> 0" "blocks_ok (fs p) \<Longrightarrow> blocks_ok x"
  shows "same_dir fs (fs(p := x))"
  using assms by (simp add: same_dir_def)

text \<open>A client of the table changes, but not what it has open nor its rights.\<close>

lemma dir_ok_put:
  assumes ok: "dir_ok ps fs cl" and g: "map_of cl k = Some g" "f_file f = f_file g" "f_perm f = f_perm g"
  shows "dir_ok ps fs (put_client k f cl)"
proof (rule dir_okI)
  show "distinct ps" "NULL \<notin> set ps" using dir_okD [OF ok] by blast+
  show "p = q" if "p \<in> set ps" "q \<in> set ps" "o_name (fs p) = o_name (fs q)" for p q
    using that dir_okD(3) [OF ok] by blast
  have "client_ok ps f" using dir_ok_client [OF ok g(1)] g(2,3) by (simp add: client_ok_def)
  then show "client_ok ps (snd x)" if "x \<in> set (put_client k f cl)" for x
    using put_client_in [OF that] dir_okD(4) [OF ok] by metis
  have "opens p (put_client k f cl) = opens p cl" for p
    using opens_put [OF g(1), of p f] unfolding g(2) by linarith
  then show "open_ok (put_client k f cl) p (fs p)" if "p \<in> set ps" for p
    using open_ok_cong [OF dir_okD(5) [OF ok that]] by blast
qed

text \<open>A file that nobody has open leaves the directory.\<close>

lemma dir_ok_remove:
  assumes ok: "dir_ok ps fs cl" and p: "opens p cl = 0"
  shows "dir_ok (remove1 p ps) fs cl"
proof (rule dir_okI)
  note d = dir_okD [OF ok]
  have set: "set (remove1 p ps) = set ps - {p}" using d(1) by simp
  show "distinct (remove1 p ps)" using d(1) by simp
  show "NULL \<notin> set (remove1 p ps)" using d(2) set by blast
  show "q = r" if "q \<in> set (remove1 p ps)" "r \<in> set (remove1 p ps)" "o_name (fs q) = o_name (fs r)" for q r
    using that d(3) set by blast
  show "client_ok (remove1 p ps) (snd x)" if "x \<in> set cl" for x
    using d(4) [OF that] p that unfolding client_ok_def opens_0 set by auto
  show "open_ok cl q (fs q)" if "q \<in> set (remove1 p ps)" for q using that d(5) set by blast
qed

text \<open>A new file.\<close>

lemma dir_ok_new:
  assumes ok: "dir_ok ps fs cl" and p: "p \<noteq> NULL" "p \<notin> set ps"
    and x: "\<forall>q \<in> set ps. o_name (fs q) \<noteq> o_name x" "o_refs x = 0" "\<not> o_deleted x" "blocks_ok x"
  shows "dir_ok (ps @ [p]) (fs(p := x)) cl"
proof (rule dir_okI)
  note d = dir_okD [OF ok]
  show "distinct (ps @ [p])" using d(1) p(2) by simp
  show "NULL \<notin> set (ps @ [p])" using d(2) p(1) by simp
  show "q = r" if "q \<in> set (ps @ [p])" "r \<in> set (ps @ [p])" "o_name ((fs(p := x)) q) = o_name ((fs(p := x)) r)" for q r
    using that d(3) [of q r] p(2) x(1) by (cases "q = p"; cases "r = p") auto
  show "client_ok (ps @ [p]) (snd y)" if "y \<in> set cl" for y using d(4) [OF that] by (simp add: client_ok_def)
  have "open_ok cl p x" using x opens_outside [OF ok p] by (simp add: open_ok_def)
  then show "open_ok cl q ((fs(p := x)) q)" if "q \<in> set (ps @ [p])" for q
    using that d(5) [of q] p(2) by (cases "q = p") auto
qed

text \<open>
  One more client has a file open: a client of the root that opens it, or the copy of a client. The
  count of the file goes up with it.
\<close>

lemma dir_ok_refs:
  assumes ok: "dir_ok ps fs cl" and p: "p \<in> set ps" and n: "length cl' < 2 ^ 32"
    and o: "\<And>q. q \<noteq> NULL \<Longrightarrow> opens q cl' = opens q cl + (if p = q then 1 else 0)"
    and c: "\<And>x. x \<in> set cl' \<Longrightarrow> client_ok ps (snd x)"
  shows "dir_ok ps (fs(p := (fs p)\<lparr>o_refs := o_refs (fs p) + 1\<rparr>)) cl'"
proof (rule dir_okI)
  note d = dir_okD [OF ok]
  show "distinct ps" "NULL \<notin> set ps" using d by blast+
  let ?fs = "fs(p := (fs p)\<lparr>o_refs := o_refs (fs p) + 1\<rparr>)"
  have nm: "o_name (?fs q) = o_name (fs q)" for q by simp
  show "q = r" if "q \<in> set ps" "r \<in> set ps" "o_name (?fs q) = o_name (?fs r)" for q r
    using that d(3) unfolding nm by blast
  show "client_ok ps (snd x)" if "x \<in> set cl'" for x using that by (rule c)
  fix q assume q: "q \<in> set ps"
  then have q0: "q \<noteq> NULL" using d(2) by metis
  note oq = d(5) [OF q]
  show "open_ok cl' q (?fs q)"
  proof (cases "q = p")
    case False
    then have "open_ok cl' q (fs q)" using open_ok_cong [OF oq] o [OF q0] by simp
    with False show ?thesis by simp
  next
    case True
    have "opens q cl' = opens q cl + 1" using o [OF q0] True by simp
    moreover have "opens q cl' < 2 ^ 32" using opens_le [of q cl'] n by linarith
    then have "unat (of_nat (opens q cl') :: uint) = opens q cl'" by (rule unat_of_nat_u32)
    ultimately have "(of_nat (opens q cl') :: uint) \<noteq> 0" by (metis add_is_0 one_neq_zero unat_eq_zero)
    then show ?thesis using oq True \<open>opens q cl' = opens q cl + 1\<close>
      by (simp add: open_ok_def blocks_ok_def add.commute)
  qed
qed

lemma dir_ok_open:
  assumes ok: "dir_ok ps fs cl" and g: "map_of cl k = Some g" "f_file g = NULL"
    and f: "f_file f = p" "p \<in> set ps" and n: "length cl < 2 ^ 32"
  shows "dir_ok ps (fs(p := (fs p)\<lparr>o_refs := o_refs (fs p) + 1\<rparr>)) (put_client k f cl)"
proof (rule dir_ok_refs [OF ok f(2)])
  show "length (put_client k f cl) < 2 ^ 32" using n by simp
  show "opens q (put_client k f cl) = opens q cl + (if p = q then 1 else 0)" if "q \<noteq> NULL" for q
    using opens_put [OF g(1), of q f] that g(2) f(1) by simp
  have "p \<noteq> NULL" using dir_okD(2) [OF ok] f(2) by metis
  then have "client_ok ps f" using f by (simp add: client_ok_def)
  then show "client_ok ps (snd x)" if "x \<in> set (put_client k f cl)" for x
    using put_client_in [OF that] dir_okD(4) [OF ok] by metis
qed

lemma dir_ok_add:
  assumes ok: "dir_ok ps fs cl" and f: "f_file f = NULL" "f_perm f AND ACC_CHMOD = 0"
  shows "dir_ok ps fs ((k, f) # cl)"
proof (rule dir_okI)
  note d = dir_okD [OF ok]
  show "distinct ps" "NULL \<notin> set ps" using d by blast+
  show "q = r" if "q \<in> set ps" "r \<in> set ps" "o_name (fs q) = o_name (fs r)" for q r using that d(3) by blast
  show "client_ok ps (snd x)" if "x \<in> set ((k, f) # cl)" for x
    using that d(4) f by (cases "x = (k, f)") (auto simp: client_ok_def)
  show "open_ok ((k, f) # cl) p (fs p)" if "p \<in> set ps" for p
  proof -
    have "p \<noteq> NULL" using d(2) that by metis
    then have "opens p ((k, f) # cl) = opens p cl" using f(1) by simp
    with d(5) [OF that] show ?thesis by (rule open_ok_cong)
  qed
qed

lemma dir_ok_dup:
  assumes ok: "dir_ok ps fs cl" and f: "client_ok ps f" "f_file f \<noteq> NULL" and n: "length cl < 2 ^ 32 - 1"
  shows "dir_ok ps (fs(f_file f := (fs (f_file f))\<lparr>o_refs := o_refs (fs (f_file f)) + 1\<rparr>)) ((k, f) # cl)"
proof (rule dir_ok_refs [OF ok])
  show "f_file f \<in> set ps" using f by (simp add: client_ok_def)
  show "length ((k, f) # cl) < 2 ^ 32" using n by simp
  show "opens q ((k, f) # cl) = opens q cl + (if f_file f = q then 1 else 0)" for q by simp
  show "client_ok ps (snd x)" if "x \<in> set ((k, f) # cl)" for x
    using that dir_okD(4) [OF ok] f(1) by (cases "x = (k, f)") auto
qed

text \<open>A client goes, and the count of its file with it; a deleted file goes with its last client.\<close>

lemma dir_ok_drop_root:
  assumes ok: "dir_ok ps fs cl" and g: "map_of cl k = Some g" "f_file g = NULL"
  shows "dir_ok ps fs (del_client k cl)"
proof (rule dir_okI)
  note d = dir_okD [OF ok]
  show "distinct ps" "NULL \<notin> set ps" using d by blast+
  show "q = r" if "q \<in> set ps" "r \<in> set ps" "o_name (fs q) = o_name (fs r)" for q r using that d(3) by blast
  show "client_ok ps (snd x)" if "x \<in> set (del_client k cl)" for x using del_client_in [OF that] d(4) by blast
  show "open_ok (del_client k cl) p (fs p)" if "p \<in> set ps" for p
  proof -
    have "p \<noteq> NULL" using d(2) that by metis
    then have "opens p (del_client k cl) = opens p cl" using opens_del [OF g(1), of p] g(2) by simp
    with d(5) [OF that] show ?thesis by (rule open_ok_cong)
  qed
qed

lemma dir_ok_drop:
  assumes ok: "dir_ok ps fs cl" and g: "map_of cl k = Some g" "f_file g = p" "p \<noteq> NULL" and n: "length cl < 2 ^ 32"
    and fs': "fs' = fs(p := (fs p)\<lparr>o_refs := o_refs (fs p) - 1\<rparr>)"
  shows "if o_deleted (fs' p) \<and> o_refs (fs' p) = 0 then dir_ok (remove1 p ps) fs' (del_client k cl)
    else dir_ok ps fs' (del_client k cl)"
proof -
  note d = dir_okD [OF ok]
  let ?cl = "del_client k cl"
  have p: "p \<in> set ps" using dir_ok_client [OF ok g(1)] g(2,3) by (simp add: client_ok_def)
  have o: "opens q cl = opens q ?cl + (if p = q then 1 else 0)" for q using opens_del [OF g(1), of q] g(2) by simp
  have nm: "o_name (fs' q) = o_name (fs q)" for q by (simp add: fs')
  have names: "q = r" if "q \<in> set ps" "r \<in> set ps" "o_name (fs' q) = o_name (fs' r)" for q r
    using that d(3) unfolding nm by blast
  have clients: "client_ok ps (snd x)" if "x \<in> set ?cl" for x using del_client_in [OF that] d(4) by blast
  have other: "open_ok ?cl q (fs' q)" if "q \<in> set ps" "q \<noteq> p" for q
    using open_ok_cong [OF d(5) [OF that(1)], of ?cl] o [of q] that(2) by (simp add: fs')
  have refs: "o_refs (fs' p) = of_nat (opens p ?cl)" "blocks_ok (fs' p)"
    using d(5) [OF p] o [of p] by (simp_all add: open_ok_def fs' blocks_ok_def)
  show ?thesis
  proof (cases "o_deleted (fs' p) \<and> o_refs (fs' p) = 0")
    case False
    have "dir_ok ps fs' ?cl"
    proof (rule dir_okI [OF d(1,2) names clients])
      fix q assume q: "q \<in> set ps"
      have "open_ok ?cl p (fs' p)" using refs False by (auto simp: open_ok_def)
      then show "open_ok ?cl q (fs' q)" using other [OF q] by (cases "q = p") simp_all
    qed
    then show ?thesis by (simp only: False if_False)
  next
    case True
    have "opens p ?cl < 2 ^ 32" using o [of p] opens_le [of p cl] n by (simp split: if_splits)
    then have "unat (o_refs (fs' p)) = opens p ?cl" unfolding refs(1) by (rule unat_of_nat_u32)
    then have op: "opens p ?cl = 0" using True by simp
    have set: "set (remove1 p ps) = set ps - {p}" using d(1) by simp
    have "dir_ok (remove1 p ps) fs' ?cl"
    proof (rule dir_okI)
      show "distinct (remove1 p ps)" using d(1) by simp
      show "NULL \<notin> set (remove1 p ps)" using d(2) set by blast
      show "q = r" if "q \<in> set (remove1 p ps)" "r \<in> set (remove1 p ps)" "o_name (fs' q) = o_name (fs' r)" for q r
        using that names set by blast
      show "client_ok (remove1 p ps) (snd x)" if "x \<in> set ?cl" for x
        using clients [OF that] op that unfolding client_ok_def opens_0 set by auto
      show "open_ok ?cl q (fs' q)" if "q \<in> set (remove1 p ps)" for q using that other set by blast
    qed
    then show ?thesis by (simp only: True if_True simp_thms)
  qed
qed

subsection \<open>The handlers\<close>

text \<open>Most handlers change neither the directory nor what the client has open.\<close>

definition keeps :: "file_t \<Rightarrow> tmpfs \<Rightarrow> file_t \<times> tmpfs \<times> reply list \<Rightarrow> bool" where
  "keeps f s r \<longleftrightarrow> (case r of (f', s', out) \<Rightarrow>
     f_file f' = f_file f \<and> f_perm f' = f_perm f \<and> files s' = files s \<and> filehash s' = filehash s \<and>
     same_dir (ofs s) (ofs s'))"

lemma keeps_same [simp]: "keeps f s (f, s, out)"
  by (simp add: keeps_def)

lemma keeps_pos [simp]:
  "keeps f s (f\<lparr>f_pos := p\<rparr>, s, out)" "keeps (f\<lparr>f_pos := p\<rparr>) s r = keeps f s r"
  by (simp_all add: keeps_def split: prod.splits)

lemma keeps_inv:
  assumes "keeps f s r" "tmpfs_inv s" "map_of (filehash s) (m_sender m) = Some f"
  shows "tmpfs_inv (fst (put_back m r))"
proof -
  obtain f' s' out where r: "r = (f', s', out)" by (cases r)
  have k: "f_file f' = f_file f" "f_perm f' = f_perm f" "files s' = files s" "filehash s' = filehash s"
    "same_dir (ofs s) (ofs s')"
    using assms(1) by (simp_all add: keeps_def r)
  have "dir_ok (files s) (ofs s') (put_client (m_sender m) f' (filehash s))"
    using dir_ok_put [OF dir_ok_same_dir [OF assms(2) [unfolded tmpfs_inv_def] k(5)] assms(3) k(1,2)] .
  then show ?thesis by (simp add: put_back_def r tmpfs_inv_def k)
qed

lemma write_keeps:
  assumes ok: "f_file f \<noteq> NULL \<Longrightarrow> blocks_ok (ofs s (f_file f))"
  shows "keeps f s (tmpfs_write e m f s)"
proof (cases "f_file f = NULL \<or> f_perm f AND ACC_WRITE = 0")
  case True
  then show ?thesis by (auto simp: tmpfs_write_def)
next
  case False
  let ?o = "ofs s (f_file f)"
  obtain err cnt o1 pos1 where w: "write_segs e (m_segs m) ?o (f_pos f) 0 0 = (err, cnt, o1, pos1)"
    by (cases "write_segs e (m_segs m) ?o (f_pos f) 0 0")
  have "f_file f \<noteq> NULL" using False by simp
  then have "blocks_ok ?o" by (rule ok)
  then have b: "blocks_ok o1" "same_meta2 ?o o1" using write_segs_ok [OF w] by blast+
  have "same_dir (ofs s) ((ofs s)(f_file f := o1))"
    by (rule same_dir_upd) (simp_all add: same_meta2D [OF b(2)] b(1))
  then show ?thesis using False by (simp add: tmpfs_write_def w keeps_def upd_of_def)
qed

lemma readdir_keeps: "keeps f s (tmpfs_readdir e m f s)"
  by (simp add: tmpfs_readdir_def Let_def split: prod.splits)

lemma read_keeps: "tmpfs_read e m f s = Some r \<Longrightarrow> keeps f s r"
  by (auto simp: tmpfs_read_def Let_def readdir_keeps split: if_splits prod.splits)

lemma read_from_keeps: "read_from e m f s = Inr r \<Longrightarrow> keeps f s r"
  by (simp add: read_from_def read_keeps split: option.splits)

lemma obind_Inr: "obind x g = Inr y \<longleftrightarrow> (\<exists>z. x = Inr z \<and> g z = Inr y)"
  by (cases x) (auto simp: obind_def)

lemma stat_keeps: "tmpfs_stat m f s = Inr r \<Longrightarrow> keeps f s r"
  by (auto simp: tmpfs_stat_def Let_def obind_Inr split: if_splits)

lemma wstat_keeps:
  assumes "tmpfs_wstat m f s = Inr r"
  shows "keeps f s r"
proof -
  have d: "same_dir (ofs s) ((ofs s)(f_file f := ofs s (f_file f)\<lparr>o_prot := pr\<rparr>))" for pr
    by (rule same_dir_upd) (simp_all add: blocks_ok_def)
  show ?thesis
  proof (cases "do_wstat m (Some (o_prot (ofs s (f_file f)))) (f_perm f)")
    case Inl
    then show ?thesis using assms by (simp add: tmpfs_wstat_def obind_def Let_def split: if_splits)
  next
    case (Inr w)
    then show ?thesis using assms d
      by (cases w) (auto simp: tmpfs_wstat_def Let_def obind_def keeps_def upd_of_def split: if_splits)
  qed
qed

lemma fid_keeps: "keeps f s (tmpfs_fid m f s)"
  by (simp add: tmpfs_fid_def)

lemma seek_keeps: "keeps f s (tmpfs_seek m f s)"
  by (simp add: tmpfs_seek_def)

text \<open>What a name finds.\<close>

lemma dir_lookup_cases:
  obtains "dir_lookup name s = NULL" "NULL \<notin> set (files s) \<Longrightarrow> \<forall>p \<in> set (files s). o_name (ofs s p) \<noteq> name"
  | "dir_lookup name s \<in> set (files s)" "o_name (ofs s (dir_lookup name s)) = name"
proof (cases "find (\<lambda>p. o_name (ofs s p) = name) (files s)")
  case None
  then have "dir_lookup name s = NULL" "\<forall>p \<in> set (files s). o_name (ofs s p) \<noteq> name"
    by (simp add: dir_lookup_def, simp add: find_None_iff)
  then show ?thesis using that(1) by blast
next
  case (Some p)
  then have "dir_lookup name s = p" "p \<in> set (files s)" "o_name (ofs s p) = name"
    by (simp add: dir_lookup_def) (use Some in \<open>auto simp: find_Some_iff\<close>)
  then show ?thesis using that(2) by blast
qed

lemma trunc_same_dir:
  "blk_trunc ok p s = Inr s' \<Longrightarrow> files s' = files s \<and> filehash s' = filehash s \<and> same_dir (ofs s) (ofs s')"
  by (auto simp: blk_trunc_def upd_of_def blocks_ok_def intro!: same_dir_upd split: if_splits)

lemma open_inv:
  assumes op: "tmpfs_open e m f s = Inr r" and inv: "tmpfs_inv s" and f: "map_of (filehash s) k = Some f0"
      "f_file f = f_file f0" "f_perm f = f_perm f0"
    and n: "length (filehash s) < 2 ^ 32" and fresh: "e_addr e \<noteq> NULL" "e_addr e \<notin> set (files s)"
    and k: "k = m_sender m"
  shows "tmpfs_inv (fst (put_back m r))"
proof -
  note ok = inv [unfolded tmpfs_inv_def]
  let ?name = "cstr (m_buf m)"
  let ?p = "dir_lookup ?name s"
  have keep: ?thesis if "keeps f s r" using keeps_inv [of f0 s r m] that f inv by (simp add: keeps_def k)
  consider "f_file f \<noteq> NULL \<or> m_arg m AND ACC_DIR \<noteq> 0 \<or> (?p = NULL \<and> m_arg m AND ACC_CREATE = 0)"
    | "f_file f = NULL" "?p = NULL" "m_arg m AND ACC_DIR = 0" "m_arg m AND ACC_CREATE \<noteq> 0"
    | "f_file f = NULL" "?p \<noteq> NULL" "m_arg m AND ACC_DIR = 0" by blast
  then show ?thesis
  proof cases
    case 1
    then have "\<exists>out. r = (f, s, out)" using op by (auto simp: tmpfs_open_def Let_def split: if_splits)
    then show ?thesis using keep by auto
  next
    case 2
    have names: "\<forall>q \<in> set (files s). o_name (ofs s q) \<noteq> ?name"
      using 2(2) dir_okD(2) [OF ok] by (cases rule: dir_lookup_cases [of ?name s]) auto
    let ?x = "\<lparr>o_name = ?name, o_blocks = Map.empty, o_len = 0, o_prot = new_prot (f_perms f ! 0), o_refs = 0,
      o_owner = perm_uid (f_perms f ! 0), o_deleted = False\<rparr>"
    have x: "\<forall>q \<in> set (files s). o_name (ofs s q) \<noteq> o_name ?x" "o_refs ?x = 0" "\<not> o_deleted ?x" "blocks_ok ?x"
      using names by (simp_all add: blocks_ok_def)
    note new = dir_ok_new [OF ok fresh x]
    consider "dir_newfile e f ?name s = (NULL, s)"
      | "dir_newfile e f ?name s = (e_addr e, s\<lparr>files := files s @ [e_addr e], ofs := (ofs s)(e_addr e := ?x)\<rparr>)"
      by (cases "\<not> e_ok e 0 \<or> \<not> e_ok e 1 \<or> \<not> e_ok e 2 \<or> \<not> e_ok e 3") (simp_all add: dir_newfile_def)
    then show ?thesis
    proof cases
      case 1
      then have "\<exists>out. r = (f, s, out)" using op 2 by (auto simp: tmpfs_open_def Let_def)
      then show ?thesis using keep by auto
    next
      case nf: 2
      let ?f = "f\<lparr>f_file := e_addr e, f_perm := ACC_READ OR ACC_WRITE OR ACC_CHMOD\<rparr>"
      have r: "r = (?f, upd_of (e_addr e) (\<lambda>x. x\<lparr>o_refs := o_refs x + 1\<rparr>)
          (s\<lparr>files := files s @ [e_addr e], ofs := (ofs s)(e_addr e := ?x)\<rparr>), [Reply 0 0 []])"
        using op 2 nf fresh(1) by (simp add: tmpfs_open_def Let_def)
      have "f_file f0 = NULL" using 2(1) f(2) by simp
      from dir_ok_open [OF new f(1) this, of ?f "e_addr e"] n
      show ?thesis by (simp add: r put_back_def tmpfs_inv_def upd_of_def k)
    qed
  next
    case 3
    then have p: "?p \<in> set (files s)" by (cases rule: dir_lookup_cases [of ?name s]) auto
    consider "\<exists>out. r = (f, s, out)"
      | s1 pm out where "(if m_arg m AND ACC_CREATE \<noteq> 0 then blk_trunc (e_ok e 0) ?p s else Inr s) = Inr s1"
        "r = (f\<lparr>f_file := ?p, f_perm := pm\<rparr>, upd_of ?p (\<lambda>x. x\<lparr>o_refs := o_refs x + 1\<rparr>) s1, out)"
      using op 3 by (auto simp: tmpfs_open_def Let_def obind_Inr split: if_splits)
    then show ?thesis
    proof cases
      case 1
      then show ?thesis using keep by auto
    next
      case (2 s1 pm out)
      have s1: "files s1 = files s \<and> filehash s1 = filehash s \<and> same_dir (ofs s) (ofs s1)"
        using 2(1) trunc_same_dir by (cases "m_arg m AND ACC_CREATE \<noteq> 0") auto
      then have ok1: "dir_ok (files s) (ofs s1) (filehash s)" using dir_ok_same_dir [OF ok] by blast
      have "f_file f0 = NULL" using 3(1) f(2) by simp
      from dir_ok_open [OF ok1 f(1) this, of "f\<lparr>f_file := ?p, f_perm := pm\<rparr>" ?p] n p
      show ?thesis using s1 by (simp add: 2(2) put_back_def tmpfs_inv_def upd_of_def k)
    qed
  qed
qed

lemma remove_inv:
  assumes op: "tmpfs_remove e m f s = Inr r" and inv: "tmpfs_inv s" and f: "map_of (filehash s) (m_sender m) = Some f"
    and n: "length (filehash s) < 2 ^ 32"
  shows "tmpfs_inv (fst (put_back m r))"
proof -
  note ok = inv [unfolded tmpfs_inv_def]
  let ?p = "dir_lookup (cstr (m_buf m)) s"
  consider "\<exists>out. r = (f, s, out)"
    | out where "?p \<noteq> NULL" "0 < o_refs (ofs s ?p)" "r = (f, upd_of ?p (\<lambda>x. x\<lparr>o_deleted := True\<rparr>) s, out)"
    | s1 out where "?p \<noteq> NULL" "o_refs (ofs s ?p) = 0" "nuke (e_ok e 0) ?p s = Inr s1" "r = (f, s1, out)"
    using op by (auto simp: tmpfs_remove_def Let_def obind_Inr word_gt_0 split: if_splits)
  then show ?thesis
  proof cases
    case 1
    then show ?thesis using keeps_inv [OF _ inv f] by fastforce
  next
    case 2
    have "same_dir (ofs s) ((ofs s)(?p := ofs s ?p\<lparr>o_deleted := True\<rparr>))"
      using 2(2) by (intro same_dir_upd) (simp_all add: blocks_ok_def word_gt_0)
    then have "keeps f s r" by (simp add: 2(3) keeps_def upd_of_def)
    then show ?thesis using keeps_inv inv f by blast
  next
    case (3 s1 out)
    then have p: "?p \<in> set (files s)" by (cases rule: dir_lookup_cases [of "cstr (m_buf m)" s]) auto
    have o: "opens ?p (filehash s) = 0" using refs_0 [OF dir_okD(5) [OF ok p] n] 3(2) by blast
    obtain s2 where s2: "blk_trunc (e_ok e 0) ?p s = Inr s2" "s1 = freeup ?p s2"
      using 3(3) by (auto simp: nuke_def obind_Inr)
    have t: "files s2 = files s \<and> filehash s2 = filehash s \<and> same_dir (ofs s) (ofs s2)"
      using trunc_same_dir [OF s2(1)] .
    have "dir_ok (remove1 ?p (files s)) (ofs s2) (filehash s)"
      using dir_ok_remove [OF dir_ok_same_dir [OF ok] o] t by blast
    from dir_ok_put [OF this f refl refl] show ?thesis
      using t 3(1) by (simp add: 3(4) s2(2) put_back_def tmpfs_inv_def freeup_def)
  qed
qed

lemma close_inv:
  assumes op: "dead_client e m f s = Inr (s1, out)" and inv: "tmpfs_inv s"
    and f: "map_of (filehash s) (m_sender m) = Some f" and n: "length (filehash s) < 2 ^ 32"
  shows "tmpfs_inv s1"
proof -
  note ok = inv [unfolded tmpfs_inv_def]
  let ?cl = "del_client (m_sender m) (filehash s)"
  show ?thesis
  proof (cases "f_file f = NULL")
    case True
    then have "s1 = s\<lparr>filehash := ?cl\<rparr>" using op by (simp add: dead_client_def tmpfs_close_def obind_def)
    then show ?thesis using dir_ok_drop_root [OF ok f True] by (simp add: tmpfs_inv_def)
  next
    case False
    let ?p = "f_file f"
    let ?fs = "(ofs s)(?p := (ofs s ?p)\<lparr>o_refs := o_refs (ofs s ?p) - 1\<rparr>)"
    let ?s = "s\<lparr>filehash := ?cl, ofs := ?fs\<rparr>"
    note d = dir_ok_drop [OF ok f refl False n refl]
    show ?thesis
    proof (cases "o_deleted (?fs ?p) \<and> o_refs (?fs ?p) = 0")
      case True
      then have "nuke (e_ok e 0) ?p ?s = Inr s1"
        using op False by (auto simp: dead_client_def tmpfs_close_def Let_def obind_Inr upd_of_def)
      then obtain s2 where s2: "blk_trunc (e_ok e 0) ?p ?s = Inr s2" "s1 = freeup ?p s2"
        by (auto simp: nuke_def obind_Inr)
      have t: "files s2 = files s \<and> filehash s2 = ?cl \<and> same_dir ?fs (ofs s2)"
        using trunc_same_dir [OF s2(1)] by simp
      have "dir_ok (remove1 ?p (files s)) ?fs ?cl" using d True by (simp only: if_True simp_thms)
      from dir_ok_same_dir [OF this] t show ?thesis
        using False by (simp add: s2(2) tmpfs_inv_def freeup_def)
    next
      case nd: False
      then have "s1 = ?s"
        using op False by (auto simp: dead_client_def tmpfs_close_def Let_def obind_Inr upd_of_def)
      moreover have "dir_ok (files s) ?fs ?cl" using d nd by (simp only: if_False)
      ultimately show ?thesis by (simp add: tmpfs_inv_def)
    qed
  qed
qed

lemma connect_inv:
  assumes op: "new_client e m s = Inr (s1, out)" and inv: "tmpfs_inv s"
  shows "tmpfs_inv s1"
proof -
  have z: "(ACC_READ OR ACC_WRITE) AND ACC_CHMOD = 0" by (simp add: ACC_defs)
  consider "s1 = s"
    | perms where "s1 = s\<lparr>filehash := (m_sender m, \<lparr>f_file = NULL, f_pos = 0, f_perms = perms,
        f_nperm = length (m_buf m) div 12, f_perm = ACC_READ OR ACC_WRITE\<rparr>) # filehash s\<rparr>"
    using op by (auto simp: new_client_def obind_Inr split: if_splits)
  then show ?thesis
  proof cases
    case 2
    then show ?thesis using dir_ok_add [OF inv [unfolded tmpfs_inv_def]] z by (simp add: tmpfs_inv_def)
  qed (simp add: inv)
qed

lemma dup_inv:
  assumes op: "dup_client e m f s = (s1, out)" and inv: "tmpfs_inv s"
    and f: "map_of (filehash s) k = Some f" and n: "length (filehash s) < 2 ^ 32 - 1"
  shows "tmpfs_inv s1"
proof -
  note ok = inv [unfolded tmpfs_inv_def]
  have c: "client_ok (files s) f" by (rule dir_ok_client [OF ok f])
  show ?thesis
  proof (cases "e_ok e 0 \<and> e_ok e 1")
    case False
    then show ?thesis using op inv by (auto simp: dup_client_def split: if_splits)
  next
    case True
    show ?thesis
    proof (cases "f_file f = NULL")
      case root: True
      then have "s1 = s\<lparr>filehash := (m_arg m, f) # filehash s\<rparr>" using op True by (simp add: dup_client_def)
      moreover have "f_perm f AND ACC_CHMOD = 0" using c root by (simp add: client_ok_def)
      ultimately show ?thesis using dir_ok_add [OF ok root] by (simp add: tmpfs_inv_def)
    next
      case nr: False
      then have "s1 = upd_of (f_file f) (\<lambda>x. x\<lparr>o_refs := o_refs x + 1\<rparr>) (s\<lparr>filehash := (m_arg m, f) # filehash s\<rparr>)"
        using op True by (simp add: dup_client_def)
      then show ?thesis using dir_ok_dup [OF ok c nr n] by (simp add: tmpfs_inv_def upd_of_def)
    qed
  qed
qed

lemma client_op_cases:
  assumes "client_op e m f s = Inr r"
  shows "tmpfs_open e m f s = Inr r \<or> tmpfs_remove e m f s = Inr r \<or>
    read_from e m (f\<lparr>f_pos := m_arg1 m\<rparr>) s = Inr r \<or> read_from e m f s = Inr r \<or>
    r = tmpfs_write e m (f\<lparr>f_pos := m_arg1 m\<rparr>) s \<or> r = tmpfs_write e m f s \<or> r = tmpfs_seek m f s \<or>
    tmpfs_stat m f s = Inr r \<or> tmpfs_wstat m f s = Inr r \<or> r = tmpfs_fid m f s"
  using assms unfolding client_op_def Let_def by (simp only: sum.inject split: if_split_asm) blast+

lemma client_op_inv:
  assumes op: "client_op e m f s = Inr r" and inv: "tmpfs_inv s" and f: "map_of (filehash s) (m_sender m) = Some f"
    and n: "length (filehash s) < 2 ^ 32" and fresh: "e_addr e \<noteq> NULL" "e_addr e \<notin> set (files s)"
  shows "tmpfs_inv (fst (put_back m r))"
proof -
  note ok = inv [unfolded tmpfs_inv_def]
  have b: "f_file f \<noteq> NULL \<Longrightarrow> blocks_ok (ofs s (f_file f))"
    using dir_ok_client [OF ok f] dir_okD(5) [OF ok] by (auto simp: client_ok_def open_ok_def)
  then have bp: "f_file (f\<lparr>f_pos := p\<rparr>) \<noteq> NULL \<Longrightarrow> blocks_ok (ofs s (f_file (f\<lparr>f_pos := p\<rparr>)))" for p by simp
  consider "tmpfs_open e m f s = Inr r" | "tmpfs_remove e m f s = Inr r" | "keeps f s r"
    using client_op_cases [OF op] read_from_keeps [of e m f s r] read_from_keeps [of e m "f\<lparr>f_pos := m_arg1 m\<rparr>" s r]
      write_keeps [OF b] write_keeps [OF bp] stat_keeps [of m f s r] wstat_keeps [of m f s r] seek_keeps fid_keeps
    unfolding keeps_pos(2) by blast
  then show ?thesis
  proof cases
    case 1
    then show ?thesis using open_inv [OF _ inv f refl refl n fresh refl] by blast
  next
    case 2
    then show ?thesis using remove_inv inv f n by blast
  next
    case 3
    then show ?thesis using keeps_inv inv f by blast
  qed
qed

text \<open>Past its guards a message reaches its handler; any guard answers without a change of the state.\<close>

lemma guarded:
  assumes "(if a then Inr (s, r1) else if b then Inr (s, r2)
      else obind x (\<lambda>ok. if c ok then Inr (s, r3) else if d then Inr (s, r4) else h)) = Inr (s1, out)"
  shows "s1 = s \<or> h = Inr (s1, out)"
  using assms by (cases a; cases b; cases x) (auto simp: obind_def split: if_split_asm)

text \<open>A round of the main loop: which handler it calls.\<close>

lemma main_cases:
  assumes op: "tmpfs_main e m s = Inr (s1, out)"
  obtains "s1 = s" | "new_client e m s = Inr (s1, out)"
    | f where "map_of (filehash s) (m_sender m) = Some f" "dead_client e m f s = Inr (s1, out)"
    | f where "map_of (filehash s) (m_sender m) = Some f" "dup_client e m f s = (s1, out)"
    | f r where "map_of (filehash s) (m_sender m) = Some f" "client_op e m f s = Inr r" "s1 = fst (put_back m r)"
proof -
  let ?o = "m_op m AND MSG_MASK"
  let ?f = "map_of (filehash s) (m_sender m)"
  note op = op [unfolded tmpfs_main_def Let_def]
  show ?thesis
  proof (cases "?o = M_CONNECT")
    case True
    from op [unfolded if_P [OF this]] show ?thesis by (rule that(2))
  next
    case c: False
    show ?thesis
    proof (cases "?o = M_DISCONNECT")
      case True
      then have "(case ?f of None \<Rightarrow> Inl NullDeref | Some f1 \<Rightarrow> dead_client e m f1 s) = Inr (s1, out)"
        using op [unfolded if_not_P [OF c] if_P [OF True]] by blast
      then show ?thesis using that(3) by (cases ?f) auto
    next
      case d: False
      show ?thesis
      proof (cases "?o = M_DUP")
        case True
        then have "(case ?f of None \<Rightarrow> if e_ok e 0 then Inl NullDeref else Inr (s, [Err (e_err e)])
            | Some f1 \<Rightarrow> Inr (dup_client e m f1 s)) = Inr (s1, out)"
          using op [unfolded if_not_P [OF c] if_not_P [OF d] if_P [OF True]] by blast
        then show ?thesis using that(1,4) by (cases ?f) (auto split: if_splits)
      next
        case False
        note op = op [unfolded if_not_P [OF c] if_not_P [OF d] if_not_P [OF False]]
        have *: "s1 = s \<or> (case ?f of None \<Rightarrow> Inl NullDeref
            | Some f1 \<Rightarrow> obind (client_op e m f1 s) (\<lambda>r. Inr (put_back m r))) = Inr (s1, out)"
          by (rule guarded [OF op])
        show ?thesis
        proof (cases "s1 = s")
          case False
          with * obtain f1 where f1: "?f = Some f1"
            "obind (client_op e m f1 s) (\<lambda>r. Inr (put_back m r)) = Inr (s1, out)"
            by (cases ?f) auto
          then obtain r where "client_op e m f1 s = Inr r" "put_back m r = (s1, out)"
            unfolding obind_Inr by blast
          then show ?thesis using that(5) [OF f1(1)] by simp
        qed (rule that(1))
      qed
    qed
  qed
qed

text \<open>A round of the main loop keeps the invariant.\<close>

lemma main_inv:
  assumes op: "tmpfs_main e m s = Inr (s1, out)" and inv: "tmpfs_inv s"
    and n: "length (filehash s) < 2 ^ 32 - 1" and fresh: "e_addr e \<noteq> NULL" "e_addr e \<notin> set (files s)"
  shows "tmpfs_inv s1"
proof -
  have n': "length (filehash s) < 2 ^ 32" using n by simp
  show ?thesis using op
  proof (cases rule: main_cases)
    case 2
    then show ?thesis using connect_inv inv by blast
  next
    case 3
    then show ?thesis using close_inv inv n' by blast
  next
    case 4
    then show ?thesis using dup_inv inv n by blast
  next
    case 5
    then show ?thesis using client_op_inv inv n' fresh by blast
  qed (simp add: inv)
qed

end
