(* ===== verification/Tmpfs_Spec.thy ===== *)
theory Tmpfs_Spec
  imports Tmpfs_Inv
begin

text \<open>
  What the file server promises: a write lays its bytes over the file, a read returns the bytes
  of the file, and no sequence of messages breaks the directory or the counts of open files.
\<close>

subsection \<open>Reading\<close>

lemma unat_blk_take:
  assumes "cnt < lim" "unat lim + 16384 < 2 ^ 32"
  shows "unat (blk_take pos cnt lim) = min (unat lim - unat cnt) (unat (snd (blkoff pos)))"
proof -
  have c: "unat cnt < unat lim" using assms(1) by (simp only: word_less_unat)
  have s: "unat (snd (blkoff pos)) \<le> 16384"
    by (simp only: unat_blkoff) (auto simp: size_n_def intro: order_trans [OF diff_le_self])
  have "unat cnt + unat (snd (blkoff pos)) < 2 ^ 32" using c s assms(2) by linarith
  then have a: "unat (cnt + snd (blkoff pos)) = unat cnt + unat (snd (blkoff pos))" by (rule unat_add_u32)
  have b: "unat (lim - cnt) = unat lim - unat cnt" using c by (intro unat_sub_u32) simp
  show ?thesis
  proof (cases "unat lim < unat cnt + unat (snd (blkoff pos))")
    case True
    then show ?thesis using b c by (simp add: blk_take_def Let_def word_less_unat a)
  next
    case False
    then have "min (unat lim - unat cnt) (unat (snd (blkoff pos))) = unat (snd (blkoff pos))" by linarith
    with False show ?thesis by (simp add: blk_take_def Let_def word_less_unat a)
  qed
qed

text \<open>One round of either loop: the bytes it adds and where it leaves the position and the count.\<close>

lemma read_round:
  fixes lim cnt pos :: uint
  assumes ok: "blocks_ok f" and lt: "cnt < lim" and lim: "unat lim + 16384 < 2 ^ 32"
    and range: "unat pos + (unat lim - unat cnt) < 2 ^ 32"
  defines "sz \<equiv> blk_take pos cnt lim"
  shows "blk_part f pos sz = bytes_at f (unat pos) (unat sz)" "0 < unat sz" "unat sz \<le> unat lim - unat cnt"
    "unat (pos + sz) = unat pos + unat sz" "unat (cnt + sz) = unat cnt + unat sz" "cnt + sz \<le> lim"
proof -
  have c: "unat cnt < unat lim" using lt by (simp only: word_less_unat)
  note t = unat_blk_take [OF lt lim, of pos, folded sz_def]
  show p: "0 < unat sz" and le: "unat sz \<le> unat lim - unat cnt" using t c blkoff_pos [of pos] by simp_all
  have le2: "unat sz \<le> unat (snd (blkoff pos))" using t by simp
  have "unat pos + unat sz \<le> 2 ^ 32" using range le by linarith
  from blk_part_bytes [OF ok le2 this] show "blk_part f pos sz = bytes_at f (unat pos) (unat sz)" .
  show "unat (pos + sz) = unat pos + unat sz" using range le by (intro unat_add_u32) linarith
  show e: "unat (cnt + sz) = unat cnt + unat sz" using lim le c by (intro unat_add_u32) linarith
  show "cnt + sz \<le> lim" unfolding word_le_unat e using le c by linarith
qed

lemma read_segs_bytes:
  assumes "read_segs n f pos cnt lim = (segs, pos', cnt')" "blocks_ok f" "cnt \<le> lim" "unat lim + 16384 < 2 ^ 32"
    "unat pos + (unat lim - unat cnt) < 2 ^ 32"
  shows "concat segs = bytes_at f (unat pos) (unat cnt' - unat cnt) \<and> unat cnt \<le> unat cnt' \<and> unat cnt' \<le> unat lim \<and>
    unat pos' = unat pos + (unat cnt' - unat cnt) \<and> length segs \<le> n \<and>
    (0 < n \<and> cnt < lim \<longrightarrow> segs \<noteq> [] \<and> unat cnt < unat cnt')"
  using assms
proof (induction n f pos cnt lim arbitrary: segs pos' cnt' rule: read_segs.induct)
  case (1 f pos cnt lim)
  then show ?case by (simp add: bytes_at_def word_le_unat)
next
  case (2 n f pos cnt lim)
  show ?case
  proof (cases "cnt < lim")
    case False
    then show ?thesis using "2.prems" by (simp add: bytes_at_def word_le_unat)
  next
    case True
    let ?sz = "blk_take pos cnt lim"
    note r = read_round [OF "2.prems"(2) True "2.prems"(4,5)]
    obtain segs1 p1 c1 where rs: "read_segs n f (pos + ?sz) (cnt + ?sz) lim = (segs1, p1, c1)"
      by (cases "read_segs n f (pos + ?sz) (cnt + ?sz) lim")
    have eq: "segs = blk_part f pos ?sz # segs1" "pos' = p1" "cnt' = c1"
      using "2.prems"(1) True rs by (simp_all add: Let_def)
    note le = r(6)
    have rg: "unat (pos + ?sz) + (unat lim - unat (cnt + ?sz)) < 2 ^ 32"
      unfolding r(4,5) using "2.prems"(5) r(3) by linarith
    have ih: "concat segs1 = bytes_at f (unat (pos + ?sz)) (unat c1 - unat (cnt + ?sz)) \<and> unat (cnt + ?sz) \<le> unat c1 \<and>
      unat c1 \<le> unat lim \<and> unat p1 = unat (pos + ?sz) + (unat c1 - unat (cnt + ?sz)) \<and> length segs1 \<le> n \<and>
      (0 < n \<and> cnt + ?sz < lim \<longrightarrow> segs1 \<noteq> [] \<and> unat (cnt + ?sz) < unat c1)"
      by (rule "2.IH" [OF True refl rs "2.prems"(2) le "2.prems"(4) rg])
    have d: "unat c1 - unat cnt = unat ?sz + (unat c1 - (unat cnt + unat ?sz))" using ih r(5) by linarith
    have "concat segs = bytes_at f (unat pos) (unat ?sz) @ bytes_at f (unat pos + unat ?sz) (unat c1 - (unat cnt + unat ?sz))"
      using ih r(1) unfolding eq concat.simps r(4,5) by (simp only:)
    also have "\<dots> = bytes_at f (unat pos) (unat c1 - unat cnt)" unfolding d by (rule bytes_at_append)
    finally have bytes: "concat segs = bytes_at f (unat pos) (unat c1 - unat cnt)" .
    have "unat cnt \<le> unat c1" "unat c1 \<le> unat lim" "unat cnt < unat c1" using ih r(2,5) by linarith+
    moreover have "unat p1 = unat pos + (unat c1 - unat cnt)" using ih r(4,5) d by linarith
    moreover have "length segs \<le> Suc n" "segs \<noteq> []" using ih unfolding eq by simp_all
    ultimately show ?thesis using bytes unfolding eq(2,3) by blast
  qed
qed

lemma read_rest_bytes:
  assumes "blocks_ok f" "cnt \<le> lim" "unat lim + 16384 < 2 ^ 32" "unat pos + (unat lim - unat cnt) < 2 ^ 32"
  shows "\<exists>pos'. read_rest f pos cnt lim tmp = Some (tmp @ bytes_at f (unat pos) (unat lim - unat cnt), pos', lim) \<and>
    unat pos' = unat pos + (unat lim - unat cnt)"
  using assms
proof (induction "unat lim - unat cnt" arbitrary: pos cnt tmp rule: less_induct)
  case less
  show ?case
  proof (cases "cnt < lim")
    case False
    then have "cnt = lim" using less.prems(2) by simp
    then show ?thesis by (simp add: read_rest.simps bytes_at_def)
  next
    case True
    let ?sz = "blk_take pos cnt lim"
    note r = read_round [OF less.prems(1) True less.prems(3,4)]
    note le = r(6)
    have rg: "unat (pos + ?sz) + (unat lim - unat (cnt + ?sz)) < 2 ^ 32"
      unfolding r(4,5) using less.prems(4) r(3) by linarith
    have "unat lim - unat (cnt + ?sz) < unat lim - unat cnt" using r(2,3,5) by linarith
    from less.hyps [OF this less.prems(1) le less.prems(3) rg, of "tmp @ blk_part f pos ?sz"]
    obtain p where p: "read_rest f (pos + ?sz) (cnt + ?sz) lim (tmp @ blk_part f pos ?sz) =
        Some ((tmp @ blk_part f pos ?sz) @ bytes_at f (unat (pos + ?sz)) (unat lim - unat (cnt + ?sz)), p, lim)"
      "unat p = unat (pos + ?sz) + (unat lim - unat (cnt + ?sz))" by blast
    have e: "bytes_at f (unat pos) (unat ?sz) @ bytes_at f (unat pos + unat ?sz) (unat lim - (unat cnt + unat ?sz)) =
      bytes_at f (unat pos) (unat lim - unat cnt)"
      unfolding bytes_at_append using r(3) by (intro arg_cong [where f = "bytes_at f (unat pos)"]) linarith
    have s: "read_rest f pos cnt lim tmp = read_rest f (pos + ?sz) (cnt + ?sz) lim (tmp @ blk_part f pos ?sz)"
      by (subst read_rest.simps) (simp add: True Let_def)
    show ?thesis
    proof (intro exI conjI)
      show "read_rest f pos cnt lim tmp = Some (tmp @ bytes_at f (unat pos) (unat lim - unat cnt), p, lim)"
        using p(1) e by (simp add: s r)
      show "unat p = unat pos + (unat lim - unat cnt)" using p(2) r(3,4,5) by linarith
    qed
  qed
qed

text \<open>
  C32: a read returns the bytes of the file from the client's position on, as many as it asked for
  up to the end of the file, in at most four segments, and moves the position past them; when
  there is no storage for the last segment the read is short, but not empty. A hole reads as
  zeroes.
\<close>

theorem tmpfs_read_spec:
  assumes open_f: "f_file f \<noteq> NULL" and acc: "f_perm f AND ACC_READ \<noteq> 0"
    and pos: "f_pos f < o_len (ofs s (f_file f))" and ok: "blocks_ok (ofs s (f_file f))"
    and n: "n = min (unat (o_len (ofs s (f_file f))) - unat (f_pos f)) (unat (m_arg m))" "n + 16384 < 2 ^ 32"
  shows "\<exists>k segs pos'. tmpfs_read e m f s = Some (f\<lparr>f_pos := pos'\<rparr>, s, [Reply (of_nat k) 0 segs]) \<and>
    k \<le> n \<and> (e_ok e 0 \<longrightarrow> k = n) \<and> (0 < n \<longrightarrow> 0 < k) \<and> unat pos' = unat (f_pos f) + k \<and> length segs \<le> MSGSEGS \<and>
    concat segs = map (fbyte (ofs s (f_file f))) [unat (f_pos f)..<unat (f_pos f) + k]"
proof -
  let ?o = "ofs s (f_file f)"
  let ?lim = "if o_len ?o - f_pos f < m_arg m then o_len ?o - f_pos f else m_arg m"
  have p: "unat (f_pos f) < unat (o_len ?o)" using pos by (simp only: word_less_unat)
  have "unat (o_len ?o - f_pos f) = unat (o_len ?o) - unat (f_pos f)" using p by (intro unat_sub_u32) simp
  then have lim: "unat ?lim = n" by (simp add: n word_less_unat min_def)
  have "n \<le> unat (o_len ?o) - unat (f_pos f)" by (simp add: n(1))
  then have "unat (f_pos f) + n < 4294967296" using p unat_u32_lt [of "o_len ?o"] by linarith
  then have rg: "unat (f_pos f) + n < 2 ^ 32" by simp
  obtain segs p1 c1 where rs: "read_segs MSGSEGS ?o (f_pos f) 0 ?lim = (segs, p1, c1)"
    by (cases "read_segs MSGSEGS ?o (f_pos f) 0 ?lim")
  have segs0: "0 < MSGSEGS" by (simp add: MSGSEGS_def)
  have r: "concat segs = bytes_at ?o (unat (f_pos f)) (unat c1) \<and> unat c1 \<le> n \<and>
    unat p1 = unat (f_pos f) + unat c1 \<and> length segs \<le> MSGSEGS \<and> (0 < n \<longrightarrow> segs \<noteq> [] \<and> 0 < unat c1)"
    using read_segs_bytes [OF rs ok] n(2) rg lim segs0
    by (simp add: word_less_unat word_le_unat split del: if_split)
  have len: "\<not> o_len ?o \<le> f_pos f" using pos by simp
  have tr: "tmpfs_read e m f s =
      (if c1 < ?lim \<and> e_ok e 0 then map_option (\<lambda>(buf, pos1, cnt1).
         (f\<lparr>f_pos := pos1\<rparr>, s, [Reply cnt1 0 (butlast segs @ [buf])])) (read_rest ?o p1 c1 ?lim (last segs))
       else Some (f\<lparr>f_pos := p1\<rparr>, s, [Reply c1 0 segs]))"
    unfolding tmpfs_read_def Let_def using open_f acc len rs by (simp only: if_False prod.case)
  show ?thesis
  proof (cases "c1 < ?lim \<and> e_ok e 0")
    case False
    then have "tmpfs_read e m f s = Some (f\<lparr>f_pos := p1\<rparr>, s, [Reply (of_nat (unat c1)) 0 segs])"
      by (simp only: tr if_not_P [OF False]) simp
    moreover have "e_ok e 0 \<longrightarrow> unat c1 = n" using False r lim by (auto simp: word_less_unat)
    ultimately show ?thesis using r by (intro exI [of _ "unat c1"] exI [of _ segs] exI [of _ p1]) (simp add: bytes_at_def)
  next
    case True
    then have c: "unat c1 < n" using lim by (simp only: word_less_unat)
    have rr: "\<exists>pos'. read_rest ?o p1 c1 ?lim (last segs) =
        Some (last segs @ bytes_at ?o (unat p1) (unat ?lim - unat c1), pos', ?lim) \<and>
      unat pos' = unat p1 + (unat ?lim - unat c1)"
      using r c rg n(2) lim by (intro read_rest_bytes ok) (simp_all add: word_le_unat split del: if_split)
    then obtain pos' where rr: "read_rest ?o p1 c1 ?lim (last segs) =
        Some (last segs @ bytes_at ?o (unat p1) (n - unat c1), pos', ?lim)" "unat pos' = unat p1 + (n - unat c1)"
      unfolding lim by blast
    have ne: "segs \<noteq> []" using r c by simp
    have "tmpfs_read e m f s = Some (f\<lparr>f_pos := pos'\<rparr>, s,
        [Reply ?lim 0 (butlast segs @ [last segs @ bytes_at ?o (unat p1) (n - unat c1)])])"
      by (simp only: tr if_P [OF True] rr(1)) simp
    moreover have "?lim = of_nat n" unfolding lim [symmetric] by simp
    moreover have "concat (butlast segs @ [last segs @ bytes_at ?o (unat p1) (n - unat c1)]) =
      concat (butlast segs @ [last segs]) @ bytes_at ?o (unat p1) (n - unat c1)" by simp
    then have "concat (butlast segs @ [last segs @ bytes_at ?o (unat p1) (n - unat c1)]) = bytes_at ?o (unat (f_pos f)) n"
      using r ne c bytes_at_append [of ?o "unat (f_pos f)" "unat c1" "n - unat c1"] by simp
    moreover have "length (butlast segs @ [last segs @ bytes_at ?o (unat p1) (n - unat c1)]) \<le> MSGSEGS"
      using r ne by simp
    ultimately show ?thesis using r c rr(2)
      by (intro exI [of _ n] exI [of _ "butlast segs @ [last segs @ bytes_at ?o (unat p1) (n - unat c1)]"] exI [of _ pos'])
        (simp add: bytes_at_def)
  qed
qed

subsection \<open>Writing\<close>

text \<open>
  C31: with storage for its blocks a write lays the bytes of all its segments over the file at the
  client's position, changes no other byte, makes the file as long as the end of the write when
  it was shorter, moves the position past what was written and replies with the number of bytes.
\<close>

theorem tmpfs_write_spec:
  assumes open_f: "f_file f \<noteq> NULL" and acc: "f_perm f AND ACC_WRITE \<noteq> 0"
    and store: "\<forall>k. e_ok e k" and ok: "blocks_ok (ofs s (f_file f))" and segs: "m_segs m \<noteq> []"
    and range: "unat (f_pos f) + length (concat (m_segs m)) < 2 ^ 32"
  shows "\<exists>o1 pos1. tmpfs_write e m f s =
      (f\<lparr>f_pos := pos1\<rparr>, s\<lparr>ofs := (ofs s)(f_file f := o1)\<rparr>, [Reply (of_nat (length (concat (m_segs m)))) 0 []]) \<and>
    unat pos1 = unat (f_pos f) + length (concat (m_segs m)) \<and>
    unat (o_len o1) = max (unat (o_len (ofs s (f_file f)))) (unat pos1) \<and>
    blocks_ok o1 \<and> same_meta2 (ofs s (f_file f)) o1 \<and>
    (\<forall>q<2 ^ 32. fbyte o1 q =
      (if unat (f_pos f) \<le> q \<and> q < unat pos1 then concat (m_segs m) ! (q - unat (f_pos f)) else fbyte (ofs s (f_file f)) q))"
proof -
  let ?o = "ofs s (f_file f)"
  obtain err cnt o1 pos1 where w: "write_segs e (m_segs m) ?o (f_pos f) 0 0 = (err, cnt, o1, pos1)"
    by (cases "write_segs e (m_segs m) ?o (f_pos f) 0 0")
  note b = write_segs_bytes [OF w ok store range] and c = write_segs_ok [OF w ok]
  have cnt: "cnt = of_nat (length (concat (m_segs m)))" and err: "\<not> err"
    and p: "unat pos1 = unat (f_pos f) + length (concat (m_segs m))" using b by simp_all
  show ?thesis
  proof (intro exI conjI)
    show "tmpfs_write e m f s = (f\<lparr>f_pos := pos1\<rparr>, s\<lparr>ofs := (ofs s)(f_file f := o1)\<rparr>,
        [Reply (of_nat (length (concat (m_segs m)))) 0 []])"
      using open_f acc err by (simp add: tmpfs_write_def w upd_of_def cnt)
    show "unat pos1 = unat (f_pos f) + length (concat (m_segs m))" by (rule p)
    show "unat (o_len o1) = max (unat (o_len ?o)) (unat pos1)" using b segs by (simp add: p)
    show "blocks_ok o1" "same_meta2 ?o o1" using c by blast+
    show "\<forall>q<2 ^ 32. fbyte o1 q =
      (if unat (f_pos f) \<le> q \<and> q < unat pos1 then concat (m_segs m) ! (q - unat (f_pos f)) else fbyte ?o q)"
      using b unfolding p by blast
  qed
qed

text \<open>A file of five bytes, and a client that has it open at position 1.\<close>

definition demo_file :: openfile where
  "demo_file = \<lparr>o_name = ''note'', o_blocks = [0 \<mapsto> ''hello'' @ replicate 2043 NUL], o_len = 5,
     o_prot = \<lparr>prot_len = 1, prot_default = 4, prot_id = replicate PERMLEN 1, prot_bits = replicate PERMLEN 2\<rparr>,
     o_refs = 1, o_owner = 7, o_deleted = False\<rparr>"

definition demo_client :: file_t where
  "demo_client = \<lparr>f_file = 10, f_pos = 1, f_perms = [], f_nperm = 0, f_perm = ACC_READ OR ACC_WRITE\<rparr>"

definition demo_state :: tmpfs where
  "demo_state = \<lparr>ofs = (\<lambda>_. demo_file), files = [10], filehash = [(3, demo_client)]\<rparr>"

definition demo_env :: env where
  "demo_env = \<lparr>e_ok = (\<lambda>_. True), e_addr = 20,
     e_junk = \<lparr>perm_len = 0, perm_id = replicate PERMLEN 0, perm_uid = 0\<rparr>, e_err = ''no mem''\<rparr>"

lemmas demo_defs = demo_file_def demo_client_def demo_state_def demo_env_def

lemma demo_blocks_ok: "blocks_ok (ofs demo_state 10)"
  by (simp add: blocks_ok_def demo_defs blksize_def block_consts)

theorem tmpfs_read_spec_witness:
  "\<exists>segs pos'. tmpfs_read demo_env \<lparr>m_sender = 3, m_op = FS_READ, m_arg = 3, m_arg1 = 0, m_segs = []\<rparr> demo_client demo_state
     = Some (demo_client\<lparr>f_pos := pos'\<rparr>, demo_state, [Reply 3 0 segs]) \<and> unat pos' = 4 \<and>
    concat segs = map (fbyte (ofs demo_state 10)) [1..<4]"
proof -
  let ?m = "\<lparr>m_sender = 3, m_op = FS_READ, m_arg = 3, m_arg1 = 0, m_segs = []\<rparr>"
  have f: "f_file demo_client = 10" "unat (f_pos demo_client) = 1" by (simp_all add: demo_defs)
  have a: "f_file demo_client \<noteq> NULL" "f_perm demo_client AND ACC_READ \<noteq> 0"
    "f_pos demo_client < o_len (ofs demo_state (f_file demo_client))" "blocks_ok (ofs demo_state (f_file demo_client))"
    using demo_blocks_ok by (simp_all add: f(1)) (simp_all add: demo_defs ACC_defs)
  have n: "(3 :: nat) = min (unat (o_len (ofs demo_state (f_file demo_client))) - unat (f_pos demo_client)) (unat (m_arg ?m))"
    by (simp add: demo_defs)
  have n2: "(3 :: nat) + 16384 < 2 ^ 32" by simp
  from tmpfs_read_spec [OF a n n2, of demo_env] obtain k segs pos' where r:
    "tmpfs_read demo_env ?m demo_client demo_state = Some (demo_client\<lparr>f_pos := pos'\<rparr>, demo_state, [Reply (of_nat k) 0 segs])"
    "e_ok demo_env 0 \<longrightarrow> k = 3" "unat pos' = 1 + k" "concat segs = map (fbyte (ofs demo_state 10)) [1..<1 + k]"
    unfolding f by blast
  have "k = 3" using r(2) by (simp add: demo_env_def)
  then have "(1 :: nat) + k = 4" "(of_nat k :: uint) = 3" by simp_all
  with r(1,3,4) show ?thesis by metis
qed

theorem tmpfs_write_spec_witness:
  "\<exists>o1 pos1. tmpfs_write demo_env \<lparr>m_sender = 3, m_op = FS_WRITE, m_arg = 0, m_arg1 = 0, m_segs = [''ipp'', ''o!'']\<rparr>
      demo_client demo_state = (demo_client\<lparr>f_pos := pos1\<rparr>, demo_state\<lparr>ofs := (ofs demo_state)(10 := o1)\<rparr>, [Reply 5 0 []]) \<and>
    unat pos1 = 6 \<and> unat (o_len o1) = 6 \<and> fbyte o1 5 = CHR ''!''"
proof -
  let ?m = "\<lparr>m_sender = 3, m_op = FS_WRITE, m_arg = 0, m_arg1 = 0, m_segs = [''ipp'', ''o!'']\<rparr>"
  have f: "f_file demo_client = 10" "unat (f_pos demo_client) = 1" "unat (o_len (ofs demo_state 10)) = 5"
    "length (concat (m_segs ?m)) = 5" by (simp_all add: demo_defs)
  have a: "f_file demo_client \<noteq> NULL" "f_perm demo_client AND ACC_WRITE \<noteq> 0" "\<forall>k. e_ok demo_env k"
    "blocks_ok (ofs demo_state (f_file demo_client))" "m_segs ?m \<noteq> []"
    "unat (f_pos demo_client) + length (concat (m_segs ?m)) < 2 ^ 32"
    using demo_blocks_ok by (simp_all add: f) (simp_all add: demo_defs ACC_defs)
  from tmpfs_write_spec [OF a] obtain o1 pos1 where r:
    "tmpfs_write demo_env ?m demo_client demo_state =
      (demo_client\<lparr>f_pos := pos1\<rparr>, demo_state\<lparr>ofs := (ofs demo_state)(10 := o1)\<rparr>, [Reply (of_nat 5) 0 []])"
    "unat pos1 = 1 + 5" "unat (o_len o1) = max 5 (unat pos1)"
    "\<forall>q<2 ^ 32. fbyte o1 q = (if 1 \<le> q \<and> q < unat pos1 then concat (m_segs ?m) ! (q - 1) else fbyte (ofs demo_state 10) q)"
    unfolding f by blast
  have "fbyte o1 5 = CHR ''!''" using r(2) spec [OF r(4), of 5] by simp
  moreover have "unat pos1 = 6" "unat (o_len o1) = 6" "(of_nat 5 :: uint) = 5" using r(2,3) by simp_all
  ultimately show ?thesis using r(1) by metis
qed

subsection \<open>The invariant\<close>

text \<open>
  The states the server can reach: any messages, any decisions of the environment, with addresses
  that are not in use for new files, and fewer than \<open>2 ^ 32\<close> clients.
\<close>

inductive tmpfs_reach :: "tmpfs \<Rightarrow> bool" where
  init: "tmpfs_reach tmpfs_init"
| step: "tmpfs_reach s \<Longrightarrow> tmpfs_main e m s = Inr (s', out) \<Longrightarrow> e_addr e \<noteq> NULL \<Longrightarrow> e_addr e \<notin> set (files s) \<Longrightarrow>
    length (filehash s) < 2 ^ 32 - 1 \<Longrightarrow> tmpfs_reach s'"

lemma tmpfs_reach_inv: "tmpfs_reach s \<Longrightarrow> tmpfs_inv s"
proof (induction rule: tmpfs_reach.induct)
  case init
  show ?case by (simp add: tmpfs_inv_def tmpfs_init_def dir_ok_def)
next
  case (step s e m s' out)
  then show ?case using main_inv by blast
qed

text \<open>
  C30: whatever messages the server gets, the names in its directory are all different, every client
  has the root or a file of the directory open, the count of a file is the number of clients that
  have it open, a deleted file still in the directory is open, and every block has the size that
  belongs to its number.
\<close>

theorem tmpfs_invariant:
  assumes "tmpfs_reach s"
  shows "distinct (map (\<lambda>p. o_name (ofs s p)) (files s)) \<and>
    (\<forall>x \<in> set (filehash s). f_file (snd x) = NULL \<or> f_file (snd x) \<in> set (files s)) \<and>
    (\<forall>p \<in> set (files s).
       o_refs (ofs s p) = of_nat (length (filter (\<lambda>x. f_file (snd x) = p) (filehash s))) \<and>
       (o_deleted (ofs s p) \<longrightarrow> (\<exists>x \<in> set (filehash s). f_file (snd x) = p)) \<and>
       (\<forall>blk b. o_blocks (ofs s p) blk = Some b \<longrightarrow> length b = blksize blk))"
proof -
  note d = dir_okD [OF tmpfs_reach_inv [OF assms, unfolded tmpfs_inv_def]]
  have "inj_on (\<lambda>p. o_name (ofs s p)) (set (files s))" by (rule inj_onI) (rule d(3))
  then have names: "distinct (map (\<lambda>p. o_name (ofs s p)) (files s))" using d(1) by (simp add: distinct_map)
  have clients: "f_file (snd x) = NULL \<or> f_file (snd x) \<in> set (files s)" if "x \<in> set (filehash s)" for x
    using d(4) [OF that] by (cases "f_file (snd x) = NULL") (simp_all add: client_ok_def)
  have files: "o_refs (ofs s p) = of_nat (length (filter (\<lambda>x. f_file (snd x) = p) (filehash s))) \<and>
     (o_deleted (ofs s p) \<longrightarrow> (\<exists>x \<in> set (filehash s). f_file (snd x) = p)) \<and>
     (\<forall>blk b. o_blocks (ofs s p) blk = Some b \<longrightarrow> length b = blksize blk)" if p: "p \<in> set (files s)" for p
  proof -
    note r = d(5) [OF p, unfolded open_ok_def]
    show ?thesis
    proof (intro conjI impI)
      show "o_refs (ofs s p) = of_nat (length (filter (\<lambda>x. f_file (snd x) = p) (filehash s)))"
        using conjunct1 [OF r] by (simp only: opens_def)
      show "\<forall>blk b. o_blocks (ofs s p) blk = Some b \<longrightarrow> length b = blksize blk"
        using conjunct2 [OF conjunct2 [OF r]] by (simp only: blocks_ok_def)
      assume "o_deleted (ofs s p)"
      then have "o_refs (ofs s p) \<noteq> 0" using conjunct1 [OF conjunct2 [OF r]] by (rule mp [rotated])
      then have "opens p (filehash s) \<noteq> 0" by (rule contrapos_nn) (simp add: conjunct1 [OF r])
      then show "\<exists>x \<in> set (filehash s). f_file (snd x) = p" using opens_0 [of p "filehash s"] by meson
    qed
  qed
  show ?thesis using names clients files by blast
qed

theorem tmpfs_invariant_witness:
  "\<exists>s. tmpfs_reach s \<and> length (filehash s) = 1 \<and>
    (\<forall>x \<in> set (filehash s). f_file (snd x) = NULL \<or> f_file (snd x) \<in> set (files s))"
proof -
  let ?m = "\<lparr>m_sender = 3, m_op = M_CONNECT, m_arg = 0, m_arg1 = 0, m_segs = [replicate 12 NUL]\<rparr>"
  have "\<exists>s out. tmpfs_main demo_env ?m tmpfs_init = Inr (s, out) \<and> length (filehash s) = 1"
    by (simp add: tmpfs_main_def new_client_def client_perms_def perms_in_def obind_def M_defs MSG_MASK_def
      demo_env_def m_buf_def PROCPERMS_def tmpfs_init_def)
  then obtain s out where s: "tmpfs_main demo_env ?m tmpfs_init = Inr (s, out)" "length (filehash s) = 1" by blast
  have "tmpfs_reach s"
    by (rule tmpfs_reach.step [OF init s(1)]) (simp_all add: demo_env_def tmpfs_init_def)
  with tmpfs_invariant [OF this] s(2) show ?thesis by blast
qed

subsection \<open>Files of the superuser\<close>

lemma find_snoc: "find P xs = None \<Longrightarrow> find P (xs @ [x]) = (if P x then Some x else None)"
  by (induction xs) (auto split: if_splits)

lemma perm_calc_locked: "perm_calc ids n (pr\<lparr>prot_len := 0, prot_default := 0\<rparr>) = 0"
  by (rule bit_word_eqI) (simp add: bit_perm_calc bit_perm_step)

text \<open>
  A file created by a client whose first ability is the empty label, the superuser's, is locked
  for everybody: its protection has no level to carry the owner's bits, so whoever opens or
  removes it, the superuser included, is refused.
\<close>

theorem tmpfs_root_file_locked:
  assumes inv: "tmpfs_inv s" and root: "PERM_LEN (f_perms f ! 0) = 0" and f: "f_file f = NULL"
    and name: "dir_lookup (cstr (m_buf m)) s = NULL" and arg: "m_arg m AND ACC_DIR = 0" "m_arg m AND ACC_CREATE \<noteq> 0"
    and store: "\<forall>k. e_ok e k" and fresh: "e_addr e \<noteq> NULL" "e_addr e \<notin> set (files s)"
    and again: "f_file g = NULL" "cstr (m_buf m') = cstr (m_buf m)"
  shows "\<exists>f' s'. tmpfs_open e m f s = Inr (f', s', [Reply 0 0 []]) \<and> cstr (m_buf m) \<in> (\<lambda>p. o_name (ofs s' p)) ` set (files s') \<and>
    tmpfs_remove e' m' g s' = Inr (g, s', [Err E_PERM]) \<and>
    (m_arg m' AND ACC_DIR = 0 \<and> m_arg m' AND (ACC_READ OR ACC_WRITE OR ACC_CHMOD) \<noteq> 0 \<longrightarrow>
      tmpfs_open e' m' g s' = Inr (g, s', [Err E_PERM]))"
proof -
  let ?name = "cstr (m_buf m)" and ?p = "e_addr e"
  let ?x = "\<lparr>o_name = ?name, o_blocks = Map.empty, o_len = 0, o_prot = new_prot (f_perms f ! 0), o_refs = 0,
      o_owner = perm_uid (f_perms f ! 0), o_deleted = False\<rparr>"
  let ?s = "upd_of ?p (\<lambda>x. x\<lparr>o_refs := o_refs x + 1\<rparr>) (s\<lparr>files := files s @ [?p], ofs := (ofs s)(?p := ?x)\<rparr>)"
  have op: "tmpfs_open e m f s = Inr (f\<lparr>f_file := ?p, f_perm := ACC_READ OR ACC_WRITE OR ACC_CHMOD\<rparr>, ?s, [Reply 0 0 []])"
    using assms by (simp add: tmpfs_open_def dir_newfile_def Let_def)
  have "\<forall>q \<in> set (files s). o_name (ofs s q) \<noteq> ?name"
    using name dir_okD(2) [OF inv [unfolded tmpfs_inv_def]] by (cases rule: dir_lookup_cases [of ?name s]) auto
  then have "find (\<lambda>q. o_name (ofs ?s q) = ?name) (files s) = None"
    using fresh(2) by (auto simp: find_None_iff upd_of_def)
  then have look: "dir_lookup ?name ?s = ?p" by (simp add: dir_lookup_def find_snoc upd_of_def)
  have "new_prot (f_perms f ! 0) = (new_prot (f_perms f ! 0))\<lparr>prot_len := 0, prot_default := 0\<rparr>"
    using root by (simp add: new_prot_def Let_def)
  then have z: "perm_calc ids n (o_prot (ofs ?s ?p)) = 0" for ids n
    using perm_calc_locked [of ids n "new_prot (f_perms f ! 0)"] by (simp add: upd_of_def)
  show ?thesis
  proof (intro exI conjI impI)
    show "tmpfs_open e m f s = Inr (f\<lparr>f_file := ?p, f_perm := ACC_READ OR ACC_WRITE OR ACC_CHMOD\<rparr>, ?s, [Reply 0 0 []])"
      by (rule op)
    show "?name \<in> (\<lambda>p. o_name (ofs ?s p)) ` set (files ?s)" by (simp add: upd_of_def)
    show "tmpfs_remove e' m' g ?s = Inr (g, ?s, [Err E_PERM])"
      using again look z fresh(1) by (simp add: tmpfs_remove_def Let_def)
    assume "m_arg m' AND ACC_DIR = 0 \<and> m_arg m' AND (ACC_READ OR ACC_WRITE OR ACC_CHMOD) \<noteq> 0"
    then show "tmpfs_open e' m' g ?s = Inr (g, ?s, [Err E_PERM])"
      using again look z fresh(1) by (simp add: tmpfs_open_def Let_def)
  qed
qed

theorem tmpfs_root_file_locked_witness:
  "\<exists>f' s'. tmpfs_open demo_env \<lparr>m_sender = 3, m_op = FS_OPEN, m_arg = ACC_CREATE, m_arg1 = 0, m_segs = [''log'' @ [NUL]]\<rparr>
      \<lparr>f_file = NULL, f_pos = 0, f_perms = [e_junk demo_env], f_nperm = 1, f_perm = 0\<rparr> tmpfs_init
    = Inr (f', s', [Reply 0 0 []]) \<and>
    tmpfs_remove demo_env \<lparr>m_sender = 3, m_op = FS_REMOVE, m_arg = 0, m_arg1 = 0, m_segs = [''log'' @ [NUL]]\<rparr>
      \<lparr>f_file = NULL, f_pos = 0, f_perms = [e_junk demo_env], f_nperm = 1, f_perm = 0\<rparr> s'
    = Inr (\<lparr>f_file = NULL, f_pos = 0, f_perms = [e_junk demo_env], f_nperm = 1, f_perm = 0\<rparr>, s', [Err E_PERM])"
proof -
  let ?f = "\<lparr>f_file = NULL, f_pos = 0, f_perms = [e_junk demo_env], f_nperm = 1, f_perm = 0\<rparr>"
  let ?m = "\<lparr>m_sender = 3, m_op = FS_OPEN, m_arg = ACC_CREATE, m_arg1 = 0, m_segs = [''log'' @ [NUL]]\<rparr>"
  let ?m' = "\<lparr>m_sender = 3, m_op = FS_REMOVE, m_arg = 0, m_arg1 = 0, m_segs = [''log'' @ [NUL]]\<rparr>"
  have inv: "tmpfs_inv tmpfs_init" by (rule tmpfs_reach_inv [OF init])
  have root: "PERM_LEN (f_perms ?f ! 0) = 0" by (simp add: demo_env_def PERM_LEN_def)
  have name: "dir_lookup (cstr (m_buf ?m)) tmpfs_init = NULL" by (simp add: dir_lookup_def tmpfs_init_def)
  have arg: "m_arg ?m AND ACC_DIR = 0" "m_arg ?m AND ACC_CREATE \<noteq> 0" by (simp_all add: ACC_defs)
  have env: "\<forall>k. e_ok demo_env k" "e_addr demo_env \<noteq> NULL" "e_addr demo_env \<notin> set (files tmpfs_init)"
    by (simp_all add: demo_env_def tmpfs_init_def)
  have f: "f_file ?f = NULL" "cstr (m_buf ?m') = cstr (m_buf ?m)" by (simp_all add: m_buf_def)
  show ?thesis using tmpfs_root_file_locked [OF inv root f(1) name arg env f, of demo_env] by blast
qed

end
