(* ===== verification/Pipe.thy ===== *)
theory Pipe
  imports Srvlib Scan
begin

text \<open>
  The pipe server \<open>src/src/srv/pipe\<close>. A writer's request stays queued, with its segments mapped, until
  readers took all of its bytes; a reader's request stays queued until there is a writer. One
  function per handler; replies go to any client, so they carry the sender they are for.

  Requests are queued as the structures of the clients (\<open>struct file\<close>), which are therefore kept under
  their addresses. The lists (\<open>Ring_List\<close>) are lists of these addresses; a list node, the
  value of \<open>f_q\<close>, is the list it is in and the file it holds.
\<close>

subsection \<open>Data\<close>

definition PIPE_CLOSED_FOR_READS :: int where "PIPE_CLOSED_FOR_READS = - 1"

definition E_PIPE :: string where "E_PIPE = ''broken pipe''"

datatype side = Readers ptr | Writers ptr

record pipe =
  p_prot :: prot
  p_refs :: int
  p_owner :: uint
  p_readers :: "ptr list"
  p_writers :: "ptr list"
  p_nwrite :: int
  p_nread :: int

record pfile =
  f_file :: ptr
  f_perms :: "perm list"
  f_nperm :: nat
  f_perm :: uint
  f_msg :: msg
  f_q :: "(side \<times> ptr) option"
  f_pos :: uint

record pipes =
  pfs :: "ptr \<Rightarrow> pfile"
  pps :: "ptr \<Rightarrow> pipe"
  pfiles :: "ptr list"
  pclients :: "ptr clients"

type_synonym preply = "ulong \<times> reply"

definition upd_pf :: "ptr \<Rightarrow> (pfile \<Rightarrow> pfile) \<Rightarrow> pipes \<Rightarrow> pipes" where
  "upd_pf a g s = s\<lparr>pfs := (pfs s)(a := g (pfs s a))\<rparr>"

definition upd_pp :: "ptr \<Rightarrow> (pipe \<Rightarrow> pipe) \<Rightarrow> pipes \<Rightarrow> pipes" where
  "upd_pp a g s = s\<lparr>pps := (pps s)(a := g (pps s a))\<rparr>"

text \<open>\<open>ll_delete(f->f_q); f->f_q = 0\<close>\<close>

definition del_node :: "side \<times> ptr \<Rightarrow> pipes \<Rightarrow> pipes" where
  "del_node n s =
     (case n of
        (Readers o', f) \<Rightarrow> upd_pp o' (\<lambda>x. x\<lparr>p_readers := remove1 f (p_readers x)\<rparr>) s
      | (Writers o', f) \<Rightarrow> upd_pp o' (\<lambda>x. x\<lparr>p_writers := remove1 f (p_writers x)\<rparr>) s)"

definition unqueue :: "ptr \<Rightarrow> pipes \<Rightarrow> pipes outcome" where
  "unqueue f s =
     (case f_q (pfs s f) of
        None \<Rightarrow> Inl NullDeref
      | Some n \<Rightarrow> Inr (upd_pf f (\<lambda>x. x\<lparr>f_q := None\<rparr>) (del_node n s)))"

subsection \<open>rw.c\<close>

definition pipe_abort :: "msg \<Rightarrow> ptr \<Rightarrow> pipes \<Rightarrow> pipes \<times> preply list" where
  "pipe_abort m f s =
     (case f_q (pfs s f) of
        None \<Rightarrow> (s, [(m_sender m, Reply 0 0 [])])
      | Some n \<Rightarrow> (upd_pf f (\<lambda>x. x\<lparr>f_q := None\<rparr>) (del_node n s), [(m_sender m, Reply 0 0 [])]))"

text \<open>
  The loop of \<open>sendseg\<close>: \<open>k\<close> segments are free in the reply. The result is the segments sent and
  what is left of the writer's.
\<close>

fun send_segs :: "nat \<Rightarrow> string list \<Rightarrow> nat \<Rightarrow> string list \<times> string list" where
  "send_segs 0 ss nbyte = ([], ss)"
| "send_segs (Suc k) [] nbyte = ([], [])"
| "send_segs (Suc k) (s # ss) nbyte =
     (if nbyte = 0 then ([], s # ss)
      else
        (let cnt = (if nbyte < length s then nbyte else length s);
             ss1 = (if length s = cnt then ss else drop cnt s # ss)
         in case send_segs k ss1 (nbyte - cnt) of (sent, rest) \<Rightarrow> (take cnt s # sent, rest)))"

text \<open>The reply to a reader from the writer's file \<open>w\<close>.\<close>

definition sendseg :: "ulong \<Rightarrow> ptr \<Rightarrow> ulong \<Rightarrow> pipes \<Rightarrow> pipes \<times> preply list" where
  "sendseg retaddr w nbyte s =
     (let m = f_msg (pfs s w)
      in case send_segs MSGSEGS (m_segs m) (unat nbyte) of
           (sent, rest) \<Rightarrow>
             (let cnt = of_nat (length (concat sent))
              in (upd_pf w (\<lambda>x. x\<lparr>f_msg := m\<lparr>m_segs := rest, m_arg := m_arg m + cnt\<rparr>\<rparr>) s,
                  [(retaddr, Reply cnt 0 sent)])))"

text \<open>One reader is served by one writer, which is answered when its bytes are gone. The replies of the loops are collected in their last argument.\<close>

definition serve_reader :: "ptr \<Rightarrow> ptr \<Rightarrow> pipes \<Rightarrow> (pipes \<times> preply list) outcome" where
  "serve_reader r w s =
     obind (unqueue r s) (\<lambda>s1.
       case sendseg (m_sender (f_msg (pfs s1 r))) w (m_arg (f_msg (pfs s1 r))) s1 of
         (s2, out) \<Rightarrow>
           if m_segs (f_msg (pfs s2 w)) = [] then
             obind (unqueue w s2) (\<lambda>s3.
               (let s4 = upd_pf w (\<lambda>x. x\<lparr>f_msg := (f_msg x)\<lparr>m_arg1 := 0\<rparr>\<rparr>) s3; m = f_msg (pfs s4 w)
                in Inr (s4, out @ [(m_sender m, Reply (m_arg m) 0 [])])))
           else Inr (s2, out))"

partial_function (option) run_readers :: "ptr \<Rightarrow> pipes \<Rightarrow> preply list \<Rightarrow> (pipes \<times> preply list) outcome option" where
  "run_readers p s out =
     (case p_readers (pps s p) of
        [] \<Rightarrow> Some (Inr (s, out))
      | r # _ \<Rightarrow>
          (case p_writers (pps s p) of
             [] \<Rightarrow> Some (Inr (s, out))
           | w # _ \<Rightarrow>
               (case serve_reader r w s of
                  Inl e \<Rightarrow> Some (Inl e)
                | Inr (s1, out1) \<Rightarrow> run_readers p s1 (out @ out1))))"

declare run_readers.simps [code]

definition run_or :: "ptr \<Rightarrow> bool \<Rightarrow> pipes \<Rightarrow> (pipes \<times> preply list) outcome option" where
  "run_or p run s = (if run then run_readers p s [] else Some (Inr (s, [])))"

definition pipe_write :: "env \<Rightarrow> msg \<Rightarrow> ptr \<Rightarrow> pipes \<Rightarrow> (pipes \<times> preply list) outcome option" where
  "pipe_write e m f s =
     (let p = f_file (pfs s f)
      in if p = NULL \<or> f_perm (pfs s f) AND ACC_WRITE = 0 then Some (Inr (s, [(m_sender m, Err E_PERM)]))
         else if p_nread (pps s p) = PIPE_CLOSED_FOR_READS then Some (Inr (s, [(m_sender m, Err E_PIPE)]))
         else if \<not> e_ok e 0 then Some (Inr (upd_pf f (\<lambda>x. x\<lparr>f_q := None\<rparr>) s, [(m_sender m, Err (e_err e))]))
         else
           (let s1 = upd_pf f (\<lambda>x. x\<lparr>f_q := Some (Writers p, f), f_msg := m\<lparr>m_arg := 0\<rparr>\<rparr>)
                       (upd_pp p (\<lambda>x. x\<lparr>p_writers := p_writers x @ [f]\<rparr>) s)
            in run_or p (p_readers (pps s1 p) \<noteq> []) s1))"

text \<open>The name of a pipe is its address in decimal.\<close>

definition pipe_name :: "ptr \<Rightarrow> string" where
  "pipe_name p = (case num_str (of_nat p) 10 True of None \<Rightarrow> [] | Some t \<Rightarrow> t)"

definition pipe_readdir :: "env \<Rightarrow> msg \<Rightarrow> ptr \<Rightarrow> pipes \<Rightarrow> pipes \<times> preply list" where
  "pipe_readdir e m f s =
     (let len = (if 256 < m_arg m then 256 else m_arg m)
      in if \<not> e_ok e 0 then (s, [(m_sender m, Err (e_err e))])
         else (case readdir_loop (map pipe_name (pfiles s)) (f_pos (pfs s f)) len 0 of
                 (buf, pos) \<Rightarrow>
                   (upd_pf f (\<lambda>x. x\<lparr>f_pos := pos\<rparr>) s,
                    [(m_sender m, Reply (of_nat (length buf)) 0 (if buf = [] then [] else [buf]))])))"

definition pipe_read :: "env \<Rightarrow> msg \<Rightarrow> ptr \<Rightarrow> pipes \<Rightarrow> (pipes \<times> preply list) outcome option" where
  "pipe_read e m f s =
     (let p = f_file (pfs s f)
      in if p = NULL then Some (Inr (pipe_readdir e m f s))
         else if f_perm (pfs s f) AND ACC_READ = 0 then Some (Inr (s, [(m_sender m, Err E_PERM)]))
         else if p_nwrite (pps s p) = 0 then Some (Inr (s, [(m_sender m, Reply 0 0 [])]))
         else if \<not> e_ok e 0 then Some (Inr (upd_pf f (\<lambda>x. x\<lparr>f_q := None\<rparr>) s, [(m_sender m, Err (e_err e))]))
         else
           (let s1 = upd_pf f (\<lambda>x. x\<lparr>f_q := Some (Readers p, f),
                         f_msg := (f_msg x)\<lparr>m_sender := m_sender m, m_arg := m_arg m\<rparr>\<rparr>)
                       (upd_pp p (\<lambda>x. x\<lparr>p_readers := p_readers x @ [f]\<rparr>) s)
            in run_or p (p_writers (pps s1 p) \<noteq> []) s1))"

subsection \<open>open.c\<close>

text \<open>The pipe with the number in the name; \<open>sscanf\<close> of a long number overruns its buffer.\<close>

definition pipe_lookup :: "env \<Rightarrow> string \<Rightarrow> pipes \<Rightarrow> ptr outcome" where
  "pipe_lookup e name s =
     obind (sscanf (e_ok e 0) (\<lambda>_. False) name ''%ld'') (\<lambda>(n, vs, _).
       Inr (case vs of
              [Some (SLong x)] \<Rightarrow> if n = 1 \<and> unat x \<in> set (pfiles s) then unat x else NULL
            | _ \<Rightarrow> NULL))"

definition pipe_freeup :: "ptr \<Rightarrow> pipes \<Rightarrow> pipes" where
  "pipe_freeup p s = (if p = NULL then s else s\<lparr>pfiles := remove1 p (pfiles s)\<rparr>)"

text \<open>Two allocations: the pipe and its entry in the list.\<close>

definition pipe_newfile :: "env \<Rightarrow> ptr \<Rightarrow> pipes \<Rightarrow> ptr \<times> pipes" where
  "pipe_newfile e f s =
     (if \<not> e_ok e 0 \<or> \<not> e_ok e 1 then (NULL, s)
      else
        (let pm = f_perms (pfs s f) ! 0
         in (e_addr e,
             s\<lparr>pfiles := pfiles s @ [e_addr e],
               pps := (pps s)(e_addr e := \<lparr>p_prot = new_prot pm, p_refs = 0, p_owner = perm_uid pm,
                 p_readers = [], p_writers = [], p_nwrite = 0, p_nread = 0\<rparr>)\<rparr>)))"

definition pipe_open :: "env \<Rightarrow> msg \<Rightarrow> ptr \<Rightarrow> pipes \<Rightarrow> (pipes \<times> preply list) outcome" where
  "pipe_open e m f s =
     (if f_file (pfs s f) \<noteq> NULL then Inr (s, [(m_sender m, Err E_NOTDIR)])
      else if m_arg m AND ACC_DIR \<noteq> 0 then Inr (s, [(m_sender m, Err E_INVAL)])
      else
        (let look = (length (m_buf m) \<noteq> 2 \<or> hd (m_buf m) \<noteq> CHR ''#'')
         in obind (if look then pipe_lookup e (cstr (m_buf m)) s else Inr NULL) (\<lambda>p.
           if p = NULL \<and> (look \<or> m_arg m AND ACC_CREATE = 0) then Inr (s, [(m_sender m, Err E_SRCH)])
           else if p = NULL then
             (case pipe_newfile e f s of
                (p1, s1) \<Rightarrow>
                  if p1 = NULL then Inr (s1, [(m_sender m, Err E_NOMEM)])
                  else Inr (upd_pf f (\<lambda>x. x\<lparr>f_file := p1, f_perm := ACC_READ OR ACC_WRITE OR ACC_CHMOD\<rparr>)
                              (upd_pp p1 (\<lambda>x. x\<lparr>p_refs := p_refs x + 1, p_nwrite := p_nwrite x + 1\<rparr>) s1),
                            [(m_sender m, Reply 0 0 [])]))
           else if p_nread (pps s p) = PIPE_CLOSED_FOR_READS then Inr (s, [(m_sender m, Err E_PIPE)])
           else
             (let x = ucast (perm_calc (f_perms (pfs s f)) (f_nperm (pfs s f)) (p_prot (pps s p)))
              in if m_arg m AND x \<noteq> m_arg m then Inr (s, [(m_sender m, Err E_PERM)])
                 else Inr (upd_pf f (\<lambda>y. y\<lparr>f_file := p, f_perm := m_arg m OR (x AND ACC_CHMOD)\<rparr>)
                             (upd_pp p (\<lambda>y. if m_arg m AND ACC_WRITE \<noteq> 0
                                then y\<lparr>p_refs := p_refs y + 1, p_nwrite := p_nwrite y + 1\<rparr>
                                else y\<lparr>p_refs := p_refs y + 1, p_nread := p_nread y + 1\<rparr>) s),
                           [(m_sender m, Reply 0 0 [])])))))"

text \<open>All the queued writers get an error; all the queued readers get the end of the file.\<close>

partial_function (option) drain_writers :: "ptr \<Rightarrow> pipes \<Rightarrow> preply list \<Rightarrow> (pipes \<times> preply list) outcome option" where
  "drain_writers p s out =
     (case p_writers (pps s p) of
        [] \<Rightarrow> Some (Inr (s, out))
      | f2 # _ \<Rightarrow>
          (case unqueue f2 s of
             Inl e \<Rightarrow> Some (Inl e)
           | Inr s1 \<Rightarrow> drain_writers p s1 (out @ [(m_sender (f_msg (pfs s1 f2)), Err E_PIPE)])))"

declare drain_writers.simps [code]

partial_function (option) drain_readers :: "ptr \<Rightarrow> pipes \<Rightarrow> preply list \<Rightarrow> (pipes \<times> preply list) outcome option" where
  "drain_readers p s out =
     (case p_readers (pps s p) of
        [] \<Rightarrow> Some (Inr (s, out))
      | f2 # _ \<Rightarrow>
          (case unqueue f2 s of
             Inl e \<Rightarrow> Some (Inl e)
           | Inr s1 \<Rightarrow>
               drain_readers p (upd_pf f2 (\<lambda>x. x\<lparr>f_msg := (f_msg x)\<lparr>m_arg := 0, m_arg1 := 0, m_segs := []\<rparr>\<rparr>) s1)
                 (out @ [(m_sender (f_msg (pfs s1 f2)), Reply 0 0 [])])))"

declare drain_readers.simps [code]

definition pipe_close :: "ptr \<Rightarrow> pipes \<Rightarrow> (pipes \<times> preply list) outcome option" where
  "pipe_close f s =
     (let p = f_file (pfs s f)
      in if p = NULL then Some (Inr (s, []))
         else
           (let s1 = upd_pp p (\<lambda>x. x\<lparr>p_refs := p_refs x - 1\<rparr>) s
            in if p_refs (pps s1 p) = 0 then Some (Inr (pipe_freeup p s1, []))
               else if f_perm (pfs s f) AND ACC_WRITE = 0 then
                 (let s2 = upd_pp p (\<lambda>x. x\<lparr>p_nread := p_nread x - 1\<rparr>) s1
                  in if 0 < p_nread (pps s2 p) \<or> p_nwrite (pps s2 p) = 0 then Some (Inr (s2, []))
                     else drain_writers p (upd_pp p (\<lambda>x. x\<lparr>p_nread := PIPE_CLOSED_FOR_READS\<rparr>) s2) [])
               else
                 (let s2 = upd_pp p (\<lambda>x. x\<lparr>p_nwrite := p_nwrite x - 1\<rparr>) s1
                  in if 0 < p_nwrite (pps s2 p) then Some (Inr (s2, [])) else drain_readers p s2 [])))"

subsection \<open>stat.c\<close>

text \<open>
  The length of a pipe: the entries of the list of writers are files, which the code takes for
  messages. Where a message has its number of segments a file has the UID of its fourth ability,
  and the lengths of the segments are every second word of the abilities before.
\<close>

definition word_of_bytes :: "uchar list \<Rightarrow> uint" where
  "word_of_bytes bs = foldr (\<lambda>b w. ucast b OR push_bit 8 w) bs 0"

definition perm_words :: "perm \<Rightarrow> uint list" where
  "perm_words p = [word_of_bytes (perm_len p # take 3 (perm_id p)), word_of_bytes (take 4 (drop 3 (perm_id p))), perm_uid p]"

definition file_words :: "pfile \<Rightarrow> uint list" where
  "file_words f = of_nat (f_file f) # concat (map perm_words (f_perms f))"

definition writer_len :: "pfile \<Rightarrow> uint outcome" where
  "writer_len f =
     (let nseg = unat (file_words f ! 12)
      in if 7 < nseg then Inl BufferOverrun
         else Inr (sum_list (map (\<lambda>y. file_words f ! (5 + 2 * y)) [0..<nseg])))"

fun writers_len :: "ptr list \<Rightarrow> pipes \<Rightarrow> uint outcome" where
  "writers_len [] s = Inr 0"
| "writers_len (w # ws) s = obind (writer_len (pfs s w)) (\<lambda>n. obind (writers_len ws s) (\<lambda>k. Inr (n + k)))"

definition pipe_stat :: "msg \<Rightarrow> ptr \<Rightarrow> pipes \<Rightarrow> (pipes \<times> preply list) outcome" where
  "pipe_stat m f s =
     (if f_perm (pfs s f) AND ACC_READ = 0 then Inr (s, [(m_sender m, Err E_PERM)])
      else
        (let p = f_file (pfs s f)
         in obind (if p = NULL then Inr (of_nat (length (pfiles s))) else writers_len (p_writers (pps s p)) s) (\<lambda>len.
            obind (doprnt (''size=%d'' @ nl @ ''type=%s'' @ nl @ ''owner=%d'' @ nl @ ''inode=%u'' @ nl)
                    [AInt len, AStr (Some (if p \<noteq> NULL then ''fifo'' else ''d'')),
                     AInt (if p \<noteq> NULL then p_owner (pps s p) else 0), AInt (of_nat p)]) (\<lambda>head.
            obind (if p \<noteq> NULL then perm_print (p_prot (pps s p))
                   else doprnt (''perm=1'' @ nl @ ''acc=%d/%d'' @ nl) [AInt (ACC_READ OR ACC_WRITE), AInt ACC_CHMOD]) (\<lambda>rest.
            (let buf = head @ rest
             in if MAXSTAT \<le> length buf then Inl BufferOverrun
                else Inr (s, [(m_sender m, Reply (of_nat (length buf)) 0 [buf])])))))))"

text \<open>For the root directory the handler goes on after the error.\<close>

definition pipe_wstat :: "msg \<Rightarrow> ptr \<Rightarrow> pipes \<Rightarrow> (pipes \<times> preply list) outcome" where
  "pipe_wstat m f s =
     (let p = f_file (pfs s f); pre = (if p = NULL then [(m_sender m, Err E_INVAL)] else [])
      in if p = NULL \<and> f_perm (pfs s f) AND ACC_CHMOD \<noteq> 0 then Inl NullDeref
         else obind (do_wstat m (Some (p_prot (pps s p))) (f_perm (pfs s f))) (\<lambda>r.
           (case r of
              Done rep prot \<Rightarrow>
                Inr (if p = NULL then s else upd_pp p (\<lambda>x. x\<lparr>p_prot := the prot\<rparr>) s, pre @ [(m_sender m, rep)])
            | Field fld val \<Rightarrow> Inr (s, pre @ [(m_sender m, Err E_INVAL)]))))"

subsection \<open>main.c\<close>

definition new_pfile :: "perm list \<Rightarrow> nat \<Rightarrow> pfile" where
  "new_pfile perms n = \<lparr>f_file = NULL, f_perms = perms, f_nperm = n, f_perm = ACC_READ OR ACC_WRITE,
     f_msg = \<lparr>m_sender = 0, m_op = 0, m_arg = 0, m_arg1 = 0, m_segs = []\<rparr>, f_q = None, f_pos = 0\<rparr>"

definition pipe_new_client :: "env \<Rightarrow> msg \<Rightarrow> pipes \<Rightarrow> (pipes \<times> preply list) outcome" where
  "pipe_new_client e m s =
     (if \<not> e_ok e 0 then Inr (s, [(m_sender m, Err (e_err e))])
      else obind (client_perms (e\<lparr>e_junk := \<lparr>perm_len = 0, perm_id = replicate PERMLEN 0, perm_uid = 0\<rparr>\<rparr>) (m_buf m)) (\<lambda>perms.
        if \<not> e_ok e 1 then Inr (s, [(m_sender m, Err E_NOMEM)])
        else Inr (s\<lparr>pfs := (pfs s)(e_addr e := new_pfile perms (length (m_buf m) div 12)),
                    pclients := (m_sender m, e_addr e) # pclients s\<rparr>,
                  [(m_sender m, Accept)])))"

definition pipe_dup_client :: "env \<Rightarrow> msg \<Rightarrow> ptr \<Rightarrow> pipes \<Rightarrow> pipes \<times> preply list" where
  "pipe_dup_client e m f s =
     (if \<not> e_ok e 0 then (s, [(m_sender m, Err (e_err e))])
      else if \<not> e_ok e 1 then (s, [(m_sender m, Err E_NOMEM)])
      else
        (let f1 = pfs s f; p = f_file f1;
             s1 = s\<lparr>pfs := (pfs s)(e_addr e := f1), pclients := (m_arg m, e_addr e) # pclients s\<rparr>
         in (if p \<noteq> NULL
             then upd_pp p (\<lambda>x. if f_perm f1 AND ACC_WRITE \<noteq> 0
                    then x\<lparr>p_refs := p_refs x + 1, p_nwrite := p_nwrite x + 1\<rparr>
                    else x\<lparr>p_refs := p_refs x + 1, p_nread := p_nread x + 1\<rparr>) s1
             else s1,
             [(m_sender m, Reply 0 0 [])])))"

definition pipe_dead_client :: "msg \<Rightarrow> ptr \<Rightarrow> pipes \<Rightarrow> (pipes \<times> preply list) outcome option" where
  "pipe_dead_client m f s = pipe_close f (s\<lparr>pclients := del_client (m_sender m) (pclients s)\<rparr>)"

text \<open>One round of \<open>pipe_main\<close>. A handler follows the pointer to the client, which is null for an unknown one.\<close>

definition pipe_main :: "env \<Rightarrow> msg \<Rightarrow> pipes \<Rightarrow> (pipes \<times> preply list) outcome option" where
  "pipe_main e m s =
     (let opc = m_op m AND MSG_MASK
      in if opc = M_CONNECT then Some (pipe_new_client e m s)
         else if opc \<notin> {M_DISCONNECT, M_DUP, M_ABORT, FS_OPEN, FS_READ, FS_WRITE, FS_STAT, FS_WSTAT}
         then Some (Inr (s, [(m_sender m, Err E_INVAL)]))
         else
           (case if opc = FS_OPEN then (if m_nseg m \<noteq> 1 then Inr False else valid_fname (m_buf m)) else Inr True of
              Inl fl \<Rightarrow> Some (Inl fl)
            | Inr ok \<Rightarrow>
                if \<not> ok then Some (Inr (s, [(m_sender m, Err E_INVAL)]))
                else
                  (case map_of (pclients s) (m_sender m) of
                     None \<Rightarrow> if opc = M_DUP \<and> \<not> e_ok e 0 then Some (Inr (s, [(m_sender m, Err (e_err e))])) else Some (Inl NullDeref)
                   | Some f \<Rightarrow>
                       if opc = M_DISCONNECT then pipe_dead_client m f s
                       else if opc = M_DUP then Some (Inr (pipe_dup_client e m f s))
                       else if opc = M_ABORT then Some (Inr (pipe_abort m f s))
                       else if opc = FS_OPEN then Some (pipe_open e m f s)
                       else if opc = FS_READ then pipe_read e m f s
                       else if opc = FS_WRITE then pipe_write e m f s
                       else if opc = FS_STAT then Some (pipe_stat m f s)
                       else Some (pipe_wstat m f s))))"

text \<open>The state the server starts in.\<close>

definition pipe_init :: pipes where
  "pipe_init = \<lparr>pfs = (\<lambda>_. \<lparr>f_file = NULL, f_perms = [], f_nperm = 0, f_perm = 0,
       f_msg = \<lparr>m_sender = 0, m_op = 0, m_arg = 0, m_arg1 = 0, m_segs = []\<rparr>, f_q = None, f_pos = 0\<rparr>),
     pps = (\<lambda>_. \<lparr>p_prot = \<lparr>prot_len = 0, prot_default = 0, prot_id = [], prot_bits = []\<rparr>, p_refs = 0, p_owner = 0,
       p_readers = [], p_writers = [], p_nwrite = 0, p_nread = 0\<rparr>),
     pfiles = [], pclients = []\<rparr>"

end
