(* ===== verification/Pipe_Inv.thy ===== *)
theory Pipe_Inv
  imports Pipe Scan_Spec
begin

text \<open>
  The state of the pipe server: which requests are queued where, what a pipe counts, and that queued
  requests are answered. \<open>pipe_mid\<close> holds also while a handler moves data; \<open>pipe_inv\<close> holds between
  messages.
\<close>

lemma upd_pf_simps [simp]:
  "pfs (upd_pf a g s) = (pfs s)(a := g (pfs s a))" "pps (upd_pf a g s) = pps s" "pfiles (upd_pf a g s) = pfiles s"
  "pclients (upd_pf a g s) = pclients s"
  by (simp_all add: upd_pf_def)

lemma upd_pp_simps [simp]:
  "pps (upd_pp a h s) = (pps s)(a := h (pps s a))" "pfs (upd_pp a h s) = pfs s" "pfiles (upd_pp a h s) = pfiles s"
  "pclients (upd_pp a h s) = pclients s"
  by (simp_all add: upd_pp_def)

subsection \<open>The invariant\<close>

definition cfiles :: "ptr clients \<Rightarrow> ptr set" where
  "cfiles cl = snd ` set cl"

definition may_write :: "pfile \<Rightarrow> bool" where
  "may_write x \<longleftrightarrow> f_perm x AND ACC_WRITE \<noteq> 0"

definition popens :: "(ptr \<Rightarrow> pfile) \<Rightarrow> ptr clients \<Rightarrow> ptr \<Rightarrow> int" where
  "popens fs cl p = int (length (filter (\<lambda>(k, f). f_file (fs f) = p) cl))"

definition pwriters :: "(ptr \<Rightarrow> pfile) \<Rightarrow> ptr clients \<Rightarrow> ptr \<Rightarrow> int" where
  "pwriters fs cl p = int (length (filter (\<lambda>(k, f). f_file (fs f) = p \<and> may_write (fs f)) cl))"

text \<open>The counts of a pipe.\<close>

definition count_ok :: "(ptr \<Rightarrow> pfile) \<Rightarrow> ptr clients \<Rightarrow> ptr \<Rightarrow> pipe \<Rightarrow> bool" where
  "count_ok fs cl p q \<longleftrightarrow>
     p_refs q = popens fs cl p \<and> 0 < p_refs q \<and> p_nwrite q = pwriters fs cl p \<and>
     (p_nread q = popens fs cl p - pwriters fs cl p \<or>
      p_nread q = PIPE_CLOSED_FOR_READS \<and> popens fs cl p = pwriters fs cl p)"

text \<open>The queues of a pipe are the clients whose node is in them.\<close>

definition q_ok :: "(ptr \<Rightarrow> pfile) \<Rightarrow> ptr clients \<Rightarrow> ptr \<Rightarrow> pipe \<Rightarrow> bool" where
  "q_ok fs cl p q \<longleftrightarrow>
     distinct (p_readers q) \<and> distinct (p_writers q) \<and>
     (\<forall>f. f \<in> set (p_readers q) \<longleftrightarrow> f \<in> cfiles cl \<and> f_q (fs f) = Some (Readers p, f)) \<and>
     (\<forall>f. f \<in> set (p_writers q) \<longleftrightarrow> f \<in> cfiles cl \<and> f_q (fs f) = Some (Writers p, f))"

definition pclient_ok :: "ptr list \<Rightarrow> ulong \<Rightarrow> ptr \<Rightarrow> pfile \<Rightarrow> bool" where
  "pclient_ok ps k f x \<longleftrightarrow>
     (f_q x = None \<or> f_file x \<noteq> NULL \<and> m_sender (f_msg x) = k \<and>
        (f_q x = Some (Readers (f_file x), f) \<or> f_q x = Some (Writers (f_file x), f))) \<and>
     (f_file x = NULL \<or> f_file x \<in> set ps)"

definition table_ok :: "ptr list \<Rightarrow> ptr clients \<Rightarrow> bool" where
  "table_ok ps cl \<longleftrightarrow> distinct ps \<and> NULL \<notin> set ps \<and> distinct (map fst cl) \<and> distinct (map snd cl)"

definition mid :: "(ptr \<Rightarrow> pfile) \<Rightarrow> (ptr \<Rightarrow> pipe) \<Rightarrow> ptr list \<Rightarrow> ptr clients \<Rightarrow> bool" where
  "mid fs pp ps cl \<longleftrightarrow>
     table_ok ps cl \<and> (\<forall>(k, f) \<in> set cl. pclient_ok ps k f (fs f)) \<and>
     (\<forall>p \<in> set ps. q_ok fs cl p (pp p) \<and> count_ok fs cl p (pp p))"

definition pipe_mid :: "pipes \<Rightarrow> bool" where
  "pipe_mid s \<longleftrightarrow> mid (pfs s) (pps s) (pfiles s) (pclients s)"

text \<open>
  Between messages no pipe has readers and writers waiting for each other, readers waiting for writers
  that are gone, or writers waiting in a pipe that is closed.
\<close>

definition idle :: "pipe \<Rightarrow> bool" where
  "idle q \<longleftrightarrow>
     (p_readers q = [] \<or> p_writers q = []) \<and>
     (p_nwrite q = 0 \<longrightarrow> p_readers q = []) \<and> (p_nread q = PIPE_CLOSED_FOR_READS \<longrightarrow> p_writers q = [])"

definition pipe_inv :: "pipes \<Rightarrow> bool" where
  "pipe_inv s \<longleftrightarrow> pipe_mid s \<and> (\<forall>p \<in> set (pfiles s). idle (pps s p))"

lemma midD:
  assumes "mid fs pp ps cl"
  shows "table_ok ps cl" "(k, f) \<in> set cl \<Longrightarrow> pclient_ok ps k f (fs f)"
    "p \<in> set ps \<Longrightarrow> q_ok fs cl p (pp p)" "p \<in> set ps \<Longrightarrow> count_ok fs cl p (pp p)"
  using assms by (auto simp: mid_def)

lemma client_key:
  assumes "table_ok ps cl" "(k, f) \<in> set cl" "(k', f) \<in> set cl"
  shows "k = k'"
proof -
  have "inj_on snd (set cl)" using assms(1) by (simp add: table_ok_def distinct_map)
  from inj_onD [OF this _ assms(2,3)] show ?thesis by simp
qed

lemma counts_cong:
  assumes "\<And>k f. (k, f) \<in> set cl \<Longrightarrow> f_file (fs' f) = f_file (fs f) \<and> f_perm (fs' f) = f_perm (fs f)"
  shows "popens fs' cl p = popens fs cl p" "pwriters fs' cl p = pwriters fs cl p"
proof -
  have e: "f_file (fs' (snd x)) = f_file (fs (snd x))" "f_perm (fs' (snd x)) = f_perm (fs (snd x))" if "x \<in> set cl" for x
    using assms [of "fst x" "snd x"] that by simp_all
  have "filter (\<lambda>(k, f). f_file (fs' f) = p) cl = filter (\<lambda>(k, f). f_file (fs f) = p) cl"
    by (rule filter_cong [OF refl]) (simp add: e split_beta)
  then show "popens fs' cl p = popens fs cl p" by (simp add: popens_def)
  have "filter (\<lambda>(k, f). f_file (fs' f) = p \<and> may_write (fs' f)) cl = filter (\<lambda>(k, f). f_file (fs f) = p \<and> may_write (fs f)) cl"
    by (rule filter_cong [OF refl]) (simp add: e split_beta may_write_def)
  then show "pwriters fs' cl p = pwriters fs cl p" by (simp add: pwriters_def)
qed

text \<open>A handler that works on one queued request, in the queue of its pipe.\<close>

lemma mid_update:
  assumes m: "mid fs pp ps cl" and f: "(k, f) \<in> set cl" and p: "f_file (fs f) = p" "p \<noteq> NULL"
    and x: "f_file x = p" "f_perm x = f_perm (fs f)"
      "f_q x = None \<or> m_sender (f_msg x) = k \<and> (f_q x = Some (Readers p, f) \<or> f_q x = Some (Writers p, f))"
    and q: "p_refs q = p_refs (pp p)" "p_nwrite q = p_nwrite (pp p)" "p_nread q = p_nread (pp p)" "q_ok (fs(f := x)) cl p q"
  shows "mid (fs(f := x)) (pp(p := q)) ps cl"
proof -
  have t: "table_ok ps cl" by (rule midD(1) [OF m])
  have ps: "p \<in> set ps" using midD(2) [OF m f] p by (auto simp: pclient_ok_def)
  have cn: "popens (fs(f := x)) cl r = popens fs cl r" "pwriters (fs(f := x)) cl r = pwriters fs cl r" for r
    using x(1,2) p(1) by (auto intro!: counts_cong)
  have cl: "pclient_ok ps j g ((fs(f := x)) g)" if g: "(j, g) \<in> set cl" for j g
  proof (cases "g = f")
    case True
    with client_key [OF t f] g have "j = k" by blast
    with True x ps p show ?thesis by (auto simp: pclient_ok_def)
  qed (use midD(2) [OF m g] in simp)
  have "q_ok (fs(f := x)) cl r ((pp(p := q)) r)" if r: "r \<in> set ps" for r
  proof (cases "r = p")
    case False
    have "f_q (fs f) \<noteq> Some (Readers r, f)" "f_q (fs f) \<noteq> Some (Writers r, f)"
      using midD(2) [OF m f] False p by (auto simp: pclient_ok_def)
    moreover have "f_q x \<noteq> Some (Readers r, f)" "f_q x \<noteq> Some (Writers r, f)" using x(3) False by auto
    ultimately have "(f_q ((fs(f := x)) g) = Some (Readers r, g)) = (f_q (fs g) = Some (Readers r, g))"
      "(f_q ((fs(f := x)) g) = Some (Writers r, g)) = (f_q (fs g) = Some (Writers r, g))" for g by auto
    then show ?thesis using midD(3) [OF m r] False by (simp add: q_ok_def del: fun_upd_apply) simp
  qed (use q(4) in simp)
  moreover have "count_ok (fs(f := x)) cl r ((pp(p := q)) r)" if "r \<in> set ps" for r
    using midD(4) [OF m that] q(1-3) unfolding count_ok_def cn by (cases "r = p") simp_all
  ultimately show ?thesis unfolding mid_def using t cl by blast
qed

subsection \<open>Taking a request off its queue\<close>

lemma pipe_midD:
  assumes "pipe_mid s" "p \<in> set (pfiles s)"
  shows "q_ok (pfs s) (pclients s) p (pps s p)" "count_ok (pfs s) (pclients s) p (pps s p)" "p \<noteq> NULL"
  using assms by (auto simp: pipe_mid_def mid_def table_ok_def intro!: gr0I)

lemma queued_client:
  assumes m: "pipe_mid s" "p \<in> set (pfiles s)"
    and f: "f \<in> set (p_readers (pps s p)) \<or> f \<in> set (p_writers (pps s p))"
  shows "\<exists>k. (k, f) \<in> set (pclients s) \<and> m_sender (f_msg (pfs s f)) = k \<and> f_file (pfs s f) = p"
proof -
  from f pipe_midD(1) [OF m] have "f \<in> cfiles (pclients s)"
    and q: "f_q (pfs s f) = Some (Readers p, f) \<or> f_q (pfs s f) = Some (Writers p, f)"
    by (auto simp: q_ok_def)
  then obtain k where k: "(k, f) \<in> set (pclients s)" by (auto simp: cfiles_def)
  have "pclient_ok (pfiles s) k f (pfs s f)" using m(1) k by (auto simp: pipe_mid_def dest: midD(2))
  with q have "m_sender (f_msg (pfs s f)) = k" "f_file (pfs s f) = p" by (auto simp: pclient_ok_def)
  with k show ?thesis by blast
qed

lemma unqueue_reader:
  assumes m: "pipe_mid s" "p \<in> set (pfiles s)" and f: "f \<in> set (p_readers (pps s p))"
  shows "unqueue f s = Inr (upd_pf f (\<lambda>x. x\<lparr>f_q := None\<rparr>) (upd_pp p (\<lambda>x. x\<lparr>p_readers := remove1 f (p_readers x)\<rparr>) s))"
    "pipe_mid (upd_pf f (\<lambda>x. x\<lparr>f_q := None\<rparr>) (upd_pp p (\<lambda>x. x\<lparr>p_readers := remove1 f (p_readers x)\<rparr>) s))"
proof -
  note Q = pipe_midD [OF m]
  have fq: "f_q (pfs s f) = Some (Readers p, f)" using Q(1) f by (auto simp: q_ok_def)
  then show "unqueue f s = Inr (upd_pf f (\<lambda>x. x\<lparr>f_q := None\<rparr>) (upd_pp p (\<lambda>x. x\<lparr>p_readers := remove1 f (p_readers x)\<rparr>) s))"
    by (simp add: unqueue_def del_node_def)
  from queued_client [OF m] f obtain k where k: "(k, f) \<in> set (pclients s)" "f_file (pfs s f) = p" by blast
  have "q_ok ((pfs s)(f := (pfs s f)\<lparr>f_q := None\<rparr>)) (pclients s) p ((pps s p)\<lparr>p_readers := remove1 f (p_readers (pps s p))\<rparr>)"
    using Q(1) fq by (auto simp: q_ok_def)
  with mid_update [OF m(1) [unfolded pipe_mid_def] k Q(3)] k(2)
  show "pipe_mid (upd_pf f (\<lambda>x. x\<lparr>f_q := None\<rparr>) (upd_pp p (\<lambda>x. x\<lparr>p_readers := remove1 f (p_readers x)\<rparr>) s))"
    by (simp add: pipe_mid_def)
qed

lemma unqueue_writer:
  assumes m: "pipe_mid s" "p \<in> set (pfiles s)" and f: "f \<in> set (p_writers (pps s p))"
  shows "unqueue f s = Inr (upd_pf f (\<lambda>x. x\<lparr>f_q := None\<rparr>) (upd_pp p (\<lambda>x. x\<lparr>p_writers := remove1 f (p_writers x)\<rparr>) s))"
    "pipe_mid (upd_pf f (\<lambda>x. x\<lparr>f_q := None\<rparr>) (upd_pp p (\<lambda>x. x\<lparr>p_writers := remove1 f (p_writers x)\<rparr>) s))"
proof -
  note Q = pipe_midD [OF m]
  have fq: "f_q (pfs s f) = Some (Writers p, f)" using Q(1) f by (auto simp: q_ok_def)
  then show "unqueue f s = Inr (upd_pf f (\<lambda>x. x\<lparr>f_q := None\<rparr>) (upd_pp p (\<lambda>x. x\<lparr>p_writers := remove1 f (p_writers x)\<rparr>) s))"
    by (simp add: unqueue_def del_node_def)
  from queued_client [OF m] f obtain k where k: "(k, f) \<in> set (pclients s)" "f_file (pfs s f) = p" by blast
  have "q_ok ((pfs s)(f := (pfs s f)\<lparr>f_q := None\<rparr>)) (pclients s) p ((pps s p)\<lparr>p_writers := remove1 f (p_writers (pps s p))\<rparr>)"
    using Q(1) fq by (auto simp: q_ok_def)
  with mid_update [OF m(1) [unfolded pipe_mid_def] k Q(3)] k(2)
  show "pipe_mid (upd_pf f (\<lambda>x. x\<lparr>f_q := None\<rparr>) (upd_pp p (\<lambda>x. x\<lparr>p_writers := remove1 f (p_writers x)\<rparr>) s))"
    by (simp add: pipe_mid_def)
qed

text \<open>A change of a request that stays where it is.\<close>

lemma msg_update:
  assumes m: "pipe_mid s" and g: "\<And>x. m_sender (g x) = m_sender x"
  shows "pipe_mid (upd_pf f (\<lambda>x. x\<lparr>f_msg := g (f_msg x)\<rparr>) s)"
proof -
  let ?fs = "(pfs s)(f := (pfs s f)\<lparr>f_msg := g (f_msg (pfs s f))\<rparr>)"
  have c: "popens ?fs cl r = popens (pfs s) cl r" "pwriters ?fs cl r = pwriters (pfs s) cl r" for cl r
    by (auto intro!: counts_cong)
  have q: "f_q (?fs h) = f_q (pfs s h)" for h by simp
  have "pclient_ok ps k h (?fs h) = pclient_ok ps k h (pfs s h)" for ps k h
    using g by (simp add: pclient_ok_def)
  then show ?thesis
    using m unfolding pipe_mid_def mid_def q_ok_def count_ok_def
    by (simp only: upd_pf_simps c q simp_thms) blast
qed

subsection \<open>Bytes and answers\<close>

definition pdata :: "pipes \<Rightarrow> ptr \<Rightarrow> string" where
  "pdata s p = concat (map (\<lambda>f. concat (m_segs (f_msg (pfs s f)))) (p_writers (pps s p)))"

definition reply_data :: "reply \<Rightarrow> string" where
  "reply_data r = (case r of Reply a b ss \<Rightarrow> concat ss | _ \<Rightarrow> [])"

definition out_data :: "preply list \<Rightarrow> string" where
  "out_data out = concat (map (\<lambda>(k, r). reply_data r) out)"

text \<open>The clients whose request is queued.\<close>

definition pend :: "pipes \<Rightarrow> ulong set" where
  "pend s = {k. \<exists>f. (k, f) \<in> set (pclients s) \<and> f_q (pfs s f) \<noteq> None}"

text \<open>Each of the requests of \<open>A\<close> is answered once, or still queued in \<open>s\<close>.\<close>

definition answers :: "ulong set \<Rightarrow> preply list \<Rightarrow> pipes \<Rightarrow> bool" where
  "answers A out s \<longleftrightarrow> distinct (map fst out) \<and> set (map fst out) \<inter> pend s = {} \<and> set (map fst out) \<union> pend s = A"

lemma send_segs_ok:
  assumes "send_segs k ss n = (sent, rest)"
  shows "concat ss = concat sent @ concat rest" "length (concat sent) \<le> n" "length sent \<le> k"
    "length (concat sent) < n \<Longrightarrow> length sent < k \<Longrightarrow> rest = []"
proof -
  have "concat ss = concat sent @ concat rest \<and> length (concat sent) \<le> n \<and> length sent \<le> k \<and>
    (length (concat sent) < n \<longrightarrow> length sent < k \<longrightarrow> rest = [])"
    using assms
  proof (induction k ss n arbitrary: sent rest rule: send_segs.induct)
    case (3 k s ss n)
    show ?case
    proof (cases "n = 0")
      case False
      define c where "c = (if n < length s then n else length s)"
      define ss1 where "ss1 = (if length s = c then ss else drop c s # ss)"
      obtain a b where ab: "send_segs k ss1 (n - c) = (a, b)" by fastforce
      have "send_segs (Suc k) (s # ss) n = (case send_segs k ss1 (n - c) of (a, b) \<Rightarrow> (take c s # a, b))"
        using False by (simp add: Let_def c_def ss1_def)
      then have r: "sent = take c s # a" "rest = b" using "3.prems" ab by simp_all
      from "3.IH" [OF False c_def ss1_def ab]
      have i: "concat ss1 = concat a @ concat b" "length (concat a) \<le> n - c" "length a \<le> k"
        "length (concat a) < n - c \<longrightarrow> length a < k \<longrightarrow> b = []" by blast+
      have "concat (s # ss) = take c s @ concat ss1" by (simp add: ss1_def)
      moreover have "c \<le> n" "length (take c s) = c" by (simp_all add: c_def)
      ultimately show ?thesis using i r by auto
    qed (use "3.prems" in simp)
  qed auto
  then show "concat ss = concat sent @ concat rest" "length (concat sent) \<le> n" "length sent \<le> k"
    "length (concat sent) < n \<Longrightarrow> length sent < k \<Longrightarrow> rest = []" by blast+
qed

lemma pend_unqueue:
  assumes t: "table_ok (pfiles s) (pclients s)" and f: "(k, f) \<in> set (pclients s)"
    and s1: "pclients s1 = pclients s" "\<And>g. f_q (pfs s1 g) = (if g = f then None else f_q (pfs s g))"
  shows "pend s1 = pend s - {k}"
proof -
  have "k' = k" if "(k', f) \<in> set (pclients s)" for k' by (rule client_key [OF t that f])
  moreover have "g = f" if "(k, g) \<in> set (pclients s)" for g
    using t f that by (auto simp: table_ok_def dest: eq_key_imp_eq_value)
  ultimately show ?thesis unfolding pend_def s1 by (auto split: if_splits) metis
qed

lemma pend_same:
  assumes "pclients s1 = pclients s" "\<And>g. f_q (pfs s1 g) = f_q (pfs s g)"
  shows "pend s1 = pend s"
  by (simp add: pend_def assms)

text \<open>What a handler on the queues of \<open>p\<close> leaves alone.\<close>

definition only_queues :: "ptr \<Rightarrow> pipes \<Rightarrow> pipes \<Rightarrow> bool" where
  "only_queues p s s1 \<longleftrightarrow>
     pfiles s1 = pfiles s \<and> pclients s1 = pclients s \<and> (\<forall>r. r \<noteq> p \<longrightarrow> pps s1 r = pps s r) \<and>
     (\<forall>f. f_file (pfs s1 f) = f_file (pfs s f) \<and> f_perm (pfs s1 f) = f_perm (pfs s f)) \<and>
     p_nwrite (pps s1 p) = p_nwrite (pps s p) \<and> p_nread (pps s1 p) = p_nread (pps s p) \<and> p_refs (pps s1 p) = p_refs (pps s p)"

lemma only_queues_refl [intro]: "only_queues p s s"
  by (simp add: only_queues_def)

lemma only_queues_trans: "only_queues p s s1 \<Longrightarrow> only_queues p s1 s2 \<Longrightarrow> only_queues p s s2"
  by (simp add: only_queues_def)

lemma answers_trans: "answers A o1 s1 \<Longrightarrow> answers (pend s1) o2 s2 \<Longrightarrow> answers A (o1 @ o2) s2"
  unfolding answers_def by auto

lemma out_data_simps [simp]: "out_data [] = []" "out_data (a @ b) = out_data a @ out_data b"
  "out_data ((k, Reply x y ss) # a) = concat ss @ out_data a" "out_data ((k, Err e) # a) = out_data a"
  by (simp_all add: out_data_def reply_data_def)

lemma serve_reader_ok:
  assumes m: "pipe_mid s" "p \<in> set (pfiles s)" and rd: "p_readers (pps s p) = r # rs" and wr: "p_writers (pps s p) = w # ws"
  shows "\<exists>s1 out. serve_reader r w s = Inr (s1, out) \<and> pipe_mid s1 \<and> p_readers (pps s1 p) = rs \<and>
    pdata s p = out_data out @ pdata s1 p \<and> answers (pend s) out s1 \<and> only_queues p s s1"
proof -
  have rin: "r \<in> set (p_readers (pps s p))" and win: "w \<in> set (p_writers (pps s p))" using rd wr by simp_all
  note Q = pipe_midD [OF m]
  have rw: "r \<noteq> w" using Q(1) rin win by (auto simp: q_ok_def)
  have t: "table_ok (pfiles s) (pclients s)" using m(1) by (simp add: pipe_mid_def mid_def)
  from queued_client [OF m] rin obtain kr where kr: "(kr, r) \<in> set (pclients s)" "m_sender (f_msg (pfs s r)) = kr" by blast
  from queued_client [OF m] win obtain kw where kw: "(kw, w) \<in> set (pclients s)" "m_sender (f_msg (pfs s w)) = kw" by blast
  have krw: "kr \<noteq> kw" using t kr(1) kw(1) rw by (auto simp: table_ok_def dest: eq_key_imp_eq_value)
  have fqw: "f_q (pfs s w) = Some (Writers p, w)" "f_q (pfs s r) = Some (Readers p, r)" and dw: "w \<notin> set ws"
    using Q(1) rin win wr by (auto simp: q_ok_def)
  let ?s1 = "upd_pf r (\<lambda>x. x\<lparr>f_q := None\<rparr>) (upd_pp p (\<lambda>x. x\<lparr>p_readers := remove1 r (p_readers x)\<rparr>) s)"
  note U = unqueue_reader [OF m rin]
  let ?m = "f_msg (pfs s w)"
  obtain sent rest where se: "send_segs MSGSEGS (m_segs ?m) (unat (m_arg (f_msg (pfs s r)))) = (sent, rest)" by fastforce
  note D = send_segs_ok [OF se]
  define g where "g x = x\<lparr>m_segs := rest, m_arg := m_arg x + of_nat (length (concat sent))\<rparr>" for x :: msg
  let ?s2 = "upd_pf w (\<lambda>x. x\<lparr>f_msg := g (f_msg x)\<rparr>) ?s1"
  have ss: "sendseg kr w (m_arg (f_msg (pfs s r))) ?s1 = (?s2, [(kr, Reply (of_nat (length (concat sent))) 0 sent)])"
    using rw se by (simp add: sendseg_def Let_def g_def upd_pf_def)
  have m2: "pipe_mid ?s2" by (rule msg_update [OF U(2)]) (simp add: g_def)
  have p2: "p \<in> set (pfiles ?s2)" using m(2) by simp
  have w2: "p_writers (pps ?s2 p) = w # ws" "p_readers (pps ?s2 p) = rs" using wr rd by simp_all
  have m2w: "m_segs (f_msg (pfs ?s2 w)) = rest" "m_sender (f_msg (pfs ?s2 w)) = kw" using kw(2) rw by (simp_all add: g_def)
  have pd: "pdata ?s2 p = concat rest @ concat (map (\<lambda>f. concat (m_segs (f_msg (pfs s f)))) ws)"
  proof -
    have "map (\<lambda>f. concat (m_segs (f_msg (pfs ?s2 f)))) ws = map (\<lambda>f. concat (m_segs (f_msg (pfs s f)))) ws"
      using dw by (intro map_cong) auto
    then show ?thesis unfolding pdata_def w2 by (simp only: list.map concat.simps m2w)
  qed
  have d0: "pdata s p = concat sent @ pdata ?s2 p" unfolding pd using D(1) by (simp add: pdata_def wr)
  have pe2: "pend ?s2 = pend s - {kr}"
    by (rule pend_unqueue [OF t kr(1)]) (use rw in \<open>simp_all add: g_def\<close>)
  have kp: "kr \<in> pend s" "kw \<in> pend s" using kr(1) kw(1) fqw by (auto simp: pend_def)
  have oq: "only_queues p s ?s2" by (simp add: only_queues_def)
  show ?thesis
  proof (cases "rest = []")
    case False
    then have "serve_reader r w s = Inr (?s2, [(kr, Reply (of_nat (length (concat sent))) 0 sent)])"
      using U(1) ss m2w kr(2) by (simp add: serve_reader_def obind_def del: upd_pf_simps) (simp add: ss kr)
    moreover have "answers (pend s) [(kr, Reply (of_nat (length (concat sent))) 0 sent)] ?s2"
      using pe2 kp by (auto simp: answers_def)
    ultimately show ?thesis using m2 w2 d0 oq by (intro exI [of _ ?s2] exI conjI) simp_all
  next
    case True
    let ?s3 = "upd_pf w (\<lambda>x. x\<lparr>f_q := None\<rparr>) (upd_pp p (\<lambda>x. x\<lparr>p_writers := remove1 w (p_writers x)\<rparr>) ?s2)"
    have "w \<in> set (p_writers (pps ?s2 p))" using w2 by simp
    note V = unqueue_writer [OF m2 p2 this]
    let ?s4 = "upd_pf w (\<lambda>x. x\<lparr>f_msg := (f_msg x)\<lparr>m_arg1 := 0\<rparr>\<rparr>) ?s3"
    have m4: "pipe_mid ?s4" by (rule msg_update [OF V(2)]) simp
    have w4: "p_writers (pps ?s4 p) = ws" "p_readers (pps ?s4 p) = rs" using wr rd by simp_all
    have pd4: "pdata ?s4 p = pdata ?s2 p"
    proof -
      have "map (\<lambda>f. concat (m_segs (f_msg (pfs ?s4 f)))) ws = map (\<lambda>f. concat (m_segs (f_msg (pfs s f)))) ws"
        using dw by (intro map_cong) auto
      then show ?thesis unfolding pd unfolding pdata_def w4 True by (simp only: concat.simps append_Nil)
    qed
    have "\<exists>a. serve_reader r w s = Inr (?s4, [(kr, Reply (of_nat (length (concat sent))) 0 sent), (kw, Reply a 0 [])])"
      using U(1) V(1) ss m2w kr(2) True by (simp add: serve_reader_def obind_def Let_def del: upd_pf_simps) (simp add: ss kr V obind_def g_def rw [symmetric] kw)
    then obtain a where e: "serve_reader r w s = Inr (?s4, [(kr, Reply (of_nat (length (concat sent))) 0 sent), (kw, Reply a 0 [])])" by blast
    have "pend ?s4 = pend ?s2 - {kw}"
      by (rule pend_unqueue) (use t kw in \<open>auto simp: g_def\<close>)
    then have "answers (pend s) [(kr, Reply (of_nat (length (concat sent))) 0 sent), (kw, Reply a 0 [])] ?s4"
      using pe2 kp krw by (auto simp: answers_def)
    moreover have "only_queues p s ?s4" by (simp add: only_queues_def)
    ultimately show ?thesis using e m4 w4 d0 pd4 by (intro exI [of _ ?s4] exI conjI) simp_all
  qed
qed

lemma answers_Nil [intro]: "answers (pend s) [] s"
  by (simp add: answers_def)

lemma run_readers_ok:
  assumes "pipe_mid s" "p \<in> set (pfiles s)"
  shows "\<exists>s1 out. run_readers p s o0 = Some (Inr (s1, o0 @ out)) \<and> pipe_mid s1 \<and>
    (p_readers (pps s1 p) = [] \<or> p_writers (pps s1 p) = []) \<and>
    pdata s p = out_data out @ pdata s1 p \<and> answers (pend s) out s1 \<and> only_queues p s s1"
  using assms
proof (induction "length (p_readers (pps s p))" arbitrary: s o0 rule: less_induct)
  case less
  show ?case
  proof (cases "p_readers (pps s p) = [] \<or> p_writers (pps s p) = []")
    case True
    then have "run_readers p s o0 = Some (Inr (s, o0 @ []))" by (subst run_readers.simps) (auto split: list.splits)
    then show ?thesis using less.prems True by (intro exI [of _ s] exI [of _ "[]"]) auto
  next
    case False
    then obtain r rs w ws where rw: "p_readers (pps s p) = r # rs" "p_writers (pps s p) = w # ws"
      by (auto simp: neq_Nil_conv)
    from serve_reader_ok [OF less.prems rw] obtain s1 o1 where
      s1: "serve_reader r w s = Inr (s1, o1)" "pipe_mid s1" "p_readers (pps s1 p) = rs"
        "pdata s p = out_data o1 @ pdata s1 p" "answers (pend s) o1 s1" "only_queues p s s1" by blast
    have "length (p_readers (pps s1 p)) < length (p_readers (pps s p))" using rw s1(3) by simp
    moreover have "p \<in> set (pfiles s1)" using less.prems(2) s1(6) by (simp add: only_queues_def)
    ultimately obtain s2 o2 where
      s2: "run_readers p s1 (o0 @ o1) = Some (Inr (s2, (o0 @ o1) @ o2))" "pipe_mid s2"
        "p_readers (pps s2 p) = [] \<or> p_writers (pps s2 p) = []"
        "pdata s1 p = out_data o2 @ pdata s2 p" "answers (pend s1) o2 s2" "only_queues p s1 s2"
      using less.hyps [of s1 "o0 @ o1"] s1(2) by blast
    have "run_readers p s o0 = run_readers p s1 (o0 @ o1)"
      using rw s1(1) by (subst run_readers.simps) simp
    then have "run_readers p s o0 = Some (Inr (s2, o0 @ (o1 @ o2)))" using s2(1) by simp
    moreover have "pdata s p = out_data (o1 @ o2) @ pdata s2 p" using s1(4) s2(4) by simp
    ultimately show ?thesis
      using s2(2,3) answers_trans [OF s1(5) s2(5)] only_queues_trans [OF s1(6) s2(6)] by blast
  qed
qed

subsection \<open>Reads and writes\<close>

text \<open>A client without a queued request puts one in a queue.\<close>

lemma enqueue_ok:
  assumes m: "pipe_mid s" and f: "(k, f) \<in> set (pclients s)" "f_q (pfs s f) = None" "f_file (pfs s f) = p" "p \<noteq> NULL"
    and g: "m_sender (g (f_msg (pfs s f))) = k"
  shows "pipe_mid (upd_pf f (\<lambda>x. x\<lparr>f_q := Some (Readers p, f), f_msg := g (f_msg x)\<rparr>)
      (upd_pp p (\<lambda>x. x\<lparr>p_readers := p_readers x @ [f]\<rparr>) s))"
    "pipe_mid (upd_pf f (\<lambda>x. x\<lparr>f_q := Some (Writers p, f), f_msg := g (f_msg x)\<rparr>)
      (upd_pp p (\<lambda>x. x\<lparr>p_writers := p_writers x @ [f]\<rparr>) s))"
proof -
  have M: "mid (pfs s) (pps s) (pfiles s) (pclients s)" using m by (simp add: pipe_mid_def)
  have ps: "p \<in> set (pfiles s)" using midD(2) [OF M f(1)] f by (auto simp: pclient_ok_def)
  have Q: "q_ok (pfs s) (pclients s) p (pps s p)" by (rule midD(3) [OF M ps])
  have fc: "f \<in> cfiles (pclients s)" using f(1) by (force simp: cfiles_def)
  let ?x = "\<lambda>v. (pfs s f)\<lparr>f_q := Some (v, f), f_msg := g (f_msg (pfs s f))\<rparr>"
  have "q_ok ((pfs s)(f := ?x (Readers p))) (pclients s) p ((pps s p)\<lparr>p_readers := p_readers (pps s p) @ [f]\<rparr>)"
    "q_ok ((pfs s)(f := ?x (Writers p))) (pclients s) p ((pps s p)\<lparr>p_writers := p_writers (pps s p) @ [f]\<rparr>)"
    using Q f fc by (auto simp: q_ok_def)
  with mid_update [OF M f(1,3,4)] f(3) g
  show "pipe_mid (upd_pf f (\<lambda>x. x\<lparr>f_q := Some (Readers p, f), f_msg := g (f_msg x)\<rparr>)
      (upd_pp p (\<lambda>x. x\<lparr>p_readers := p_readers x @ [f]\<rparr>) s))"
    "pipe_mid (upd_pf f (\<lambda>x. x\<lparr>f_q := Some (Writers p, f), f_msg := g (f_msg x)\<rparr>)
      (upd_pp p (\<lambda>x. x\<lparr>p_writers := p_writers x @ [f]\<rparr>) s))"
    by (simp_all add: pipe_mid_def)
qed

lemma pend_enqueue:
  assumes t: "table_ok (pfiles s) (pclients s)" and f: "(k, f) \<in> set (pclients s)"
    and s1: "pclients s1 = pclients s" "\<And>g. f_q (pfs s1 g) = (if g = f then Some n else f_q (pfs s g))"
  shows "pend s1 = insert k (pend s)"
proof -
  have "(x, f) \<in> set (pclients s) \<longleftrightarrow> x = k" for x using client_key [OF t _ f] f by blast
  moreover have "x \<in> pend s1 \<longleftrightarrow> (x, f) \<in> set (pclients s) \<or> x \<in> pend s" for x
    unfolding pend_def s1 by (auto split: if_splits)
  ultimately show ?thesis by blast
qed

lemma pipe_invD: "pipe_inv s \<Longrightarrow> pipe_mid s" "pipe_inv s \<Longrightarrow> table_ok (pfiles s) (pclients s)"
  by (simp_all add: pipe_inv_def pipe_mid_def mid_def)

lemma not_pend:
  assumes t: "table_ok ps (pclients s)" and f: "(k, f) \<in> set (pclients s)" "f_q (pfs s f) = None"
  shows "k \<notin> pend s"
proof
  assume "k \<in> pend s"
  then obtain g where g: "(k, g) \<in> set (pclients s)" "f_q (pfs s g) \<noteq> None" by (auto simp: pend_def)
  have "g = f" using t g(1) f(1) by (auto simp: table_ok_def dest: eq_key_imp_eq_value)
  with g f show False by simp
qed

lemma answers_now: "k \<notin> pend s \<Longrightarrow> pend s1 = pend s \<Longrightarrow> answers (insert k (pend s)) [(k, r)] s1"
  by (auto simp: answers_def)

text \<open>Changes of fields that are in no invariant.\<close>

lemma pipe_inv_cong:
  assumes "pipe_inv s" "pclients s1 = pclients s" "pfiles s1 = pfiles s"
    "\<And>f. f_q (pfs s1 f) = f_q (pfs s f) \<and> f_file (pfs s1 f) = f_file (pfs s f) \<and> f_perm (pfs s1 f) = f_perm (pfs s f) \<and>
       f_msg (pfs s1 f) = f_msg (pfs s f)"
    "\<And>p. p_readers (pps s1 p) = p_readers (pps s p) \<and> p_writers (pps s1 p) = p_writers (pps s p) \<and>
       p_refs (pps s1 p) = p_refs (pps s p) \<and> p_nwrite (pps s1 p) = p_nwrite (pps s p) \<and> p_nread (pps s1 p) = p_nread (pps s p)"
  shows "pipe_inv s1" "pend s1 = pend s" "pdata s1 p = pdata s p"
proof -
  have c: "popens (pfs s1) cl p = popens (pfs s) cl p" "pwriters (pfs s1) cl p = pwriters (pfs s) cl p" for cl p
    using assms(4) by (auto intro!: counts_cong)
  have "pipe_inv s1 = pipe_inv s"
    unfolding pipe_inv_def pipe_mid_def mid_def pclient_ok_def q_ok_def count_ok_def idle_def
    by (simp only: assms(2-5) c)
  then show "pipe_inv s1" using assms(1) by blast
  show "pend s1 = pend s" unfolding pend_def by (simp only: assms)
  show "pdata s1 p = pdata s p" unfolding pdata_def by (simp only: assms)
qed

text \<open>After the run, the other pipes are as they were.\<close>

lemma inv_after_run:
  assumes "pipe_inv s" "only_queues p s s1" "pipe_mid s1" "idle (pps s1 p)"
  shows "pipe_inv s1"
proof -
  have "idle (pps s1 r)" if "r \<in> set (pfiles s)" for r
    using assms that by (cases "r = p") (auto simp: pipe_inv_def only_queues_def)
  then show ?thesis using assms(2,3) by (simp add: pipe_inv_def only_queues_def)
qed

lemma writer_counted:
  assumes "mid fs pp ps cl" "(k, f) \<in> set cl" "f_file (fs f) = p" "p \<noteq> NULL"
  shows "p \<in> set ps" "may_write (fs f) \<Longrightarrow> 0 < p_nwrite (pp p)" "\<not> may_write (fs f) \<Longrightarrow> pwriters fs cl p < popens fs cl p"
proof -
  show ps: "p \<in> set ps" using midD(2) [OF assms(1,2)] assms(3,4) by (auto simp: pclient_ok_def)
  show "0 < p_nwrite (pp p)" if "may_write (fs f)"
  proof -
    have "(k, f) \<in> set (filter (\<lambda>(k, f). f_file (fs f) = p \<and> may_write (fs f)) cl)" using assms that by simp
    then have "0 < length (filter (\<lambda>(k, f). f_file (fs f) = p \<and> may_write (fs f)) cl)" by (rule length_pos_if_in_set)
    then show ?thesis using midD(4) [OF assms(1) ps] by (simp add: count_ok_def pwriters_def)
  qed
  show "pwriters fs cl p < popens fs cl p" if "\<not> may_write (fs f)"
  proof -
    let ?o = "filter (\<lambda>(k, f). f_file (fs f) = p) cl"
    have w: "filter (\<lambda>(k, f). f_file (fs f) = p \<and> may_write (fs f)) cl = filter (\<lambda>(k, f). may_write (fs f)) ?o"
      unfolding filter_filter by (rule filter_cong) auto
    have "(k, f) \<in> set ?o" "\<not> (\<lambda>(k, f). may_write (fs f)) (k, f)" using assms that by simp_all
    then have "length (filter (\<lambda>(k, f). may_write (fs f)) ?o) < length ?o" by (rule length_filter_less)
    then show ?thesis unfolding popens_def pwriters_def w by simp
  qed
qed

lemma unqueue_none: "f_q (pfs s f) = None \<Longrightarrow> upd_pf f (\<lambda>x. x\<lparr>f_q := None\<rparr>) s = s"
proof -
  assume "f_q (pfs s f) = None"
  then have "(pfs s f)\<lparr>f_q := None\<rparr> = pfs s f" by (cases "pfs s f") simp
  then show ?thesis by (simp add: upd_pf_def)
qed

lemma pipe_write_ok:
  assumes i: "pipe_inv s" and f: "(k, f) \<in> set (pclients s)" "f_q (pfs s f) = None" and k: "m_sender m = k"
  shows "\<exists>s1 out. pipe_write e m f s = Some (Inr (s1, out)) \<and> pipe_inv s1 \<and> answers (insert k (pend s)) out s1 \<and>
    only_queues (f_file (pfs s f)) s s1 \<and>
    (f_file (pfs s f) \<noteq> NULL \<longrightarrow>
     pdata s (f_file (pfs s f)) @
       (if may_write (pfs s f) \<and> p_nread (pps s (f_file (pfs s f))) \<noteq> PIPE_CLOSED_FOR_READS \<and> e_ok e 0
        then concat (m_segs m) else []) =
     out_data out @ pdata s1 (f_file (pfs s f)))"
proof -
  let ?p = "f_file (pfs s f)"
  note I = pipe_invD [OF i]
  have np: "k \<notin> pend s" by (rule not_pend [OF I(2) f])
  show ?thesis
  proof (cases "?p \<noteq> NULL \<and> may_write (pfs s f) \<and> p_nread (pps s ?p) \<noteq> PIPE_CLOSED_FOR_READS \<and> e_ok e 0")
    case False
    have "\<exists>s1 r. pipe_write e m f s = Some (Inr (s1, [(k, Err r)])) \<and> (s1 = s \<or> s1 = upd_pf f (\<lambda>x. x\<lparr>f_q := None\<rparr>) s)"
      using False k by (auto simp: pipe_write_def Let_def may_write_def)
    then obtain s1 r where e: "pipe_write e m f s = Some (Inr (s1, [(k, Err r)]))" "s1 = s \<or> s1 = upd_pf f (\<lambda>x. x\<lparr>f_q := None\<rparr>) s"
      by blast
    have "upd_pf f (\<lambda>x. x\<lparr>f_q := None\<rparr>) s = s" by (rule unqueue_none [OF f(2)])
    with e(2) have "s1 = s" by simp
    with e(1) i answers_now [OF np refl] False show ?thesis by auto
  next
    case True
    define g where "g x = m\<lparr>m_arg := 0\<rparr>" for x :: msg
    let ?s1 = "upd_pf f (\<lambda>x. x\<lparr>f_q := Some (Writers ?p, f), f_msg := g (f_msg x)\<rparr>)
      (upd_pp ?p (\<lambda>x. x\<lparr>p_writers := p_writers x @ [f]\<rparr>) s)"
    have w: "pipe_write e m f s = run_or ?p (p_readers (pps s ?p) \<noteq> []) ?s1"
      using True by (simp add: pipe_write_def Let_def may_write_def g_def)
    have p: "?p \<in> set (pfiles s)" "0 < p_nwrite (pps s ?p)"
      using writer_counted [OF _ f(1) refl] I(1) True by (auto simp: pipe_mid_def)
    have m1: "pipe_mid ?s1" using enqueue_ok(2) [OF I(1) f refl, of g] True k by (simp add: g_def)
    have pe: "pend ?s1 = insert k (pend s)" by (rule pend_enqueue [OF I(2) f(1), where n = "(Writers ?p, f)"]) simp_all
    have nw: "f \<notin> set (p_writers (pps s ?p))" using pipe_midD(1) [OF I(1) p(1)] f(2) by (auto simp: q_ok_def)
    have d1: "pdata ?s1 ?p = pdata s ?p @ concat (m_segs m)"
    proof -
      have "map (\<lambda>h. concat (m_segs (f_msg (pfs ?s1 h)))) (p_writers (pps s ?p)) =
        map (\<lambda>h. concat (m_segs (f_msg (pfs s h)))) (p_writers (pps s ?p))"
        using nw by (intro map_cong) auto
      moreover have "p_writers (pps ?s1 ?p) = p_writers (pps s ?p) @ [f]" by simp
      moreover have "m_segs (f_msg (pfs ?s1 f)) = m_segs m" by (simp add: g_def)
      ultimately show ?thesis unfolding pdata_def by (simp only: map_append concat_append list.map concat.simps append_Nil2)
    qed
    have oq: "only_queues ?p s ?s1" by (simp add: only_queues_def)
    show ?thesis
    proof (cases "p_readers (pps s ?p) = []")
      case rd: True
      then have "pipe_write e m f s = Some (Inr (?s1, []))" using w by (simp add: run_or_def)
      moreover have "pipe_inv ?s1" using rd True by (intro inv_after_run [OF i oq m1]) (simp add: idle_def)
      moreover have "answers (insert k (pend s)) [] ?s1" using pe by (simp add: answers_def)
      ultimately show ?thesis using oq d1 True by (intro exI [of _ ?s1] exI [of _ "[]"]) (simp del: upd_pf_simps upd_pp_simps)
    next
      case False
      have p1: "?p \<in> set (pfiles ?s1)" using p by simp
      from run_readers_ok [OF m1 p1, of "[]"] obtain s2 out where
        r: "run_readers ?p ?s1 [] = Some (Inr (s2, out))" "pipe_mid s2" "p_readers (pps s2 ?p) = [] \<or> p_writers (pps s2 ?p) = []"
          "pdata ?s1 ?p = out_data out @ pdata s2 ?p" "answers (pend ?s1) out s2" "only_queues ?p ?s1 s2" by auto
      have o2: "only_queues ?p s s2" by (rule only_queues_trans [OF oq r(6)])
      have "idle (pps s2 ?p)" using r(3) o2 p(2) True by (simp add: idle_def only_queues_def)
      then have "pipe_inv s2" by (rule inv_after_run [OF i o2 r(2)])
      moreover have "pipe_write e m f s = Some (Inr (s2, out))" using w False r(1) by (simp add: run_or_def)
      ultimately show ?thesis using o2 d1 r(4,5) pe True by (intro exI [of _ s2] exI [of _ out]) (simp del: upd_pf_simps upd_pp_simps)
    qed
  qed
qed

lemma pipe_read_ok:
  assumes i: "pipe_inv s" and f: "(k, f) \<in> set (pclients s)" "f_q (pfs s f) = None" and k: "m_sender m = k"
    and fl: "f_file (pfs s f) \<noteq> NULL"
  shows "\<exists>s1 out. pipe_read e m f s = Some (Inr (s1, out)) \<and> pipe_inv s1 \<and> answers (insert k (pend s)) out s1 \<and>
    only_queues (f_file (pfs s f)) s s1 \<and> pdata s (f_file (pfs s f)) = out_data out @ pdata s1 (f_file (pfs s f))"
proof -
  let ?p = "f_file (pfs s f)"
  note I = pipe_invD [OF i]
  have np: "k \<notin> pend s" by (rule not_pend [OF I(2) f])
  show ?thesis
  proof (cases "f_perm (pfs s f) AND ACC_READ \<noteq> 0 \<and> p_nwrite (pps s ?p) \<noteq> 0 \<and> e_ok e 0")
    case False
    have "\<exists>s1 r. pipe_read e m f s = Some (Inr (s1, [(k, r)])) \<and> reply_data r = [] \<and>
      (s1 = s \<or> s1 = upd_pf f (\<lambda>x. x\<lparr>f_q := None\<rparr>) s)"
      using False fl k by (auto simp: pipe_read_def Let_def reply_data_def)
    then obtain s1 r where e: "pipe_read e m f s = Some (Inr (s1, [(k, r)]))" "reply_data r = []"
      "s1 = s \<or> s1 = upd_pf f (\<lambda>x. x\<lparr>f_q := None\<rparr>) s" by blast
    have "s1 = s" using e(3) unqueue_none [OF f(2)] by auto
    with e i answers_now [OF np refl] show ?thesis by (auto simp: out_data_def)
  next
    case True
    define g where "g x = x\<lparr>m_sender := m_sender m, m_arg := m_arg m\<rparr>" for x :: msg
    let ?s1 = "upd_pf f (\<lambda>x. x\<lparr>f_q := Some (Readers ?p, f), f_msg := g (f_msg x)\<rparr>)
      (upd_pp ?p (\<lambda>x. x\<lparr>p_readers := p_readers x @ [f]\<rparr>) s)"
    have w: "pipe_read e m f s = run_or ?p (p_writers (pps s ?p) \<noteq> []) ?s1"
      using True fl by (simp add: pipe_read_def Let_def g_def)
    have p: "?p \<in> set (pfiles s)" using writer_counted(1) [of "pfs s" "pps s" "pfiles s" "pclients s" k f ?p] I(1) f(1) fl by (simp add: pipe_mid_def)
    have m1: "pipe_mid ?s1" using enqueue_ok(1) [OF I(1) f refl, of g] fl k by (simp add: g_def)
    have pe: "pend ?s1 = insert k (pend s)"
      by (rule pend_enqueue [OF I(2) f(1), where n = "(Readers ?p, f)"]) simp_all
    have nw: "f \<notin> set (p_writers (pps s ?p))" using pipe_midD(1) [OF I(1) p] f(2) by (auto simp: q_ok_def)
    have d1: "pdata ?s1 ?p = pdata s ?p"
    proof -
      have "map (\<lambda>h. concat (m_segs (f_msg (pfs ?s1 h)))) (p_writers (pps s ?p)) =
        map (\<lambda>h. concat (m_segs (f_msg (pfs s h)))) (p_writers (pps s ?p))"
        using nw by (intro map_cong) auto
      moreover have "p_writers (pps ?s1 ?p) = p_writers (pps s ?p)" by simp
      ultimately show ?thesis unfolding pdata_def by (simp only:)
    qed
    have oq: "only_queues ?p s ?s1" by (simp add: only_queues_def)
    have id: "idle (pps s ?p)" using i p by (simp add: pipe_inv_def)
    show ?thesis
    proof (cases "p_writers (pps s ?p) = []")
      case wr: True
      then have "pipe_read e m f s = Some (Inr (?s1, []))" using w by (simp add: run_or_def)
      moreover have "pipe_inv ?s1" using wr True by (intro inv_after_run [OF i oq m1]) (simp add: idle_def)
      moreover have "answers (insert k (pend s)) [] ?s1" using pe by (simp add: answers_def)
      ultimately show ?thesis using oq d1 by (intro exI [of _ ?s1] exI [of _ "[]"]) (simp del: upd_pf_simps upd_pp_simps)
    next
      case False
      have p1: "?p \<in> set (pfiles ?s1)" using p by simp
      from run_readers_ok [OF m1 p1, of "[]"] obtain s2 out where
        r: "run_readers ?p ?s1 [] = Some (Inr (s2, out))" "pipe_mid s2" "p_readers (pps s2 ?p) = [] \<or> p_writers (pps s2 ?p) = []"
          "pdata ?s1 ?p = out_data out @ pdata s2 ?p" "answers (pend ?s1) out s2" "only_queues ?p ?s1 s2" by auto
      have o2: "only_queues ?p s s2" by (rule only_queues_trans [OF oq r(6)])
      have "p_nread (pps s ?p) \<noteq> PIPE_CLOSED_FOR_READS" using id False by (simp add: idle_def)
      then have "idle (pps s2 ?p)" using r(3) o2 True by (simp add: idle_def only_queues_def)
      then have "pipe_inv s2" by (rule inv_after_run [OF i o2 r(2)])
      moreover have "pipe_read e m f s = Some (Inr (s2, out))" using w False r(1) by (simp add: run_or_def)
      ultimately show ?thesis using o2 d1 r(4,5) pe by (intro exI [of _ s2] exI [of _ out]) (simp del: upd_pf_simps upd_pp_simps)
    qed
  qed
qed

end
