(* ===== verification/Pipe_Steps.thy ===== *)
theory Pipe_Steps
  imports Pipe_Inv
begin

text \<open>
  The messages of the pipe server one by one: opens, aborts, connects, duplicates and disconnects
  keep the invariant, and each is answered.
\<close>

subsection \<open>Counting clients\<close>

lemma del_client_set:
  "distinct (map fst cl) \<Longrightarrow> set (del_client k cl) = {x \<in> set cl. fst x \<noteq> k}"
  by (induction k cl rule: del_client.induct) (auto simp: rev_image_eqI)

lemma del_client_distinct:
  "distinct (map fst cl) \<Longrightarrow> distinct (map snd cl) \<Longrightarrow>
   distinct (map fst (del_client k cl)) \<and> distinct (map snd (del_client k cl))"
  by (induction k cl rule: del_client.induct) (auto simp: del_client_set)

lemma del_client_count:
  "distinct (map fst cl) \<Longrightarrow> (k, f) \<in> set cl \<Longrightarrow>
   length (filter P cl) = length (filter P (del_client k cl)) + (if P (k, f) then 1 else 0)"
  by (induction k cl rule: del_client.induct) (auto simp: rev_image_eqI)

text \<open>One entry more satisfies the predicate.\<close>

lemma count_flip:
  assumes "distinct cl" "x \<in> set cl" "\<not> P x" "\<And>y. y \<in> set cl \<Longrightarrow> y \<noteq> x \<Longrightarrow> Q y = P y"
  shows "length (filter Q cl) = length (filter P cl) + (if Q x then 1 else 0)"
  using assms
proof (induction cl)
  case (Cons y cl)
  show ?case
  proof (cases "y = x")
    case True
    then have "filter Q cl = filter P cl" using Cons.prems(1,4) by (intro filter_cong) auto
    with True Cons.prems(3) show ?thesis by simp
  qed (use Cons in auto)
qed simp

lemma table_distinct: "table_ok ps cl \<Longrightarrow> distinct cl"
  by (auto simp: table_ok_def distinct_map)

subsection \<open>Opening and closing\<close>

lemma open_counts:
  assumes m: "mid fs pp ps cl" and f: "(k, f) \<in> set cl" "f_file (fs f) = NULL" and p: "p \<noteq> NULL"
    and x: "f_file x = p"
  shows "popens (fs(f := x)) cl r = (if r = NULL then popens (fs(f := x)) cl r else popens fs cl r + (if r = p then 1 else 0))"
    "r \<noteq> NULL \<Longrightarrow> pwriters (fs(f := x)) cl r = pwriters fs cl r + (if r = p \<and> may_write x then 1 else 0)"
proof -
  have t: "table_ok ps cl" by (rule midD(1) [OF m])
  have o: "y \<noteq> (k, f) \<Longrightarrow> snd y \<noteq> f" if "y \<in> set cl" for y
    using client_key [OF t _ f(1), of "fst y"] that by (cases y) auto
  show "popens (fs(f := x)) cl r = (if r = NULL then popens (fs(f := x)) cl r else popens fs cl r + (if r = p then 1 else 0))"
  proof (cases "r = NULL")
    case False
    then have "length (filter (\<lambda>(k, g). f_file ((fs(f := x)) g) = r) cl) =
      length (filter (\<lambda>(k, g). f_file (fs g) = r) cl) + (if (\<lambda>(k, g). f_file ((fs(f := x)) g) = r) (k, f) then 1 else 0)"
      using f o by (intro count_flip [OF table_distinct [OF t] f(1)]) (auto simp: split_beta)
    then show ?thesis using x False by (auto simp: popens_def)
  qed simp
  show "pwriters (fs(f := x)) cl r = pwriters fs cl r + (if r = p \<and> may_write x then 1 else 0)" if "r \<noteq> NULL"
  proof -
    have "length (filter (\<lambda>(k, g). f_file ((fs(f := x)) g) = r \<and> may_write ((fs(f := x)) g)) cl) =
      length (filter (\<lambda>(k, g). f_file (fs g) = r \<and> may_write (fs g)) cl) +
      (if (\<lambda>(k, g). f_file ((fs(f := x)) g) = r \<and> may_write ((fs(f := x)) g)) (k, f) then 1 else 0)"
      using f o that by (intro count_flip [OF table_distinct [OF t] f(1)]) (auto simp: split_beta)
    then show ?thesis using x by (auto simp: pwriters_def)
  qed
qed

lemma writers_le: "pwriters fs cl p \<le> popens fs cl p"
proof -
  have "filter (\<lambda>(k, f). f_file (fs f) = p \<and> may_write (fs f)) cl = filter (\<lambda>(k, f). may_write (fs f)) (filter (\<lambda>(k, f). f_file (fs f) = p) cl)"
    unfolding filter_filter by (rule filter_cong) auto
  then show ?thesis by (simp add: pwriters_def popens_def del: filter_filter)
qed

text \<open>The counts of a pipe when one more client has it open.\<close>

definition one_more :: "bool \<Rightarrow> pipe \<Rightarrow> pipe" where
  "one_more w q =
     (if w then q\<lparr>p_refs := p_refs q + 1, p_nwrite := p_nwrite q + 1\<rparr> else q\<lparr>p_refs := p_refs q + 1, p_nread := p_nread q + 1\<rparr>)"

text \<open>The counts are right, whether or not anybody has the pipe open.\<close>

definition counted :: "(ptr \<Rightarrow> pfile) \<Rightarrow> ptr clients \<Rightarrow> ptr \<Rightarrow> pipe \<Rightarrow> bool" where
  "counted fs cl p q \<longleftrightarrow>
     p_refs q = popens fs cl p \<and> p_nwrite q = pwriters fs cl p \<and>
     (p_nread q = popens fs cl p - pwriters fs cl p \<or>
      p_nread q = PIPE_CLOSED_FOR_READS \<and> popens fs cl p = pwriters fs cl p)"

lemma one_more_counted:
  assumes "counted fs cl p q" "popens fs' cl' p = popens fs cl p + 1" "pwriters fs' cl' p = pwriters fs cl p + (if w then 1 else 0)"
    and "w \<or> p_nread q \<noteq> PIPE_CLOSED_FOR_READS"
  shows "count_ok fs' cl' p (one_more w q)" "idle q \<Longrightarrow> idle (one_more w q)"
proof -
  have n: "0 \<le> popens fs cl p" by (simp add: popens_def)
  show "count_ok fs' cl' p (one_more w q)"
    using assms n by (cases w) (auto simp: counted_def count_ok_def one_more_def)
  show "idle (one_more w q)" if "idle q"
  proof (cases w)
    case True
    have "0 \<le> p_nwrite q" using assms(1) by (simp add: counted_def pwriters_def)
    then show ?thesis using that True by (auto simp: idle_def one_more_def)
  next
    case False
    then have "0 \<le> p_nread q" using assms(1,4) writers_le [of fs cl p] by (auto simp: counted_def)
    then show ?thesis using that False by (auto simp: idle_def one_more_def PIPE_CLOSED_FOR_READS_def)
  qed
qed

lemma mid_open:
  assumes m: "mid fs pp ps cl" and f: "(k, f) \<in> set cl" "f_file (fs f) = NULL" and p: "p \<noteq> NULL"
    and x: "f_file x = p" "f_q x = None" and ps: "distinct ps'" "set ps' = insert p (set ps)"
    and q: "q_ok fs cl p q" "counted fs cl p q" "may_write x \<or> p_nread q \<noteq> PIPE_CLOSED_FOR_READS"
  shows "mid (fs(f := x)) (pp(p := one_more (may_write x) q)) ps' cl"
proof -
  have t: "table_ok ps cl" by (rule midD(1) [OF m])
  have fq: "f_q (fs f) = None" using midD(2) [OF m f(1)] f(2) by (auto simp: pclient_ok_def)
  note c = open_counts [OF m f p x(1)]
  have t': "table_ok ps' cl" using t ps p by (auto simp: table_ok_def)
  have rn: "r \<noteq> NULL" if "r \<in> set ps'" for r using that t ps p by (auto simp: table_ok_def intro!: gr0I)
  have A: "pclient_ok ps' j g ((fs(f := x)) g)" if "(j, g) \<in> set cl" for j g
  proof (cases "g = f")
    case True
    then show ?thesis using x ps by (simp add: pclient_ok_def)
  next
    case False
    then show ?thesis using midD(2) [OF m that] unfolding pclient_ok_def ps(2) by (simp, blast)
  qed
  have fqs: "f_q ((fs(f := x)) g) = f_q (fs g)" for g using fq x(2) by simp
  have B: "q_ok (fs(f := x)) cl r ((pp(p := one_more (may_write x) q)) r)" if "r \<in> set ps'" for r
  proof -
    have "q_ok fs cl r ((pp(p := q)) r)"
    proof (cases "r = p")
      case False
      then have "r \<in> set ps" using that ps by simp
      from midD(3) [OF m this] False show ?thesis by simp
    qed (use q(1) in simp)
    moreover have "p_readers (one_more w q) = p_readers q" "p_writers (one_more w q) = p_writers q" for w
      by (simp_all add: one_more_def)
    ultimately show ?thesis unfolding q_ok_def fqs by (cases "r = p") simp_all
  qed
  have C: "count_ok (fs(f := x)) cl r ((pp(p := one_more (may_write x) q)) r)" if r: "r \<in> set ps'" for r
  proof (cases "r = p")
    case True
    have "popens (fs(f := x)) cl p = popens fs cl p + 1" using c(1) [of p] p by simp
    moreover have "pwriters (fs(f := x)) cl p = pwriters fs cl p + (if may_write x then 1 else 0)" using c(2) [OF p] by simp
    ultimately show ?thesis using one_more_counted(1) [OF q(2)] q(3) True by simp
  next
    case False
    have "popens (fs(f := x)) cl r = popens fs cl r" "pwriters (fs(f := x)) cl r = pwriters fs cl r"
      using c(1) [of r] c(2) [OF rn [OF r]] rn [OF r] False by simp_all
    moreover have "r \<in> set ps" using r ps False by simp
    ultimately show ?thesis using midD(4) [OF m, of r] False by (simp add: count_ok_def)
  qed
  show ?thesis unfolding mid_def using t' A B C by blast
qed

lemma count_ok_counted: "count_ok fs cl p q \<Longrightarrow> counted fs cl p q"
  by (simp add: count_ok_def counted_def)

lemma perm_bits: "(a OR (b AND ACC_CHMOD)) AND ACC_WRITE = a AND ACC_WRITE"
  by (simp add: bit.conj_disj_distrib2 and.assoc ACC_CHMOD_def ACC_WRITE_def)

text \<open>The state after an open.\<close>

lemma inv_open:
  assumes i: "pipe_inv s" and f: "(k, f) \<in> set (pclients s)" "f_file (pfs s f) = NULL" and p: "p \<noteq> NULL"
    and x: "f_file x = p" "f_q x = None" and ps: "distinct ps'" "set ps' = insert p (set (pfiles s))"
    and q: "q_ok (pfs s) (pclients s) p q" "counted (pfs s) (pclients s) p q" "may_write x \<or> p_nread q \<noteq> PIPE_CLOSED_FOR_READS" "idle q"
    and s1: "pfs s1 = (pfs s)(f := x)" "pps s1 = (pps s)(p := one_more (may_write x) q)" "pfiles s1 = ps'" "pclients s1 = pclients s"
  shows "pipe_inv s1" "pend s1 = pend s"
proof -
  have m: "mid (pfs s) (pps s) (pfiles s) (pclients s)" using i by (simp add: pipe_inv_def pipe_mid_def)
  have "pipe_mid s1" unfolding pipe_mid_def s1 by (rule mid_open [OF m f p x ps q(1-3)])
  moreover have "idle (pps s1 r)" if "r \<in> set (pfiles s1)" for r
  proof (cases "r = p")
    case True
    have "popens ((pfs s)(f := x)) (pclients s) p = popens (pfs s) (pclients s) p + 1"
      "pwriters ((pfs s)(f := x)) (pclients s) p = pwriters (pfs s) (pclients s) p + (if may_write x then 1 else 0)"
      using open_counts(1) [OF m f p x(1), of p] open_counts(2) [OF m f p x(1) p] p by simp_all
    from one_more_counted(2) [OF q(2) this q(3,4)] show ?thesis using True by (simp add: s1)
  next
    case False
    then have "r \<in> set (pfiles s)" using that ps by (simp add: s1)
    then show ?thesis using i False by (simp add: pipe_inv_def s1)
  qed
  ultimately show "pipe_inv s1" by (simp add: pipe_inv_def)
  have "f_q (pfs s f) = None" using midD(2) [OF m f(1)] f(2) by (auto simp: pclient_ok_def)
  then show "pend s1 = pend s" using x(2) by (intro pend_same) (simp_all add: s1)
qed

lemma pipe_lookup_in: "pipe_lookup e n s = Inr p \<Longrightarrow> p = NULL \<or> p \<in> set (pfiles s)"
  unfolding pipe_lookup_def obind_def by (auto split: sum.splits list.splits option.splits sval.splits if_splits)

text \<open>A new address: of no pipe and of no client.\<close>

definition fresh :: "env \<Rightarrow> pipes \<Rightarrow> bool" where
  "fresh e s \<longleftrightarrow> e_addr e \<noteq> NULL \<and> e_addr e \<notin> set (pfiles s) \<and> e_addr e \<notin> cfiles (pclients s)"

lemma no_opens:
  assumes "mid fs pp ps cl" "p \<noteq> NULL" "p \<notin> set ps"
  shows "popens fs cl p = 0" "pwriters fs cl p = 0" "(k, f) \<in> set cl \<Longrightarrow> f_q (fs f) \<noteq> Some (Readers p, f) \<and> f_q (fs f) \<noteq> Some (Writers p, f)"
proof -
  have n: "f_file (fs f) \<noteq> p" if "(k, f) \<in> set cl" for k f using midD(2) [OF assms(1) that] assms(2,3) by (auto simp: pclient_ok_def)
  then show "popens fs cl p = 0" by (auto simp: popens_def filter_empty_conv)
  then show "pwriters fs cl p = 0" using writers_le [of fs cl p] by (simp add: pwriters_def)
  show "f_q (fs f) \<noteq> Some (Readers p, f) \<and> f_q (fs f) \<noteq> Some (Writers p, f)" if "(k, f) \<in> set cl"
    using midD(2) [OF assms(1) that] n [OF that] by (auto simp: pclient_ok_def)
qed

lemma pipe_open_ok:
  assumes i: "pipe_inv s" and f: "(k, f) \<in> set (pclients s)" "f_q (pfs s f) = None" and k: "m_sender m = k" and e: "fresh e s"
    and r: "pipe_open e m f s = Inr (s1, out)"
  shows "pipe_inv s1 \<and> answers (insert k (pend s)) out s1 \<and> pclients s1 = pclients s"
proof -
  note I = pipe_invD [OF i]
  have M: "mid (pfs s) (pps s) (pfiles s) (pclients s)" using I(1) by (simp add: pipe_mid_def)
  have np: "k \<notin> pend s" by (rule not_pend [OF I(2) f])
  let ?look = "length (m_buf m) \<noteq> 2 \<or> hd (m_buf m) \<noteq> CHR ''#''"
  define no where "no \<longleftrightarrow> s1 = s \<and> (\<exists>err. out = [(k, Err err)])"
  have no: ?thesis if no using that i answers_now [OF np refl] by (auto simp: no_def)
  consider (err) no
    | (new) p where "f_file (pfs s f) = NULL" "e_ok e 0 \<and> e_ok e 1" "p = NULL"
        "(s1, out) = (upd_pf f (\<lambda>x. x\<lparr>f_file := e_addr e, f_perm := ACC_READ OR ACC_WRITE OR ACC_CHMOD\<rparr>)
          (upd_pp (e_addr e) (\<lambda>x. x\<lparr>p_refs := p_refs x + 1, p_nwrite := p_nwrite x + 1\<rparr>) (snd (pipe_newfile e f s))), [(k, Reply 0 0 [])])"
    | (old) p x where "f_file (pfs s f) = NULL" "p \<noteq> NULL" "p \<in> set (pfiles s)" "p_nread (pps s p) \<noteq> PIPE_CLOSED_FOR_READS"
        "(s1, out) = (upd_pf f (\<lambda>y. y\<lparr>f_file := p, f_perm := m_arg m OR (x AND ACC_CHMOD)\<rparr>)
          (upd_pp p (\<lambda>y. if m_arg m AND ACC_WRITE \<noteq> 0 then y\<lparr>p_refs := p_refs y + 1, p_nwrite := p_nwrite y + 1\<rparr>
             else y\<lparr>p_refs := p_refs y + 1, p_nread := p_nread y + 1\<rparr>) s), [(k, Reply 0 0 [])])"
  proof (cases "f_file (pfs s f) \<noteq> NULL \<or> m_arg m AND ACC_DIR \<noteq> 0")
    case True
    then have no using r k by (auto simp: pipe_open_def no_def split: if_splits)
    then show ?thesis by (rule err)
  next
    case False
    obtain p where p: "(if ?look then pipe_lookup e (cstr (m_buf m)) s else Inr NULL) = Inr p"
      using r False by (cases "if ?look then pipe_lookup e (cstr (m_buf m)) s else Inr NULL") (auto simp: pipe_open_def Let_def obind_def)
    have pin: "p = NULL \<or> p \<in> set (pfiles s)" using p pipe_lookup_in by (auto split: if_splits)
    note r1 = r [unfolded pipe_open_def Let_def obind_def p, simplified False]
    show ?thesis
    proof (cases "p = NULL")
      case True
      show ?thesis
      proof (cases "(?look \<or> m_arg m AND ACC_CREATE = 0) \<or> \<not> (e_ok e 0 \<and> e_ok e 1)")
        case a: True
        then have no using r1 True k False by (auto simp: no_def pipe_newfile_def split: if_splits)
        then show ?thesis by (rule err)
      next
        case a: False
        show ?thesis
          by (rule new [of p]) (use a r1 True k False e in \<open>auto simp: pipe_newfile_def Let_def fresh_def split: if_splits\<close>)
      qed
    next
      case pn: False
      define x where "x = (ucast (perm_calc (f_perms (pfs s f)) (f_nperm (pfs s f)) (p_prot (pps s p))) :: uint)"
      show ?thesis
      proof (cases "p_nread (pps s p) = PIPE_CLOSED_FOR_READS \<or> m_arg m AND x \<noteq> m_arg m")
        case True
        then have no using r1 pn k False by (auto simp: no_def x_def split: if_splits)
        then show ?thesis by (rule err)
      next
        case a: False
        show ?thesis
          by (rule old [of p x]) (use a r1 pn k False pin in \<open>auto simp: x_def split: if_splits\<close>)
      qed
    qed
  qed
  then show ?thesis
  proof cases
    case err
    then show ?thesis by (rule no)
  next
    case new
    let ?p = "e_addr e"
    define q where "q = \<lparr>p_prot = new_prot (f_perms (pfs s f) ! 0), p_refs = 0, p_owner = perm_uid (f_perms (pfs s f) ! 0),
      p_readers = [], p_writers = [], p_nwrite = 0, p_nread = 0\<rparr>"
    let ?x = "(pfs s f)\<lparr>f_file := ?p, f_perm := ACC_READ OR ACC_WRITE OR ACC_CHMOD\<rparr>"
    have p: "?p \<noteq> NULL" "?p \<notin> set (pfiles s)" using e by (simp_all add: fresh_def)
    have nf: "snd (pipe_newfile e f s) = s\<lparr>pfiles := pfiles s @ [?p], pps := (pps s)(?p := q)\<rparr>"
      using new(2) by (simp add: pipe_newfile_def Let_def q_def)
    have q0: "p_refs q = 0" "p_nwrite q = 0" "p_nread q = 0" "p_readers q = []" "p_writers q = []"
      by (simp_all add: q_def)
    have w: "may_write ?x" by (simp add: may_write_def ACC_defs)
    note n = no_opens [OF M p]
    have q: "q_ok (pfs s) (pclients s) ?p q" "counted (pfs s) (pclients s) ?p q" "may_write ?x \<or> p_nread q \<noteq> PIPE_CLOSED_FOR_READS" "idle q"
      using q0 n w by (auto simp: q_ok_def counted_def idle_def cfiles_def)
    have ps: "distinct (pfiles s @ [?p])" "set (pfiles s @ [?p]) = insert ?p (set (pfiles s))"
      using I(2) p by (simp_all add: table_ok_def)
    have x: "f_file ?x = ?p" "f_q ?x = None" using f(2) by simp_all
    have s1: "pfs s1 = (pfs s)(f := ?x)" "pps s1 = (pps s)(?p := one_more (may_write ?x) q)" "pfiles s1 = pfiles s @ [?p]"
      "pclients s1 = pclients s" "out = [(k, Reply 0 0 [])]"
      using new(4) w unfolding nf by (simp_all add: one_more_def)
    note inv_open [OF i f(1) new(1) p(1) x ps q s1(1-4)]
    then show ?thesis using answers_now [OF np, of s1] s1 by simp
  next
    case old
    let ?x = "(pfs s f)\<lparr>f_file := p, f_perm := m_arg m OR (x AND ACC_CHMOD)\<rparr>"
    have w: "may_write ?x \<longleftrightarrow> m_arg m AND ACC_WRITE \<noteq> 0" by (simp add: may_write_def perm_bits)
    note Q = pipe_midD [OF I(1) old(3)]
    have id: "idle (pps s p)" using i old(3) by (simp add: pipe_inv_def)
    have ps: "distinct (pfiles s)" "set (pfiles s) = insert p (set (pfiles s))"
      using I(2) old(3) by (auto simp: table_ok_def)
    have x: "f_file ?x = p" "f_q ?x = None" using f(2) by simp_all
    have s1: "pfs s1 = (pfs s)(f := ?x)" "pps s1 = (pps s)(p := one_more (may_write ?x) (pps s p))" "pfiles s1 = pfiles s"
      "pclients s1 = pclients s" "out = [(k, Reply 0 0 [])]"
      using old(5) w by (simp_all add: one_more_def)
    have n: "may_write ?x \<or> p_nread (pps s p) \<noteq> PIPE_CLOSED_FOR_READS" using old(4) by simp
    note inv_open [OF i f(1) old(1,2) x ps Q(1) count_ok_counted [OF Q(2)] n id s1(1-4)]
    then show ?thesis using answers_now [OF np, of s1] s1 by simp
  qed
qed

subsection \<open>Aborts\<close>

lemma pipe_abort_ok:
  assumes i: "pipe_inv s" and f: "(k, f) \<in> set (pclients s)" and k: "m_sender m = k" and r: "pipe_abort m f s = (s1, out)"
  shows "pipe_inv s1 \<and> answers (insert k (pend s)) out s1 \<and> pclients s1 = pclients s"
proof (cases "f_q (pfs s f)")
  case None
  then show ?thesis
    using r i k answers_now [OF not_pend [OF pipe_invD(2) [OF i] f None] refl] by (auto simp: pipe_abort_def)
next
  case (Some n)
  note I = pipe_invD [OF i]
  let ?p = "f_file (pfs s f)"
  have "pclient_ok (pfiles s) k f (pfs s f)" using I(1) f by (auto simp: pipe_mid_def dest: midD(2))
  with Some have p: "?p \<in> set (pfiles s)" and n: "n = (Readers ?p, f) \<or> n = (Writers ?p, f)" by (auto simp: pclient_ok_def)
  have fc: "f \<in> cfiles (pclients s)" using f by (force simp: cfiles_def)
  have s1: "unqueue f s = Inr s1" "out = [(k, Reply 0 0 [])]" using r Some k by (auto simp: pipe_abort_def unqueue_def)
  have kp: "k \<in> pend s" using f Some by (auto simp: pend_def)
  have id: "idle (pps s ?p)" using i p by (simp add: pipe_inv_def)
  have "pipe_mid s1 \<and> only_queues ?p s s1 \<and> idle (pps s1 ?p) \<and> pend s1 = pend s - {k}"
  proof (cases "n = (Readers ?p, f)")
    case True
    then have "f \<in> set (p_readers (pps s ?p))" using pipe_midD(1) [OF I(1) p] Some fc by (simp add: q_ok_def)
    note u = unqueue_reader [OF I(1) p this]
    let ?s1 = "upd_pf f (\<lambda>x. x\<lparr>f_q := None\<rparr>) (upd_pp ?p (\<lambda>x. x\<lparr>p_readers := remove1 f (p_readers x)\<rparr>) s)"
    have "pend ?s1 = pend s - {k}" by (rule pend_unqueue [OF I(2) f]) simp_all
    moreover have "only_queues ?p s ?s1" by (simp add: only_queues_def)
    moreover have "idle (pps ?s1 ?p)" using id by (auto simp: idle_def)
    moreover have "s1 = ?s1" using u(1) s1(1) by (simp only: sum.inject)
    ultimately show ?thesis using u(2) by blast
  next
    case False
    then have "f \<in> set (p_writers (pps s ?p))" using pipe_midD(1) [OF I(1) p] Some fc n by (simp add: q_ok_def)
    note u = unqueue_writer [OF I(1) p this]
    let ?s1 = "upd_pf f (\<lambda>x. x\<lparr>f_q := None\<rparr>) (upd_pp ?p (\<lambda>x. x\<lparr>p_writers := remove1 f (p_writers x)\<rparr>) s)"
    have "pend ?s1 = pend s - {k}" by (rule pend_unqueue [OF I(2) f]) simp_all
    moreover have "only_queues ?p s ?s1" by (simp add: only_queues_def)
    moreover have "idle (pps ?s1 ?p)" using id by (auto simp: idle_def)
    moreover have "s1 = ?s1" using u(1) s1(1) by (simp only: sum.inject)
    ultimately show ?thesis using u(2) by blast
  qed
  then have u: "pipe_mid s1" "only_queues ?p s s1" "idle (pps s1 ?p)" "pend s1 = pend s - {k}" by blast+
  have "pipe_inv s1" by (rule inv_after_run [OF i u(2,1,3)])
  then show ?thesis using u(2,4) s1(2) kp by (auto simp: answers_def only_queues_def)
qed

subsection \<open>Clients come\<close>

lemma cfiles_simps [simp]: "cfiles ((k, f) # cl) = insert f (cfiles cl)"
  by (simp add: cfiles_def)

lemma mid_add:
  assumes m: "mid fs pp ps cl" and f: "f \<notin> cfiles cl" "k \<notin> fst ` set cl" and x: "f_q x = None" "f_file x = NULL \<or> f_file x \<in> set ps"
    and n: "f_file x \<noteq> NULL \<Longrightarrow> \<not> may_write x \<Longrightarrow> p_nread (pp (f_file x)) \<noteq> PIPE_CLOSED_FOR_READS"
  defines "pp' \<equiv> if f_file x = NULL then pp else pp(f_file x := one_more (may_write x) (pp (f_file x)))"
  shows "mid (fs(f := x)) pp' ps ((k, f) # cl)"
    "\<And>r. r \<in> set ps \<Longrightarrow> idle (pp r) \<Longrightarrow> idle (pp' r)"
proof -
  let ?fs = "fs(f := x)" and ?cl = "(k, f) # cl" and ?p = "f_file x"
  have t: "table_ok ps cl" by (rule midD(1) [OF m])
  have t': "table_ok ps ?cl" using t f by (auto simp: table_ok_def cfiles_def)
  have g: "g \<noteq> f" if "(j, g) \<in> set cl" for j g using f(1) that by (force simp: cfiles_def)
  have o: "popens ?fs cl r = popens fs cl r" "pwriters ?fs cl r = pwriters fs cl r" for r
    using g by (auto intro!: counts_cong)
  have c: "popens ?fs ?cl r = popens fs cl r + (if ?p = r then 1 else 0)"
    "pwriters ?fs ?cl r = pwriters fs cl r + (if ?p = r \<and> may_write x then 1 else 0)" for r
    using o [of r] by (simp_all add: popens_def pwriters_def)
  have A: "pclient_ok ps j h (?fs h)" if "(j, h) \<in> set ?cl" for j h
  proof (cases "h = f")
    case True
    then show ?thesis using x by (simp add: pclient_ok_def)
  next
    case False
    then have "(j, h) \<in> set cl" using that by simp
    from midD(2) [OF m this] False show ?thesis by simp
  qed
  have B: "q_ok ?fs ?cl r (pp' r)" if "r \<in> set ps" for r
  proof -
    have "h \<in> cfiles ?cl \<and> f_q (?fs h) = Some v \<longleftrightarrow> h \<in> cfiles cl \<and> f_q (fs h) = Some v" for h v
      using f(1) x(1) by (cases "h = f") simp_all
    moreover have "p_readers (pp' r) = p_readers (pp r)" "p_writers (pp' r) = p_writers (pp r)"
      by (simp_all add: pp'_def one_more_def)
    ultimately show ?thesis using midD(3) [OF m that] by (simp only: q_ok_def simp_thms)
  qed
  have D: "count_ok ?fs ?cl r (pp' r) \<and> (idle (pp r) \<longrightarrow> idle (pp' r))" if r: "r \<in> set ps" for r
  proof (cases "r = ?p")
    case True
    have rn: "?p \<noteq> NULL" using True t r by (auto simp: table_ok_def intro!: gr0I)
    have "counted fs cl ?p (pp ?p)" using count_ok_counted [OF midD(4) [OF m r]] True by simp
    moreover have "popens ?fs ?cl ?p = popens fs cl ?p + 1"
      "pwriters ?fs ?cl ?p = pwriters fs cl ?p + (if may_write x then 1 else 0)" unfolding c by simp_all
    moreover have "may_write x \<or> p_nread (pp ?p) \<noteq> PIPE_CLOSED_FOR_READS" using n rn by blast
    ultimately have "count_ok ?fs ?cl ?p (one_more (may_write x) (pp ?p))"
      "idle (pp ?p) \<longrightarrow> idle (one_more (may_write x) (pp ?p))" using one_more_counted by blast+
    moreover have "pp' r = one_more (may_write x) (pp ?p)" using True rn by (simp add: pp'_def)
    ultimately show ?thesis unfolding True by simp
  next
    case False
    then show ?thesis using midD(4) [OF m r] c [of r] by (auto simp: pp'_def count_ok_def)
  qed
  show "mid ?fs pp' ps ?cl" unfolding mid_def using t' A B D by blast
  show "\<And>r. r \<in> set ps \<Longrightarrow> idle (pp r) \<Longrightarrow> idle (pp' r)" using D by blast
qed

lemma pipe_new_client_ok:
  assumes i: "pipe_inv s" and k: "m_sender m \<notin> fst ` set (pclients s)" and e: "fresh e s"
    and r: "pipe_new_client e m s = Inr (s1, out)"
  shows "pipe_inv s1 \<and> pend s1 = pend s"
proof -
  have M: "mid (pfs s) (pps s) (pfiles s) (pclients s)" using i by (simp add: pipe_inv_def pipe_mid_def)
  have f: "e_addr e \<notin> cfiles (pclients s)" using e by (simp add: fresh_def)
  from r consider "s1 = s" | perms n where
      "s1 = s\<lparr>pfs := (pfs s)(e_addr e := new_pfile perms n), pclients := (m_sender m, e_addr e) # pclients s\<rparr>"
    by (auto simp: pipe_new_client_def obind_def Let_def split: if_splits sum.splits)
  then show ?thesis
  proof cases
    case 2
    let ?x = "new_pfile perms n"
    have x: "f_q ?x = None" "f_file ?x = NULL" by (simp_all add: new_pfile_def)
    have "mid (pfs s1) (pps s1) (pfiles s1) (pclients s1)"
      using mid_add(1) [OF M f k x(1)] x(2) 2 by simp
    moreover have "pend s1 = pend s"
    proof -
      have "g \<noteq> e_addr e" if "(j, g) \<in> set (pclients s)" for j g using f that by (force simp: cfiles_def)
      then show ?thesis unfolding pend_def using 2 x by auto
    qed
    ultimately show ?thesis using i 2 by (simp add: pipe_inv_def pipe_mid_def)
  qed (use i in simp)
qed

lemma pipe_dup_client_ok:
  assumes i: "pipe_inv s" and k: "m_arg m \<notin> fst ` set (pclients s)" and e: "fresh e s"
    and f: "(k, f) \<in> set (pclients s)" "f_q (pfs s f) = None" "m_sender m = k"
    and r: "pipe_dup_client e m f s = (s1, out)"
  shows "pipe_inv s1 \<and> answers (insert k (pend s)) out s1"
proof -
  note I = pipe_invD [OF i]
  have np: "k \<notin> pend s" by (rule not_pend [OF I(2) f(1,2)])
  have M: "mid (pfs s) (pps s) (pfiles s) (pclients s)" using i by (simp add: pipe_inv_def pipe_mid_def)
  have fr: "e_addr e \<notin> cfiles (pclients s)" using e by (simp add: fresh_def)
  let ?x = "pfs s f" and ?p = "f_file (pfs s f)"
  show ?thesis
  proof (cases "e_ok e 0 \<and> e_ok e 1")
    case False
    then have "s1 = s" "\<exists>r. out = [(k, r)]" using r f(3) by (auto simp: pipe_dup_client_def split: if_splits)
    then show ?thesis using i answers_now [OF np refl] by auto
  next
    case True
    have s1: "pfs s1 = (pfs s)(e_addr e := ?x)" "pclients s1 = (m_arg m, e_addr e) # pclients s" "pfiles s1 = pfiles s"
      "pps s1 = (if ?p = NULL then pps s else (pps s)(?p := one_more (may_write ?x) (pps s ?p)))" "out = [(k, Reply 0 0 [])]"
      using r f(3) True by (auto simp: pipe_dup_client_def Let_def may_write_def one_more_def)
    have fl: "?p = NULL \<or> ?p \<in> set (pfiles s)" using midD(2) [OF M f(1)] by (auto simp: pclient_ok_def)
    have n: "p_nread (pps s ?p) \<noteq> PIPE_CLOSED_FOR_READS" if "?p \<noteq> NULL" "\<not> may_write ?x"
    proof -
      have "pwriters (pfs s) (pclients s) ?p < popens (pfs s) (pclients s) ?p" by (rule writer_counted(3) [OF M f(1) refl that])
      moreover have "count_ok (pfs s) (pclients s) ?p (pps s ?p)" using midD(4) [OF M] fl that(1) by blast
      ultimately show ?thesis by (auto simp: count_ok_def PIPE_CLOSED_FOR_READS_def)
    qed
    note a = mid_add [OF M fr k f(2) fl n]
    have "mid (pfs s1) (pps s1) (pfiles s1) (pclients s1)" using a(1) by (simp add: s1)
    moreover have "idle (pps s1 r)" if "r \<in> set (pfiles s1)" for r using a(2) [of r] that i by (simp add: s1 pipe_inv_def)
    moreover have "pend s1 = pend s"
    proof -
      have "g \<noteq> e_addr e" if "(j, g) \<in> set (pclients s)" for j g using fr that by (force simp: cfiles_def)
      then show ?thesis unfolding pend_def s1 using f(2) by auto
    qed
    ultimately show ?thesis using answers_now [OF np, of s1] by (simp add: s1(5) pipe_inv_def pipe_mid_def)
  qed
qed

subsection \<open>Clients go\<close>

lemma del_counts:
  assumes "table_ok ps cl" "(k, f) \<in> set cl"
  shows "popens fs (del_client k cl) r = popens fs cl r - (if f_file (fs f) = r then 1 else 0)"
    "pwriters fs (del_client k cl) r = pwriters fs cl r - (if f_file (fs f) = r \<and> may_write (fs f) then 1 else 0)"
proof -
  have d: "distinct (map fst cl)" using assms(1) by (simp add: table_ok_def)
  show "popens fs (del_client k cl) r = popens fs cl r - (if f_file (fs f) = r then 1 else 0)"
    "pwriters fs (del_client k cl) r = pwriters fs cl r - (if f_file (fs f) = r \<and> may_write (fs f) then 1 else 0)"
    using del_client_count [OF d assms(2), of "\<lambda>(k, f). f_file (fs f) = r"]
      del_client_count [OF d assms(2), of "\<lambda>(k, f). f_file (fs f) = r \<and> may_write (fs f)"]
    by (simp_all add: popens_def pwriters_def)
qed

text \<open>A client without a queued request is gone; when it was the last of its pipe, so is the pipe.\<close>

lemma mid_del:
  assumes m: "mid fs pp ps cl" and f: "(k, f) \<in> set cl" "f_q (fs f) = None" "f_file (fs f) = p"
    and pp: "\<And>r. r \<noteq> p \<Longrightarrow> pp' r = pp r" "p_readers (pp' p) = p_readers (pp p)" "p_writers (pp' p) = p_writers (pp p)"
    and ps: "distinct ps'" "set ps' = set ps \<or> set ps' = set ps - {p} \<and> popens fs (del_client k cl) p = 0"
    and c: "p \<in> set ps' \<Longrightarrow> count_ok fs (del_client k cl) p (pp' p)"
  shows "mid fs pp' ps' (del_client k cl)"
proof -
  let ?cl = "del_client k cl"
  have t: "table_ok ps cl" by (rule midD(1) [OF m])
  then have d: "distinct (map fst cl)" "distinct (map snd cl)" by (simp_all add: table_ok_def)
  note sc = del_client_set [OF d(1), of k]
  have sub: "set ps' \<subseteq> set ps" using ps(2) by blast
  have t': "table_ok ps' ?cl" using t ps(1) sub del_client_distinct [OF d] by (auto simp: table_ok_def)
  have A: "pclient_ok ps' j g (fs g)" if g: "(j, g) \<in> set ?cl" for j g
  proof -
    have ok: "pclient_ok ps j g (fs g)" using g midD(2) [OF m] by (simp add: sc)
    have "f_file (fs g) \<noteq> p" if z: "popens fs ?cl p = 0"
      using z g by (auto simp: popens_def filter_empty_conv)
    with ok ps(2) show ?thesis unfolding pclient_ok_def by auto
  qed
  have key: "x \<noteq> f \<Longrightarrow> x \<in> cfiles ?cl \<longleftrightarrow> x \<in> cfiles cl" for x
  proof -
    assume "x \<noteq> f"
    then have "j \<noteq> k" if "(j, x) \<in> set cl" for j using that f(1) d(1) by (auto dest: eq_key_imp_eq_value)
    then show "x \<in> cfiles ?cl \<longleftrightarrow> x \<in> cfiles cl" unfolding cfiles_def sc by force
  qed
  have q: "x \<in> cfiles ?cl \<and> f_q (fs x) = Some v \<longleftrightarrow> x \<in> cfiles cl \<and> f_q (fs x) = Some v" for x v
    using key [of x] f(2) by (cases "x = f") simp_all
  have B: "q_ok fs ?cl r (pp' r)" if r: "r \<in> set ps'" for r
  proof -
    have "p_readers (pp' r) = p_readers (pp r)" "p_writers (pp' r) = p_writers (pp r)" using pp by (cases "r = p", simp_all)+
    moreover have "q_ok fs cl r (pp r)" using midD(3) [OF m] r sub by blast
    ultimately show ?thesis by (simp only: q_ok_def q simp_thms)
  qed
  have C: "count_ok fs ?cl r (pp' r)" if r: "r \<in> set ps'" for r
  proof (cases "r = p")
    case False
    have "count_ok fs cl r (pp r)" using midD(4) [OF m] r sub by blast
    then show ?thesis using del_counts [OF t f(1), of fs r] f(3) pp(1) [OF False] False by (simp add: count_ok_def)
  qed (use c r in simp)
  show ?thesis unfolding mid_def using t' A B C by blast
qed

lemma drain_writers_ok:
  assumes "pipe_mid s" "p \<in> set (pfiles s)"
  shows "\<exists>s1 out. drain_writers p s o0 = Some (Inr (s1, o0 @ out)) \<and> pipe_mid s1 \<and> p_writers (pps s1 p) = [] \<and>
    p_readers (pps s1 p) = p_readers (pps s p) \<and> answers (pend s) out s1 \<and> only_queues p s s1"
  using assms
proof (induction "length (p_writers (pps s p))" arbitrary: s o0 rule: less_induct)
  case less
  show ?case
  proof (cases "p_writers (pps s p)")
    case Nil
    then have "drain_writers p s o0 = Some (Inr (s, o0 @ []))" by (subst drain_writers.simps) simp
    then show ?thesis using less.prems Nil by (intro exI [of _ s] exI [of _ "[]"]) auto
  next
    case (Cons w ws)
    then have win: "w \<in> set (p_writers (pps s p))" by simp
    let ?s1 = "upd_pf w (\<lambda>x. x\<lparr>f_q := None\<rparr>) (upd_pp p (\<lambda>x. x\<lparr>p_writers := remove1 w (p_writers x)\<rparr>) s)"
    note U = unqueue_writer [OF less.prems win]
    from queued_client [OF less.prems] win obtain k where k: "(k, w) \<in> set (pclients s)" "m_sender (f_msg (pfs s w)) = k" by blast
    have fq: "f_q (pfs s w) \<noteq> None" using pipe_midD(1) [OF less.prems] win by (auto simp: q_ok_def)
    have pe: "pend ?s1 = pend s - {k}"
      by (rule pend_unqueue [OF _ k(1)]) (use less.prems(1) in \<open>simp_all add: pipe_mid_def mid_def\<close>)
    have "k \<in> pend s" using k(1) fq by (auto simp: pend_def)
    with pe have a: "answers (pend s) [(k, Err E_PIPE)] ?s1" by (auto simp: answers_def)
    have oq: "only_queues p s ?s1" by (simp add: only_queues_def)
    have "length (p_writers (pps ?s1 p)) < length (p_writers (pps s p))" "p \<in> set (pfiles ?s1)" using Cons less.prems by simp_all
    from less.hyps [OF this(1) U(2) this(2), of "o0 @ [(k, Err E_PIPE)]"] obtain s2 o2 where
      s2: "drain_writers p ?s1 (o0 @ [(k, Err E_PIPE)]) = Some (Inr (s2, (o0 @ [(k, Err E_PIPE)]) @ o2))" "pipe_mid s2"
        "p_writers (pps s2 p) = []" "p_readers (pps s2 p) = p_readers (pps ?s1 p)" "answers (pend ?s1) o2 s2" "only_queues p ?s1 s2" by blast
    have "drain_writers p s o0 = drain_writers p ?s1 (o0 @ [(k, Err E_PIPE)])"
      using Cons U(1) k(2) by (subst drain_writers.simps) simp
    then have "drain_writers p s o0 = Some (Inr (s2, o0 @ ((k, Err E_PIPE) # o2)))" using s2(1) by simp
    moreover have "p_readers (pps s2 p) = p_readers (pps s p)" using s2(4) by simp
    ultimately show ?thesis
      using s2(2,3) answers_trans [OF a s2(5)] only_queues_trans [OF oq s2(6)] by (intro exI conjI) simp_all
  qed
qed

lemma drain_readers_ok:
  assumes "pipe_mid s" "p \<in> set (pfiles s)"
  shows "\<exists>s1 out. drain_readers p s o0 = Some (Inr (s1, o0 @ out)) \<and> pipe_mid s1 \<and> p_readers (pps s1 p) = [] \<and>
    p_writers (pps s1 p) = p_writers (pps s p) \<and> answers (pend s) out s1 \<and> only_queues p s s1"
  using assms
proof (induction "length (p_readers (pps s p))" arbitrary: s o0 rule: less_induct)
  case less
  show ?case
  proof (cases "p_readers (pps s p)")
    case Nil
    then have "drain_readers p s o0 = Some (Inr (s, o0 @ []))" by (subst drain_readers.simps) simp
    then show ?thesis using less.prems Nil by (intro exI [of _ s] exI [of _ "[]"]) auto
  next
    case (Cons r rs)
    then have rin: "r \<in> set (p_readers (pps s p))" by simp
    let ?s1 = "upd_pf r (\<lambda>x. x\<lparr>f_q := None\<rparr>) (upd_pp p (\<lambda>x. x\<lparr>p_readers := remove1 r (p_readers x)\<rparr>) s)"
    let ?s2 = "upd_pf r (\<lambda>x. x\<lparr>f_msg := (f_msg x)\<lparr>m_arg := 0, m_arg1 := 0, m_segs := []\<rparr>\<rparr>) ?s1"
    note U = unqueue_reader [OF less.prems rin]
    from queued_client [OF less.prems] rin obtain k where k: "(k, r) \<in> set (pclients s)" "m_sender (f_msg (pfs s r)) = k" by blast
    have fq: "f_q (pfs s r) \<noteq> None" using pipe_midD(1) [OF less.prems] rin by (auto simp: q_ok_def)
    have m2: "pipe_mid ?s2" by (rule msg_update [OF U(2)]) simp
    have pe: "pend ?s2 = pend s - {k}"
      by (rule pend_unqueue [OF _ k(1)]) (use less.prems(1) in \<open>simp_all add: pipe_mid_def mid_def\<close>)
    have "k \<in> pend s" using k(1) fq by (auto simp: pend_def)
    with pe have a: "answers (pend s) [(k, Reply 0 0 [])] ?s2" by (auto simp: answers_def)
    have oq: "only_queues p s ?s2" by (simp add: only_queues_def)
    have "length (p_readers (pps ?s2 p)) < length (p_readers (pps s p))" "p \<in> set (pfiles ?s2)" using Cons less.prems by simp_all
    from less.hyps [OF this(1) m2 this(2), of "o0 @ [(k, Reply 0 0 [])]"] obtain s3 o2 where
      s3: "drain_readers p ?s2 (o0 @ [(k, Reply 0 0 [])]) = Some (Inr (s3, (o0 @ [(k, Reply 0 0 [])]) @ o2))" "pipe_mid s3"
        "p_readers (pps s3 p) = []" "p_writers (pps s3 p) = p_writers (pps ?s2 p)" "answers (pend ?s2) o2 s3" "only_queues p ?s2 s3" by blast
    have "drain_readers p s o0 = drain_readers p ?s2 (o0 @ [(k, Reply 0 0 [])])"
      using Cons U(1) k(2) by (subst drain_readers.simps) simp
    then have "drain_readers p s o0 = Some (Inr (s3, o0 @ ((k, Reply 0 0 []) # o2)))" using s3(1) by simp
    moreover have "p_writers (pps s3 p) = p_writers (pps s p)" using s3(4) by simp
    ultimately show ?thesis
      using s3(2,3) answers_trans [OF a s3(5)] only_queues_trans [OF oq s3(6)] by (intro exI conjI) simp_all
  qed
qed

text \<open>The state when a client is gone and the counts are adjusted, before the queues are drained.\<close>

lemma inv_del:
  assumes i: "pipe_inv s" and f: "(k, f) \<in> set (pclients s)" "f_q (pfs s f) = None"
    and s1: "pfs s1 = pfs s" "pclients s1 = del_client k (pclients s)"
      "\<And>r. r \<noteq> f_file (pfs s f) \<Longrightarrow> pps s1 r = pps s r"
      "p_readers (pps s1 (f_file (pfs s f))) = p_readers (pps s (f_file (pfs s f)))"
      "p_writers (pps s1 (f_file (pfs s f))) = p_writers (pps s (f_file (pfs s f)))"
    and ps: "distinct (pfiles s1)" "set (pfiles s1) = set (pfiles s) \<or>
      set (pfiles s1) = set (pfiles s) - {f_file (pfs s f)} \<and> popens (pfs s) (pclients s1) (f_file (pfs s f)) = 0"
    and c: "f_file (pfs s f) \<in> set (pfiles s1) \<Longrightarrow> count_ok (pfs s) (pclients s1) (f_file (pfs s f)) (pps s1 (f_file (pfs s f)))"
  shows "pipe_mid s1" "pend s1 = pend s" "r \<in> set (pfiles s1) \<Longrightarrow> r \<noteq> f_file (pfs s f) \<Longrightarrow> idle (pps s1 r)"
proof -
  have M: "mid (pfs s) (pps s) (pfiles s) (pclients s)" using i by (simp add: pipe_inv_def pipe_mid_def)
  have t: "table_ok (pfiles s) (pclients s)" by (rule midD(1) [OF M])
  have "mid (pfs s) (pps s1) (pfiles s1) (pclients s1)" unfolding s1(2)
    using s1(3-5) ps c unfolding s1(2) by (intro mid_del [OF M f refl]) auto
  then show "pipe_mid s1" by (simp add: pipe_mid_def s1)
  have "distinct (map fst (pclients s))" using t by (simp add: table_ok_def)
  note sc = del_client_set [OF this, of k]
  have "k \<notin> pend s" by (rule not_pend [OF t f])
  then show "pend s1 = pend s" unfolding pend_def s1 sc by auto
  show "idle (pps s1 r)" if "r \<in> set (pfiles s1)" "r \<noteq> f_file (pfs s f)"
    using i that ps(2) s1(3) [of r] by (auto simp: pipe_inv_def)
qed

lemma inv_drained:
  assumes "pipe_mid s2" "only_queues p s1 s2" "idle (pps s2 p)" "\<And>r. r \<in> set (pfiles s1) \<Longrightarrow> r \<noteq> p \<Longrightarrow> idle (pps s1 r)"
  shows "pipe_inv s2"
proof -
  have "idle (pps s2 r)" if "r \<in> set (pfiles s2)" for r
    using assms that by (cases "r = p") (auto simp: only_queues_def)
  then show ?thesis using assms(1) by (simp add: pipe_inv_def)
qed

lemma inv_leave:
  assumes i: "pipe_inv s" and f: "(k, f) \<in> set (pclients s)" "f_q (pfs s f) = None"
    and g: "p_readers q = p_readers (pps s (f_file (pfs s f)))" "p_writers q = p_writers (pps s (f_file (pfs s f)))"
      "count_ok (pfs s) (del_client k (pclients s)) (f_file (pfs s f)) q"
  defines "s1 \<equiv> s\<lparr>pclients := del_client k (pclients s), pps := (pps s)(f_file (pfs s f) := q)\<rparr>"
  shows "pipe_mid s1" "pend s1 = pend s" "r \<in> set (pfiles s1) \<Longrightarrow> r \<noteq> f_file (pfs s f) \<Longrightarrow> idle (pps s1 r)"
proof -
  have "distinct (pfiles s)" using pipe_invD(2) [OF i] by (simp add: table_ok_def)
  then show "pipe_mid s1" "pend s1 = pend s" "r \<in> set (pfiles s1) \<Longrightarrow> r \<noteq> f_file (pfs s f) \<Longrightarrow> idle (pps s1 r)"
    using inv_del [OF i f, of s1] g by (simp_all add: s1_def)
qed

text \<open>The last steps of a close: nothing to do, or a drain.\<close>

lemma close_end:
  assumes "pipe_mid s1" "p \<in> set (pfiles s1)" "\<And>r. r \<in> set (pfiles s1) \<Longrightarrow> r \<noteq> p \<Longrightarrow> idle (pps s1 r)"
    and "res = Some (Inr (s1, [])) \<and> idle (pps s1 p) \<or>
      res = drain_writers p s1 [] \<and> (p_nwrite (pps s1 p) = 0 \<longrightarrow> p_readers (pps s1 p) = []) \<or>
      res = drain_readers p s1 [] \<and> (p_nread (pps s1 p) = PIPE_CLOSED_FOR_READS \<longrightarrow> p_writers (pps s1 p) = [])"
  shows "\<exists>s2 out. res = Some (Inr (s2, out)) \<and> pipe_inv s2 \<and> answers (pend s1) out s2"
  using assms(4)
proof (elim disjE conjE)
  assume r: "res = Some (Inr (s1, []))" "idle (pps s1 p)"
  have "pipe_inv s1" by (rule inv_drained [OF assms(1) only_queues_refl r(2) assms(3)])
  with r(1) show ?thesis by (intro exI [of _ s1] exI [of _ "[]"]) auto
next
  assume r: "res = drain_writers p s1 []" "p_nwrite (pps s1 p) = 0 \<longrightarrow> p_readers (pps s1 p) = []"
  from drain_writers_ok [OF assms(1,2), of "[]"] obtain s2 out where
    s2: "drain_writers p s1 [] = Some (Inr (s2, out))" "pipe_mid s2" "p_writers (pps s2 p) = []"
      "p_readers (pps s2 p) = p_readers (pps s1 p)" "answers (pend s1) out s2" "only_queues p s1 s2" by auto
  have "idle (pps s2 p)" using s2(3,4,6) r(2) by (simp add: idle_def only_queues_def)
  from inv_drained [OF s2(2,6) this assms(3)] r(1) s2(1,5) show ?thesis by auto
next
  assume r: "res = drain_readers p s1 []" "p_nread (pps s1 p) = PIPE_CLOSED_FOR_READS \<longrightarrow> p_writers (pps s1 p) = []"
  from drain_readers_ok [OF assms(1,2), of "[]"] obtain s2 out where
    s2: "drain_readers p s1 [] = Some (Inr (s2, out))" "pipe_mid s2" "p_readers (pps s2 p) = []"
      "p_writers (pps s2 p) = p_writers (pps s1 p)" "answers (pend s1) out s2" "only_queues p s1 s2" by auto
  have "idle (pps s2 p)" using s2(3,4,6) r(2) by (simp add: idle_def only_queues_def)
  from inv_drained [OF s2(2,6) this assms(3)] r(1) s2(1,5) show ?thesis by auto
qed

lemma pipe_dead_client_ok:
  assumes i: "pipe_inv s" and f: "(k, f) \<in> set (pclients s)" "f_q (pfs s f) = None" and k: "m_sender m = k"
  shows "\<exists>s1 out. pipe_dead_client m f s = Some (Inr (s1, out)) \<and> pipe_inv s1 \<and> answers (pend s) out s1"
proof -
  note I = pipe_invD [OF i]
  have M: "mid (pfs s) (pps s) (pfiles s) (pclients s)" using I(1) by (simp add: pipe_mid_def)
  let ?p = "f_file (pfs s f)" and ?q = "pps s (f_file (pfs s f))" and ?cl = "del_client k (pclients s)"
  let ?s0 = "s\<lparr>pclients := ?cl\<rparr>"
  have d: "distinct (pfiles s)" using I(2) by (simp add: table_ok_def)
  note dead = pipe_dead_client_def [of m f s, unfolded k]
  show ?thesis
  proof (cases "?p = NULL \<or> p_refs ?q - 1 = 0")
    case True
    let ?s1 = "if ?p = NULL then ?s0 else pipe_freeup ?p (upd_pp ?p (\<lambda>x. x\<lparr>p_refs := p_refs x - 1\<rparr>) ?s0)"
    have N: "?p = NULL \<Longrightarrow> ?p \<notin> set (pfiles s)" using I(2) by (simp add: table_ok_def)
    have s1: "pfiles ?s1 = remove1 ?p (pfiles s)" "pfs ?s1 = pfs s" "pclients ?s1 = ?cl" "\<And>r. r \<noteq> ?p \<Longrightarrow> pps ?s1 r = pps s r"
      "p_readers (pps ?s1 ?p) = p_readers ?q" "p_writers (pps ?s1 ?p) = p_writers ?q"
      using N by (simp_all add: pipe_freeup_def remove1_idem)
    have z: "popens (pfs s) ?cl ?p = 0" if n: "?p \<noteq> NULL"
    proof -
      have "count_ok (pfs s) (pclients s) ?p ?q" using midD(4) [OF M] writer_counted(1) [OF M f(1) refl n] by blast
      then show ?thesis using True n del_counts(1) [OF I(2) f(1), of "pfs s" ?p] by (simp add: count_ok_def)
    qed
    have ps: "distinct (pfiles ?s1)" "set (pfiles ?s1) = set (pfiles s) \<or> set (pfiles ?s1) = set (pfiles s) - {?p} \<and> popens (pfs s) (pclients ?s1) ?p = 0"
      "?p \<notin> set (pfiles ?s1)"
      using d N z unfolding s1(1,3) by (cases "?p = NULL", simp_all add: remove1_idem)+
    note v = inv_del [OF i f s1(2,3) s1(4) s1(5,6) ps(1,2)]
    have "pipe_inv ?s1" using v(1,3) ps(3) unfolding pipe_inv_def by blast
    moreover have "pipe_dead_client m f s = Some (Inr (?s1, []))"
    proof (cases "?p = NULL")
      case False
      with True have "p_refs ?q - 1 = 0" by blast
      with False show ?thesis by (simp add: dead pipe_close_def Let_def)
    qed (simp add: dead pipe_close_def Let_def)
    moreover have "answers (pend s) [] ?s1" using v(2) ps(3) unfolding answers_def by simp
    ultimately show ?thesis by blast
  next
    case False
    have p: "?p \<in> set (pfiles s)" by (rule writer_counted(1) [OF M f(1) refl]) (use False in simp)
    have C: "count_ok (pfs s) (pclients s) ?p ?q" by (rule midD(4) [OF M p])
    have id: "idle ?q" using i p by (simp add: pipe_inv_def)
    note D = del_counts [OF I(2) f(1), of "pfs s" ?p, simplified]
    have pn: "0 \<le> popens (pfs s) ?cl ?p" "pwriters (pfs s) ?cl ?p \<le> popens (pfs s) ?cl ?p" "0 \<le> pwriters (pfs s) ?cl ?p"
      by (simp_all add: writers_le) (simp_all add: popens_def pwriters_def)
    define q where "q =
      (if may_write (pfs s f) then ?q\<lparr>p_refs := p_refs ?q - 1, p_nwrite := p_nwrite ?q - 1\<rparr>
       else if 0 < p_nread ?q - 1 \<or> p_nwrite ?q = 0 then ?q\<lparr>p_refs := p_refs ?q - 1, p_nread := p_nread ?q - 1\<rparr>
       else ?q\<lparr>p_refs := p_refs ?q - 1, p_nread := PIPE_CLOSED_FOR_READS\<rparr>)"
    define s1 where "s1 = s\<lparr>pclients := ?cl, pps := (pps s)(?p := q)\<rparr>"
    have q: "p_readers q = p_readers ?q" "p_writers q = p_writers ?q" by (simp_all add: q_def)
    have "count_ok (pfs s) ?cl ?p q" using C False D pn by (auto simp: count_ok_def q_def PIPE_CLOSED_FOR_READS_def)
    note S = inv_leave [OF i f q this, folded s1_def]
    have s1: "pps s1 ?p = q" "pfiles s1 = pfiles s" by (simp_all add: s1_def)
    have "pipe_dead_client m f s =
      (if may_write (pfs s f) then (if 0 < p_nwrite ?q - 1 then Some (Inr (s1, [])) else drain_readers ?p s1 [])
       else if 0 < p_nread ?q - 1 \<or> p_nwrite ?q = 0 then Some (Inr (s1, [])) else drain_writers ?p s1 [])"
      using False by (simp add: dead pipe_close_def Let_def may_write_def q_def upd_pp_def s1_def)
    moreover have "idle q" if "may_write (pfs s f)" "0 < p_nwrite ?q - 1" using id that by (auto simp: idle_def q_def)
    moreover have "idle q" if "\<not> may_write (pfs s f)" "0 < p_nread ?q - 1 \<or> p_nwrite ?q = 0"
      using id that C D pn False by (auto simp: idle_def q_def count_ok_def PIPE_CLOSED_FOR_READS_def)
    moreover have "p_nread q = PIPE_CLOSED_FOR_READS \<longrightarrow> p_writers q = []" if "may_write (pfs s f)"
      using id that by (simp add: idle_def q_def)
    moreover have "p_nwrite q = 0 \<longrightarrow> p_readers q = []" if "\<not> may_write (pfs s f)"
      using id that by (simp add: idle_def q_def)
    ultimately have "pipe_dead_client m f s = Some (Inr (s1, [])) \<and> idle (pps s1 ?p) \<or>
      pipe_dead_client m f s = drain_writers ?p s1 [] \<and> (p_nwrite (pps s1 ?p) = 0 \<longrightarrow> p_readers (pps s1 ?p) = []) \<or>
      pipe_dead_client m f s = drain_readers ?p s1 [] \<and> (p_nread (pps s1 ?p) = PIPE_CLOSED_FOR_READS \<longrightarrow> p_writers (pps s1 ?p) = [])"
      unfolding s1 by (simp split: if_splits)
    from close_end [OF S(1) _ S(3) this] p show ?thesis unfolding S(2) s1 by simp
  qed
qed

end
