(* ===== verification/Pipe_Spec.thy ===== *)
theory Pipe_Spec
  imports Pipe_Steps
begin

text \<open>
  What holds of the pipe server for every message: it stays in its invariant and answers each request
  once; a pipe delivers the bytes that were written, in order.
\<close>

subsection \<open>Messages that change no queue\<close>

lemma pipe_readdir_ok:
  assumes i: "pipe_inv s" and k: "m_sender m \<notin> pend s" and r: "pipe_readdir e m f s = (s1, out)"
  shows "pipe_inv s1 \<and> answers (insert (m_sender m) (pend s)) out s1"
proof -
  obtain x y where "s1 = s \<or> s1 = upd_pf f (\<lambda>x. x\<lparr>f_pos := y\<rparr>) s" and o: "out = [(m_sender m, x)]"
    using r by (auto simp: pipe_readdir_def Let_def split: if_splits prod.splits)
  then have "pipe_inv s1 \<and> pend s1 = pend s"
    using i pipe_inv_cong(1,2) [OF i, of "upd_pf f (\<lambda>x. x\<lparr>f_pos := y\<rparr>) s"] by auto
  then show ?thesis using answers_now [OF k] o by blast
qed

lemma pipe_stat_ok: "pipe_stat m f s = Inr (s1, out) \<Longrightarrow> s1 = s \<and> (\<exists>r. out = [(m_sender m, r)])"
  by (auto simp: pipe_stat_def obind_def Let_def split: if_splits sum.splits)

lemma pipe_wstat_ok:
  assumes i: "pipe_inv s" and r: "pipe_wstat m f s = Inr (s1, out)"
  shows "pipe_inv s1 \<and> pend s1 = pend s \<and> (f_file (pfs s f) \<noteq> NULL \<longrightarrow> (\<exists>r. out = [(m_sender m, r)]))"
proof -
  obtain p y where "s1 = s \<or> s1 = upd_pp p (\<lambda>x. x\<lparr>p_prot := y\<rparr>) s" and o: "f_file (pfs s f) \<noteq> NULL \<longrightarrow> (\<exists>r. out = [(m_sender m, r)])"
    using r by (auto simp: pipe_wstat_def obind_def Let_def split: if_splits sum.splits wstat_result.splits)
  then have "pipe_inv s1 \<and> pend s1 = pend s"
    using i pipe_inv_cong(1,2) [OF i, of "upd_pp p (\<lambda>x. x\<lparr>p_prot := y\<rparr>) s"] by auto
  then show ?thesis using o by blast
qed

text \<open>The root directory: the error, and then the reply of the rest of the handler.\<close>

lemma pipe_wstat_root:
  assumes "f_file (pfs s f) = NULL" "pipe_wstat m f s = Inr (s1, out)"
  shows "\<exists>r. out = [(m_sender m, Err E_INVAL), (m_sender m, r)]"
  using assms by (auto simp: pipe_wstat_def obind_def Let_def split: if_splits sum.splits wstat_result.splits)

subsection \<open>All messages\<close>

text \<open>
  What the kernel promises the server: a connection has a new name; any other message is from a
  client, which has no request outstanding unless it aborts one; new structures have new
  addresses.
\<close>

definition pipe_legal :: "env \<Rightarrow> msg \<Rightarrow> pipes \<Rightarrow> bool" where
  "pipe_legal e m s \<longleftrightarrow>
     fresh e s \<and>
     (if m_op m AND MSG_MASK = M_CONNECT then m_sender m \<notin> fst ` set (pclients s)
      else case map_of (pclients s) (m_sender m) of
             None \<Rightarrow> False
           | Some f \<Rightarrow>
               (m_op m AND MSG_MASK = M_ABORT \<or> f_q (pfs s f) = None) \<and>
               (m_op m AND MSG_MASK = M_DUP \<longrightarrow> m_arg m \<notin> fst ` set (pclients s)))"

definition root_wstat :: "msg \<Rightarrow> pipes \<Rightarrow> bool" where
  "root_wstat m s \<longleftrightarrow>
     m_op m AND MSG_MASK = FS_WSTAT \<and> (\<forall>f. (m_sender m, f) \<in> set (pclients s) \<longrightarrow> f_file (pfs s f) = NULL)"

text \<open>The requests that are to be answered, now or later.\<close>

definition asked :: "msg \<Rightarrow> pipes \<Rightarrow> ulong set" where
  "asked m s = (if m_op m AND MSG_MASK = M_DISCONNECT then pend s else insert (m_sender m) (pend s))"

lemma pend_clients: "pend s \<subseteq> fst ` set (pclients s)"
  by (auto simp: pend_def rev_image_eqI)

text \<open>A client that has no request outstanding.\<close>

lemma pipe_request_ok:
  assumes i: "pipe_inv s" and f: "(m_sender m, f) \<in> set (pclients s)" "f_q (pfs s f) = None" and e: "fresh e s"
    and o: "o' \<in> {FS_OPEN, FS_READ, FS_WRITE, FS_STAT, FS_WSTAT}"
  shows "\<exists>res.
    (if o' = FS_OPEN then Some (pipe_open e m f s) else if o' = FS_READ then pipe_read e m f s
     else if o' = FS_WRITE then pipe_write e m f s else if o' = FS_STAT then Some (pipe_stat m f s)
     else Some (pipe_wstat m f s)) = Some res \<and>
    (\<forall>s1 out. res = Inr (s1, out) \<longrightarrow> pipe_inv s1 \<and>
      (o' = FS_WSTAT \<and> f_file (pfs s f) = NULL \<or> answers (insert (m_sender m) (pend s)) out s1))"
proof -
  note I = pipe_invD [OF i]
  have np: "m_sender m \<notin> pend s" by (rule not_pend [OF I(2) f])
  have d: "FS_OPEN \<noteq> FS_READ" "FS_OPEN \<noteq> FS_WRITE" "FS_OPEN \<noteq> FS_STAT" "FS_OPEN \<noteq> FS_WSTAT" "FS_READ \<noteq> FS_WRITE"
    "FS_READ \<noteq> FS_STAT" "FS_READ \<noteq> FS_WSTAT" "FS_WRITE \<noteq> FS_STAT" "FS_WRITE \<noteq> FS_WSTAT" "FS_STAT \<noteq> FS_WSTAT"
    by (simp_all add: FS_defs)
  from o consider "o' = FS_OPEN" | "o' = FS_READ" | "o' = FS_WRITE" | "o' = FS_STAT" | "o' = FS_WSTAT" by blast
  then show ?thesis
  proof cases
    case 1
    then show ?thesis using pipe_open_ok [OF i f refl e] by auto
  next
    case 2
    show ?thesis
    proof (cases "f_file (pfs s f) = NULL")
      case True
      then show ?thesis using 2 d pipe_readdir_ok [OF i np, of e f] by (auto simp: pipe_read_def Let_def)
    next
      case False
      from pipe_read_ok [OF i f refl this, of e] 2 d show ?thesis by auto
    qed
  next
    case 3
    from pipe_write_ok [OF i f refl, of e] 3 d show ?thesis by auto
  next
    case 4
    then show ?thesis using d pipe_stat_ok [of m f s] i answers_now [OF np refl] by auto
  next
    case 5
    have "answers (insert (m_sender m) (pend s)) out s1"
      if "pipe_wstat m f s = Inr (s1, out)" "f_file (pfs s f) \<noteq> NULL" for s1 out
      using pipe_wstat_ok [OF i that(1)] that(2) answers_now [OF np, of s1] by auto
    then show ?thesis using 5 d pipe_wstat_ok [OF i] by auto
  qed
qed

lemma root_wstatI:
  assumes "table_ok ps (pclients s)" "(m_sender m, f) \<in> set (pclients s)" "m_op m AND MSG_MASK = FS_WSTAT" "f_file (pfs s f) = NULL"
  shows "root_wstat m s"
proof -
  have "g = f" if "(m_sender m, g) \<in> set (pclients s)" for g
    using assms(1,2) that by (auto simp: table_ok_def dest: eq_key_imp_eq_value)
  then show ?thesis using assms(3,4) by (auto simp: root_wstat_def)
qed

lemma pipe_main_ok:
  assumes i: "pipe_inv s" and l: "pipe_legal e m s"
  shows "\<exists>res. pipe_main e m s = Some res \<and>
    (\<forall>s1 out. res = Inr (s1, out) \<longrightarrow> pipe_inv s1 \<and> (root_wstat m s \<or> answers (asked m s) out s1))"
proof (cases "m_op m AND MSG_MASK = M_CONNECT")
  case True
  have k: "m_sender m \<notin> fst ` set (pclients s)" and e: "fresh e s" using l True by (simp_all add: pipe_legal_def)
  have np: "m_sender m \<notin> pend s" using k pend_clients by blast
  have "M_CONNECT \<noteq> M_DISCONNECT" by (simp add: M_defs)
  then have a: "asked m s = insert (m_sender m) (pend s)" using True by (simp add: asked_def)
  have "\<exists>r. out = [(m_sender m, r)]" if "pipe_new_client e m s = Inr (s1, out)" for s1 out
    using that by (auto simp: pipe_new_client_def obind_def Let_def split: if_splits sum.splits)
  then show ?thesis
    using pipe_new_client_ok [OF i k e] answers_now [OF np] True unfolding pipe_main_def a Let_def by fastforce
next
  case nc: False
  let ?op = "m_op m AND MSG_MASK"
  obtain f where mf: "map_of (pclients s) (m_sender m) = Some f" and q: "?op = M_ABORT \<or> f_q (pfs s f) = None"
    and du: "?op = M_DUP \<longrightarrow> m_arg m \<notin> fst ` set (pclients s)" and e: "fresh e s"
    using l nc by (auto simp: pipe_legal_def split: option.splits)
  have f: "(m_sender m, f) \<in> set (pclients s)" by (rule map_of_SomeD [OF mf])
  note I = pipe_invD [OF i]
  have d: "M_DISCONNECT \<noteq> M_DUP" "M_DISCONNECT \<noteq> M_ABORT" "M_DUP \<noteq> M_ABORT" "M_ABORT \<notin> {FS_OPEN, FS_READ, FS_WRITE, FS_STAT, FS_WSTAT}"
    "M_DUP \<notin> {FS_OPEN, FS_READ, FS_WRITE, FS_STAT, FS_WSTAT}" "M_DISCONNECT \<notin> {FS_OPEN, FS_READ, FS_WRITE, FS_STAT, FS_WSTAT}"
    by (simp_all add: M_defs FS_defs)
  have same: "pipe_inv s \<and> answers (insert (m_sender m) (pend s)) [(m_sender m, r)] s" if "f_q (pfs s f) = None" for r
    using i answers_now [OF not_pend [OF I(2) f that] refl] by blast
  have as: "asked m s = insert (m_sender m) (pend s)" if "?op \<noteq> M_DISCONNECT" using that by (simp add: asked_def)
  consider "?op = M_DISCONNECT" | "?op = M_DUP" | "?op = M_ABORT" | "?op \<in> {FS_OPEN, FS_READ, FS_WRITE, FS_STAT, FS_WSTAT}"
    | "?op \<notin> {M_DISCONNECT, M_DUP, M_ABORT, FS_OPEN, FS_READ, FS_WRITE, FS_STAT, FS_WSTAT}" by blast
  then show ?thesis
  proof cases
    case 1
    have "f_q (pfs s f) = None" using q 1 d by simp
    from pipe_dead_client_ok [OF i f this refl] 1 show ?thesis
      using nc mf d unfolding pipe_main_def Let_def asked_def by auto
  next
    case 2
    then have fq: "f_q (pfs s f) = None" and k: "m_arg m \<notin> fst ` set (pclients s)" using q du d by auto
    have "pipe_main e m s = Some (Inr (pipe_dup_client e m f s))" using 2 nc mf d unfolding pipe_main_def Let_def by simp
    then show ?thesis using pipe_dup_client_ok [OF i k e f fq refl] as 2 d by (cases "pipe_dup_client e m f s") auto
  next
    case 3
    have "pipe_main e m s = Some (Inr (pipe_abort m f s))" using 3 nc mf d unfolding pipe_main_def Let_def by simp
    then show ?thesis using pipe_abort_ok [OF i f refl] as 3 d by (cases "pipe_abort m f s") auto
  next
    case 4
    let ?v = "if ?op = FS_OPEN then (if m_nseg m \<noteq> 1 then Inr False else valid_fname (m_buf m)) else Inr True"
    have fq: "f_q (pfs s f) = None" using q 4 d by auto
    have ops: "?op \<noteq> M_DISCONNECT" "?op \<noteq> M_DUP" "?op \<noteq> M_ABORT" using 4 d by metis+
    show ?thesis
    proof (cases "?v = Inr True")
      case False
      have "pipe_main e m s = Some (case ?v of Inl fl \<Rightarrow> Inl fl | Inr _ \<Rightarrow> Inr (s, [(m_sender m, Err E_INVAL)]))"
        using False nc ops 4 unfolding pipe_main_def Let_def by (cases ?v) (auto split: if_splits)
      then show ?thesis using same [OF fq] as [OF ops(1)] by (cases ?v) auto
    next
      case True
      have "pipe_main e m s =
        (if ?op = FS_OPEN then Some (pipe_open e m f s) else if ?op = FS_READ then pipe_read e m f s
         else if ?op = FS_WRITE then pipe_write e m f s else if ?op = FS_STAT then Some (pipe_stat m f s)
         else Some (pipe_wstat m f s))"
        using nc ops 4 mf unfolding pipe_main_def Let_def True by simp
      then show ?thesis
        using pipe_request_ok [OF i f fq e 4] root_wstatI [OF I(2) f] unfolding as [OF ops(1)] by auto
    qed
  next
    case 5
    then have "f_q (pfs s f) = None" using q by simp
    from same [OF this] 5 nc as show ?thesis unfolding pipe_main_def Let_def by simp
  qed
qed


lemma pipe_init_inv: "pipe_inv pipe_init"
  by (simp add: pipe_inv_def pipe_mid_def mid_def table_ok_def pipe_init_def)

text \<open>A pipe at address 30 that client 1 has open for writing, and client 2 for reading, with its read queued.\<close>

definition pipe_demo :: "bool \<Rightarrow> pipes" where
  "pipe_demo queued =
     pipe_init\<lparr>pfs := (\<lambda>a. if a = 10 then (new_pfile [] 0)\<lparr>f_file := 30, f_perm := ACC_WRITE\<rparr>
         else (new_pfile [] 0)\<lparr>f_file := 30, f_perm := ACC_READ,
            f_msg := \<lparr>m_sender = 2, m_op = 0, m_arg = 2, m_arg1 = 0, m_segs = []\<rparr>,
            f_q := if queued then Some (Readers 30, 20) else None\<rparr>),
       pps := (\<lambda>_. (pps pipe_init 0)\<lparr>p_refs := 2, p_nwrite := 1, p_nread := 1, p_readers := if queued then [20] else []\<rparr>),
       pfiles := [30], pclients := [(1, 10), (2, 20)]\<rparr>"

lemma pipe_demo_inv: "pipe_inv (pipe_demo q)"
  by (auto simp: pipe_inv_def pipe_mid_def mid_def table_ok_def pipe_demo_def pipe_init_def pclient_ok_def q_ok_def cfiles_def
    new_pfile_def count_ok_def popens_def pwriters_def may_write_def ACC_defs idle_def PIPE_CLOSED_FOR_READS_def)

definition demo_write :: msg where
  "demo_write = \<lparr>m_sender = 1, m_op = FS_WRITE, m_arg = 3, m_arg1 = 0, m_segs = [''abc'']\<rparr>"

definition demo_env :: env where
  "demo_env = \<lparr>e_ok = (\<lambda>_. True), e_addr = 40, e_junk = \<lparr>perm_len = 0, perm_id = [], perm_uid = 0\<rparr>, e_err = []\<rparr>"


subsection \<open>First in, first out\<close>

text \<open>The bytes of a message that a pipe takes.\<close>

definition accepted :: "env \<Rightarrow> msg \<Rightarrow> ptr \<Rightarrow> pipes \<Rightarrow> string" where
  "accepted e m f s =
     (if m_op m AND MSG_MASK = FS_WRITE \<and> may_write (pfs s f) \<and>
         p_nread (pps s (f_file (pfs s f))) \<noteq> PIPE_CLOSED_FOR_READS \<and> e_ok e 0
      then concat (m_segs m) else [])"

text \<open>
  Reads and writes of clients of the pipe \<open>p\<close>: the bytes it took, and those in its replies.
\<close>

inductive pipe_traffic :: "ptr \<Rightarrow> pipes \<Rightarrow> string \<Rightarrow> string \<Rightarrow> pipes \<Rightarrow> bool" for p s where
  none: "pipe_traffic p s [] [] s"
| more: "pipe_traffic p s taken given s1 \<Longrightarrow> m_op m AND MSG_MASK \<in> {FS_READ, FS_WRITE} \<Longrightarrow>
    map_of (pclients s1) (m_sender m) = Some f \<Longrightarrow> f_file (pfs s1 f) = p \<Longrightarrow> f_q (pfs s1 f) = None \<Longrightarrow>
    pipe_main e m s1 = Some (Inr (s2, out)) \<Longrightarrow>
    pipe_traffic p s (taken @ accepted e m f s1) (given @ out_data out) s2"

lemma pipe_traffic_step:
  assumes i: "pipe_inv s" and p: "p \<noteq> NULL" and o: "m_op m AND MSG_MASK \<in> {FS_READ, FS_WRITE}"
    and f: "map_of (pclients s) (m_sender m) = Some f" "f_file (pfs s f) = p" "f_q (pfs s f) = None"
    and r: "pipe_main e m s = Some (Inr (s1, out))"
  shows "pipe_inv s1 \<and> pdata s p @ accepted e m f s = out_data out @ pdata s1 p"
proof -
  have d: "FS_READ \<noteq> FS_WRITE" "FS_OPEN \<noteq> FS_WRITE" "FS_OPEN \<noteq> FS_READ" "M_CONNECT \<notin> {FS_READ, FS_WRITE}" "M_DISCONNECT \<notin> {FS_READ, FS_WRITE}"
    "M_DUP \<notin> {FS_READ, FS_WRITE}" "M_ABORT \<notin> {FS_READ, FS_WRITE}" by (simp_all add: FS_defs M_defs)
  have fc: "(m_sender m, f) \<in> set (pclients s)" by (rule map_of_SomeD [OF f(1)])
  have fn: "f_file (pfs s f) \<noteq> NULL" using f(2) p by simp
  from o consider "m_op m AND MSG_MASK = FS_READ" | "m_op m AND MSG_MASK = FS_WRITE" by blast
  then show ?thesis
  proof cases
    case 1
    then have "pipe_read e m f s = Some (Inr (s1, out))" using r f(1) d unfolding pipe_main_def Let_def by auto
    then show ?thesis using pipe_read_ok [OF i fc f(3) refl fn, of e] f(2) 1 d by (auto simp: accepted_def)
  next
    case 2
    then have "pipe_write e m f s = Some (Inr (s1, out))" using r f(1) d unfolding pipe_main_def Let_def by auto
    then show ?thesis using pipe_write_ok [OF i fc f(3) refl, of e] f(2) fn 2 by (auto simp: accepted_def)
  qed
qed

text \<open>
  C7: a pipe is a queue of bytes: whatever reads and writes its clients make, the bytes it
  delivers, in the order of the replies, and then those still waiting in the queued writes, are the bytes that
  were waiting before and then those of the accepted writes.
\<close>

theorem pipe_fifo:
  assumes "pipe_inv s" "p \<noteq> NULL" "pipe_traffic p s taken given s1"
  shows "pdata s p @ taken = given @ pdata s1 p"
proof -
  from assms(3) have "pipe_inv s1 \<and> pdata s p @ taken = given @ pdata s1 p"
  proof induction
    case (more taken given s1 m f e s2 out)
    from pipe_traffic_step [OF _ assms(2) more.hyps(2-6)] more.IH
    have "pipe_inv s2" "pdata s1 p @ accepted e m f s1 = out_data out @ pdata s2 p" by simp_all
    then show ?case using more.IH by (metis append_assoc)
  qed (use assms(1) in simp)
  then show ?thesis ..
qed

lemma demo_run:
  "\<exists>s1. pipe_main demo_env demo_write (pipe_demo True) = Some (Inr (s1, [(2, Reply 2 0 [''ab''])]))"
proof -
  let ?s = "upd_pf 10 (\<lambda>x. x\<lparr>f_q := Some (Writers 30, 10), f_msg := demo_write\<lparr>m_arg := 0\<rparr>\<rparr>)
    (upd_pp 30 (\<lambda>x. x\<lparr>p_writers := p_writers x @ [10]\<rparr>) (pipe_demo True))"
  have m: "pipe_main demo_env demo_write (pipe_demo True) = run_readers 30 ?s []"
    by (simp add: pipe_main_def demo_write_def FS_defs M_defs MSG_MASK_def pipe_demo_def pipe_write_def run_or_def
      pipe_init_def new_pfile_def ACC_defs demo_env_def PIPE_CLOSED_FOR_READS_def)
  have u: "unqueue 20 ?s = Inr (upd_pf 20 (\<lambda>x. x\<lparr>f_q := None\<rparr>) (upd_pp 30 (\<lambda>x. x\<lparr>p_readers := remove1 20 (p_readers x)\<rparr>) ?s))"
    (is "_ = Inr ?s1") by (simp add: unqueue_def pipe_demo_def pipe_init_def new_pfile_def del_node_def)
  have "m_segs (f_msg (pfs ?s1 10)) = [''abc'']" "m_sender (f_msg (pfs ?s1 20)) = 2" "m_arg (f_msg (pfs ?s1 20)) = 2"
    by (simp_all add: pipe_demo_def pipe_init_def new_pfile_def demo_write_def)
  moreover have "send_segs MSGSEGS [''abc''] 2 = ([''ab''], [''c''])" by code_simp
  ultimately have "\<exists>s1. serve_reader 20 10 ?s = Inr (s1, [(2, Reply 2 0 [''ab''])]) \<and> pps s1 = pps ?s1"
    by (simp add: serve_reader_def obind_def u sendseg_def Let_def del: upd_pf_simps upd_pp_simps) (simp add: demo_write_def)
  then obtain s1 where s1: "serve_reader 20 10 ?s = Inr (s1, [(2, Reply 2 0 [''ab''])])" "pps s1 = pps ?s1" by blast
  have q: "p_readers (pps ?s 30) = [20]" "p_writers (pps ?s 30) = [10]" "p_readers (pps s1 30) = []"
    by (simp_all add: s1(2)) (simp_all add: pipe_demo_def pipe_init_def)
  have "run_readers 30 ?s [] = run_readers 30 s1 [(2, Reply 2 0 [''ab''])]" by (subst run_readers.simps) (simp add: q s1(1) del: upd_pf_simps upd_pp_simps)
  also have "\<dots> = Some (Inr (s1, [(2, Reply 2 0 [''ab''])]))" by (subst run_readers.simps) (simp add: q(3))
  finally show ?thesis using m by auto
qed

lemma pipe_fifo_witness:
  "\<exists>s1. pipe_traffic 30 (pipe_demo True) ''abc'' ''ab'' s1 \<and> pdata (pipe_demo True) 30 @ ''abc'' = ''ab'' @ pdata s1 30"
proof -
  obtain s1 where r: "pipe_main demo_env demo_write (pipe_demo True) = Some (Inr (s1, [(2, Reply 2 0 [''ab''])]))"
    using demo_run by blast
  have f: "m_op demo_write AND MSG_MASK \<in> {FS_READ, FS_WRITE}" "map_of (pclients (pipe_demo True)) (m_sender demo_write) = Some 10"
    "f_file (pfs (pipe_demo True) 10) = 30" "f_q (pfs (pipe_demo True) 10) = None"
    by (simp_all add: demo_write_def FS_defs MSG_MASK_def pipe_demo_def new_pfile_def)
  have a: "accepted demo_env demo_write 10 (pipe_demo True) = ''abc''"
    by (simp add: accepted_def demo_write_def demo_env_def FS_defs MSG_MASK_def pipe_demo_def new_pfile_def may_write_def ACC_defs
      pipe_init_def PIPE_CLOSED_FOR_READS_def)
  have t: "pipe_traffic 30 (pipe_demo True) ''abc'' ''ab'' s1"
    using pipe_traffic.more [OF pipe_traffic.none f r] a by simp
  from pipe_fifo [OF pipe_demo_inv _ t] t show ?thesis by auto
qed

subsection \<open>Names\<close>

text \<open>The name a pipe is listed under in the directory is the name it is found by.\<close>

theorem pipe_name_lookup:
  assumes "p \<in> set (pfiles s)" "p < 2 ^ 32" "e_ok e 0"
  shows "pipe_lookup e (pipe_name p) s = Inr p"
proof -
  have n: "num_str (of_nat p) 10 True = Some (pipe_name p)"
    using num_loop_digits [of 10 "of_nat p" "[]"] by (simp add: num_str_def pipe_name_def)
  have "scan_end []" by (simp add: scan_end_def)
  from scan_printed [OF n this] obtain sc where "sscanf True (\<lambda>_. False) (pipe_name p) ''%ld'' = Inr (1, [Some (SLong (of_nat p))], sc)"
    by auto
  moreover have "unat (of_nat p :: ulong) = p" using assms(2) by (simp add: unat_of_nat take_bit_nat_eq_self)
  ultimately show ?thesis using assms(1,3) by (simp add: pipe_lookup_def obind_def)
qed

lemma pipe_name_lookup_witness: "pipe_lookup demo_env (pipe_name 30) (pipe_demo True) = Inr 30"
  by (rule pipe_name_lookup) (simp_all add: pipe_demo_def demo_env_def)

end
