(* ===== verification/Swap.thy ===== *)
theory Swap
  imports Rmap Srvlib
begin

text \<open>
  The swap server \<open>src/src/srv/swap\<close>: which blocks of swap space are free is kept in a resource map
  (\<open>Rmap\<close>), which device serves a block in a table of chunks. One function per handler; what a
  handler does to the outside is the list of its replies and of the messages it sends on to devices.
\<close>

subsection \<open>Data\<close>

definition SWAP_ALLOC :: uint where "SWAP_ALLOC = 301"
definition SWAP_FREE :: uint where "SWAP_FREE = 302"
definition SWAP_ADD :: uint where "SWAP_ADD = 303"

lemmas SWAP_defs = SWAP_ALLOC_def SWAP_FREE_def SWAP_ADD_def

definition NMAPELEM :: uint where "NMAPELEM = 200"

definition NBPG :: ulong where "NBPG = 4096"

definition btop :: "ulong \<Rightarrow> ulong" where "btop x = drop_bit 12 x"

definition ptob :: "ulong \<Rightarrow> ulong" where "ptob x = push_bit 12 x"

record swapmap =
  s_block :: ulong
  s_len :: ulong
  s_port :: ulong
  s_off :: ulong

record swfile =
  sw_pos :: ulong
  sw_perms :: uint

text \<open>\<open>swapmap\<close> is null as long as there is no chunk; \<open>nswap\<close> and \<open>swapend\<close> are the length and the end of the table.\<close>

record swap =
  swchunks :: "swapmap list"
  smap :: rmap
  lost_elems :: ulong
  total_swap :: ulong
  free_swap :: ulong
  swap_pending :: ulong
  swclients :: "swfile clients"

datatype swout = ToClient reply | ToDevice ulong msg

text \<open>
  What other programs decide: the port \<open>path_open\<close> connects to (negative: none), what \<open>rstat\<close> of the
  field \<open>size\<close> returns, and whether a device serves the message sent to it.
\<close>

record swenv = env +
  e_path_open :: "string \<Rightarrow> uint"
  e_rstat_size :: "uint \<Rightarrow> string option"
  e_send :: bool

text \<open>The bytes of a message that \<open>msg_receive\<close> reports.\<close>

definition msg_bytes :: "msg \<Rightarrow> uint" where
  "msg_bytes m = of_nat (length (concat (m_segs m)))"

subsection \<open>swap.c\<close>

fun swapent :: "ulong \<Rightarrow> swapmap list \<Rightarrow> swapmap option" where
  "swapent block [] = None"
| "swapent block (s # ss) =
     (if block < s_block s + s_len s then (if block < s_block s then None else Some s)
      else swapent block ss)"

text \<open>A chunk starts one block after the end of the one before. Failed assertions are \<open>Panic\<close>.\<close>

definition swapadd :: "swenv \<Rightarrow> ulong \<Rightarrow> ulong \<Rightarrow> ulong \<Rightarrow> swap \<Rightarrow> swap outcome" where
  "swapadd e port len off s =
     (if swchunks s = [] \<and> \<not> swap_pending s < len then Inl Panic
      else if \<not> e_ok e 0 then Inl Panic
      else
        (let low = (if swchunks s = [] then 1 else s_block (last (swchunks s)) + s_len (last (swchunks s)) + 1);
             chunk = \<lparr>s_block = low, s_len = len, s_port = port, s_off = off\<rparr>;
             (m, lost) =
               (if swap_pending s \<noteq> 0 then rmap_free (smap s, lost_elems s) (low + swap_pending s) (len - swap_pending s)
                else rmap_free (smap s, lost_elems s) low len)
         in Inr (s\<lparr>swchunks := swchunks s @ [chunk], smap := m, lost_elems := lost, swap_pending := 0,
                   free_swap := free_swap s + len, total_swap := total_swap s + len\<rparr>)))"

text \<open>The fields of the \<open>struct swapadd\<close> in the message: 32 bytes of path, offset and length.\<close>

definition word_at :: "string \<Rightarrow> nat \<Rightarrow> ulong" where
  "word_at b i = of_nat (of_char (b ! i) + 256 * of_char (b ! (i + 1)) + 65536 * of_char (b ! (i + 2)) +
     16777216 * of_char (b ! (i + 3)))"

text \<open>A length given in the message is not used: the chunk then has the length 0.\<close>

definition swap_add :: "swenv \<Rightarrow> msg \<Rightarrow> swfile \<Rightarrow> uint \<Rightarrow> swap \<Rightarrow> (swap \<times> swout list) outcome" where
  "swap_add e m f len s =
     (if sw_perms f AND ACC_WRITE = 0 then Inr (s, [ToClient (Err E_PERM)])
      else if m_nseg m \<noteq> 1 \<or> len < 40 then Inr (s, [ToClient (Err E_INVAL)])
      else
        (let p = e_path_open e (cstr (m_buf m)); sa_off = word_at (m_buf m) 32; sa_len = word_at (m_buf m) 36
         in if sint p < 0 then Inr (s, [ToClient (Err E_INVAL)])
            else
              obind (if sa_len = 0 then obind (atoi (e_rstat_size e p)) (\<lambda>sz. Inr (btop sz - sa_off)) else Inr 0) (\<lambda>slen.
              obind (swapadd e p slen sa_off s) (\<lambda>s1. Inr (s1, [ToClient (Reply 0 0 [])])))))"

definition swap_alloc :: "msg \<Rightarrow> swfile \<Rightarrow> swap \<Rightarrow> swap \<times> swout list" where
  "swap_alloc m f s =
     (if sw_perms f AND ACC_WRITE = 0 then (s, [ToClient (Err E_PERM)])
      else
        (let blocks = m_arg m
         in if swchunks s = [] then
              (s\<lparr>swap_pending := swap_pending s + blocks\<rparr>, [ToClient (Reply (swap_pending s + 1) 0 [])])
            else
              (case rmap_alloc (smap s) blocks of
                 (blkno, m1) \<Rightarrow>
                   if blkno = 0 then (s\<lparr>smap := m1\<rparr>, [ToClient (Reply 0 0 [])])
                   else (s\<lparr>smap := m1, free_swap := free_swap s - blocks\<rparr>, [ToClient (Reply blkno 0 [])]))))"

text \<open>After the error for a client that may not free, the handler goes on.\<close>

definition swap_free :: "msg \<Rightarrow> swfile \<Rightarrow> swap \<Rightarrow> swap \<times> swout list" where
  "swap_free m f s =
     (let pre = (if sw_perms f AND ACC_WRITE = 0 then [ToClient (Err E_PERM)] else []);
          (m1, lost) = rmap_free (smap s, lost_elems s) (m_arg m) (m_arg1 m)
      in (s\<lparr>free_swap := free_swap s + m_arg1 m, smap := m1, lost_elems := lost\<rparr>, pre @ [ToClient (Reply 0 0 [])]))"

subsection \<open>rw.c and stat.c\<close>

definition swap_rw :: "swenv \<Rightarrow> msg \<Rightarrow> swfile \<Rightarrow> uint \<Rightarrow> swap \<Rightarrow> swout list" where
  "swap_rw e m f bytes s =
     (let op = m_op m AND MSG_MASK
      in if op \<in> {FS_WRITE, FS_ABSWRITE} \<and> sw_perms f AND ACC_WRITE = 0 then [ToClient (Err E_PERM)]
         else if m_nseg m \<noteq> 1 \<or> bytes AND (NBPG - 1) \<noteq> 0 \<or> sw_pos f AND (NBPG - 1) \<noteq> 0 then [ToClient (Err E_INVAL)]
         else
           (let blk = btop (sw_pos f)
            in case swapent blk (swchunks s) of
                 None \<Rightarrow> [ToClient (Err E_INVAL)]
               | Some c \<Rightarrow>
                   ToDevice (s_port c) (m\<lparr>m_arg1 := ptob (blk - s_block c + s_off c)\<rparr>) #
                   [ToClient (if e_send e then Reply 0 0 [] else Err (e_err e))]))"

definition swap_stat :: "swap \<Rightarrow> swout list outcome" where
  "swap_stat s =
     obind (doprnt (''perm=1/1'' @ nl @ ''acc=0/4/2'' @ nl @ ''size=%ld'' @ nl @ ''type=f'' @ nl @ ''owner=0'' @ nl @ ''free=%ld'' @ nl)
              [AInt (total_swap s), AInt (free_swap s)]) (\<lambda>result.
       if MAXSTAT \<le> length result then Inl BufferOverrun
       else Inr [ToClient (Reply (of_nat (length result)) 0 [result])])"

subsection \<open>main.c\<close>

definition swap_prot :: prot where
  "swap_prot = \<lparr>prot_len = 2, prot_default = 0, prot_id = [1, 1, 0, 0, 0, 0, 0], prot_bits = [ucast ACC_READ, ucast ACC_WRITE, 0, 0, 0, 0, 0]\<rparr>"

definition swap_seek :: "msg \<Rightarrow> swfile \<Rightarrow> swap \<Rightarrow> swap \<times> swout list" where
  "swap_seek m f s =
     (if sint (m_arg m) < 0 then (s, [ToClient (Err E_INVAL)])
      else (s\<lparr>swclients := put_client (m_sender m) (f\<lparr>sw_pos := m_arg m\<rparr>) (swclients s)\<rparr>, [ToClient (Reply 0 0 [])]))"

definition swap_new_client :: "swenv \<Rightarrow> msg \<Rightarrow> swap \<Rightarrow> swap \<times> swout list" where
  "swap_new_client e m s =
     (let perms = perms_in (m_buf m); uperms = ucast (perm_calc perms (length perms) swap_prot)
      in if uperms AND m_arg m \<noteq> m_arg m then (s, [ToClient (Err E_PERM)])
         else if \<not> e_ok e 0 then (s, [ToClient (Err (e_err e))])
         else if \<not> e_ok e 1 then (s, [ToClient (Err E_NOMEM)])
         else (s\<lparr>swclients := (m_sender m, \<lparr>sw_pos = 0, sw_perms = uperms\<rparr>) # swclients s\<rparr>, [ToClient Accept]))"

definition swap_dup_client :: "swenv \<Rightarrow> msg \<Rightarrow> swfile \<Rightarrow> swap \<Rightarrow> swap \<times> swout list" where
  "swap_dup_client e m fold0 s =
     (if \<not> e_ok e 0 then (s, [ToClient (Err (e_err e))])
      else if \<not> e_ok e 1 then (s, [ToClient (Err E_NOMEM)])
      else (s\<lparr>swclients := (m_arg m, fold0) # swclients s\<rparr>, [ToClient (Reply 0 0 [])]))"

definition swap_dead_client :: "msg \<Rightarrow> swap \<Rightarrow> swap \<times> swout list" where
  "swap_dead_client m s = (s\<lparr>swclients := del_client (m_sender m) (swclients s)\<rparr>, [])"

text \<open>One round of \<open>swap_main\<close>. Handlers that look at the client follow a null pointer for an unknown one.\<close>

definition swap_main :: "swenv \<Rightarrow> msg \<Rightarrow> swap \<Rightarrow> (swap \<times> swout list) outcome" where
  "swap_main e m s =
     (let opc = m_op m AND MSG_MASK; x = msg_bytes m; f = map_of (swclients s) (m_sender m)
      in if 1 < m_nseg m then Inr (s, [ToClient (Err E_INVAL)])
         else if opc = M_CONNECT then Inr (swap_new_client e m s)
         else if opc = M_DISCONNECT then Inr (swap_dead_client m s)
         else if opc = M_ABORT then Inr (s, [ToClient (Reply 0 0 [])])
         else if opc = FS_STAT then obind (swap_stat s) (\<lambda>out. Inr (s, out))
         else if opc = M_DUP \<and> \<not> e_ok e 0 then Inr (s, [ToClient (Err (e_err e))])
         else if opc \<in> {FS_ABSREAD, FS_ABSWRITE} \<and> (f = None \<or> sint (m_arg1 m) < 0) then Inr (s, [ToClient (Err E_INVAL)])
         else if opc \<notin> {M_DUP, FS_ABSREAD, FS_ABSWRITE, FS_READ, FS_WRITE, FS_SEEK, SWAP_ADD, SWAP_ALLOC, SWAP_FREE}
         then Inr (s, [ToClient (Err E_INVAL)])
         else if opc = FS_READ \<and> f = None \<and> (m_nseg m \<noteq> 1 \<or> x AND (NBPG - 1) \<noteq> 0) then Inr (s, [ToClient (Err E_INVAL)])
         else if opc = FS_SEEK \<and> sint (m_arg m) < 0 then Inr (s, [ToClient (Err E_INVAL)])
         else
           (case f of
              None \<Rightarrow> Inl NullDeref
            | Some f \<Rightarrow>
                if opc = M_DUP then Inr (swap_dup_client e m f s)
                else if opc \<in> {FS_ABSREAD, FS_ABSWRITE} then
                  (let f1 = f\<lparr>sw_pos := m_arg1 m\<rparr>
                   in Inr (s\<lparr>swclients := put_client (m_sender m) f1 (swclients s)\<rparr>, swap_rw e m f1 x s))
                else if opc \<in> {FS_READ, FS_WRITE} then Inr (s, swap_rw e m f x s)
                else if opc = FS_SEEK then Inr (swap_seek m f s)
                else if opc = SWAP_ADD then swap_add e m f x s
                else if opc = SWAP_ALLOC then Inr (swap_alloc m f s)
                else Inr (swap_free m f s)))"

text \<open>\<open>swapinit\<close>; \<open>junk\<close> is what the storage of the map held before.\<close>

definition swap_init :: "rmap \<Rightarrow> swap" where
  "swap_init junk = \<lparr>swchunks = [], smap = rmap_init junk NMAPELEM, lost_elems = 0, total_swap = 0, free_swap = 0,
     swap_pending = 0, swclients = []\<rparr>"

end
