(* ===== verification/Swap_Spec.thy ===== *)
theory Swap_Spec
  imports Swap
begin

text \<open>
  What the swap server promises: blocks it hands out are in nobody's hands and on one device. The
  allocator below it is \<open>Rmap\<close>, used through its laws.
\<close>

subsection \<open>Chunks\<close>

definition cend :: "swapmap \<Rightarrow> nat" where
  "cend c = unat (s_block c) + unat (s_len c)"

definition crange :: "swapmap \<Rightarrow> nat set" where
  "crange c = {unat (s_block c)..<cend c}"

definition chunks_ok :: "swapmap list \<Rightarrow> bool" where
  "chunks_ok cs \<longleftrightarrow> (\<forall>c\<in>set cs. 0 < unat (s_block c) \<and> cend c < 2 ^ 32) \<and> sorted_wrt (\<lambda>a b. cend a < unat (s_block b)) cs"

lemma unat_cend: "cend c < 2 ^ 32 \<Longrightarrow> unat (s_block c + s_len c) = cend c"
  by (simp add: cend_def word_nat)

lemma swapent_in:
  assumes "chunks_ok cs" "c \<in> set cs" "unat b \<in> crange c"
  shows "swapent b cs = Some c"
  using assms
proof (induction cs)
  case (Cons d cs)
  have d: "unat (s_block d + s_len d) = cend d" using Cons.prems(1) by (simp add: chunks_ok_def unat_cend)
  show ?case
  proof (cases "c = d")
    case True
    then show ?thesis using Cons.prems(3) d by (simp add: crange_def word_nat)
  next
    case False
    then have c: "c \<in> set cs" using Cons.prems(2) by simp
    have "cend d < unat (s_block c)" using Cons.prems(1) c by (simp add: chunks_ok_def)
    then have "\<not> b < s_block d + s_len d" using Cons.prems(3) d by (simp add: crange_def word_nat)
    moreover have "chunks_ok cs" using Cons.prems(1) by (simp add: chunks_ok_def)
    ultimately show ?thesis using Cons.IH c Cons.prems(3) by simp
  qed
qed simp

text \<open>A run of blocks in the chunks is in one of them: chunks do not touch.\<close>

lemma run_in_chunk:
  assumes "chunks_ok cs" "{a..<a + n} \<subseteq> (\<Union>c\<in>set cs. crange c)" "0 < n"
  shows "\<exists>c\<in>set cs. {a..<a + n} \<subseteq> crange c"
  using assms
proof (induction n)
  case (Suc n)
  show ?case
  proof (cases "n = 0")
    case True
    then show ?thesis using Suc.prems by auto
  next
    case False
    have "{a..<a + n} \<subseteq> (\<Union>c\<in>set cs. crange c)" using Suc.prems(2) by auto
    then obtain c where c: "c \<in> set cs" "{a..<a + n} \<subseteq> crange c" using Suc.IH Suc.prems(1) False by auto
    have "a + n \<in> (\<Union>c\<in>set cs. crange c)" by (rule subsetD [OF Suc.prems(2)]) simp
    then obtain d where d: "d \<in> set cs" "a + n \<in> crange d" by blast
    have "a + n - 1 \<in> crange c" using c(2) False by auto
    have "c = d"
    proof (rule ccontr)
      assume "c \<noteq> d"
      then have "cend c < unat (s_block d) \<or> cend d < unat (s_block c)"
        using Suc.prems(1) c(1) d(1) unfolding chunks_ok_def by (metis sorted_wrt_iff_nth_less in_set_conv_nth nat_neq_iff)
      then show False using \<open>a + n - 1 \<in> crange c\<close> d(2) False by (auto simp: crange_def)
    qed
    then show ?thesis using c d by (intro bexI [of _ c]) (auto simp: less_Suc_eq)
  qed
qed simp

subsection \<open>The invariant\<close>

text \<open>The blocks the server knows: before the first chunk, those it handed out in advance.\<close>

definition known :: "swap \<Rightarrow> nat set" where
  "known s = (if swchunks s = [] then {1..unat (swap_pending s)} else (\<Union>c\<in>set (swchunks s). crange c))"

text \<open>\<open>O'\<close> are the blocks in the hands of clients.\<close>

definition swap_inv :: "swap \<Rightarrow> nat set \<Rightarrow> bool" where
  "swap_inv s O' \<longleftrightarrow>
     rmap_ok (smap s) \<and> chunks_ok (swchunks s) \<and> (swchunks s \<noteq> [] \<longrightarrow> swap_pending s = 0) \<and>
     free_units (smap s) \<subseteq> known s \<and> O' \<subseteq> known s \<and> O' \<inter> free_units (smap s) = {}"

lemma swap_init_inv: "length junk = 200 \<Longrightarrow> swap_inv (swap_init junk) {}"
proof -
  assume l: "length junk = 200"
  then have "rm_rep (rmap_init junk NMAPELEM) []" by (intro rm_rep_init) (auto simp: NMAPELEM_def)
  then have "rmap_ok (rmap_init junk NMAPELEM) \<and> free_units (rmap_init junk NMAPELEM) = cover []" by (rule rmap_okI) simp
  then show ?thesis by (simp add: swap_inv_def swap_init_def chunks_ok_def)
qed

definition sw_reply :: "swout list \<Rightarrow> ulong" where
  "sw_reply out = (case out of [ToClient (Reply b x y)] \<Rightarrow> b | _ \<Rightarrow> 0)"

lemma swap_alloc_ok:
  assumes i: "swap_inv s O'" and n: "m_arg m \<noteq> 0" "swchunks s = [] \<Longrightarrow> unat (swap_pending s) + unat (m_arg m) + 1 < 2 ^ 32"
    and r: "swap_alloc m f s = (s1, out)"
  shows "swap_inv s1 (if sw_reply out = 0 then O' else O' \<union> span (sw_reply out) (m_arg m))"
    "sw_reply out \<noteq> 0 \<Longrightarrow> span (sw_reply out) (m_arg m) \<inter> O' = {}"
    "swchunks s1 = swchunks s"
    "sw_reply out \<noteq> 0 \<Longrightarrow> swchunks s \<noteq> [] \<Longrightarrow> span (sw_reply out) (m_arg m) \<subseteq> free_units (smap s)"
proof -
  have "swap_inv s1 (if sw_reply out = 0 then O' else O' \<union> span (sw_reply out) (m_arg m)) \<and>
    (sw_reply out \<noteq> 0 \<longrightarrow> span (sw_reply out) (m_arg m) \<inter> O' = {}) \<and> swchunks s1 = swchunks s \<and>
    (sw_reply out \<noteq> 0 \<longrightarrow> swchunks s \<noteq> [] \<longrightarrow> span (sw_reply out) (m_arg m) \<subseteq> free_units (smap s))"
  proof (cases "sw_perms f AND ACC_WRITE = 0")
    case True
    then show ?thesis using r i by (auto simp: swap_alloc_def sw_reply_def)
  next
    case False
    show ?thesis
    proof (cases "swchunks s = []")
      case True
      have s1: "s1 = s\<lparr>swap_pending := swap_pending s + m_arg m\<rparr>" "sw_reply out = swap_pending s + 1"
        using r False True by (auto simp: swap_alloc_def sw_reply_def)
      have p: "unat (swap_pending s + m_arg m) = unat (swap_pending s) + unat (m_arg m)"
        "unat (swap_pending s + 1) = unat (swap_pending s) + 1" using n True by (simp_all add: word_nat)
      have nz: "swap_pending s + 1 \<noteq> 0" using p(2) by (metis unat_0 add_is_0 one_neq_zero)
      show ?thesis using i True nz p unfolding s1 by (auto simp: swap_inv_def known_def span_def)
    next
      case ch: False
      obtain b m1 where a: "rmap_alloc (smap s) (m_arg m) = (b, m1)" by fastforce
      have ok: "rmap_ok (smap s)" using i by (simp add: swap_inv_def)
      note g = rmap_alloc_given [OF ok n(1), unfolded a, simplified]
      have s1: "smap s1 = m1" "swchunks s1 = swchunks s" "swap_pending s1 = swap_pending s" "sw_reply out = b"
        using r False ch a by (auto simp: swap_alloc_def sw_reply_def split: if_splits)
      have k: "known s1 = known s" using ch by (simp add: known_def s1)
      show ?thesis
      proof (cases "b = 0")
        case True
        then show ?thesis using g i k by (simp add: swap_inv_def s1)
      next
        case False
        then show ?thesis using g i k by (simp add: swap_inv_def s1) blast
      qed
    qed
  qed
  then show "swap_inv s1 (if sw_reply out = 0 then O' else O' \<union> span (sw_reply out) (m_arg m))"
    "sw_reply out \<noteq> 0 \<Longrightarrow> span (sw_reply out) (m_arg m) \<inter> O' = {}" "swchunks s1 = swchunks s"
    "sw_reply out \<noteq> 0 \<Longrightarrow> swchunks s \<noteq> [] \<Longrightarrow> span (sw_reply out) (m_arg m) \<subseteq> free_units (smap s)" by blast+
qed

lemma swap_free_ok:
  assumes i: "swap_inv s O'" and f: "m_arg m \<noteq> 0" "m_arg1 m \<noteq> 0" "unat (m_arg m) + unat (m_arg1 m) < 2 ^ 32"
    and o: "span (m_arg m) (m_arg1 m) \<subseteq> O'" and r: "swap_free m f s = (s1, out)"
  shows "swap_inv s1 (O' - span (m_arg m) (m_arg1 m))" "swchunks s1 = swchunks s"
proof -
  have ok: "rmap_ok (smap s)" using i by (simp add: swap_inv_def)
  have fr: "freeable (smap s) (m_arg m) (m_arg1 m)"
    using i f o by (auto simp: freeable_def swap_inv_def)
  obtain m1 l1 where a: "rmap_free (smap s, lost_elems s) (m_arg m) (m_arg1 m) = (m1, l1)" by fastforce
  have "rmap_ok m1 \<and> (free_units m1 = free_units (smap s) \<union> span (m_arg m) (m_arg1 m) \<or> m1 = smap s)"
    using ok fr by (cases rule: rmap_free_cases [where lost = "lost_elems s"]) (use a ok in auto)
  moreover have s1: "smap s1 = m1" "swchunks s1 = swchunks s" "swap_pending s1 = swap_pending s"
    using r a by (auto simp: swap_free_def)
  moreover have k: "known s1 = known s" by (simp add: known_def s1)
  ultimately show "swap_inv s1 (O' - span (m_arg m) (m_arg1 m))" using i o unfolding swap_inv_def k s1 by blast
  show "swchunks s1 = swchunks s" by (rule s1(2))
qed

lemma chunks_last: "chunks_ok cs \<Longrightarrow> c \<in> set cs \<Longrightarrow> cend c \<le> cend (last cs)"
proof (induction cs)
  case (Cons d cs)
  show ?case
  proof (cases "cs = []")
    case False
    then have "cend d < unat (s_block (last cs))" using Cons.prems(1) by (simp add: chunks_ok_def)
    then have "cend d \<le> cend (last cs)" by (simp add: cend_def)
    then show ?thesis using Cons False by (auto simp: chunks_ok_def)
  qed (use Cons.prems in simp)
qed simp

lemma swapadd_ok:
  assumes i: "swap_inv s O'" and r: "swapadd e port len off s = Inr s1" and n: "len \<noteq> 0"
    and lt: "(if swchunks s = [] then 0 else cend (last (swchunks s))) + 1 + unat len < 2 ^ 32"
  shows "swap_inv s1 O'"
proof -
  have ok: "rmap_ok (smap s)" using i by (simp add: swap_inv_def)
  define low where "low = (if swchunks s = [] then 1 else s_block (last (swchunks s)) + s_len (last (swchunks s)) + 1)"
  define start where "start = low + swap_pending s"
  let ?len = "len - swap_pending s" and ?chunk = "\<lparr>s_block = low, s_len = len, s_port = port, s_off = off\<rparr>"
  have low: "unat low = (if swchunks s = [] then 0 else cend (last (swchunks s))) + 1"
  proof (cases "swchunks s = []")
    case False
    then have "cend (last (swchunks s)) < 2 ^ 32" using i by (simp add: swap_inv_def chunks_ok_def)
    then have "unat (s_block (last (swchunks s)) + s_len (last (swchunks s))) = cend (last (swchunks s))" by (rule unat_cend)
    then show ?thesis using False lt by (simp add: low_def word_nat)
  qed (simp add: low_def)
  have p: "swap_pending s < len" "swchunks s \<noteq> [] \<Longrightarrow> swap_pending s = 0"
    using r i n by (auto simp: swapadd_def swap_inv_def word_gt_0 split: if_splits)
  have st: "unat start = unat low + unat (swap_pending s)" "unat ?len = unat len - unat (swap_pending s)"
    using low lt p by (auto simp: start_def word_nat)
  have ce: "cend ?chunk = unat low + unat len" by (simp add: cend_def)
  have kn: "known s \<subseteq> {1..<unat start}"
  proof (cases "swchunks s = []")
    case True
    then show ?thesis using st low by (auto simp: known_def)
  next
    case False
    have c: "cend c \<le> cend (last (swchunks s))" "0 < unat (s_block c)" if "c \<in> set (swchunks s)" for c
      using i that chunks_last [of "swchunks s" c] by (auto simp: swap_inv_def chunks_ok_def)
    have "crange c \<subseteq> {1..<unat start}" if "c \<in> set (swchunks s)" for c
      using c [OF that] False st low p(2) by (auto simp: crange_def)
    then show ?thesis using False by (auto simp: known_def)
  qed
  have fr: "freeable (smap s) start ?len"
  proof -
    have "start \<noteq> 0" using st(1) low by (metis unat_0 add_is_0 one_neq_zero)
    moreover have "?len \<noteq> 0" using p(1) by simp
    moreover have "unat start + unat ?len < 2 ^ 32" using st low lt p(1) by (simp add: word_nat)
    moreover have "span start ?len \<inter> free_units (smap s) = {}"
    proof -
      have "free_units (smap s) \<subseteq> {1..<unat start}" using kn i unfolding swap_inv_def by blast
      then show ?thesis by (auto simp: span_def)
    qed
    ultimately show ?thesis by (simp add: freeable_def)
  qed
  obtain m1 l1 where a: "rmap_free (smap s, lost_elems s) start ?len = (m1, l1)" by fastforce
  have m1: "rmap_ok m1 \<and> (free_units m1 = free_units (smap s) \<union> span start ?len \<or> m1 = smap s)"
    using ok fr by (cases rule: rmap_free_cases [where lost = "lost_elems s"]) (use a ok in auto)
  have s1: "swchunks s1 = swchunks s @ [?chunk]" "smap s1 = m1" "swap_pending s1 = 0"
    using r a p by (auto simp: swapadd_def Let_def low_def start_def split: if_splits prod.splits)
  have k: "known s1 = (if swchunks s = [] then {} else known s) \<union> crange ?chunk" by (auto simp: known_def s1)
  have sp: "span start ?len \<subseteq> crange ?chunk" using st ce p(1) by (auto simp: span_def crange_def word_nat)
  have "known s \<subseteq> known s1"
  proof (cases "swchunks s = []")
    case True
    then show ?thesis using p(1) low ce unfolding k by (auto simp: known_def crange_def word_nat)
  qed (simp add: k)
  moreover have "chunks_ok (swchunks s1)"
  proof -
    have "cend c < unat low" if "c \<in> set (swchunks s)" for c
    proof -
      have "cend c \<le> cend (last (swchunks s))" using i that by (auto simp: swap_inv_def intro: chunks_last)
      then show ?thesis using low that by auto
    qed
    then show ?thesis using i lt low ce by (simp add: chunks_ok_def s1 swap_inv_def sorted_wrt_append)
  qed
  moreover have "O' \<inter> span start ?len = {}"
  proof -
    have "O' \<subseteq> {1..<unat start}" using kn i unfolding swap_inv_def by blast
    then show ?thesis by (auto simp: span_def)
  qed
  ultimately show ?thesis using i m1 sp k unfolding swap_inv_def s1(2,3) by blast
qed

subsection \<open>Runs of the server\<close>

text \<open>
  What the clients keep to: a range that is given back was handed out, requests are not empty, and the
  numbers of blocks stay below the width of a word.
\<close>

definition swap_legal :: "swenv \<Rightarrow> msg \<Rightarrow> swap \<Rightarrow> nat set \<Rightarrow> bool" where
  "swap_legal e m s O' \<longleftrightarrow>
     (let opc = m_op m AND MSG_MASK
      in m_nseg m \<le> 1 \<and>
         (opc = SWAP_FREE \<longrightarrow> m_arg m \<noteq> 0 \<and> m_arg1 m \<noteq> 0 \<and> unat (m_arg m) + unat (m_arg1 m) < 2 ^ 32 \<and>
            span (m_arg m) (m_arg1 m) \<subseteq> O') \<and>
         (opc = SWAP_ALLOC \<longrightarrow> m_arg m \<noteq> 0 \<and> (swchunks s = [] \<longrightarrow> unat (swap_pending s) + unat (m_arg m) + 1 < 2 ^ 32)) \<and>
         (\<forall>s1 out. swap_main e m s = Inr (s1, out) \<longrightarrow> swchunks s1 \<noteq> swchunks s \<longrightarrow>
            s_len (last (swchunks s1)) \<noteq> 0 \<and>
            (if swchunks s = [] then 0 else cend (last (swchunks s))) + 1 + unat (s_len (last (swchunks s1))) < 2 ^ 32))"

text \<open>The blocks in the hands of clients after a message.\<close>

definition owned :: "msg \<Rightarrow> swout list \<Rightarrow> nat set \<Rightarrow> nat set" where
  "owned m out O' =
     (if m_op m AND MSG_MASK = SWAP_ALLOC \<and> sw_reply out \<noteq> 0 then O' \<union> span (sw_reply out) (m_arg m)
      else if m_op m AND MSG_MASK = SWAP_FREE then O' - span (m_arg m) (m_arg1 m) else O')"

text \<open>Messages that change neither map nor chunks.\<close>

definition same_swap :: "swap \<Rightarrow> swap \<Rightarrow> bool" where
  "same_swap s s1 \<longleftrightarrow> swchunks s1 = swchunks s \<and> smap s1 = smap s \<and> swap_pending s1 = swap_pending s"

lemma same_swap_inv: "same_swap s s1 \<Longrightarrow> swap_inv s1 O' = swap_inv s O'"
  by (simp add: same_swap_def swap_inv_def known_def)

lemma swap_main_cases:
  assumes "swap_main e m s = Inr (s1, out)" "m_nseg m \<le> 1"
  obtains (alloc) f where "m_op m AND MSG_MASK = SWAP_ALLOC" "swap_alloc m f s = (s1, out)"
  | (free) f where "m_op m AND MSG_MASK = SWAP_FREE" "swap_free m f s = (s1, out)"
  | (add) port len off where "m_op m AND MSG_MASK = SWAP_ADD" "swapadd e port len off s = Inr s1"
  | (other) "m_op m AND MSG_MASK \<notin> {SWAP_ALLOC, SWAP_FREE}" "same_swap s s1"
proof -
  let ?opc = "m_op m AND MSG_MASK"
  note main = assms(1) [unfolded swap_main_def Let_def]
  consider "?opc = SWAP_ALLOC" | "?opc = SWAP_FREE" | "?opc = SWAP_ADD" | "?opc \<notin> {SWAP_ALLOC, SWAP_FREE, SWAP_ADD}" by blast
  then show thesis
  proof cases
    case 1
    then have "?opc = 301" by (simp add: SWAP_defs)
    with main assms(2) obtain f where "swap_alloc m f s = (s1, out)"
      by (auto simp: FS_defs M_defs SWAP_defs split: option.splits)
    with 1 show ?thesis by (rule alloc)
  next
    case 2
    then have "?opc = 302" by (simp add: SWAP_defs)
    with main assms(2) obtain f where "swap_free m f s = (s1, out)"
      by (auto simp: FS_defs M_defs SWAP_defs split: option.splits)
    with 2 show ?thesis by (rule free)
  next
    case 3
    then have "?opc = 303" by (simp add: SWAP_defs)
    with main assms(2) obtain f where "swap_add e m f (msg_bytes m) s = Inr (s1, out)"
      by (auto simp: FS_defs M_defs SWAP_defs split: option.splits)
    then consider "s1 = s" | port len off where "swapadd e port len off s = Inr s1"
      by (auto simp: swap_add_def obind_def Let_def split: if_splits sum.splits)
    then show ?thesis
    proof cases
      case 1
      then show ?thesis using 3 by (intro other) (auto simp: SWAP_defs same_swap_def)
    next
      case 2
      with 3 show ?thesis by (rule add)
    qed
  next
    case 4
    have "same_swap s s1"
      using main 4 assms(2)
      by (auto simp: same_swap_def swap_new_client_def swap_dead_client_def swap_dup_client_def swap_seek_def obind_def Let_def
          split: if_splits option.splits sum.splits)
    with 4 show ?thesis by (intro other) auto
  qed
qed

lemma swapadd_chunk: "swapadd e port len off s = Inr s1 \<Longrightarrow> swchunks s1 \<noteq> swchunks s \<and> s_len (last (swchunks s1)) = len"
  by (auto simp: swapadd_def Let_def split: if_splits prod.splits)

lemma swap_main_ok:
  assumes i: "swap_inv s O'" and l: "swap_legal e m s O'" and r: "swap_main e m s = Inr (s1, out)"
  shows "swap_inv s1 (owned m out O')"
proof -
  have ns: "m_nseg m \<le> 1" using l by (simp add: swap_legal_def Let_def)
  have d: "SWAP_FREE \<noteq> SWAP_ALLOC" "SWAP_ADD \<noteq> SWAP_ALLOC" "SWAP_ADD \<noteq> SWAP_FREE" by (simp_all add: SWAP_defs)
  from r ns show ?thesis
  proof (cases rule: swap_main_cases)
    case (alloc f)
    then show ?thesis using swap_alloc_ok(1) [OF i _ _ alloc(2)] l d by (auto simp: swap_legal_def Let_def owned_def)
  next
    case (free f)
    then show ?thesis using swap_free_ok(1) [OF i _ _ _ _ free(2)] l d by (auto simp: swap_legal_def Let_def owned_def)
  next
    case (add port len off)
    from swapadd_chunk [OF add(2)] l r have "len \<noteq> 0"
      "(if swchunks s = [] then 0 else cend (last (swchunks s))) + 1 + unat len < 2 ^ 32"
      unfolding swap_legal_def Let_def by blast+
    from swapadd_ok [OF i add(2) this] add(1) d show ?thesis by (simp add: owned_def)
  next
    case other
    then show ?thesis using same_swap_inv i by (auto simp: owned_def)
  qed
qed

text \<open>The states of the server and the blocks its clients hold, from its start on.\<close>

inductive swap_run :: "swap \<Rightarrow> nat set \<Rightarrow> bool" where
  start: "length junk = 200 \<Longrightarrow> swap_run (swap_init junk) {}"
| serve: "swap_run s O' \<Longrightarrow> swap_legal e m s O' \<Longrightarrow> swap_main e m s = Inr (s1, out) \<Longrightarrow> swap_run s1 (owned m out O')"

lemma swap_run_inv: "swap_run s O' \<Longrightarrow> swap_inv s O'"
  by (induction rule: swap_run.induct) (auto intro: swap_init_inv swap_main_ok)

subsection \<open>Properties\<close>



text \<open>A server with one chunk, blocks 1 to 9 on port 5, of which 1 to 4 are in use, and two clients.\<close>

definition swap_demo :: swap where
  "swap_demo = \<lparr>swchunks = [\<lparr>s_block = 1, s_len = 9, s_port = 5, s_off = 100\<rparr>],
     smap = [\<lparr>r_off = 1, r_size = 2\<rparr>, \<lparr>r_off = 5, r_size = 5\<rparr>, \<lparr>r_off = 0, r_size = 0\<rparr>], lost_elems = 0,
     total_swap = 9, free_swap = 5, swap_pending = 0,
     swclients = [(1, \<lparr>sw_pos = 0, sw_perms = ACC_READ OR ACC_WRITE\<rparr>), (2, \<lparr>sw_pos = 0, sw_perms = ACC_READ\<rparr>)]\<rparr>"

definition swap_demo_env :: swenv where
  "swap_demo_env = \<lparr>e_ok = (\<lambda>_. True), e_addr = 40, e_junk = \<lparr>perm_len = 0, perm_id = [], perm_uid = 0\<rparr>, e_err = [],
     e_path_open = (\<lambda>_. 5), e_rstat_size = (\<lambda>_. None), e_send = True\<rparr>"

definition demo_msg :: "ulong \<Rightarrow> uint \<Rightarrow> ulong \<Rightarrow> ulong \<Rightarrow> string list \<Rightarrow> msg" where
  "demo_msg k op a b ss = \<lparr>m_sender = k, m_op = op, m_arg = a, m_arg1 = b, m_segs = ss\<rparr>"

lemma swap_demo_map: "rmap_ok (smap swap_demo)" "free_units (smap swap_demo) = {5..<10}"
  by (auto simp: swap_demo_def rmap_ok_def free_units_def rlim_def ents_def ents_ok_def ent_ok_def lo_def hi_def)

lemma swap_demo_inv: "swap_inv swap_demo {1..<5}"
proof -
  have "known swap_demo = {1..<10}" "chunks_ok (swchunks swap_demo)" "swap_pending swap_demo = 0"
    by (auto simp: known_def swap_demo_def crange_def cend_def chunks_ok_def)
  then show ?thesis using swap_demo_map by (auto simp: swap_inv_def)
qed

text \<open>
  Blocks that the server hands out are in no client's hands; and once there is a chunk they all
  lie in one of them, in which \<open>swapent\<close> finds each: a range of swap space is on one device.
\<close>

theorem swap_alloc_fresh:
  assumes "swap_inv s O'" "swap_legal e m s O'" "m_op m AND MSG_MASK = SWAP_ALLOC" "swap_main e m s = Inr (s1, out)"
    and "sw_reply out \<noteq> 0"
  shows "span (sw_reply out) (m_arg m) \<inter> O' = {} \<and>
    (swchunks s \<noteq> [] \<longrightarrow>
      (\<exists>c\<in>set (swchunks s). span (sw_reply out) (m_arg m) \<subseteq> crange c \<and>
         (\<forall>b. unat b \<in> span (sw_reply out) (m_arg m) \<longrightarrow> swapent b (swchunks s) = Some c)))"
proof -
  let ?S = "span (sw_reply out) (m_arg m)"
  have n: "m_nseg m \<le> 1" "m_arg m \<noteq> 0" "swchunks s = [] \<Longrightarrow> unat (swap_pending s) + unat (m_arg m) + 1 < 2 ^ 32"
    using assms(2,3) by (simp_all add: swap_legal_def Let_def)
  have d: "SWAP_FREE \<noteq> SWAP_ALLOC" "SWAP_ADD \<noteq> SWAP_ALLOC" by (simp_all add: SWAP_defs)
  from assms(4) n(1) obtain f where f: "swap_alloc m f s = (s1, out)"
    by (cases rule: swap_main_cases) (use assms(3) d in auto)
  note A = swap_alloc_ok [OF assms(1) n(2,3) f]
  have "\<exists>c\<in>set (swchunks s). ?S \<subseteq> crange c" if c: "swchunks s \<noteq> []"
  proof -
    have "?S \<subseteq> (\<Union>c\<in>set (swchunks s). crange c)"
      using A(4) [OF _ assms(5) c] assms(1) c by (auto simp: swap_inv_def known_def)
    moreover have "0 < unat (m_arg m)" using n(2) by (simp add: unat_pos_iff)
    ultimately show ?thesis using assms(1) run_in_chunk unfolding span_def swap_inv_def by blast
  qed
  moreover have "swapent b (swchunks s) = Some c" if "c \<in> set (swchunks s)" "?S \<subseteq> crange c" "unat b \<in> ?S" for b c
    using swapent_in [of "swchunks s" c b] assms(1) that by (auto simp: swap_inv_def)
  ultimately show ?thesis using A(2) assms(5) by blast
qed

lemma swap_alloc_fresh_witness:
  "\<exists>s1 out. swap_main swap_demo_env (demo_msg 1 SWAP_ALLOC 3 0 []) swap_demo = Inr (s1, out) \<and> sw_reply out = 5 \<and>
     span (sw_reply out) 3 \<inter> {1..<5} = {}"
proof -
  let ?m = "demo_msg 1 SWAP_ALLOC 3 0 []"
  obtain s1 where r: "swap_main swap_demo_env ?m swap_demo = Inr (s1, [ToClient (Reply 5 0 [])])" "swchunks s1 = swchunks swap_demo"
    by (auto simp: swap_main_def demo_msg_def SWAP_defs MSG_MASK_def M_defs FS_defs m_nseg_def swap_demo_def swap_alloc_def ACC_defs
      rmap_alloc_def rlim_def)
  have l: "swap_legal swap_demo_env ?m swap_demo {1..<5}"
    using r by (auto simp: swap_legal_def demo_msg_def SWAP_defs MSG_MASK_def m_nseg_def swap_demo_def)
  have o: "m_op ?m AND MSG_MASK = SWAP_ALLOC" by (simp add: demo_msg_def SWAP_defs MSG_MASK_def)
  have b: "sw_reply [ToClient (Reply 5 0 [])] = 5" by (simp add: sw_reply_def)
  have "span 5 (m_arg ?m) \<inter> {1..<5} = {}" using swap_alloc_fresh [OF swap_demo_inv l o r(1)] b by simp
  then show ?thesis using r(1) b by (simp add: demo_msg_def)
qed

text \<open>
  A client that may only read frees any blocks: \<open>swap_free\<close> answers that it may not, and
  then gives the range back to the map and answers again.
\<close>

theorem swap_free_unprivileged:
  assumes "map_of (swclients s) (m_sender m) = Some f" "sw_perms f AND ACC_WRITE = 0" "m_op m AND MSG_MASK = SWAP_FREE" "m_nseg m \<le> 1"
    and "rmap_ok (smap s)" "freeable (smap s) (m_arg m) (m_arg1 m)"
  shows "\<exists>s1. swap_main e m s = Inr (s1, [ToClient (Err E_PERM), ToClient (Reply 0 0 [])]) \<and> rmap_ok (smap s1) \<and>
    (free_units (smap s1) = free_units (smap s) \<union> span (m_arg m) (m_arg1 m) \<or> rlim (smap s) = unat (r_size (smap s ! 0)))"
proof -
  obtain m1 l1 where a: "rmap_free (smap s, lost_elems s) (m_arg m) (m_arg1 m) = (m1, l1)" by fastforce
  have "rmap_ok m1 \<and> (free_units m1 = free_units (smap s) \<union> span (m_arg m) (m_arg1 m) \<or> rlim (smap s) = unat (r_size (smap s ! 0)))"
    using assms(5,6) by (cases rule: rmap_free_cases [where lost = "lost_elems s"]) (use a assms(5) in auto)
  moreover have "m_op m AND MSG_MASK = 302" using assms(3) by (simp add: SWAP_defs)
  then have "swap_main e m s = Inr (swap_free m f s)"
    using assms(1,4) by (simp add: swap_main_def Let_def SWAP_defs M_defs FS_defs)
  then have "\<exists>s1. swap_main e m s = Inr (s1, [ToClient (Err E_PERM), ToClient (Reply 0 0 [])]) \<and> smap s1 = m1"
    using a assms(2) by (simp add: swap_free_def Let_def)
  ultimately show ?thesis by blast
qed

lemma swap_free_unprivileged_witness:
  "\<exists>s1. swap_main swap_demo_env (demo_msg 2 SWAP_FREE 2 2 []) swap_demo = Inr (s1, [ToClient (Err E_PERM), ToClient (Reply 0 0 [])])"
proof -
  have "freeable (smap swap_demo) 2 2" using swap_demo_map(2) by (auto simp: freeable_def span_def)
  moreover have "map_of (swclients swap_demo) 2 = Some \<lparr>sw_pos = 0, sw_perms = ACC_READ\<rparr>" by (simp add: swap_demo_def)
  ultimately show ?thesis
    using swap_free_unprivileged [of swap_demo "demo_msg 2 SWAP_FREE 2 2 []" "\<lparr>sw_pos = 0, sw_perms = ACC_READ\<rparr>" swap_demo_env] swap_demo_map(1)
    by (auto simp: demo_msg_def ACC_defs SWAP_defs MSG_MASK_def m_nseg_def)
qed

text \<open>
  Swap space cannot be added with a given length: before the first chunk the assertion of
  \<open>swapadd\<close> stops the server, afterwards a chunk without blocks is added.
\<close>

theorem swap_add_sized:
  assumes "map_of (swclients s) (m_sender m) = Some f" "sw_perms f AND ACC_WRITE \<noteq> 0" "m_op m AND MSG_MASK = SWAP_ADD"
    and "m_segs m = [b]" "40 \<le> length b" "length b < 2 ^ 32" "word_at b 36 \<noteq> 0" "0 \<le> sint (e_path_open e (cstr b))" "e_ok e 0"
  shows "if swchunks s = [] then swap_main e m s = Inl Panic
    else \<exists>s1. swap_main e m s = Inr (s1, [ToClient (Reply 0 0 [])]) \<and> total_swap s1 = total_swap s \<and>
      free_swap s1 = free_swap s \<and> length (swchunks s1) = length (swchunks s) + 1 \<and> s_len (last (swchunks s1)) = 0"
proof -
  have "m_op m AND MSG_MASK = 303" using assms(3) by (simp add: SWAP_defs)
  then have "swap_main e m s = swap_add e m f (msg_bytes m) s"
    using assms(1,4) by (simp add: swap_main_def Let_def SWAP_defs M_defs FS_defs m_nseg_def)
  moreover have "\<not> msg_bytes m < 40" using assms(4-6) by (simp add: msg_bytes_def word_nat unat_of_nat_u32 not_less)
  ultimately have "swap_main e m s =
    obind (swapadd e (e_path_open e (cstr b)) 0 (word_at b 32) s) (\<lambda>s1. Inr (s1, [ToClient (Reply 0 0 [])]))"
    using assms by (simp add: swap_add_def m_nseg_def m_buf_def obind_def)
  then show ?thesis using assms(9) by (auto simp: swapadd_def Let_def obind_def split: prod.splits)
qed

definition demo_path :: string where "demo_path = replicate 40 CHR ''a''"

lemma swap_add_sized_witness:
  "swap_main swap_demo_env (demo_msg 1 SWAP_ADD 0 0 [demo_path]) (swap_demo\<lparr>swchunks := []\<rparr>) = Inl Panic"
proof -
  have p: "word_at demo_path 36 \<noteq> 0" "length demo_path = 40" by (simp_all add: demo_path_def word_at_def)
  have m: "m_op (demo_msg 1 SWAP_ADD 0 0 [demo_path]) AND MSG_MASK = SWAP_ADD" "m_segs (demo_msg 1 SWAP_ADD 0 0 [demo_path]) = [demo_path]"
    by (simp_all add: demo_msg_def SWAP_defs MSG_MASK_def)
  have c: "map_of (swclients (swap_demo\<lparr>swchunks := []\<rparr>)) (m_sender (demo_msg 1 SWAP_ADD 0 0 [demo_path])) =
    Some \<lparr>sw_pos = 0, sw_perms = ACC_READ OR ACC_WRITE\<rparr>" by (simp add: demo_msg_def swap_demo_def)
  have w: "sw_perms \<lparr>sw_pos = 0, sw_perms = ACC_READ OR ACC_WRITE\<rparr> AND ACC_WRITE \<noteq> 0" by (simp add: ACC_defs)
  show ?thesis
    using swap_add_sized [OF c w m _ _ p(1), of swap_demo_env] p(2) by (simp add: swap_demo_env_def)
qed

subsection \<open>The server as a pool\<close>

text \<open>
  With a chunk configured, the server is a pool of units as \<open>Rmap\<close> defines it, so that what holds
  of sequences of allocations from a map holds of the server.
\<close>

definition swap_take :: "swap \<Rightarrow> ulong \<Rightarrow> ulong \<times> swap" where
  "swap_take s n =
     (case swap_alloc (demo_msg 0 SWAP_ALLOC n 0 []) \<lparr>sw_pos = 0, sw_perms = ACC_WRITE\<rparr> s of (s1, out) \<Rightarrow> (sw_reply out, s1))"

definition swap_ready :: "swap \<Rightarrow> bool" where
  "swap_ready s \<longleftrightarrow> swchunks s \<noteq> [] \<and> rmap_ok (smap s)"

lemma swap_take_eq:
  assumes "swap_ready s"
  shows "fst (swap_take s n) = fst (rmap_alloc (smap s) n)" "smap (snd (swap_take s n)) = snd (rmap_alloc (smap s) n)"
    "swchunks (snd (swap_take s n)) = swchunks s"
    "fst (rmap_alloc (smap s) n) = 0 \<Longrightarrow> snd (rmap_alloc (smap s) n) = smap s \<Longrightarrow> snd (swap_take s n) = s"
  using assms by (auto simp: swap_take_def swap_ready_def swap_alloc_def demo_msg_def ACC_defs Let_def sw_reply_def split: prod.splits)

interpretation swap_pool: unit_pool swap_ready "\<lambda>s. free_units (smap s)" swap_take
proof
  fix s and n :: ulong assume s: "swap_ready s" "n \<noteq> 0"
  note e = swap_take_eq [OF s(1), of n] and g = rmap_alloc_given [OF _ s(2), of "smap s"]
  have ok: "rmap_ok (smap s)" using s(1) by (simp add: swap_ready_def)
  show "swap_ready (snd (swap_take s n))" using e g [OF ok] s(1) by (simp add: swap_ready_def)
  show "span (fst (swap_take s n)) n \<subseteq> free_units (smap s) \<and>
    free_units (smap (snd (swap_take s n))) = free_units (smap s) - span (fst (swap_take s n)) n" if "fst (swap_take s n) \<noteq> 0"
    using e g [OF ok] that by simp
  show "snd (swap_take s n) = s" if "fst (swap_take s n) = 0"
    using e g [OF ok] that by simp
qed

end
