(* ===== verification/Semasrv.thy ===== *)
theory Semasrv
  imports Srvlib Scan Hash
begin

text \<open>
  The semaphore server \<open>src/src/srv/sema\<close>: files that are semaphores. A read enters (P), a seek leaves
  (V). Clients and semaphores are kept under their addresses, a client that waits is in the queue of its
  semaphore; semaphores are found by number in a hash table (\<open>Hash\<close>). Replies carry the sender
  they are for.
\<close>

subsection \<open>Data\<close>

text \<open>The queue of a semaphore holds the addresses of clients; \<open>f_entry\<close> of a client is the list it is in and its own address.\<close>

record sfile =
  g_file :: ptr
  g_perms :: "perm list"
  g_pos :: uint
  g_entry :: "(ptr \<times> ptr) option"
  g_sender :: ulong
  g_nperm :: uchar
  g_perm :: uchar

record sopen =
  q_queue :: "ptr list"
  q_prot :: prot
  q_refs :: uint
  q_owner :: uint
  q_count :: int
  q_iname :: uint

record semas =
  sfs :: "ptr \<Rightarrow> sfile"
  sos :: "ptr \<Rightarrow> sopen"
  snames :: "ptr hash"
  nfiles :: uint
  rotor :: ulong
  sclients :: "ptr clients"

type_synonym sreply = "ulong \<times> reply"

definition upd_sf :: "ptr \<Rightarrow> (sfile \<Rightarrow> sfile) \<Rightarrow> semas \<Rightarrow> semas" where
  "upd_sf a g s = s\<lparr>sfs := (sfs s)(a := g (sfs s a))\<rparr>"

definition upd_so :: "ptr \<Rightarrow> (sopen \<Rightarrow> sopen) \<Rightarrow> semas \<Rightarrow> semas" where
  "upd_so a g s = s\<lparr>sos := (sos s)(a := g (sos s a))\<rparr>"

subsection \<open>rw.c\<close>

text \<open>\<open>ll_delete(f->f_entry); f->f_entry = 0\<close>\<close>

definition leave_queue :: "ptr \<Rightarrow> semas \<Rightarrow> semas outcome" where
  "leave_queue f s =
     (case g_entry (sfs s f) of
        None \<Rightarrow> Inl NullDeref
      | Some (p, g) \<Rightarrow>
          Inr (upd_sf f (\<lambda>x. x\<lparr>g_entry := None\<rparr>) (upd_so p (\<lambda>x. x\<lparr>q_queue := remove1 g (q_queue x)\<rparr>) s)))"

definition run_one :: "ptr \<Rightarrow> semas \<Rightarrow> (semas \<times> sreply list) outcome" where
  "run_one p s =
     (let f = hd (q_queue (sos s p))
      in obind (leave_queue f s) (\<lambda>s1.
         Inr (upd_so p (\<lambda>x. x\<lparr>q_count := q_count x + 1\<rparr>) s1, [(g_sender (sfs s1 f), Reply 0 0 [])])))"

text \<open>The replies of the loop are collected in its last argument.\<close>

partial_function (option) process_queue :: "ptr \<Rightarrow> semas \<Rightarrow> sreply list \<Rightarrow> (semas \<times> sreply list) outcome option" where
  "process_queue p s out =
     (if 0 < q_count (sos s p) \<and> q_queue (sos s p) \<noteq> [] then
        (case run_one p s of
           Inl e \<Rightarrow> Some (Inl e)
         | Inr (s1, out1) \<Rightarrow> process_queue p s1 (out @ out1))
      else Some (Inr (s, out)))"

declare process_queue.simps [code]

definition sema_seek :: "msg \<Rightarrow> ptr \<Rightarrow> semas \<Rightarrow> (semas \<times> sreply list) outcome" where
  "sema_seek m f s =
     (let p = g_file (sfs s f); ans = [(m_sender m, Reply 0 0 [])]
      in if p = NULL then Inr (upd_sf f (\<lambda>x. x\<lparr>g_pos := m_arg1 m\<rparr>) s, ans)
         else if q_queue (sos s p) \<noteq> [] then obind (run_one p s) (\<lambda>(s1, out). Inr (s1, ans @ out))
         else Inr (s, ans))"

definition sema_queue :: "env \<Rightarrow> msg \<Rightarrow> ptr \<Rightarrow> semas \<Rightarrow> semas \<times> sreply list" where
  "sema_queue e m f s =
     (let p = g_file (sfs s f)
      in if \<not> e_ok e 0 then (upd_sf f (\<lambda>x. x\<lparr>g_entry := None\<rparr>) s, [(m_sender m, Err (e_err e))])
         else (upd_sf f (\<lambda>x. x\<lparr>g_entry := Some (p, f), g_sender := m_sender m\<rparr>)
                 (upd_so p (\<lambda>x. x\<lparr>q_queue := q_queue x @ [f]\<rparr>) s), []))"

text \<open>The directory as text; a buffer of 12 bytes for each file.\<close>

definition add_dirent :: "semas \<Rightarrow> ulong \<Rightarrow> ptr \<Rightarrow> string outcome \<Rightarrow> bool \<times> string outcome" where
  "add_dirent s key p buf =
     (False, obind buf (\<lambda>b. obind (doprnt (''%u'' @ nl) [AInt (q_iname (sos s p))]) (\<lambda>t. Inr (b @ t))))"

definition sema_readdir :: "env \<Rightarrow> msg \<Rightarrow> ptr \<Rightarrow> semas \<Rightarrow> (semas \<times> sreply list) outcome" where
  "sema_readdir e m f s =
     (if \<not> e_ok e 0 then Inl NullDeref
      else obind (hash_foreach (add_dirent s) (snames s) (Inr [])) (\<lambda>buf.
        if 12 * unat (nfiles s) < length buf + 1 then Inl BufferOverrun
        else
          (let len = of_nat (length buf); pos = g_pos (sfs s f)
           in if len \<le> pos then Inr (s, [(m_sender m, Reply 0 0 [])])
              else
                (let n = (if m_arg m < len - pos then m_arg m else len - pos)
                 in Inr (upd_sf f (\<lambda>x. x\<lparr>g_pos := pos + n\<rparr>) s,
                         [(m_sender m, Reply n 0 (if n = 0 then [] else [take (unat n) (drop (unat pos) buf)]))])))))"

definition sema_read :: "env \<Rightarrow> msg \<Rightarrow> ptr \<Rightarrow> semas \<Rightarrow> (semas \<times> sreply list) outcome" where
  "sema_read e m f s =
     (let p = g_file (sfs s f)
      in if p = NULL then sema_readdir e m f s
         else if ucast (g_perm (sfs s f)) AND ACC_READ = 0 then Inr (s, [(m_sender m, Err E_PERM)])
         else
           (let s1 = upd_so p (\<lambda>x. x\<lparr>q_count := q_count x - 1\<rparr>) s
            in if 0 \<le> q_count (sos s1 p) then Inr (s1, [(m_sender m, Reply 0 0 [])])
               else Inr (sema_queue e m f s1)))"

definition sema_abort :: "msg \<Rightarrow> ptr \<Rightarrow> semas \<Rightarrow> (semas \<times> sreply list) outcome" where
  "sema_abort m f s =
     (if g_entry (sfs s f) = None then Inr (s, [(m_sender m, Reply 0 0 [])])
      else obind (leave_queue f s) (\<lambda>s1.
        Inr (upd_so (g_file (sfs s1 f)) (\<lambda>x. x\<lparr>q_count := q_count x + 1\<rparr>) s1, [(m_sender m, Reply 0 0 [])])))"

subsection \<open>open.c\<close>

text \<open>Two allocations: the semaphore and its entry in the table.\<close>

definition sema_newfile :: "env \<Rightarrow> ptr \<Rightarrow> uint \<Rightarrow> semas \<Rightarrow> ptr \<times> semas" where
  "sema_newfile e f iname s =
     (if \<not> e_ok e 1 then (NULL, s)
      else
        (case hash_insert (e_ok e 2) (Some (snames s)) iname (e_addr e) of
           (Suc _, _) \<Rightarrow> (NULL, s)
         | (0, t) \<Rightarrow>
             (let pm = g_perms (sfs s f) ! 0
              in (e_addr e,
                  s\<lparr>snames := the t, nfiles := nfiles s + 1,
                    sos := (sos s)(e_addr e := \<lparr>q_queue = [], q_prot = new_prot pm, q_refs = 0, q_owner = perm_uid pm,
                      q_count = 0, q_iname = iname\<rparr>)\<rparr>))))"

text \<open>The number for \<open>clone\<close>. With all numbers taken the loop does not end.\<close>

partial_function (option) pick_rotor :: "ptr hash \<Rightarrow> ulong \<Rightarrow> ulong option" where
  "pick_rotor t r =
     (if hash_lookup (Some t) r = None then Some r
      else pick_rotor t (if 65535 \<le> r + 1 then 1 else r + 1))"

declare pick_rotor.simps [code]

text \<open>The number a name stands for, with the file it has and the new rotor; \<open>None\<close>: not a name.\<close>

definition sema_name :: "env \<Rightarrow> string \<Rightarrow> semas \<Rightarrow> (uint \<times> ptr option \<times> ulong) option outcome option" where
  "sema_name e name s =
     (if name = ''clone'' then
        (case pick_rotor (snames s) (rotor s) of
           None \<Rightarrow> None
         | Some r \<Rightarrow> Some (Inr (Some (r, None, r))))
      else
        Some (obind (sscanf (e_ok e 0) (\<lambda>_. False) name ''%u'') (\<lambda>(n, vs, _).
          Inr (case vs of
                 [Some (SInt x)] \<Rightarrow> if n = 1 then Some (x, hash_lookup (Some (snames s)) x, rotor s) else None
               | _ \<Rightarrow> None))))"

definition sema_open_file :: "env \<Rightarrow> msg \<Rightarrow> ptr \<Rightarrow> uint \<Rightarrow> ptr option \<Rightarrow> semas \<Rightarrow> semas \<times> sreply list" where
  "sema_open_file e m f iname o' s =
     (let want = m_arg m AND (ACC_READ OR ACC_WRITE OR ACC_CHMOD)
      in case o' of
           None \<Rightarrow>
             if m_arg m AND ACC_CREATE = 0 then (s, [(m_sender m, Err E_SRCH)])
             else
               (case sema_newfile e f iname s of
                  (p, s1) \<Rightarrow>
                    if p = NULL then (s1, [(m_sender m, Err E_NOMEM)])
                    else (upd_sf f (\<lambda>x. x\<lparr>g_file := p, g_perm := ucast (ACC_READ OR ACC_WRITE OR ACC_CHMOD)\<rparr>)
                            (upd_so p (\<lambda>x. x\<lparr>q_refs := q_refs x + 1\<rparr>) s1), [(m_sender m, Reply 0 0 [])]))
         | Some p \<Rightarrow>
             (let x = ucast (perm_calc (g_perms (sfs s f)) (unat (g_nperm (sfs s f))) (q_prot (sos s p)))
              in if want AND x \<noteq> want then (s, [(m_sender m, Err E_PERM)])
                 else (upd_sf f (\<lambda>y. y\<lparr>g_file := p, g_perm := ucast (want OR (x AND ACC_CHMOD))\<rparr>)
                         (upd_so p (\<lambda>y. y\<lparr>q_refs := q_refs y + 1\<rparr>) s), [(m_sender m, Reply 0 0 [])])))"

definition sema_open :: "env \<Rightarrow> msg \<Rightarrow> ptr \<Rightarrow> semas \<Rightarrow> (semas \<times> sreply list) outcome option" where
  "sema_open e m f s =
     (if g_file (sfs s f) \<noteq> NULL then Some (Inr (s, [(m_sender m, Err E_NOTDIR)]))
      else if m_arg m AND ACC_DIR \<noteq> 0 then Some (Inr (s, [(m_sender m, Err E_INVAL)]))
      else
        (case sema_name e (cstr (m_buf m)) s of
           None \<Rightarrow> None
         | Some (Inl fl) \<Rightarrow> Some (Inl fl)
         | Some (Inr None) \<Rightarrow> Some (Inr (s, [(m_sender m, Err E_INVAL)]))
         | Some (Inr (Some (iname, o', r))) \<Rightarrow> Some (Inr (sema_open_file e m f iname o' (s\<lparr>rotor := r\<rparr>)))))"

definition sema_close :: "ptr \<Rightarrow> semas \<Rightarrow> semas" where
  "sema_close f s =
     (let p = g_file (sfs s f)
      in if p = NULL then s
         else
           (let s1 = upd_so p (\<lambda>x. x\<lparr>q_refs := q_refs x - 1\<rparr>) s
            in if q_refs (sos s1 p) \<noteq> 0 then s1
               else s1\<lparr>snames := the (snd (hash_delete (Some (snames s1)) (q_iname (sos s1 p)))), nfiles := nfiles s1 - 1\<rparr>))"

subsection \<open>stat.c\<close>

definition sema_stat :: "msg \<Rightarrow> ptr \<Rightarrow> semas \<Rightarrow> (semas \<times> sreply list) outcome" where
  "sema_stat m f s =
     (if ucast (g_perm (sfs s f)) AND (ACC_READ OR ACC_CHMOD) = 0 then Inr (s, [(m_sender m, Err E_PERM)])
      else
        (let p = g_file (sfs s f); o' = sos s p;
             len = (if p = NULL then nfiles s else if q_count o' < 0 then of_int (- q_count o') else 0)
         in obind (doprnt (''size=%d'' @ nl @ ''type=%c'' @ nl @ ''owner=%d'' @ nl @ ''inode=%lu'' @ nl)
                    [AInt len, AInt (of_nat (of_char (if p \<noteq> NULL then CHR ''f'' else CHR ''d''))),
                     AInt (if p \<noteq> NULL then q_owner o' else 0), AInt (of_nat p)]) (\<lambda>head.
            obind (if p \<noteq> NULL
                   then obind (perm_print (q_prot o')) (\<lambda>pr.
                        obind (doprnt (''count=%d'' @ nl @ ''name=%u'' @ nl) [AInt (of_int (q_count o')), AInt (q_iname o')])
                          (\<lambda>rest. Inr (pr @ rest)))
                   else doprnt (''perm=1'' @ nl @ ''acc=%d/%d'' @ nl) [AInt (ACC_READ OR ACC_WRITE), AInt ACC_CHMOD]) (\<lambda>rest.
            (let buf = head @ rest
             in if MAXSTAT \<le> length buf then Inl BufferOverrun
                else Inr (s, [(m_sender m, Reply (of_nat (length buf)) 0 [buf])]))))))"

text \<open>For a field it does not know the handler answers twice.\<close>

definition sema_wstat :: "msg \<Rightarrow> ptr \<Rightarrow> semas \<Rightarrow> (semas \<times> sreply list) outcome option" where
  "sema_wstat m f s =
     (let p = g_file (sfs s f); acc = ucast (g_perm (sfs s f))
      in if p = NULL then Some (Inr (s, [(m_sender m, Err E_INVAL)]))
         else if acc AND (ACC_WRITE OR ACC_CHMOD) = 0 then Some (Inr (s, [(m_sender m, Err E_PERM)]))
         else
           (case do_wstat m (Some (q_prot (sos s p))) acc of
              Inl fl \<Rightarrow> Some (Inl fl)
            | Inr (Done rep prot) \<Rightarrow> Some (Inr (upd_so p (\<lambda>x. x\<lparr>q_prot := the prot\<rparr>) s, [(m_sender m, rep)]))
            | Inr (Field field val) \<Rightarrow>
                if field = ''count'' then
                  (case atoi val of
                     Inl fl \<Rightarrow> Some (Inl fl)
                   | Inr n \<Rightarrow>
                       (case process_queue p (upd_so p (\<lambda>x. x\<lparr>q_count := sint n\<rparr>) s) [] of
                          None \<Rightarrow> None
                        | Some (Inl fl) \<Rightarrow> Some (Inl fl)
                        | Some (Inr (s1, out)) \<Rightarrow> Some (Inr (s1, out @ [(m_sender m, Reply 0 0 [])]))))
                else Some (Inr (s, [(m_sender m, Err E_INVAL), (m_sender m, Reply 0 0 [])]))))"

subsection \<open>main.c\<close>

definition sema_new_client :: "env \<Rightarrow> msg \<Rightarrow> semas \<Rightarrow> (semas \<times> sreply list) outcome" where
  "sema_new_client e m s =
     (if \<not> e_ok e 0 then Inr (s, [(m_sender m, Err (e_err e))])
      else obind (client_perms (e\<lparr>e_junk := \<lparr>perm_len = 0, perm_id = replicate PERMLEN 0, perm_uid = 0\<rparr>\<rparr>) (m_buf m)) (\<lambda>perms.
        if \<not> e_ok e 1 then Inr (s, [(m_sender m, Err E_NOMEM)])
        else Inr (s\<lparr>sfs := (sfs s)(e_addr e := \<lparr>g_file = NULL, g_perms = perms, g_pos = 0, g_entry = None, g_sender = 0,
                      g_nperm = of_nat (length (m_buf m) div 12), g_perm = ucast (ACC_READ OR ACC_WRITE)\<rparr>),
                    sclients := (m_sender m, e_addr e) # sclients s\<rparr>,
                  [(m_sender m, Accept)])))"

definition sema_dup_client :: "env \<Rightarrow> msg \<Rightarrow> ptr \<Rightarrow> semas \<Rightarrow> semas \<times> sreply list" where
  "sema_dup_client e m f s =
     (if \<not> e_ok e 0 then (s, [(m_sender m, Err (e_err e))])
      else if \<not> e_ok e 1 then (s, [(m_sender m, Err E_NOMEM)])
      else
        (let f1 = sfs s f; s1 = s\<lparr>sfs := (sfs s)(e_addr e := f1), sclients := (m_arg m, e_addr e) # sclients s\<rparr>
         in (if g_file f1 \<noteq> NULL then upd_so (g_file f1) (\<lambda>x. x\<lparr>q_refs := q_refs x + 1\<rparr>) s1 else s1,
             [(m_sender m, Reply 0 0 [])])))"

definition sema_dead_client :: "msg \<Rightarrow> ptr \<Rightarrow> semas \<Rightarrow> semas \<times> sreply list" where
  "sema_dead_client m f s = (sema_close f (s\<lparr>sclients := del_client (m_sender m) (sclients s)\<rparr>), [])"

text \<open>One round of \<open>sema_main\<close>. A read with a position seeks first: it answers, and leaves the semaphore, before it reads.\<close>

definition sema_main :: "env \<Rightarrow> msg \<Rightarrow> semas \<Rightarrow> (semas \<times> sreply list) outcome option" where
  "sema_main e m s =
     (let opc = m_op m AND MSG_MASK
      in if opc = M_CONNECT then Some (sema_new_client e m s)
         else if opc \<notin> {M_DISCONNECT, M_DUP, M_ABORT, FS_OPEN, FS_SEEK, FS_ABSREAD, FS_READ, FS_STAT, FS_WSTAT}
         then Some (Inr (s, [(m_sender m, Err E_INVAL)]))
         else
           (case if opc = FS_OPEN then (if m_nseg m \<noteq> 1 then Inr False else valid_fname (m_buf m)) else Inr True of
              Inl fl \<Rightarrow> Some (Inl fl)
            | Inr ok \<Rightarrow>
                if \<not> ok then Some (Inr (s, [(m_sender m, Err E_INVAL)]))
                else
                  (case map_of (sclients s) (m_sender m) of
                     None \<Rightarrow> if opc = M_DUP \<and> \<not> e_ok e 0 then Some (Inr (s, [(m_sender m, Err (e_err e))])) else Some (Inl NullDeref)
                   | Some f \<Rightarrow>
                       if opc = M_DISCONNECT then Some (Inr (sema_dead_client m f s))
                       else if opc = M_DUP then Some (Inr (sema_dup_client e m f s))
                       else if opc = M_ABORT then Some (sema_abort m f s)
                       else if opc = FS_OPEN then sema_open e m f s
                       else if opc = FS_SEEK then Some (sema_seek m f s)
                       else if opc = FS_ABSREAD then
                         Some (obind (sema_seek m f s) (\<lambda>(s1, out1).
                           obind (sema_read e (m\<lparr>m_arg := 0, m_arg1 := 0, m_segs := []\<rparr>) f s1) (\<lambda>(s2, out2). Inr (s2, out1 @ out2))))
                       else if opc = FS_READ then Some (sema_read e m f s)
                       else if opc = FS_STAT then Some (sema_stat m f s)
                       else sema_wstat m f s)))"

text \<open>The state the server starts in, with the table it allocated.\<close>

definition sema_start :: "ptr hash \<Rightarrow> semas" where
  "sema_start t = \<lparr>sfs = (\<lambda>_. \<lparr>g_file = NULL, g_perms = [], g_pos = 0, g_entry = None, g_sender = 0, g_nperm = 0, g_perm = 0\<rparr>),
     sos = (\<lambda>_. \<lparr>q_queue = [], q_prot = \<lparr>prot_len = 0, prot_default = 0, prot_id = [], prot_bits = []\<rparr>, q_refs = 0,
       q_owner = 0, q_count = 0, q_iname = 0\<rparr>),
     snames = t, nfiles = 0, rotor = 1, sclients = []\<rparr>"

end
