(* ===== verification/Semasrv_Spec.thy ===== *)
theory Semasrv_Spec
  imports Semasrv
begin

text \<open>
  A semaphore of the semaphore server, refined from a count and a queue of waiting senders.
\<close>

lemma upd_sf_simps [simp]:
  "sfs (upd_sf a g s) = (sfs s)(a := g (sfs s a))" "sos (upd_sf a g s) = sos s" "snames (upd_sf a g s) = snames s"
  "sclients (upd_sf a g s) = sclients s"
  by (simp_all add: upd_sf_def)

lemma upd_so_simps [simp]:
  "sos (upd_so a h s) = (sos s)(a := h (sos s a))" "sfs (upd_so a h s) = sfs s" "snames (upd_so a h s) = snames s"
  "sclients (upd_so a h s) = sclients s"
  by (simp_all add: upd_so_def)

subsection \<open>The abstract semaphore\<close>

datatype aop = Enter ulong | Leave ulong | Cancel ulong

text \<open>The new count and queue, and the senders that are answered.\<close>

fun astep :: "aop \<Rightarrow> int \<times> ulong list \<Rightarrow> (int \<times> ulong list) \<times> ulong list" where
  "astep (Enter k) (c, W) = (if 0 < c then ((c - 1, W), [k]) else ((c - 1, W @ [k]), []))"
| "astep (Leave k) (c, W) = (case W of [] \<Rightarrow> ((c, W), [k]) | w # W1 \<Rightarrow> ((c + 1, W1), [k, w]))"
| "astep (Cancel k) (c, W) = (if k \<in> set W then ((c + 1, remove1 k W), [k]) else ((c, W), [k]))"

definition absq :: "ptr \<Rightarrow> semas \<Rightarrow> int \<times> ulong list" where
  "absq p s = (q_count (sos s p), map (\<lambda>f. g_sender (sfs s f)) (q_queue (sos s p)))"

text \<open>The clients in the queue of \<open>p\<close> are those that say so.\<close>

definition sq_ok :: "ptr \<Rightarrow> semas \<Rightarrow> bool" where
  "sq_ok p s \<longleftrightarrow>
     distinct (map fst (sclients s)) \<and> distinct (map snd (sclients s)) \<and> distinct (q_queue (sos s p)) \<and>
     (\<forall>f\<in>set (q_queue (sos s p)). (g_sender (sfs s f), f) \<in> set (sclients s) \<and> g_entry (sfs s f) = Some (p, f) \<and> g_file (sfs s f) = p) \<and>
     (\<forall>(k, f)\<in>set (sclients s). g_entry (sfs s f) \<noteq> None \<longrightarrow> g_file (sfs s f) = p \<longrightarrow> f \<in> set (q_queue (sos s p)))"

lemma sq_okD:
  assumes "sq_ok p s"
  shows "distinct (map fst (sclients s))" "distinct (map snd (sclients s))" "distinct (q_queue (sos s p))"
    "f \<in> set (q_queue (sos s p)) \<Longrightarrow> (g_sender (sfs s f), f) \<in> set (sclients s)"
    "f \<in> set (q_queue (sos s p)) \<Longrightarrow> g_entry (sfs s f) = Some (p, f)"
    "f \<in> set (q_queue (sos s p)) \<Longrightarrow> g_file (sfs s f) = p"
    "(k, f) \<in> set (sclients s) \<Longrightarrow> g_entry (sfs s f) \<noteq> None \<Longrightarrow> g_file (sfs s f) = p \<Longrightarrow> f \<in> set (q_queue (sos s p))"
  using assms unfolding sq_ok_def by blast+

text \<open>A client leaves the queue and the count goes up.\<close>

lemma leave_ok:
  assumes q: "sq_ok p s" and f: "f \<in> set (q_queue (sos s p))"
  defines "s1 \<equiv> upd_so p (\<lambda>x. x\<lparr>q_count := q_count x + 1\<rparr>)
    (upd_sf f (\<lambda>x. x\<lparr>g_entry := None\<rparr>) (upd_so p (\<lambda>x. x\<lparr>q_queue := remove1 f (q_queue x)\<rparr>) s))"
  shows "leave_queue f s = Inr (upd_sf f (\<lambda>x. x\<lparr>g_entry := None\<rparr>) (upd_so p (\<lambda>x. x\<lparr>q_queue := remove1 f (q_queue x)\<rparr>) s))"
    "sq_ok p s1" "absq p s1 = (q_count (sos s p) + 1, remove1 (g_sender (sfs s f)) (snd (absq p s)))"
proof -
  note D = sq_okD [OF q]
  show "leave_queue f s = Inr (upd_sf f (\<lambda>x. x\<lparr>g_entry := None\<rparr>) (upd_so p (\<lambda>x. x\<lparr>q_queue := remove1 f (q_queue x)\<rparr>) s))"
    using D(5) [OF f] by (simp add: leave_queue_def)
  have s1: "sclients s1 = sclients s" "q_queue (sos s1 p) = remove1 f (q_queue (sos s p))" "g_sender (sfs s1 h) = g_sender (sfs s h)"
    "g_file (sfs s1 h) = g_file (sfs s h)" "g_entry (sfs s1 h) = (if h = f then None else g_entry (sfs s h))" for h
    by (simp_all add: s1_def)
  have r: "h \<in> set (remove1 f (q_queue (sos s p))) \<longleftrightarrow> h \<in> set (q_queue (sos s p)) \<and> h \<noteq> f" for h using D(3) by auto
  have "(k, h) \<in> set (sclients s) \<Longrightarrow> g_entry (sfs s1 h) \<noteq> None \<Longrightarrow> g_file (sfs s h) = p \<Longrightarrow> h \<in> set (q_queue (sos s p)) \<and> h \<noteq> f" for k h
    using D(7) [of k h] by (simp add: s1(5) split: if_splits)
  moreover have "h \<in> set (q_queue (sos s p)) \<Longrightarrow> h \<noteq> f \<Longrightarrow> g_entry (sfs s1 h) = Some (p, h)" for h
    using D(5) by (simp add: s1(5))
  ultimately show "sq_ok p s1" unfolding sq_ok_def Ball_def split_paired_All split_conv s1(1-4) r
    using D(1-4,6) distinct_remove1 [OF D(3)] by blast
  have s: "map (\<lambda>h. g_sender (sfs s1 h)) xs = map (\<lambda>h. g_sender (sfs s h)) xs" for xs by (simp add: s1_def)
  have "inj_on (\<lambda>h. g_sender (sfs s h)) (set (q_queue (sos s p)))"
    using D(1,4) by (intro inj_onI) (metis eq_key_imp_eq_value)
  then have "map (\<lambda>h. g_sender (sfs s h)) (remove1 f xs) = remove1 (g_sender (sfs s f)) (map (\<lambda>h. g_sender (sfs s h)) xs)"
    if "set xs \<subseteq> set (q_queue (sos s p))" for xs
    using that f by (induction xs) (auto dest: inj_onD)
  from this [of "q_queue (sos s p)"]
  show "absq p s1 = (q_count (sos s p) + 1, remove1 (g_sender (sfs s f)) (snd (absq p s)))"
    unfolding absq_def s by (simp add: s1_def)
qed

lemma run_one_ok:
  assumes q: "sq_ok p s" and W: "snd (absq p s) = w # W1"
  shows "\<exists>s1. run_one p s = Inr (s1, [(w, Reply 0 0 [])]) \<and> sq_ok p s1 \<and> absq p s1 = (q_count (sos s p) + 1, W1) \<and>
    sclients s1 = sclients s"
proof -
  obtain f fs where f: "q_queue (sos s p) = f # fs" "w = g_sender (sfs s f)" using W by (auto simp: absq_def)
  have "f \<in> set (q_queue (sos s p))" using f by simp
  note L = leave_ok [OF q this]
  let ?s1 = "upd_so p (\<lambda>x. x\<lparr>q_count := q_count x + 1\<rparr>)
    (upd_sf f (\<lambda>x. x\<lparr>g_entry := None\<rparr>) (upd_so p (\<lambda>x. x\<lparr>q_queue := remove1 f (q_queue x)\<rparr>) s))"
  have "run_one p s = Inr (?s1, [(w, Reply 0 0 [])])" using f L(1) by (simp add: run_one_def obind_def)
  then show ?thesis using L(2,3) W f(2) by (intro exI [of _ ?s1]) simp
qed

text \<open>With a positive count all who wait are let through.\<close>

lemma process_queue_ok:
  assumes "sq_ok p s"
  shows "\<exists>s1. process_queue p s o0 =
      Some (Inr (s1, o0 @ (if 0 < fst (absq p s) then map (\<lambda>w. (w, Reply 0 0 [])) (snd (absq p s)) else []))) \<and>
    sq_ok p s1 \<and> sclients s1 = sclients s \<and>
    absq p s1 = (if 0 < fst (absq p s) then (fst (absq p s) + int (length (snd (absq p s))), []) else absq p s)"
  using assms
proof (induction "length (snd (absq p s))" arbitrary: s o0)
  case 0
  then have "q_queue (sos s p) = []" by (simp add: absq_def)
  then show ?case using 0 by (subst process_queue.simps) (auto simp: absq_def)
next
  case (Suc n)
  then obtain w W1 where W: "snd (absq p s) = w # W1" by (cases "snd (absq p s)") auto
  show ?case
  proof (cases "0 < fst (absq p s)")
    case False
    then show ?thesis using Suc.prems by (subst process_queue.simps) (auto simp: absq_def)
  next
    case True
    from run_one_ok [OF Suc.prems W] obtain s1 where
      s1: "run_one p s = Inr (s1, [(w, Reply 0 0 [])])" "sq_ok p s1" "absq p s1 = (q_count (sos s p) + 1, W1)" "sclients s1 = sclients s" by blast
    have c: "fst (absq p s) = q_count (sos s p)" by (simp add: absq_def)
    have "q_queue (sos s p) \<noteq> []" using W by (auto simp: absq_def)
    then have "process_queue p s o0 = process_queue p s1 (o0 @ [(w, Reply 0 0 [])])"
      using True s1(1) c by (subst process_queue.simps) simp
    moreover have "n = length (snd (absq p s1))" using Suc.hyps(2) W s1(3) by simp
    from Suc.hyps(1) [OF this s1(2), of "o0 @ [(w, Reply 0 0 [])]"] obtain s2 where
      "process_queue p s1 (o0 @ [(w, Reply 0 0 [])]) = Some (Inr (s2, (o0 @ [(w, Reply 0 0 [])]) @ map (\<lambda>w. (w, Reply 0 0 [])) W1))"
      "sq_ok p s2" "sclients s2 = sclients s" "absq p s2 = (q_count (sos s p) + 1 + int (length W1), [])"
      using True s1(3,4) c by auto
    ultimately show ?thesis using True W c by (intro exI [of _ s2]) simp
  qed
qed

subsection \<open>The messages\<close>

definition replies :: "ulong list \<Rightarrow> sreply list" where
  "replies ks = map (\<lambda>k. (k, Reply 0 0 [])) ks"

lemma sema_read_ok:
  assumes q: "sq_ok p s" and f: "(m_sender m, f) \<in> set (sclients s)" "g_file (sfs s f) = p" "p \<noteq> NULL" "g_entry (sfs s f) = None"
    and a: "ucast (g_perm (sfs s f)) AND ACC_READ \<noteq> (0 :: uint)" "e_ok e 0"
  shows "\<exists>s1. sema_read e m f s = Inr (s1, replies (snd (astep (Enter (m_sender m)) (absq p s)))) \<and> sq_ok p s1 \<and>
    absq p s1 = fst (astep (Enter (m_sender m)) (absq p s)) \<and> sclients s1 = sclients s"
proof -
  note D = sq_okD [OF q]
  let ?s0 = "upd_so p (\<lambda>x. x\<lparr>q_count := q_count x - 1\<rparr>) s"
  have q0: "sq_ok p ?s0" using q by (simp add: sq_ok_def)
  show ?thesis
  proof (cases "0 < q_count (sos s p)")
    case True
    then show ?thesis using f a q0 by (intro exI [of _ ?s0]) (simp add: sema_read_def absq_def replies_def)
  next
    case False
    let ?s1 = "upd_sf f (\<lambda>x. x\<lparr>g_entry := Some (p, f), g_sender := m_sender m\<rparr>)
      (upd_so p (\<lambda>x. x\<lparr>q_queue := q_queue x @ [f]\<rparr>) ?s0)"
    have nq: "f \<notin> set (q_queue (sos s p))" using D(5) f(4) by fastforce
    have "sema_read e m f s = Inr (?s1, [])"
      using f a False by (simp add: sema_read_def sema_queue_def)
    moreover have "absq p ?s1 = fst (astep (Enter (m_sender m)) (absq p s))"
    proof -
      have "map (\<lambda>h. g_sender (sfs ?s1 h)) (q_queue (sos s p)) = map (\<lambda>h. g_sender (sfs s h)) (q_queue (sos s p))"
        using nq by (intro map_cong) auto
      then show ?thesis using False unfolding absq_def by simp
    qed
    moreover have "sq_ok p ?s1"
    proof -
      have s1: "sclients ?s1 = sclients s" "q_queue (sos ?s1 p) = q_queue (sos s p) @ [f]" "g_file (sfs ?s1 h) = g_file (sfs s h)"
        "g_entry (sfs ?s1 h) = (if h = f then Some (p, f) else g_entry (sfs s h))"
        "g_sender (sfs ?s1 h) = (if h = f then m_sender m else g_sender (sfs s h))" for h by simp_all
      have r: "h \<in> set (q_queue (sos s p) @ [f]) \<longleftrightarrow> h \<in> set (q_queue (sos s p)) \<or> h = f" for h by auto
      have "(if h = f then Some (p, f) else g_entry (sfs s h)) \<noteq> None \<Longrightarrow> (k, h) \<in> set (sclients s) \<Longrightarrow> g_file (sfs s h) = p \<Longrightarrow>
        h \<in> set (q_queue (sos s p)) \<or> h = f" for k h using D(7) [of k h] by (auto split: if_splits)
      moreover have "h \<in> set (q_queue (sos s p)) \<or> h = f \<Longrightarrow>
        ((if h = f then m_sender m else g_sender (sfs s h)), h) \<in> set (sclients s) \<and>
        (if h = f then Some (p, f) else g_entry (sfs s h)) = Some (p, h) \<and> g_file (sfs s h) = p" for h
        using D(4-6) f by auto
      moreover have "distinct (q_queue (sos s p) @ [f])" using D(3) nq by simp
      ultimately show ?thesis unfolding sq_ok_def Ball_def split_paired_All split_conv s1 r using D(1,2) by blast
    qed
    ultimately show ?thesis using False by (intro exI [of _ ?s1]) (simp add: absq_def replies_def)
  qed
qed

lemma sema_seek_ok:
  assumes q: "sq_ok p s" and f: "g_file (sfs s f) = p" "p \<noteq> NULL"
  shows "\<exists>s1. sema_seek m f s = Inr (s1, replies (snd (astep (Leave (m_sender m)) (absq p s)))) \<and> sq_ok p s1 \<and>
    absq p s1 = fst (astep (Leave (m_sender m)) (absq p s)) \<and> sclients s1 = sclients s"
proof (cases "snd (absq p s)")
  case Nil
  then show ?thesis using q f by (intro exI [of _ s]) (simp add: sema_seek_def absq_def replies_def)
next
  case (Cons w W1)
  from run_one_ok [OF q Cons] obtain s1 where
    "run_one p s = Inr (s1, [(w, Reply 0 0 [])])" "sq_ok p s1" "absq p s1 = (q_count (sos s p) + 1, W1)" "sclients s1 = sclients s" by blast
  moreover have "q_queue (sos s p) \<noteq> []" using Cons by (auto simp: absq_def)
  moreover have "absq p s = (q_count (sos s p), w # W1)" using Cons by (simp add: absq_def)
  ultimately show ?thesis using f by (intro exI [of _ s1]) (simp add: sema_seek_def obind_def replies_def)
qed

lemma sema_abort_ok:
  assumes q: "sq_ok p s" and f: "(m_sender m, f) \<in> set (sclients s)" "g_file (sfs s f) = p"
  shows "\<exists>s1. sema_abort m f s = Inr (s1, replies (snd (astep (Cancel (m_sender m)) (absq p s)))) \<and> sq_ok p s1 \<and>
    absq p s1 = fst (astep (Cancel (m_sender m)) (absq p s)) \<and> sclients s1 = sclients s"
proof -
  note D = sq_okD [OF q]
  have inq: "m_sender m \<in> set (snd (absq p s)) \<longleftrightarrow> f \<in> set (q_queue (sos s p))"
  proof
    assume "m_sender m \<in> set (snd (absq p s))"
    then obtain h where h: "h \<in> set (q_queue (sos s p))" "g_sender (sfs s h) = m_sender m" by (auto simp: absq_def)
    have "h = f" using D(1) D(4) [OF h(1)] h(2) f(1) by (metis eq_key_imp_eq_value)
    with h(1) show "f \<in> set (q_queue (sos s p))" by simp
  next
    assume i: "f \<in> set (q_queue (sos s p))"
    have "g_sender (sfs s f) = m_sender m"
      using D(2) D(4) [OF i] f(1) by (metis (no_types, lifting) distinct_map inj_onD snd_conv fst_conv)
    then show "m_sender m \<in> set (snd (absq p s))" using i by (force simp: absq_def)
  qed
  show ?thesis
  proof (cases "f \<in> set (q_queue (sos s p))")
    case True
    have e: "g_entry (sfs s f) = Some (p, f)" by (rule D(5) [OF True])
    have k: "g_sender (sfs s f) = m_sender m"
      using D(2) D(4) [OF True] f(1) by (metis (no_types, lifting) distinct_map inj_onD snd_conv fst_conv)
    note L = leave_ok [OF q True]
    let ?s1 = "upd_so p (\<lambda>x. x\<lparr>q_count := q_count x + 1\<rparr>)
      (upd_sf f (\<lambda>x. x\<lparr>g_entry := None\<rparr>) (upd_so p (\<lambda>x. x\<lparr>q_queue := remove1 f (q_queue x)\<rparr>) s))"
    have "sema_abort m f s = Inr (?s1, [(m_sender m, Reply 0 0 [])])"
      using e L(1) f(2) by (simp add: sema_abort_def obind_def)
    moreover have "absq p s = (q_count (sos s p), snd (absq p s))" by (simp add: absq_def)
    then have "astep (Cancel (m_sender m)) (absq p s) = ((q_count (sos s p) + 1, remove1 (m_sender m) (snd (absq p s))), [m_sender m])"
      using inq True by (metis astep.simps(3))
    ultimately show ?thesis using L(2,3) k by (intro exI [of _ ?s1]) (simp add: replies_def)
  next
    case False
    then have "g_entry (sfs s f) = None" using D(7) [OF f(1)] f(2) by blast
    moreover have "absq p s = (q_count (sos s p), snd (absq p s))" by (simp add: absq_def)
    then have "astep (Cancel (m_sender m)) (absq p s) = (absq p s, [m_sender m])"
      using inq False by (metis astep.simps(3))
    ultimately show ?thesis using q by (intro exI [of _ s]) (simp add: sema_abort_def replies_def)
  qed
qed

text \<open>A request to the semaphore \<open>p\<close>: a read of a client that may read and does not wait, a seek, or an abort.\<close>

definition sema_op :: "msg \<Rightarrow> aop option" where
  "sema_op m =
     (let opc = m_op m AND MSG_MASK
      in if opc = FS_READ then Some (Enter (m_sender m)) else if opc = FS_SEEK then Some (Leave (m_sender m))
         else if opc = M_ABORT then Some (Cancel (m_sender m)) else None)"

definition sema_legal :: "ptr \<Rightarrow> env \<Rightarrow> msg \<Rightarrow> semas \<Rightarrow> bool" where
  "sema_legal p e m s \<longleftrightarrow>
     (case map_of (sclients s) (m_sender m) of
        None \<Rightarrow> False
      | Some f \<Rightarrow>
          g_file (sfs s f) = p \<and> sema_op m \<noteq> None \<and>
          (m_op m AND MSG_MASK = FS_READ \<longrightarrow>
             g_entry (sfs s f) = None \<and> ucast (g_perm (sfs s f)) AND ACC_READ \<noteq> (0 :: uint) \<and> e_ok e 0))"

lemma sema_main_op:
  assumes q: "sq_ok p s" and p: "p \<noteq> NULL" and l: "sema_legal p e m s" and o: "sema_op m = Some a"
  shows "\<exists>s1. sema_main e m s = Some (Inr (s1, replies (snd (astep a (absq p s))))) \<and> sq_ok p s1 \<and>
    absq p s1 = fst (astep a (absq p s)) \<and> sclients s1 = sclients s"
proof -
  obtain f where f: "map_of (sclients s) (m_sender m) = Some f" "g_file (sfs s f) = p"
    "m_op m AND MSG_MASK = FS_READ \<longrightarrow> g_entry (sfs s f) = None \<and> ucast (g_perm (sfs s f)) AND ACC_READ \<noteq> (0 :: uint) \<and> e_ok e 0"
    using l by (auto simp: sema_legal_def split: option.splits)
  have fc: "(m_sender m, f) \<in> set (sclients s)" by (rule map_of_SomeD [OF f(1)])
  note fp = f(2) p
  consider "m_op m AND MSG_MASK = FS_READ" "a = Enter (m_sender m)" | "m_op m AND MSG_MASK = FS_SEEK" "a = Leave (m_sender m)"
    | "m_op m AND MSG_MASK = M_ABORT" "a = Cancel (m_sender m)"
    using o by (auto simp: sema_op_def Let_def split: if_splits)
  then show ?thesis
  proof cases
    case 1
    then have "sema_main e m s = Some (sema_read e m f s)"
      using f(1) by (simp add: sema_main_def FS_defs M_defs)
    then show ?thesis using sema_read_ok [OF q fc fp] f(3) 1 by simp
  next
    case 2
    then have "sema_main e m s = Some (sema_seek m f s)"
      using f(1) by (simp add: sema_main_def FS_defs M_defs)
    then show ?thesis using sema_seek_ok [OF q fp] 2 by simp
  next
    case 3
    then have "sema_main e m s = Some (sema_abort m f s)"
      using f(1) by (simp add: sema_main_def FS_defs M_defs)
    then show ?thesis using sema_abort_ok [OF q fc f(2)] 3 by simp
  qed
qed

text \<open>Requests to one semaphore, one after the other, with the senders that are answered.\<close>

inductive sema_traffic :: "ptr \<Rightarrow> semas \<Rightarrow> aop list \<Rightarrow> ulong list \<Rightarrow> semas \<Rightarrow> bool" for p s where
  none: "sema_traffic p s [] [] s"
| more: "sema_traffic p s ops ans s1 \<Longrightarrow> sema_legal p e m s1 \<Longrightarrow> sema_op m = Some a \<Longrightarrow>
    sema_main e m s1 = Some (Inr (s2, out)) \<Longrightarrow> sema_traffic p s (ops @ [a]) (ans @ map fst out) s2"

fun aruns :: "aop list \<Rightarrow> int \<times> ulong list \<Rightarrow> (int \<times> ulong list) \<times> ulong list" where
  "aruns [] q = (q, [])"
| "aruns (a # ops) q = (case astep a q of (q1, ks) \<Rightarrow> (case aruns ops q1 of (q2, ks2) \<Rightarrow> (q2, ks @ ks2)))"

lemma aruns_append: "aruns (xs @ ys) q = (case aruns xs q of (q1, ks) \<Rightarrow> (case aruns ys q1 of (q2, ks2) \<Rightarrow> (q2, ks @ ks2)))"
  by (induction xs arbitrary: q) (auto split: prod.splits)

text \<open>Who waits is as many as the count is below zero.\<close>

definition waiters_ok :: "int \<times> ulong list \<Rightarrow> bool" where
  "waiters_ok q \<longleftrightarrow> int (length (snd q)) = max 0 (- fst q)"

lemma astep_waiters: "waiters_ok q \<Longrightarrow> waiters_ok (fst (astep a q))"
proof -
  assume w: "waiters_ok q"
  obtain c W where q: "q = (c, W)" by fastforce
  have "0 < length W" if "k \<in> set W" for k using that by (rule length_pos_if_in_set)
  with w show ?thesis unfolding q by (cases a) (auto simp: waiters_ok_def length_remove1 split: list.splits)
qed

lemma aruns_waiters: "waiters_ok q \<Longrightarrow> waiters_ok (fst (aruns ops q))"
proof (induction ops arbitrary: q)
  case (Cons a ops)
  show ?case using Cons.IH [OF astep_waiters [OF Cons.prems, of a]] by (auto split: prod.splits)
qed simp


text \<open>A semaphore at address 30 with the count 1; clients 1 and 2 have it open.\<close>

definition sema_demo :: semas where
  "sema_demo = (sema_start \<lparr>h_hashsize = 1, h_hashmask = 0, h_hash = [[\<lparr>h_key = 7, h_data = 30\<rparr>]]\<rparr>)
     \<lparr>sfs := (\<lambda>_. \<lparr>g_file = 30, g_perms = [], g_pos = 0, g_entry = None, g_sender = 0, g_nperm = 0,
        g_perm = ucast (ACC_READ OR ACC_WRITE OR ACC_CHMOD)\<rparr>),
      sos := (\<lambda>_. \<lparr>q_queue = [], q_prot = \<lparr>prot_len = 0, prot_default = 0, prot_id = [], prot_bits = []\<rparr>, q_refs = 2,
        q_owner = 0, q_count = 1, q_iname = 7\<rparr>),
      nfiles := 1, sclients := [(1, 10), (2, 20)]\<rparr>"

definition sema_demo_env :: env where
  "sema_demo_env = \<lparr>e_ok = (\<lambda>_. True), e_addr = 40, e_junk = \<lparr>perm_len = 0, perm_id = [], perm_uid = 0\<rparr>, e_err = []\<rparr>"

definition sema_msg :: "ulong \<Rightarrow> uint \<Rightarrow> string list \<Rightarrow> msg" where
  "sema_msg k op ss = \<lparr>m_sender = k, m_op = op, m_arg = 0, m_arg1 = 0, m_segs = ss\<rparr>"

lemma sema_msg_simps [simp]: "m_sender (sema_msg k op ss) = k" "m_op (sema_msg k op ss) = op" "m_segs (sema_msg k op ss) = ss"
  by (simp_all add: sema_msg_def)

lemma sema_demo_ok: "sq_ok 30 sema_demo" "absq 30 sema_demo = (1, [])"
  by (simp_all add: sq_ok_def sema_demo_def absq_def)




text \<open>
  Writing a positive number to the field \<open>count\<close> of a semaphore lets everybody through who waits,
  answers each of them in order and then the writer, and ends: the count is then higher than the number
  written by one for each of them.
\<close>

theorem sema_count_wakes:
  assumes "sq_ok p s" "map_of (sclients s) (m_sender m) = Some f" "g_file (sfs s f) = p" "p \<noteq> NULL" "m_op m AND MSG_MASK = FS_WSTAT"
    and "do_wstat m (Some (q_prot (sos s p))) (ucast (g_perm (sfs s f))) = Inr (Field ''count'' val)"
    and "ucast (g_perm (sfs s f)) AND (ACC_WRITE OR ACC_CHMOD) \<noteq> (0 :: uint)" "atoi val = Inr n" "0 < sint n"
  shows "\<exists>s1. sema_main e m s =
      Some (Inr (s1, map (\<lambda>w. (w, Reply 0 0 [])) (snd (absq p s)) @ [(m_sender m, Reply 0 0 [])])) \<and>
    absq p s1 = (sint n + int (length (snd (absq p s))), [])"
proof -
  let ?s0 = "upd_so p (\<lambda>x. x\<lparr>q_count := sint n\<rparr>) s"
  have "sq_ok p ?s0" using assms(1) by (simp add: sq_ok_def)
  from process_queue_ok [OF this, of "[]"] obtain s1 where
    "process_queue p ?s0 [] = Some (Inr (s1, map (\<lambda>w. (w, Reply 0 0 [])) (snd (absq p s))))"
    "absq p s1 = (sint n + int (length (snd (absq p s))), [])"
    using assms(9) by (auto simp: absq_def)
  moreover have "sema_main e m s = sema_wstat m f s"
    using assms(2,5) by (simp add: sema_main_def FS_defs M_defs)
  ultimately show ?thesis using assms(3,4,6-8) by (simp add: sema_wstat_def)
qed

lemma sema_count_wakes_witness:
  "\<exists>s1. sema_main sema_demo_env (sema_msg 1 FS_WSTAT [''count=3'' @ nl]) sema_demo = Some (Inr (s1, [(1, Reply 0 0 [])])) \<and>
    absq 30 s1 = (3, [])"
proof -
  have m: "map_of (sclients sema_demo) (m_sender (sema_msg 1 FS_WSTAT [''count=3'' @ nl])) = Some 10" "g_file (sfs sema_demo 10) = 30"
    "m_op (sema_msg 1 FS_WSTAT [''count=3'' @ nl]) AND MSG_MASK = FS_WSTAT"
    by (simp_all add: sema_demo_def sema_msg_def FS_defs MSG_MASK_def)
  have w: "do_wstat (sema_msg 1 FS_WSTAT [''count=3'' @ nl]) (Some (q_prot (sos sema_demo 30))) (ucast (g_perm (sfs sema_demo 10))) =
    Inr (Field ''count'' (Some ''3''))" by code_simp
  have a: "ucast (g_perm (sfs sema_demo 10)) AND (ACC_WRITE OR ACC_CHMOD) \<noteq> (0 :: uint)" by (simp add: sema_demo_def ACC_defs)
  have n: "atoi (Some ''3'') = Inr 3" by code_simp
  from sema_count_wakes [OF sema_demo_ok(1) m(1,2) _ m(3) w a n] show ?thesis
    by (simp add: sema_demo_ok(2))
qed

end
