(* ===== verification/Vstafs_Alloc.thy ===== *)
theory Vstafs_Alloc
  imports Prelude
begin

text \<open>
  The free list of the file system \<open>src/src/srv/vstafs\<close> (\<open>alloc.c\<close>, \<open>alloc.h\<close>, \<open>vstafs.h\<close>): the free
  sectors of a disk as (start, length) pairs, in a chain of sectors with room for \<open>NALLOC\<close> pairs each. All
  sectors of the chain are kept in core; the operations change the core and write what they changed
  to the disk, which is a map from sector numbers to images. The linked list \<open>freelist\<close> is a list of
  its nodes, \<open>fr_next\<close> being the next element; \<open>f_next\<close>, the number on the disk, is kept as it is.
\<close>

subsection \<open>Data\<close>

record alloc =
  a_start :: ulong
  a_len :: ulong

definition NALLOC :: nat where "NALLOC = 63"

definition FREE_SEC :: ulong where "FREE_SEC = 2"

record free =
  f_next :: ulong
  f_nfree :: uint
  f_free :: "alloc list"

record freelist =
  fr_this :: ulong
  fr_free :: free

record vfree =
  freelists :: "freelist list"
  free_pend :: "ulong list"
  lost_blocks :: ulong
  disk :: "ulong \<Rightarrow> free"

text \<open>
  What is decided outside: whether the program is built with \<open>-DDEBUG\<close> (the makefile does), whether
  memory for a new node is given and what it holds, and whether there is memory to queue a sector.
\<close>

record vfenv =
  e_debug :: bool
  e_core :: bool
  e_slots :: "alloc list"
  e_queue :: "ulong \<Rightarrow> bool"

text \<open>The number of entries in use.\<close>

definition nfree :: "free \<Rightarrow> nat" where
  "nfree f = unat (f_nfree f)"

definition write_sec :: "ulong \<Rightarrow> free \<Rightarrow> vfree \<Rightarrow> vfree" where
  "write_sec d f s = s\<lparr>disk := (disk s)(d := f)\<rparr>"

subsection \<open>Reading the list\<close>

text \<open>A chain with a cycle is never read to its end.\<close>

partial_function (option) read_chain :: "(ulong \<Rightarrow> free) \<Rightarrow> ulong \<Rightarrow> freelist list \<Rightarrow> freelist list option" where
  "read_chain dsk x acc =
     (if x = 0 then Some acc
      else read_chain dsk (f_next (dsk x)) (acc @ [\<lparr>fr_this = x, fr_free = dsk x\<rparr>]))"

declare read_chain.simps [code]

definition init_block :: "(ulong \<Rightarrow> free) \<Rightarrow> vfree option" where
  "init_block dsk =
     (case read_chain dsk FREE_SEC [] of
        None \<Rightarrow> None
      | Some l \<Rightarrow> Some \<lparr>freelists = l, free_pend = [], lost_blocks = 0, disk = dsk\<rparr>)"

subsection \<open>Allocation\<close>

definition alloc_chunk :: "free \<Rightarrow> uint \<Rightarrow> ulong \<times> free" where
  "alloc_chunk f nblk =
     (case find (\<lambda>x. nblk \<le> a_len (f_free f ! x)) [0..<nfree f] of
        None \<Rightarrow> (0, f)
      | Some x \<Rightarrow>
          (let a = f_free f ! x; a1 = a\<lparr>a_len := a_len a - nblk\<rparr>
           in if a_len a1 = 0 then
                (a_start a, f\<lparr>f_nfree := f_nfree f - 1,
                              f_free := bcopy (nfree f - 1 - x) (x + 1) x ((f_free f)[x := a1])\<rparr>)
              else (a_start a, f\<lparr>f_free := (f_free f)[x := a1\<lparr>a_start := a_start a + nblk\<rparr>]\<rparr>)))"

text \<open>The sector found, the node it was found in, and the list afterwards.\<close>

fun alloc_scan :: "uint \<Rightarrow> freelist list \<Rightarrow> ulong \<times> freelist option \<times> freelist list" where
  "alloc_scan nblk [] = (0, None, [])"
| "alloc_scan nblk (fr # frs) =
     (let (d, f) = alloc_chunk (fr_free fr) nblk; fr1 = fr\<lparr>fr_free := f\<rparr>
      in if d \<noteq> 0 then (d, Some fr1, fr1 # frs)
         else (let (d1, w, frs1) = alloc_scan nblk frs in (d1, w, fr1 # frs1)))"

definition alloc_block :: "uint \<Rightarrow> vfree \<Rightarrow> ulong \<times> vfree" where
  "alloc_block nblk s =
     (let (d, w, l) = alloc_scan nblk (freelists s); s1 = s\<lparr>freelists := l\<rparr>
      in (d, case w of None \<Rightarrow> s1 | Some fr \<Rightarrow> write_sec (fr_this fr) (fr_free fr) s1))"

subsection \<open>Freeing within a node\<close>

text \<open>
  The scan of \<open>free_chunk\<close>: the node with the range merged into an entry, or the index a new entry
  belongs at. The failed assertion is \<open>Panic\<close>.
\<close>

function free_chunk_scan :: "free \<Rightarrow> ulong \<Rightarrow> uint \<Rightarrow> nat \<Rightarrow> (free + nat) outcome" where
  "free_chunk_scan f d nblk x =
     (if x < nfree f then
        (let a = f_free f ! x; dend = d + nblk
         in if a_start a < d \<and> d < a_start a + a_len a then Inl Panic
            else if a_start a = dend then
              Inr (Inl (f\<lparr>f_free := (f_free f)[x := \<lparr>a_start = d, a_len = a_len a + nblk\<rparr>]\<rparr>))
            else if a_start a + a_len a = d then
              (let a1 = a\<lparr>a_len := a_len a + nblk\<rparr>; f1 = f\<lparr>f_free := (f_free f)[x := a1]\<rparr>
               in if x + 1 < nfree f \<and> a_start (f_free f1 ! (x + 1)) = dend then
                    Inr (Inl (f1\<lparr>f_nfree := f_nfree f - 1,
                       f_free := bcopy (nfree f - 1 - (x + 1)) (x + 2) (x + 1)
                         ((f_free f1)[x := a1\<lparr>a_len := a_len a1 + a_len (f_free f1 ! (x + 1))\<rparr>])\<rparr>))
                  else Inr (Inl f1))
            else if d < a_start a then Inr (Inr x)
            else free_chunk_scan f d nblk (x + 1))
      else Inr (Inr x))"
  by pat_completeness auto
termination
  by (relation "measure (\<lambda>(f, d, nblk, x). nfree f - x)") auto

declare free_chunk_scan.simps [simp del]

text \<open>\<open>None\<close>: there is no slot for another entry.\<close>

definition free_chunk :: "free \<Rightarrow> ulong \<Rightarrow> uint \<Rightarrow> free option outcome" where
  "free_chunk f d nblk =
     obind (free_chunk_scan f d nblk 0) (\<lambda>r.
       case r of
         Inl f1 \<Rightarrow> Inr (Some f1)
       | Inr x \<Rightarrow>
           if NALLOC \<le> nfree f then Inr None
           else Inr (Some (f\<lparr>f_nfree := f_nfree f + 1,
                  f_free := (bcopy (nfree f - x) x (x + 1) (f_free f))[x := \<lparr>a_start = d, a_len = nblk\<rparr>]\<rparr>)))"

subsection \<open>Balancing the nodes\<close>

text \<open>
  The merge of the last entry of \<open>from\<close> with the first one of \<open>to\<close>: the start moves, the length
  stays (the code does not add it). \<open>None\<close>: an access outside the array.
\<close>

definition join_fwd :: "free \<Rightarrow> free \<Rightarrow> uint \<Rightarrow> (free \<times> free \<times> uint) outcome" where
  "join_fwd ffrom fto cnt =
     (if nfree fto = 0 then Inr (ffrom, fto, cnt)
      else if nfree ffrom = 0 then Inl BufferOverrun
      else
        (let afrom = f_free ffrom ! (nfree ffrom - 1); ato = f_free fto ! 0
         in if a_start afrom + a_len afrom = a_start ato then
              Inr (ffrom\<lparr>f_nfree := f_nfree ffrom - 1\<rparr>,
                   fto\<lparr>f_free := (f_free fto)[0 := ato\<lparr>a_start := a_start afrom\<rparr>]\<rparr>, cnt - 1)
            else Inr (ffrom, fto, cnt)))"

text \<open>The two moves at the end of \<open>move_forward\<close>.\<close>

definition shift_fwd :: "free \<Rightarrow> free \<Rightarrow> uint \<Rightarrow> (free \<times> free) outcome" where
  "shift_fwd ffrom fto cnt =
     (if NALLOC < nfree fto + unat cnt \<or> nfree ffrom < unat cnt then Inl BufferOverrun
      else
        (let up = bcopy (nfree fto) 0 (unat cnt) (f_free fto)
         in Inr (ffrom\<lparr>f_nfree := f_nfree ffrom - cnt\<rparr>,
                 fto\<lparr>f_free := take (unat cnt) (drop (nfree ffrom - unat cnt) (f_free ffrom)) @ drop (unat cnt) up,
                     f_nfree := f_nfree fto + cnt\<rparr>)))"

text \<open>The node \<open>to\<close>, made from a sector of \<open>from\<close> when there is none.\<close>

definition forward_node :: "vfenv \<Rightarrow> freelist \<Rightarrow> freelist list \<Rightarrow> (freelist \<times> freelist \<times> freelist list) outcome" where
  "forward_node e from rest =
     (case rest of
        to # tl0 \<Rightarrow> Inr (from, to, tl0)
      | [] \<Rightarrow>
          if \<not> e_core e then Inl Panic
          else
            (let (d, f) = alloc_chunk (fr_free from) 1
             in if e_debug e \<and> d = 0 then Inl Panic
                else Inr (from\<lparr>fr_free := f\<lparr>f_next := d\<rparr>\<rparr>,
                          \<lparr>fr_this = d, fr_free = \<lparr>f_next = 0, f_nfree = 0, f_free = e_slots e\<rparr>\<rparr>, [])))"

lemma forward_cnt: "NALLOC < unat (cnt :: uint) \<Longrightarrow> unat (cnt - of_nat NALLOC) < unat cnt"
  by (simp add: NALLOC_def unat_sub_u32)

text \<open>A list that is too short for what is pushed on gets a node; the measure is the length of the list, then what is pushed.\<close>

function move_forward :: "vfenv \<Rightarrow> freelist \<Rightarrow> freelist list \<Rightarrow> uint \<Rightarrow> (freelist \<times> freelist list) outcome" where
  "move_forward e from rest cnt =
     (if e_debug e \<and> \<not> unat cnt < nfree (fr_free from) then Inl Panic
      else
        (case forward_node e from rest of
           Inl fl \<Rightarrow> Inl fl
         | Inr (from1, to, tl0) \<Rightarrow>
             if e_debug e \<and> NALLOC < unat (f_nfree (fr_free to) + cnt) then Inl Panic
             else
               (case join_fwd (fr_free from1) (fr_free to) cnt of
                  Inl fl \<Rightarrow> Inl fl
                | Inr (ff, ft, cnt1) \<Rightarrow>
                    if NALLOC < unat (cnt1 + f_nfree ft) then
                      (case move_forward e (to\<lparr>fr_free := ft\<rparr>) tl0 (f_nfree ft + cnt1 - of_nat NALLOC) of
                         Inl fl \<Rightarrow> Inl fl
                       | Inr (to1, tl1) \<Rightarrow>
                           (case shift_fwd ff (fr_free to1) cnt1 of
                              Inl fl \<Rightarrow> Inl fl
                            | Inr (ff1, ft1) \<Rightarrow> Inr (from1\<lparr>fr_free := ff1\<rparr>, to1\<lparr>fr_free := ft1\<rparr> # tl1)))
                    else
                      (case shift_fwd ff ft cnt1 of
                         Inl fl \<Rightarrow> Inl fl
                       | Inr (ff1, ft1) \<Rightarrow> Inr (from1\<lparr>fr_free := ff1\<rparr>, to\<lparr>fr_free := ft1\<rparr> # tl0)))))"
  by pat_completeness auto

termination
proof (relation "measures [\<lambda>(e, from, rest, cnt). length rest, \<lambda>(e, from, rest, cnt). unat cnt]", goal_cases)
  case (2 e frm rest cnt p frm1 q nxt tl0 r ff s ft cnt1)
  show ?case
  proof (cases rest)
    case Nil
    with 2 have "nfree (fr_free nxt) = 0" "tl0 = []"
      by (auto simp: forward_node_def nfree_def split: if_splits prod.splits)
    with 2 Nil have "ft = fr_free nxt" "cnt1 = cnt" "f_nfree ft = 0"
      by (auto simp: join_fwd_def nfree_def unat_eq_zero)
    with 2 Nil show ?thesis using \<open>tl0 = []\<close> by (auto intro: forward_cnt)
  next
    case (Cons t m)
    with 2 show ?thesis by (auto simp: forward_node_def)
  qed
qed simp

declare move_forward.simps [simp del]

definition move_back :: "vfenv \<Rightarrow> free \<Rightarrow> free \<Rightarrow> uint \<Rightarrow> (free \<times> free) outcome" where
  "move_back e fto ffrom cnt =
     (let afrom = f_free ffrom ! 0; ato = f_free fto ! (nfree fto - 1);
          join = 0 < nfree fto \<and> a_start ato + a_len ato = a_start afrom;
          ft1 = (if join then fto\<lparr>f_free := (f_free fto)[nfree fto - 1 := ato\<lparr>a_len := a_len ato + a_len afrom\<rparr>]\<rparr> else fto);
          ff1 = (if join then ffrom\<lparr>f_nfree := f_nfree ffrom - 1\<rparr> else ffrom);
          cnt1 = (if join then cnt - 1 else cnt)
      in if join \<and> NALLOC < nfree ff1 + 1 then Inl BufferOverrun
         else
           (let ff2 = (if join then ff1\<lparr>f_free := bcopy (nfree ff1) 1 0 (f_free ff1)\<rparr> else ff1)
            in if e_debug e \<and> nfree ff2 < unat cnt1 then Inl Panic
               else if NALLOC < nfree ft1 + unat cnt1 \<or> NALLOC < unat cnt1 + unat (f_nfree ff2 - cnt1) then Inl BufferOverrun
               else
                 Inr (ft1\<lparr>f_free := take (nfree ft1) (f_free ft1) @ take (unat cnt1) (f_free ff2) @
                                     drop (nfree ft1 + unat cnt1) (f_free ft1),
                          f_nfree := f_nfree ft1 + cnt1\<rparr>,
                      ff2\<lparr>f_nfree := f_nfree ff2 - cnt1,
                          f_free := bcopy (unat (f_nfree ff2 - cnt1)) (unat cnt1) 0 (f_free ff2)\<rparr>)))"

definition queue_free :: "vfenv \<Rightarrow> ulong \<Rightarrow> vfree \<Rightarrow> vfree" where
  "queue_free e d s =
     (if e_queue e d then s\<lparr>free_pend := free_pend s @ [d]\<rparr> else s\<lparr>lost_blocks := lost_blocks s + 1\<rparr>)"

fun write_nodes :: "freelist list \<Rightarrow> freelist option \<Rightarrow> vfree \<Rightarrow> vfree" where
  "write_nodes [] prev s = s"
| "write_nodes (fr # frs) prev s =
     (let s1 = write_sec (fr_this fr) ((fr_free fr)\<lparr>f_next := 0\<rparr>) s
      in write_nodes frs (Some fr) (case prev of None \<Rightarrow> s1 | Some p \<Rightarrow> write_sec (fr_this p) (fr_free p) s1))"

definition write_freelist :: "vfenv \<Rightarrow> vfree \<Rightarrow> vfree outcome" where
  "write_freelist e s =
     (if e_debug e \<and> freelists s \<noteq> [] \<and> f_next (fr_free (last (freelists s))) \<noteq> 0 then Inl Panic
      else Inr (write_nodes (freelists s) None s))"

text \<open>
  The inner loop of \<open>compress_freelist\<close>: entries are pulled back from the nodes behind \<open>fr\<close>. A node that is
  empty afterwards leaves the list; \<open>f_next\<close> of \<open>fr\<close> is not changed.
\<close>

partial_function (option) pull_back :: "vfenv \<Rightarrow> freelist \<Rightarrow> freelist list \<Rightarrow> vfree \<Rightarrow> (freelist \<times> freelist list \<times> vfree) outcome option" where
  "pull_back e fr rest s =
     (case rest of
        [] \<Rightarrow> Some (Inr (fr, rest, s))
      | f2 # tl0 \<Rightarrow>
          if \<not> nfree (fr_free fr) < NALLOC div 2 then Some (Inr (fr, rest, s))
          else
            (let room = of_nat (NALLOC div 2) - f_nfree (fr_free fr); n2 = f_nfree (fr_free f2);
                 cnt = (if room < n2 then room else n2)
             in case move_back e (fr_free fr) (fr_free f2) cnt of
                  Inl fl \<Rightarrow> Some (Inl fl)
                | Inr (ft, ff) \<Rightarrow>
                    if f_nfree ff = 0 then pull_back e (fr\<lparr>fr_free := ft\<rparr>) tl0 (queue_free e (fr_this f2) s)
                    else pull_back e (fr\<lparr>fr_free := ft\<rparr>) (f2\<lparr>fr_free := ff\<rparr> # tl0) s))"

partial_function (option) compress_nodes :: "vfenv \<Rightarrow> freelist list \<Rightarrow> freelist list \<Rightarrow> vfree \<Rightarrow> vfree outcome option" where
  "compress_nodes e done0 rest s =
     (case rest of
        [] \<Rightarrow> Some (Inr (s\<lparr>freelists := done0\<rparr>))
      | fr # tl0 \<Rightarrow>
          if NALLOC div 2 < nfree (fr_free fr) then
            (case move_forward e fr tl0 (f_nfree (fr_free fr) - of_nat (NALLOC div 2)) of
               Inl fl \<Rightarrow> Some (Inl fl)
             | Inr (fr1, tl1) \<Rightarrow> compress_nodes e (done0 @ [fr1]) tl1 s)
          else
            (case pull_back e fr tl0 s of
               None \<Rightarrow> None
             | Some (Inl fl) \<Rightarrow> Some (Inl fl)
             | Some (Inr (fr1, tl1, s1)) \<Rightarrow> compress_nodes e (done0 @ [fr1]) tl1 s1))"

definition compress_freelist :: "vfenv \<Rightarrow> vfree \<Rightarrow> vfree outcome option" where
  "compress_freelist e s =
     (case compress_nodes e [] (freelists s) s of
        None \<Rightarrow> None
      | Some (Inl fl) \<Rightarrow> Some (Inl fl)
      | Some (Inr s1) \<Rightarrow> Some (write_freelist e s1))"

declare pull_back.simps [code] compress_nodes.simps [code]

subsection \<open>Freeing\<close>

text \<open>The index of the node a range belongs in: \<open>i\<close> is the index of the first node of the list, \<open>ff\<close> the trailing one.\<close>

fun find_home :: "ulong \<Rightarrow> freelist list \<Rightarrow> nat \<Rightarrow> nat \<Rightarrow> nat" where
  "find_home d [] i ff = ff"
| "find_home d (fr # frs) i ff =
     (let f = fr_free fr
      in if nfree f = 0 then find_home d frs (i + 1) i
         else if d < a_start (f_free f ! 0) then ff
         else if d < a_start (f_free f ! (nfree f - 1)) then i
         else find_home d frs (i + 1) i)"

definition set_node :: "nat \<Rightarrow> free \<Rightarrow> vfree \<Rightarrow> vfree" where
  "set_node i f s = s\<lparr>freelists := (freelists s)[i := (freelists s ! i)\<lparr>fr_free := f\<rparr>]\<rparr>"

partial_function (option) free_rounds :: "vfenv \<Rightarrow> ulong \<Rightarrow> uint \<Rightarrow> vfree \<Rightarrow> vfree outcome option" where
  "free_rounds e d nblk s =
     (if freelists s = [] then Some (Inl Panic)
      else
        (let i = find_home d (freelists s) 0 0; fr = freelists s ! i
         in case free_chunk (fr_free fr) d nblk of
              Inl fl \<Rightarrow> Some (Inl fl)
            | Inr None \<Rightarrow>
                (case compress_freelist e s of
                   None \<Rightarrow> None
                 | Some (Inl fl) \<Rightarrow> Some (Inl fl)
                 | Some (Inr s1) \<Rightarrow> free_rounds e d nblk s1)
            | Inr (Some f) \<Rightarrow>
                (let s1 = set_node i f s; s2 = (if e_debug e then write_sec (fr_this fr) f s1 else s1)
                 in if free_pend s2 = [] then Some (Inr s2)
                    else free_rounds e (last (free_pend s2)) 1 (s2\<lparr>free_pend := butlast (free_pend s2)\<rparr>))))"

declare free_rounds.simps [code]

definition free_block :: "vfenv \<Rightarrow> ulong \<Rightarrow> uint \<Rightarrow> vfree \<Rightarrow> vfree outcome option" where
  "free_block e d nblk s = (if e_debug e \<and> nblk = 0 then Some (Inl Panic) else free_rounds e d nblk s)"

subsection \<open>Taking sectors at a given place\<close>

definition take_chunk :: "free \<Rightarrow> nat \<Rightarrow> ulong \<Rightarrow> ulong \<times> free" where
  "take_chunk f idx nsec =
     (let a = f_free f ! idx; n = (if a_len a < nsec then a_len a else nsec)
      in if n = a_len a then
           (n, f\<lparr>f_nfree := f_nfree f - 1, f_free := bcopy (nfree f - 1 - idx) (idx + 1) idx (f_free f)\<rparr>)
         else (n, f\<lparr>f_free := (f_free f)[idx := \<lparr>a_start = a_start a + n, a_len = a_len a - n\<rparr>]\<rparr>))"

text \<open>The node that changed, as its index.\<close>

fun take_scan :: "ulong \<Rightarrow> ulong \<Rightarrow> freelist list \<Rightarrow> nat \<Rightarrow> (nat \<times> ulong \<times> free) option" where
  "take_scan d nsec [] i = None"
| "take_scan d nsec (fr # frs) i =
     (let f = fr_free fr; l = f_free f ! (nfree f - 1)
      in if nfree f = 0 then take_scan d nsec frs (i + 1)
         else if d < a_start (f_free f ! 0) then None
         else if a_start l + a_len l \<le> d then take_scan d nsec frs (i + 1)
         else
           (case find (\<lambda>x. d = a_start (f_free f ! x)) [0..<nfree f] of
              None \<Rightarrow> None
            | Some x \<Rightarrow> Some (i, take_chunk f x nsec)))"

definition take_block :: "ulong \<Rightarrow> ulong \<Rightarrow> vfree \<Rightarrow> ulong \<times> vfree" where
  "take_block d nsec s =
     (case take_scan d nsec (freelists s) 0 of
        None \<Rightarrow> (0, s)
      | Some (i, n, f) \<Rightarrow> (n, write_sec (fr_this (freelists s ! i)) f (set_node i f s)))"

end
