(* ===== verification/Vstafs_Node.thy ===== *)
theory Vstafs_Node
  imports Vstafs_Alloc Rmap
begin

text \<open>
  One node of the free list of \<open>Vstafs_Alloc\<close>: the entries in use as a list, the operations of a node on
  that list, and the sectors it holds free. Entries are ranges like those of a resource map, so the facts on
  ranges are those of \<open>Rmap\<close>.
\<close>

subsection \<open>The array as a list of entries\<close>

definition rent_of :: "alloc \<Rightarrow> rent" where
  "rent_of a = \<lparr>r_off = a_start a, r_size = a_len a\<rparr>"

definition fents :: "free \<Rightarrow> alloc list" where
  "fents f = take (nfree f) (f_free f)"

abbreviation runs :: "free \<Rightarrow> rent list" where
  "runs f \<equiv> map rent_of (fents f)"

definition free_ok :: "free \<Rightarrow> bool" where
  "free_ok f \<longleftrightarrow> length (f_free f) = NALLOC \<and> nfree f \<le> NALLOC \<and> ents_ok (runs f)"

text \<open>The sectors a node holds free.\<close>

definition sectors :: "free \<Rightarrow> nat set" where
  "sectors f = cover (runs f)"

lemma lo_rent_of [simp]: "lo (rent_of a) = unat (a_start a)"
  by (simp add: lo_def rent_of_def)

lemma hi_rent_of [simp]: "hi (rent_of a) = unat (a_start a) + unat (a_len a)"
  by (simp add: hi_def rent_of_def)

lemma length_fents: "free_ok f \<Longrightarrow> length (fents f) = nfree f"
  by (simp add: free_ok_def fents_def)

lemma fents_nth: "free_ok f \<Longrightarrow> x < nfree f \<Longrightarrow> fents f ! x = f_free f ! x"
  by (simp add: fents_def)

lemma fents_split:
  assumes "free_ok f" "x < nfree f"
  obtains pre post where "fents f = pre @ f_free f ! x # post" "x = length pre"
proof
  show "fents f = take x (fents f) @ f_free f ! x # drop (Suc x) (fents f)"
    using assms by (simp add: id_take_nth_drop [of x "fents f", symmetric] length_fents fents_nth [symmetric])
  show "x = length (take x (fents f))" using assms by (simp add: length_fents)
qed

lemma ent_ok_rent_of:
  "ent_ok (rent_of a) \<longleftrightarrow> 0 < unat (a_start a) \<and> 0 < unat (a_len a) \<and> unat (a_start a) + unat (a_len a) < 2 ^ 32"
  by (simp add: ent_ok_def)

lemma free_ok_mem: "free_ok f \<Longrightarrow> a \<in> set (fents f) \<Longrightarrow> ent_ok (rent_of a)"
  unfolding free_ok_def by (elim conjE, drule ents_ok_mem [where e = "rent_of a"]) auto

lemma fents_mem: "free_ok f \<Longrightarrow> x < nfree f \<Longrightarrow> f_free f ! x \<in> set (fents f)"
  by (metis fents_nth length_fents nth_mem)

subsection \<open>Updates of the array\<close>

lemma take_bcopy_down:
  "x < n \<Longrightarrow> n \<le> length xs \<Longrightarrow>
    take (n - 1) (bcopy (n - 1 - x) (x + 1) x xs) = take x (take n xs) @ drop (x + 1) (take n xs)"
  by (simp add: bcopy_def min_absorb1 min_absorb2 drop_take)

lemma take_bcopy_down_update:
  assumes "x < n" "n \<le> length xs"
  shows "take (n - 1) (bcopy (n - 1 - x) (x + 1) x (xs[x := y])) = take (n - 1) (bcopy (n - 1 - x) (x + 1) x xs)"
proof -
  have "n \<le> length (xs[x := y])" using assms(2) by simp
  from take_bcopy_down [OF assms(1) this] take_bcopy_down [OF assms] show ?thesis
    using assms by (simp add: take_update_swap drop_update_cancel list_update_beyond)
qed

lemma take_bcopy_up:
  assumes "x \<le> n" "n < length xs"
  shows "take (n + 1) ((bcopy (n - x) x (x + 1) xs)[x := e]) = take x (take n xs) @ e # drop x (take n xs)"
proof -
  have x: "take (Suc x) xs = take x xs @ [xs ! x]" using assms by (intro take_Suc_conv_app_nth) simp
  have "(bcopy (n - x) x (x + 1) xs)[x := e] = take x xs @ e # take (n - x) (drop x xs) @ drop (Suc n) xs"
    unfolding bcopy_def Suc_eq_plus1 [symmetric] x using assms by (simp add: list_update_append)
  then show ?thesis using assms by (simp add: min_absorb1 min_absorb2 drop_take Suc_diff_le)
qed

lemma fents_set:
  assumes "fents f = pre @ a # post"
  shows "fents (f\<lparr>f_free := (f_free f)[length pre := b]\<rparr>) = pre @ b # post"
proof -
  have "fents (f\<lparr>f_free := (f_free f)[length pre := b]\<rparr>) = (fents f)[length pre := b]"
    by (simp add: fents_def nfree_def take_update_swap)
  then show ?thesis by (simp add: assms list_update_append)
qed

lemma fents_del:
  assumes "free_ok f" "fents f = pre @ a # post"
  shows "fents (f\<lparr>f_nfree := f_nfree f - 1, f_free := bcopy (nfree f - 1 - length pre) (length pre + 1) (length pre) (f_free f)\<rparr>) = pre @ post"
    and "nfree (f\<lparr>f_nfree := f_nfree f - 1, f_free := ys\<rparr>) = nfree f - 1"
proof -
  have n: "nfree f = length pre + 1 + length post" "nfree f \<le> length (f_free f)"
    using assms length_fents [OF assms(1)] by (auto simp: free_ok_def)
  have u: "unat (f_nfree f - 1) = nfree f - 1"
    using n(1) by (simp add: nfree_def unat_pred)
  then show "nfree (f\<lparr>f_nfree := f_nfree f - 1, f_free := ys\<rparr>) = nfree f - 1"
    by (simp add: nfree_def)
  have "take (nfree f - 1) (bcopy (nfree f - 1 - length pre) (length pre + 1) (length pre) (f_free f)) =
      take (length pre) (fents f) @ drop (length pre + 1) (fents f)"
    unfolding fents_def using n by (intro take_bcopy_down) auto
  then show "fents (f\<lparr>f_nfree := f_nfree f - 1, f_free := bcopy (nfree f - 1 - length pre) (length pre + 1) (length pre) (f_free f)\<rparr>) = pre @ post"
    using u unfolding assms(2) by (simp add: fents_def [of "f\<lparr>f_nfree := _, f_free := _\<rparr>"] nfree_def)
qed

lemma fents_ins:
  assumes "free_ok f" "nfree f < NALLOC" "fents f = pre @ post"
  shows "fents (f\<lparr>f_nfree := f_nfree f + 1,
      f_free := (bcopy (nfree f - length pre) (length pre) (length pre + 1) (f_free f))[length pre := b]\<rparr>) = pre @ b # post"
    and "nfree (f\<lparr>f_nfree := f_nfree f + 1, f_free := ys\<rparr>) = nfree f + 1"
proof -
  have n: "length pre \<le> nfree f" "nfree f < length (f_free f)"
    using assms length_fents [OF assms(1)] by (auto simp: free_ok_def)
  have u: "unat (f_nfree f + 1) = nfree f + 1"
    using assms(2) by (simp add: nfree_def NALLOC_def unat_add_u32)
  then show "nfree (f\<lparr>f_nfree := f_nfree f + 1, f_free := ys\<rparr>) = nfree f + 1"
    by (simp add: nfree_def)
  have "take (nfree f + 1) ((bcopy (nfree f - length pre) (length pre) (length pre + 1) (f_free f))[length pre := b]) =
      take (length pre) (fents f) @ b # drop (length pre) (fents f)"
    unfolding fents_def by (rule take_bcopy_up [OF n])
  then show "fents (f\<lparr>f_nfree := f_nfree f + 1,
      f_free := (bcopy (nfree f - length pre) (length pre) (length pre + 1) (f_free f))[length pre := b]\<rparr>) = pre @ b # post"
    using u unfolding assms(3) by (simp add: fents_def [of "f\<lparr>f_nfree := _, f_free := _\<rparr>"] nfree_def)
qed

lemma length_bcopy_down: "x < n \<Longrightarrow> n \<le> length xs \<Longrightarrow> length (bcopy (n - 1 - x) (x + 1) x xs) = length xs"
  by (rule length_bcopy) auto

lemma length_bcopy_up: "x \<le> n \<Longrightarrow> n < length xs \<Longrightarrow> length (bcopy (n - x) x (x + 1) xs) = length xs"
  by (rule length_bcopy) auto

text \<open>What the three updates do to the sectors of a node.\<close>

lemma free_ok_parts: "free_ok f \<Longrightarrow> fents f = pre @ a # post \<Longrightarrow>
    ent_ok (rent_of a) \<and> ents_ok (map rent_of pre @ map rent_of post) \<and> length (f_free f) = NALLOC \<and> nfree f = length pre + 1 + length post \<and> nfree f \<le> NALLOC"
  using length_fents [of f] by (simp add: free_ok_def ents_ok_simps)

lemma node_set:
  assumes "free_ok f" "fents f = pre @ a # post" "ents_ok (map rent_of pre @ rent_of b # map rent_of post)"
    "f1 = f\<lparr>f_free := (f_free f)[length pre := b]\<rparr>"
  shows "free_ok f1" "sectors f1 = cover (map rent_of pre @ rent_of b # map rent_of post)"
    "f_next f1 = f_next f" "nfree f1 = nfree f" "fents f1 = pre @ b # post"
  using assms fents_set [OF assms(2), of b] by (auto simp: free_ok_def sectors_def nfree_def)

lemma node_del:
  assumes "free_ok f" "fents f = pre @ a # post"
    "f1 = f\<lparr>f_nfree := f_nfree f - 1, f_free := bcopy (nfree f - 1 - length pre) (length pre + 1) (length pre) (f_free f)\<rparr>"
  shows "free_ok f1" "sectors f1 = cover (map rent_of pre @ map rent_of post)" "f_next f1 = f_next f"
    "nfree f1 = nfree f - 1" "fents f1 = pre @ post"
proof -
  note p = free_ok_parts [OF assms(1,2)] and e = fents_del [OF assms(1,2), folded assms(3)]
  have n: "nfree f1 = nfree f - 1" unfolding assms(3) by (rule fents_del(2) [OF assms(1,2)])
  moreover have "length (f_free f1) = NALLOC"
    using p length_bcopy_down [of "length pre" "nfree f" "f_free f"] by (simp add: assms(3))
  ultimately show "free_ok f1" using p e(1) by (simp add: free_ok_def)
  show "sectors f1 = cover (map rent_of pre @ map rent_of post)" "f_next f1 = f_next f" "fents f1 = pre @ post"
    using e(1) by (simp_all add: sectors_def assms(3))
  show "nfree f1 = nfree f - 1" by (rule n)
qed

lemma node_ins:
  assumes "free_ok f" "fents f = pre @ post" "nfree f < NALLOC" "ents_ok (map rent_of pre @ rent_of b # map rent_of post)"
    "f1 = f\<lparr>f_nfree := f_nfree f + 1,
      f_free := (bcopy (nfree f - length pre) (length pre) (length pre + 1) (f_free f))[length pre := b]\<rparr>"
  shows "free_ok f1" "sectors f1 = cover (map rent_of pre @ rent_of b # map rent_of post)" "f_next f1 = f_next f"
proof -
  have e: "fents f1 = pre @ b # post" unfolding assms(5) by (rule fents_ins(1) [OF assms(1,3,2)])
  have n: "nfree f1 = nfree f + 1" unfolding assms(5) by (rule fents_ins(2) [OF assms(1,3,2)])
  have "length pre \<le> nfree f" using length_fents [OF assms(1)] assms(2) by simp
  then have "length (f_free f1) = NALLOC"
    using assms(1,3) length_bcopy_up [of "length pre" "nfree f" "f_free f"] by (simp add: assms(5) free_ok_def)
  with n show "free_ok f1" using assms(3,4) e by (simp add: free_ok_def)
  show "sectors f1 = cover (map rent_of pre @ rent_of b # map rent_of post)" "f_next f1 = f_next f"
    using e by (simp_all add: sectors_def) (simp add: assms(5))
qed

subsection \<open>Ranges that shrink or disappear\<close>

lemma trim_front:
  assumes "ents_ok (P @ a # Q)" "lo a \<le> lo b" "lo b < hi a" "hi b = hi a"
  shows "ents_ok (P @ b # Q)" "cover (P @ b # Q) = cover (P @ a # Q) - {lo a..<lo b}"
  using assms by (auto simp: ents_ok_simps ent_ok_def elim!: coverE)

lemma drop_run:
  assumes "ents_ok (P @ a # Q)"
  shows "ents_ok (P @ Q)" "cover (P @ Q) = cover (P @ a # Q) - {lo a..<hi a}"
  using assms by (auto simp: ents_ok_simps elim!: coverE)

lemma node_trim:
  assumes f: "free_ok f" "fents f = pre @ a # post" and n: "0 < unat n" "unat n < unat (a_len a)"
    and f1: "f1 = f\<lparr>f_free := (f_free f)[length pre := \<lparr>a_start = a_start a + n, a_len = a_len a - n\<rparr>]\<rparr>"
  shows "free_ok f1" "sectors f1 = sectors f - {unat (a_start a)..<unat (a_start a) + unat n}" "f_next f1 = f_next f"
proof -
  let ?b = "\<lparr>a_start = a_start a + n, a_len = a_len a - n\<rparr>"
  have a: "ent_ok (rent_of a)" using f by (simp add: free_ok_mem)
  have u: "unat (a_start a + n) = unat (a_start a) + unat n" "unat (a_len a - n) = unat (a_len a) - unat n"
    using a n by (simp_all add: ent_ok_rent_of unat_add_u32 unat_sub_u32)
  have e: "ents_ok (map rent_of pre @ rent_of a # map rent_of post)"
    using f by (simp add: free_ok_def)
  have b: "lo (rent_of a) \<le> lo (rent_of ?b)" "lo (rent_of ?b) < hi (rent_of a)" "hi (rent_of ?b) = hi (rent_of a)"
    using u n by simp_all
  note t = trim_front [OF e b]
  from node_set [OF f t(1) f1] t(2) u(1)
  show "free_ok f1" "sectors f1 = sectors f - {unat (a_start a)..<unat (a_start a) + unat n}" "f_next f1 = f_next f"
    using f by (simp_all add: sectors_def)
qed

lemma node_drop:
  assumes f: "free_ok f" "fents f = pre @ a # post"
    and f1: "f1 = f\<lparr>f_nfree := f_nfree f - 1, f_free := bcopy (nfree f - 1 - length pre) (length pre + 1) (length pre) (f_free f)\<rparr>"
  shows "free_ok f1" "sectors f1 = sectors f - {unat (a_start a)..<unat (a_start a) + unat (a_len a)}" "f_next f1 = f_next f"
proof -
  have e: "ents_ok (map rent_of pre @ rent_of a # map rent_of post)" using f by (simp add: free_ok_def)
  from node_del [OF f f1] drop_run(2) [OF e] f(2)
  show "free_ok f1" "sectors f1 = sectors f - {unat (a_start a)..<unat (a_start a) + unat (a_len a)}" "f_next f1 = f_next f"
    by (simp_all add: sectors_def)
qed

subsection \<open>Taking from a node\<close>

lemma alloc_both: "a\<lparr>a_len := l, a_start := s\<rparr> = \<lparr>a_start = s, a_len = l\<rparr>"
  by (cases a) simp

lemma free_ok_slack:
  "free_ok f \<Longrightarrow> fents f = pre @ a # post \<Longrightarrow> length pre < length (f_free f)"
  using free_ok_parts by fastforce

lemma alloc_chunk_cases:
  assumes f: "free_ok f" and n: "0 < unat n"
  obtains (fail) "alloc_chunk f n = (0, f)" "\<forall>a\<in>set (fents f). unat (a_len a) < unat n"
  | (fit) a f1 where "alloc_chunk f n = (a_start a, f1)" "a \<in> set (fents f)" "unat n \<le> unat (a_len a)"
      "free_ok f1" "sectors f1 = sectors f - {unat (a_start a)..<unat (a_start a) + unat n}" "f_next f1 = f_next f"
proof (cases "find (\<lambda>x. n \<le> a_len (f_free f ! x)) [0..<nfree f]")
  case None
  have "unat (a_len a) < unat n" if a: "a \<in> set (fents f)" for a
  proof -
    from a obtain i where i: "i < nfree f" "a = f_free f ! i"
      using f by (auto simp: in_set_conv_nth length_fents fents_nth)
    with None [unfolded find_upt_None, rule_format, of i] show ?thesis by (simp add: word_nat)
  qed
  with None fail show ?thesis by (simp add: alloc_chunk_def)
next
  case (Some x)
  then have x: "x < nfree f" "n \<le> a_len (f_free f ! x)" using find_upt_Some [OF Some] by auto
  obtain pre post where p: "fents f = pre @ f_free f ! x # post" "x = length pre"
    using fents_split [OF f x(1)] .
  let ?a = "f_free f ! x"
  have mem: "?a \<in> set (fents f)" "unat n \<le> unat (a_len ?a)" using p(1) x(2) by (auto simp: word_nat)
  show ?thesis
  proof (cases "a_len ?a - n = 0")
    case True
    then have eq: "n = a_len ?a" by simp
    let ?f = "f\<lparr>f_free := (f_free f)[x := ?a\<lparr>a_len := 0\<rparr>]\<rparr>"
    let ?f1 = "f\<lparr>f_nfree := f_nfree f - 1, f_free := bcopy (nfree f - 1 - x) (x + 1) x (f_free f)\<rparr>"
    let ?f2 = "f\<lparr>f_nfree := f_nfree f - 1, f_free := bcopy (nfree f - 1 - x) (x + 1) x ((f_free f)[x := ?a\<lparr>a_len := 0\<rparr>])\<rparr>"
    have r: "alloc_chunk f n = (a_start ?a, ?f2)"
      using Some eq by (simp add: alloc_chunk_def Let_def)
    have n1: "nfree ?f1 = nfree f - 1" "nfree ?f2 = nfree f - 1"
      using node_del(4) [OF f p(1) refl] p(2) by (simp_all add: nfree_def)
    have fe: "fents ?f2 = fents ?f1"
      using take_bcopy_down_update [of x "nfree f" "f_free f"] x(1) f unfolding fents_def n1
      by (simp add: free_ok_def)
    have "length (f_free ?f2) = length (f_free ?f1)" by (simp add: bcopy_def)
    with n1 fe node_drop [OF f p(1) refl] p(2) have "free_ok ?f2"
      "sectors ?f2 = sectors f - {unat (a_start ?a)..<unat (a_start ?a) + unat n}" "f_next ?f2 = f_next f"
      using eq by (simp_all add: free_ok_def sectors_def)
    then show ?thesis by (rule fit [OF r mem])
  next
    case False
    then have lt: "unat n < unat (a_len ?a)"
      using x(2) by (metis eq_iff_diff_eq_0 le_neq_trans word_less_nat_alt)
    let ?f1 = "f\<lparr>f_free := (f_free f)[x := \<lparr>a_start = a_start ?a + n, a_len = a_len ?a - n\<rparr>]\<rparr>"
    have r: "alloc_chunk f n = (a_start ?a, ?f1)"
      using Some False by (simp add: alloc_chunk_def Let_def alloc_both)
    from node_trim [OF f p(1) n lt refl] p(2) show ?thesis using fit [OF r mem] by simp
  qed
qed

lemma take_chunk_ok:
  assumes f: "free_ok f" and x: "x < nfree f" and n: "0 < unat n" and t: "take_chunk f x n = (k, f1)"
  shows "unat k = min (unat n) (unat (a_len (f_free f ! x)))" "free_ok f1" "f_next f1 = f_next f"
    "sectors f1 = sectors f - {unat (a_start (f_free f ! x))..<unat (a_start (f_free f ! x)) + unat k}"
proof -
  obtain pre post where p: "fents f = pre @ f_free f ! x # post" "x = length pre" using fents_split [OF f x] .
  let ?a = "f_free f ! x"
  show k: "unat k = min (unat n) (unat (a_len ?a))"
    using t by (auto simp: take_chunk_def Let_def word_nat split: if_splits)
  have "free_ok f1 \<and> f_next f1 = f_next f \<and> sectors f1 = sectors f - {unat (a_start ?a)..<unat (a_start ?a) + unat k}"
  proof (cases "a_len ?a \<le> n")
    case True
    then have "k = a_len ?a" "f1 = f\<lparr>f_nfree := f_nfree f - 1, f_free := bcopy (nfree f - 1 - x) (x + 1) x (f_free f)\<rparr>"
      using t by (auto simp: take_chunk_def Let_def split: if_splits)
    with node_drop [OF f p(1) refl] p(2) show ?thesis by simp
  next
    case False
    then have "k = n" "f1 = f\<lparr>f_free := (f_free f)[x := \<lparr>a_start = a_start ?a + n, a_len = a_len ?a - n\<rparr>]\<rparr>"
      using t by (auto simp: take_chunk_def Let_def split: if_splits)
    with node_trim [OF f p(1) n _ refl] p(2) False show ?thesis by (simp add: word_nat)
  qed
  then show "free_ok f1" "f_next f1 = f_next f"
    "sectors f1 = sectors f - {unat (a_start (f_free f ! x))..<unat (a_start (f_free f ! x)) + unat k}" by blast+
qed

subsection \<open>Giving back to a node\<close>

lemma grow_front:
  assumes "ents_ok (P @ b # Q)" "\<forall>a\<in>set P. hi a < lo c" "0 < lo c" "lo c < lo b" "hi c = hi b"
  shows "ents_ok (P @ c # Q)" "cover (P @ c # Q) = cover (P @ b # Q) \<union> {lo c..<lo b}"
  using assms by (auto simp: ents_ok_simps ent_ok_def)

lemma grow_end:
  assumes "ents_ok (P @ a # Q)" "lo c = lo a" "hi a < hi c" "hi c < 2 ^ 32" "\<forall>b\<in>set Q. hi c < lo b"
  shows "ents_ok (P @ c # Q)" "cover (P @ c # Q) = cover (P @ a # Q) \<union> {hi a..<hi c}"
  using assms by (auto simp: ents_ok_simps ent_ok_def)

lemma join_runs:
  assumes "ents_ok (P @ a # b # Q)" "lo c = lo a" "hi c = hi b"
  shows "ents_ok (P @ c # Q)" "cover (P @ c # Q) = cover (P @ a # b # Q) \<union> {hi a..<lo b}"
  using assms by (auto simp: ents_ok_simps ent_ok_def)

lemma new_run:
  assumes "ents_ok (P @ Q)" "ent_ok c" "\<forall>a\<in>set P. hi a < lo c" "\<forall>b\<in>set Q. hi c < lo b"
  shows "ents_ok (P @ c # Q)" "cover (P @ c # Q) = cover (P @ Q) \<union> {lo c..<hi c}"
  using assms by (auto simp: ents_ok_simps)

text \<open>A range that may be freed in a node.\<close>

definition fits :: "free \<Rightarrow> ulong \<Rightarrow> uint \<Rightarrow> bool" where
  "fits f d n \<longleftrightarrow> 0 < unat d \<and> 0 < unat n \<and> unat d + unat n < 2 ^ 32 \<and> span d n \<inter> sectors f = {}"

definition freed :: "free \<Rightarrow> ulong \<Rightarrow> uint \<Rightarrow> free \<Rightarrow> bool" where
  "freed f d n f1 \<longleftrightarrow> free_ok f1 \<and> f_next f1 = f_next f \<and> sectors f1 = sectors f \<union> span d n"

definition gap_at :: "free \<Rightarrow> ulong \<Rightarrow> uint \<Rightarrow> nat \<Rightarrow> bool" where
  "gap_at f d n x \<longleftrightarrow> (\<exists>pre post. fents f = pre @ post \<and> x = length pre
     \<and> (\<forall>a\<in>set (map rent_of pre). hi a < unat d) \<and> (\<forall>b\<in>set (map rent_of post). unat d + unat n < lo b))"

lemma fits_sep:
  assumes "free_ok f" "fits f d n" "a \<in> set (fents f)"
  shows "unat d + unat n \<le> lo (rent_of a) \<or> hi (rent_of a) \<le> unat d"
proof (rule disjoint_entry)
  have "{lo (rent_of a)..<hi (rent_of a)} \<subseteq> sectors f"
    using assms(3) by (auto simp: sectors_def cover_def)
  then show "span d n \<inter> {lo (rent_of a)..<hi (rent_of a)} = {}" using assms(2) unfolding fits_def by blast
  show "ent_ok (rent_of a)" "0 < unat n" using assms by (auto simp: fits_def dest: free_ok_mem)
qed

lemma runs_split: "free_ok f \<Longrightarrow> fents f = pre @ a # post \<Longrightarrow>
    ents_ok (map rent_of pre @ rent_of a # map rent_of post) \<and> sectors f = cover (map rent_of pre @ rent_of a # map rent_of post)"
  by (simp add: free_ok_def sectors_def)

lemma unat_neq: "x \<noteq> y \<Longrightarrow> unat (x :: uint) \<noteq> unat y"
  by (metis word_unat_eq_iff)

lemma scan_front:
  assumes f: "free_ok f" "fits f d n" "fents f = pre @ a # post" "\<forall>a\<in>set (map rent_of pre). hi a < unat d"
    and s: "a_start a = d + n"
  shows "freed f d n (f\<lparr>f_free := (f_free f)[length pre := \<lparr>a_start = d, a_len = a_len a + n\<rparr>]\<rparr>)"
proof -
  let ?b = "\<lparr>a_start = d, a_len = a_len a + n\<rparr>"
  note r = runs_split [OF f(1,3)]
  have a: "ent_ok (rent_of a)" using f by (simp add: free_ok_mem)
  have dn: "unat (d + n) = unat d + unat n" "0 < unat d" "0 < unat n"
    using f(2) by (simp_all add: fits_def unat_add_u32)
  have l: "unat (a_len a + n) = unat (a_len a) + unat n"
    using a s dn by (intro unat_add_u32) (simp add: ent_ok_rent_of)
  have h: "lo (rent_of ?b) < lo (rent_of a)" "hi (rent_of ?b) = hi (rent_of a)" "0 < lo (rent_of ?b)"
    "\<forall>a\<in>set (map rent_of pre). hi a < lo (rent_of ?b)"
    using s dn l f(4) by simp_all
  note g = grow_front [OF conjunct1 [OF r] h(4,3,1,2)]
  from node_set [OF f(1,3) g(1) refl] g(2) r s dn(1) show ?thesis
    by (simp add: freed_def span_def)
qed

lemma scan_end:
  assumes f: "free_ok f" "fits f d n" "fents f = pre @ a # post" and s: "hi (rent_of a) = unat d"
    and q: "\<forall>b\<in>set (map rent_of post). unat d + unat n < lo b"
  shows "freed f d n (f\<lparr>f_free := (f_free f)[length pre := a\<lparr>a_len := a_len a + n\<rparr>]\<rparr>)"
    "unat (a_len a + n) = unat (a_len a) + unat n"
proof -
  let ?b = "a\<lparr>a_len := a_len a + n\<rparr>"
  note r = runs_split [OF f(1,3)]
  have dn: "unat d + unat n < 2 ^ 32" "0 < unat n" using f(2) by (simp_all add: fits_def)
  then show l: "unat (a_len a + n) = unat (a_len a) + unat n"
    using s by (intro unat_add_u32) simp
  have h: "lo (rent_of ?b) = lo (rent_of a)" "hi (rent_of a) < hi (rent_of ?b)" "hi (rent_of ?b) < 2 ^ 32"
    "hi (rent_of ?b) = unat d + unat n"
    using s dn l by simp_all
  have q1: "\<forall>b\<in>set (map rent_of post). hi (rent_of ?b) < lo b" unfolding h(4) by (rule q)
  note g = grow_end [OF conjunct1 [OF r] h(1,2,3) q1]
  from node_set [OF f(1,3) g(1) refl] g(2) r s h(4)
  show "freed f d n (f\<lparr>f_free := (f_free f)[length pre := a\<lparr>a_len := a_len a + n\<rparr>]\<rparr>)"
    by (simp add: freed_def span_def)
qed

lemma scan_join:
  assumes f: "free_ok f" "fits f d n" "fents f = pre @ a # b # post" and s: "hi (rent_of a) = unat d"
    and t: "a_start b = d + n"
  shows "freed f d n (f\<lparr>f_nfree := f_nfree f - 1, f_free := bcopy (nfree f - 1 - (length pre + 1)) (length pre + 2) (length pre + 1)
      ((f_free f)[length pre := a\<lparr>a_len := a_len a + n + a_len b\<rparr>])\<rparr>)"
proof -
  let ?c = "a\<lparr>a_len := a_len a + n + a_len b\<rparr>"
  let ?f0 = "f\<lparr>f_free := (f_free f)[length pre := ?c]\<rparr>"
  note r = runs_split [OF f(1,3)]
  have dn: "unat d + unat n < 2 ^ 32" "unat (d + n) = unat d + unat n" using f(2) by (simp_all add: fits_def unat_add_u32)
  have b: "ent_ok (rent_of b)" using f by (simp add: free_ok_mem)
  have l: "unat (a_len a + n) = unat (a_len a) + unat n"
    using s dn by (intro unat_add_u32) simp
  have l2: "unat (a_len a + n + a_len b) = unat (a_len a) + unat n + unat (a_len b)"
    using s dn l b t by (subst unat_add_u32) (simp_all add: ent_ok_rent_of)
  have h: "lo (rent_of ?c) = lo (rent_of a)" "hi (rent_of ?c) = hi (rent_of b)" "hi (rent_of a) = unat d" "lo (rent_of b) = unat d + unat n"
    using s dn t l2 by simp_all
  have e: "ents_ok (map rent_of pre @ rent_of a # rent_of b # map rent_of post)" using r by simp
  note j = join_runs [OF e h(1,2)]
  have fe: "fents ?f0 = pre @ ?c # b # post" by (rule fents_set [OF f(3)])
  \<comment> \<open>the merged entry overlaps the next one until that is removed\<close>
  let ?f1 = "f\<lparr>f_nfree := f_nfree f - 1, f_free := bcopy (nfree f - 1 - (length pre + 1)) (length pre + 2) (length pre + 1)
      ((f_free f)[length pre := ?c])\<rparr>"
  have n: "nfree f = length pre + 2 + length post" "nfree f \<le> NALLOC" "length (f_free f) = NALLOC"
    using free_ok_parts [OF f(1,3)] by simp_all
  have u: "unat (f_nfree f - 1) = nfree f - 1" using n(1) by (simp add: nfree_def unat_pred)
  then have n1: "nfree ?f1 = nfree f - 1" by (simp add: nfree_def)
  have "fents ?f1 = take (length pre + 1) (fents ?f0) @ drop (length pre + 2) (fents ?f0)"
    using take_bcopy_down [of "length pre + 1" "nfree f" "f_free ?f0"] n n1 unfolding fents_def by (simp add: nfree_def)
  then have fe1: "fents ?f1 = pre @ ?c # post" unfolding fe by simp
  have "length (f_free ?f1) = NALLOC"
    using length_bcopy_down [of "length pre + 1" "nfree f" "f_free ?f0"] n by simp
  then have "free_ok ?f1" using n n1 fe1 j(1) by (simp add: free_ok_def)
  moreover have "sectors ?f1 = sectors f \<union> span d n"
    using fe1 j(2) r h(3,4) by (simp add: sectors_def span_def)
  ultimately show ?thesis by (simp add: freed_def)
qed

text \<open>The scan from the entry \<open>x\<close> on, all entries before it being below the range.\<close>

lemma free_chunk_scan_ok:
  assumes "free_ok f" "fits f d n" "fents f = pre @ rest" "\<forall>a\<in>set (map rent_of pre). hi a < unat d"
  obtains (merged) f1 where "free_chunk_scan f d n (length pre) = Inr (Inl f1)" "freed f d n f1"
  | (gap) x where "free_chunk_scan f d n (length pre) = Inr (Inr x)" "gap_at f d n x"
  using assms
proof (induction rest arbitrary: pre thesis)
  case Nil
  have "free_chunk_scan f d n (length pre) = Inr (Inr (length pre))"
    using Nil(3,5) length_fents [of f] by (subst free_chunk_scan.simps) simp
  moreover have "gap_at f d n (length pre)"
    unfolding gap_at_def using Nil(5,6) by (intro exI [of _ pre] exI [of _ "[]"]) auto
  ultimately show ?case by (rule Nil(2))
next
  case (Cons a rest)
  note f = Cons.prems(3-6)
  let ?x = "length pre"
  have x: "?x < nfree f" "f_free f ! ?x = a"
    using f(1,3) length_fents [OF f(1)] fents_nth [OF f(1), of ?x] by (auto simp: nth_append)
  have a: "a \<in> set (fents f)" "ent_ok (rent_of a)" using f by (simp_all add: free_ok_mem)
  have dn: "unat (d + n) = unat d + unat n" "0 < unat n" "unat (a_start a + a_len a) = hi (rent_of a)"
    using f(2) a(2) by (simp_all add: fits_def unat_add_u32 ent_ok_rent_of)
  note sep = fits_sep [OF f(1,2) a(1)]
  have np: "\<not> (a_start a < d \<and> d < a_start a + a_len a)"
    using sep dn by (auto simp: word_nat)
  have later: "\<forall>b\<in>set (map rent_of rest). hi (rent_of a) < lo b"
    using runs_split [OF f(1,3)] by (simp add: ents_ok_simps)
  consider (front) "a_start a = d + n" | (ends) "a_start a \<noteq> d + n" "a_start a + a_len a = d"
    | (below) "a_start a \<noteq> d + n" "a_start a + a_len a \<noteq> d" "d < a_start a"
    | (above) "a_start a \<noteq> d + n" "a_start a + a_len a \<noteq> d" "\<not> d < a_start a" by blast
  then show ?case
  proof cases
    case front
    then have "free_chunk_scan f d n ?x = Inr (Inl (f\<lparr>f_free := (f_free f)[?x := \<lparr>a_start = d, a_len = a_len a + n\<rparr>]\<rparr>))"
      using x np by (subst free_chunk_scan.simps) (simp add: Let_def)
    then show ?thesis using Cons.prems(1) scan_front [OF f front] by blast
  next
    case ends
    then have s: "hi (rent_of a) = unat d" using dn(3) by metis
    show ?thesis
    proof (cases "rest \<noteq> [] \<and> a_start (hd rest) = d + n")
      case True
      then obtain b post where b: "rest = b # post" "a_start b = d + n" by (cases rest) auto
      have x1: "?x + 1 < nfree f" "f_free f ! Suc ?x = b"
        using f(1,3) b length_fents [OF f(1)] fents_nth [OF f(1), of "Suc ?x"] by (auto simp: nth_append)
      have j: "fents f = pre @ a # b # post" using f(3) b by simp
      have "free_chunk_scan f d n ?x = Inr (Inl (f\<lparr>f_nfree := f_nfree f - 1,
          f_free := bcopy (nfree f - 1 - (?x + 1)) (?x + 2) (?x + 1)
            ((f_free f)[?x := a\<lparr>a_len := a_len a + n + a_len b\<rparr>])\<rparr>))"
        using x np ends x1 b(2) by (subst free_chunk_scan.simps) (simp add: Let_def)
      then show ?thesis using Cons.prems(1) scan_join [OF f(1,2) j s b(2)] by blast
    next
      case False
      have x1: "\<not> (?x + 1 < nfree f \<and> a_start (f_free f ! Suc ?x) = d + n)"
      proof
        assume n: "?x + 1 < nfree f \<and> a_start (f_free f ! Suc ?x) = d + n"
        then have "rest \<noteq> []" using f(1,3) length_fents [OF f(1)] by auto
        moreover from this have "f_free f ! Suc ?x = hd rest"
          using f(1,3) n fents_nth [OF f(1), of "Suc ?x"] by (cases rest) (auto simp: nth_append)
        ultimately show False using False n by simp
      qed
      have "free_chunk_scan f d n ?x = Inr (Inl (f\<lparr>f_free := (f_free f)[?x := a\<lparr>a_len := a_len a + n\<rparr>]\<rparr>))"
        using x np ends x1 by (subst free_chunk_scan.simps) (auto simp: Let_def)
      moreover have "\<forall>b\<in>set (map rent_of rest). unat d + unat n < lo b"
      proof
        fix r assume r: "r \<in> set (map rent_of rest)"
        show "unat d + unat n < lo r"
        proof (cases rest)
          case (Cons b post)
          have "b \<in> set (fents f)" using f(3) Cons by simp
          note sb = fits_sep [OF f(1,2) this]
          have "hi (rent_of a) < lo (rent_of b)" using later Cons by simp
          then have "unat d + unat n \<le> lo (rent_of b)" using sb s by simp
          moreover have "lo (rent_of b) \<noteq> unat d + unat n"
            using unat_neq [of "a_start b" "d + n"] False Cons unfolding dn(1) lo_rent_of by simp
          ultimately have "unat d + unat n < lo (rent_of b)" by linarith
          moreover have "lo (rent_of b) \<le> lo r"
            using r Cons runs_split [OF f(1,3)] by (auto simp: ents_ok_simps ent_ok_def)
          ultimately show ?thesis by linarith
        qed (use r in simp)
      qed
      ultimately show ?thesis using Cons.prems(1) scan_end(1) [OF f(1-3) s] by blast
    qed
  next
    case below
    have "free_chunk_scan f d n ?x = Inr (Inr ?x)"
      using below x np by (subst free_chunk_scan.simps) (simp add: Let_def)
    moreover have "gap_at f d n ?x"
    proof -
      have "unat d + unat n < lo (rent_of a)"
        using unat_neq [OF below(1)] below(3) sep a(2) unfolding dn(1) ent_ok_def word_less_unat lo_rent_of by linarith
      then show ?thesis
        unfolding gap_at_def using f(3,4) later a(2)
        by (intro exI [of _ pre] exI [of _ "a # rest"]) (auto simp: ent_ok_def)
    qed
    ultimately show ?thesis by (rule Cons.prems(2))
  next
    case above
    have eq: "free_chunk_scan f d n ?x = free_chunk_scan f d n (length (pre @ [a]))"
      using above x np by (subst free_chunk_scan.simps) (auto simp: Let_def)
    have "hi (rent_of a) < unat d"
      using unat_neq [OF above(2)] above(3) sep dn(2) unfolding dn(3) word_less_unat lo_rent_of by linarith
    then have "\<forall>a\<in>set (map rent_of (pre @ [a])). hi a < unat d" using f(4) by simp
    moreover have "fents f = (pre @ [a]) @ rest" using f(3) by simp
    ultimately show ?thesis using Cons.IH [of "pre @ [a]" thesis] Cons.prems(1,2) f(1,2) unfolding eq by blast
  qed
qed

lemma free_chunk_cases:
  assumes f: "free_ok f" "fits f d n"
  obtains (put) f1 where "free_chunk f d n = Inr (Some f1)" "freed f d n f1"
  | (full) "free_chunk f d n = Inr None" "nfree f = NALLOC"
proof -
  have "fents f = [] @ fents f" "\<forall>a\<in>set (map rent_of []). hi a < unat d" by simp_all
  from free_chunk_scan_ok [OF f this] consider
    (merged) f1 where "free_chunk_scan f d n 0 = Inr (Inl f1)" "freed f d n f1"
    | (gap) x where "free_chunk_scan f d n 0 = Inr (Inr x)" "gap_at f d n x" by auto
  then show ?thesis
  proof cases
    case merged
    then show ?thesis using put by (simp add: free_chunk_def obind_def)
  next
    case gap
    show ?thesis
    proof (cases "NALLOC \<le> nfree f")
      case True
      then show ?thesis using gap full f(1) by (simp add: free_chunk_def obind_def free_ok_def)
    next
      case False
      from gap(2) obtain pre post where g: "fents f = pre @ post" "x = length pre"
        "\<forall>a\<in>set (map rent_of pre). hi a < unat d" "\<forall>b\<in>set (map rent_of post). unat d + unat n < lo b"
        by (auto simp: gap_at_def)
      let ?c = "\<lparr>a_start = d, a_len = n\<rparr>"
      have e: "ents_ok (map rent_of pre @ map rent_of post)" using f(1) g(1) by (simp add: free_ok_def)
      have c: "ent_ok (rent_of ?c)" "lo (rent_of ?c) = unat d" "hi (rent_of ?c) = unat d + unat n"
        using f(2) by (simp_all add: fits_def ent_ok_rent_of)
      have "\<forall>a\<in>set (map rent_of pre). hi a < lo (rent_of ?c)" "\<forall>b\<in>set (map rent_of post). hi (rent_of ?c) < lo b"
        unfolding c(2,3) using g(3,4) .
      note r = new_run [OF e c(1) this]
      have lt: "nfree f < NALLOC" using False by simp
      note i = node_ins [OF f(1) g(1) lt r(1) refl]
      have "free_chunk f d n = Inr (Some (f\<lparr>f_nfree := f_nfree f + 1,
          f_free := (bcopy (nfree f - length pre) (length pre) (length pre + 1) (f_free f))[length pre := ?c]\<rparr>))"
        using gap(1) g(2) False by (simp add: free_chunk_def obind_def)
      moreover have "freed f d n (f\<lparr>f_nfree := f_nfree f + 1,
          f_free := (bcopy (nfree f - length pre) (length pre) (length pre + 1) (f_free f))[length pre := ?c]\<rparr>)"
        using i r(2) g(1) c(2,3) by (simp add: freed_def sectors_def span_def)
      ultimately show ?thesis by (rule put)
    qed
  qed
qed

end
