(* ===== verification/Vstafs_Spec.thy ===== *)
theory Vstafs_Spec
  imports Vstafs_Node
begin

text \<open>
  The free list of \<open>Vstafs_Alloc\<close> as a whole: the nodes hold ranges in ascending order, the chain on the disk is
  the one in core, and allocated and free sectors partition the disk in every history in which no
  node overflows. What happens when one does (\<open>compress_freelist\<close>).
\<close>

subsection \<open>The whole list\<close>

definition all_free :: "freelist list \<Rightarrow> nat set" where
  "all_free l = (\<Union>fr\<in>set l. sectors (fr_free fr))"

definition before :: "freelist \<Rightarrow> freelist \<Rightarrow> bool" where
  "before a b \<longleftrightarrow> (\<forall>x\<in>sectors (fr_free a). \<forall>y\<in>sectors (fr_free b). x < y)"

definition nodes_ok :: "freelist list \<Rightarrow> bool" where
  "nodes_ok l \<longleftrightarrow> (\<forall>fr\<in>set l. free_ok (fr_free fr)) \<and> sorted_wrt before l"

fun linked :: "freelist list \<Rightarrow> bool" where
  "linked [] = True"
| "linked [a] = (f_next (fr_free a) = 0)"
| "linked (a # b # l) = (f_next (fr_free a) = fr_this b \<and> linked (b # l))"

text \<open>The well-formed states: what is in core is what is on the disk, and no node is in the free space.\<close>

definition vfs_ok :: "vfree \<Rightarrow> bool" where
  "vfs_ok s \<longleftrightarrow> freelists s \<noteq> [] \<and> nodes_ok (freelists s) \<and> linked (freelists s) \<and>
     fr_this (hd (freelists s)) = FREE_SEC \<and> distinct (map fr_this (freelists s)) \<and> 0 \<notin> fr_this ` set (freelists s) \<and>
     (\<forall>fr\<in>set (freelists s). disk s (fr_this fr) = fr_free fr) \<and> free_pend s = []"

lemma all_free_simps [simp]:
  "all_free [] = {}" "all_free (fr # l) = sectors (fr_free fr) \<union> all_free l" "all_free (l @ m) = all_free l \<union> all_free m"
  by (auto simp: all_free_def)

text \<open>A node is replaced by one that has the same number and next number.\<close>

definition renode :: "freelist list \<Rightarrow> nat \<Rightarrow> free \<Rightarrow> freelist list" where
  "renode l i f = l[i := (l ! i)\<lparr>fr_free := f\<rparr>]"

lemma linked_Cons:
  "linked (a # m) \<longleftrightarrow> f_next (fr_free a) = (if m = [] then 0 else fr_this (hd m)) \<and> linked m"
  by (cases m) auto

lemma linked_renode:
  "i < length l \<Longrightarrow> f_next f = f_next (fr_free (l ! i)) \<Longrightarrow> linked (renode l i f) = linked l"
  unfolding renode_def
proof (induction l arbitrary: i)
  case (Cons a m)
  show ?case
  proof (cases i)
    case (Suc j)
    moreover have "fr_this (hd (m[j := (m ! j)\<lparr>fr_free := f\<rparr>])) = fr_this (hd m)" if "m \<noteq> []"
      using that by (cases m; cases j) auto
    ultimately show ?thesis using Cons by (simp add: linked_Cons)
  qed (use Cons in \<open>simp add: linked_Cons\<close>)
qed simp

lemma freelist_eta: "\<lparr>fr_this = fr_this fr, fr_free = fr_free fr\<rparr> = fr"
  by (cases fr) simp

lemma map_this_renode [simp]: "map fr_this (renode l i f) = map fr_this l"
  by (cases "i < length l") (auto simp: renode_def map_update list_update_same_conv list_update_beyond)

lemma renode_split: "i < length l \<Longrightarrow> l = take i l @ l ! i # drop (Suc i) l \<and> renode l i f = take i l @ (l ! i)\<lparr>fr_free := f\<rparr> # drop (Suc i) l"
  by (simp add: renode_def id_take_nth_drop [symmetric] upd_conv_take_nth_drop)

lemma nodes_ok_split:
  "nodes_ok (l @ a # m) \<longleftrightarrow> nodes_ok l \<and> nodes_ok m \<and> free_ok (fr_free a) \<and>
     (\<forall>x\<in>set l. before x a) \<and> (\<forall>y\<in>set m. before a y) \<and> (\<forall>x\<in>set l. \<forall>y\<in>set m. before x y)"
  by (auto simp: nodes_ok_def sorted_wrt_append)

text \<open>The rest of the state after the write of the changed node.\<close>

lemma write_node_ok:
  assumes s: "vfs_ok s" and i: "i < length (freelists s)" and f: "f_next f = f_next (fr_free (freelists s ! i))"
    and n: "nodes_ok (renode (freelists s) i f)"
  shows "vfs_ok (write_sec (fr_this (freelists s ! i)) f (s\<lparr>freelists := renode (freelists s) i f\<rparr>))"
proof -
  let ?l = "freelists s" and ?m = "renode (freelists s) i f"
  have d: "distinct (map fr_this ?l)" "\<forall>fr\<in>set ?l. disk s (fr_this fr) = fr_free fr" "0 \<notin> fr_this ` set ?l"
    "?l \<noteq> []" "fr_this (hd ?l) = FREE_SEC" "free_pend s = []" "linked ?l"
    using s unfolding vfs_ok_def by blast+
  have m: "?m ! j = (if j = i then (?l ! i)\<lparr>fr_free := f\<rparr> else ?l ! j)" if "j < length ?l" for j
    using that by (auto simp: renode_def)
  have "((disk s)(fr_this (?l ! i) := f)) (fr_this (?m ! j)) = fr_free (?m ! j)" if "j < length ?l" for j
    using d(1,2) m [OF that] that i by (auto simp: distinct_conv_nth)
  then have "\<forall>fr\<in>set ?m. ((disk s)(fr_this (?l ! i) := f)) (fr_this fr) = fr_free fr"
    by (metis in_set_conv_nth length_list_update renode_def)
  moreover have "fr_this ` set ?m = fr_this ` set ?l"
    using map_this_renode [of ?l i f] by (metis set_map)
  moreover have "?m \<noteq> []" "fr_this (hd ?m) = FREE_SEC"
    using d(4,5) i m [of 0] by (auto simp: hd_conv_nth renode_def nth_list_update)
  ultimately show ?thesis
    using n d(1,3,6,7) linked_renode [OF i f] by (simp add: vfs_ok_def write_sec_def)
qed

lemma before_mono:
  "before a b \<Longrightarrow> sectors (fr_free a') \<subseteq> sectors (fr_free a) \<Longrightarrow> sectors (fr_free b') \<subseteq> sectors (fr_free b) \<Longrightarrow> before a' b'"
  by (auto simp: before_def)

lemma nodes_ok_shrink:
  assumes "nodes_ok l" "i < length l" "free_ok f" "sectors f \<subseteq> sectors (fr_free (l ! i))"
  shows "nodes_ok (renode l i f)"
proof -
  note r = renode_split [OF assms(2), of f]
  have a: "nodes_ok (take i l @ l ! i # drop (Suc i) l)" using assms(1) r by simp
  show ?thesis
    unfolding conjunct2 [OF r] using a assms(3,4) unfolding nodes_ok_split
    by (auto simp: before_def)
qed

lemma before_disj: "before a b \<Longrightarrow> sectors (fr_free a) \<inter> sectors (fr_free b) = {}"
  by (auto simp: before_def)

lemma all_free_renode:
  assumes "nodes_ok l" "i < length l" "sectors f = sectors (fr_free (l ! i)) - R" "R \<subseteq> sectors (fr_free (l ! i))"
  shows "all_free (renode l i f) = all_free l - R"
proof -
  note r = renode_split [OF assms(2), of f]
  have a: "nodes_ok (take i l @ l ! i # drop (Suc i) l)" using assms(1) r by simp
  have d: "\<forall>x\<in>set (take i l). sectors (fr_free x) \<inter> R = {}" "\<forall>x\<in>set (drop (Suc i) l). sectors (fr_free x) \<inter> R = {}"
    using a assms(4) unfolding nodes_ok_split by (blast dest: before_disj)+
  then have "all_free (take i l) \<inter> R = {}" "all_free (drop (Suc i) l) \<inter> R = {}"
    by (auto simp: all_free_def)
  moreover have "all_free l = all_free (take i l) \<union> sectors (fr_free (l ! i)) \<union> all_free (drop (Suc i) l)"
    by (subst conjunct1 [OF r]) auto
  moreover have "all_free (renode l i f) = all_free (take i l) \<union> sectors f \<union> all_free (drop (Suc i) l)"
    by (subst conjunct2 [OF r]) auto
  ultimately show ?thesis using assms(3) by blast
qed

subsection \<open>Reading the chain\<close>

lemma read_chain_linked:
  assumes "linked (fr # l)" "0 \<notin> fr_this ` set (fr # l)" "\<forall>x\<in>set (fr # l). dsk (fr_this x) = fr_free x"
  shows "read_chain dsk (fr_this fr) acc = Some (acc @ fr # l)"
  using assms
proof (induction l arbitrary: fr acc)
  case Nil
  then show ?case by (subst read_chain.simps) (auto simp: read_chain.simps [of dsk 0] freelist_eta)
next
  case (Cons b l)
  have "read_chain dsk (fr_this fr) acc = read_chain dsk (fr_this b) (acc @ [fr])"
    using Cons.prems by (subst read_chain.simps) (auto simp: freelist_eta)
  also have "\<dots> = Some ((acc @ [fr]) @ b # l)"
    using Cons.prems by (intro Cons.IH) auto
  finally show ?case by simp
qed

lemma reload:
  assumes "vfs_ok s"
  shows "init_block (disk s) = Some (s\<lparr>lost_blocks := 0\<rparr>)"
proof -
  from assms obtain fr l where l: "freelists s = fr # l" by (cases "freelists s") (auto simp: vfs_ok_def)
  with assms have "read_chain (disk s) FREE_SEC [] = Some (freelists s)" "free_pend s = []"
    using read_chain_linked [of fr l "disk s" "[]"] by (auto simp: vfs_ok_def)
  then show ?thesis by (simp add: init_block_def)
qed

subsection \<open>Allocation\<close>

lemma sectors_mem: "a \<in> set (fents f) \<Longrightarrow> {unat (a_start a)..<unat (a_start a) + unat (a_len a)} \<subseteq> sectors f"
  by (auto simp: sectors_def cover_def)

text \<open>A node \<open>i\<close> is replaced by \<open>f\<close>, which lost the range; the other nodes are as before.\<close>

definition lost_from :: "freelist list \<Rightarrow> nat \<Rightarrow> free \<Rightarrow> ulong \<Rightarrow> ulong \<Rightarrow> bool" where
  "lost_from l i f d n \<longleftrightarrow> i < length l \<and> free_ok f \<and> f_next f = f_next (fr_free (l ! i)) \<and>
     span d n \<subseteq> sectors (fr_free (l ! i)) \<and> sectors f = sectors (fr_free (l ! i)) - span d n"

lemma renode_Suc: "renode (a # m) (Suc i) f = a # renode m i f"
  by (simp add: renode_def)

lemma alloc_scan_cases:
  assumes "\<forall>fr\<in>set l. free_ok (fr_free fr)" "0 < unat n"
  obtains (fail) "alloc_scan n l = (0, None, l)" "\<forall>fr\<in>set l. \<forall>a\<in>set (fents (fr_free fr)). unat (a_len a) < unat n"
  | (fit) i d f where "alloc_scan n l = (d, Some ((l ! i)\<lparr>fr_free := f\<rparr>), renode l i f)" "d \<noteq> 0" "lost_from l i f d n"
  using assms
proof (induction l arbitrary: thesis)
  case Nil
  then show ?case by simp
next
  case (Cons a m)
  from Cons.prems(3) have f: "free_ok (fr_free a)" by simp
  from f Cons.prems(4) show ?case
  proof (cases rule: alloc_chunk_cases)
    case fail
    note no = fail
    have m: "\<forall>fr\<in>set m. free_ok (fr_free fr)" using Cons.prems(3) by simp
    consider (none) "alloc_scan n m = (0, None, m)" "\<forall>fr\<in>set m. \<forall>a\<in>set (fents (fr_free fr)). unat (a_len a) < unat n"
      | (some) i d f where "alloc_scan n m = (d, Some ((m ! i)\<lparr>fr_free := f\<rparr>), renode m i f)" "d \<noteq> 0" "lost_from m i f d n"
      using Cons.IH [OF _ _ m Cons.prems(4)] by blast
    then show ?thesis
    proof cases
      case none
      then have "alloc_scan n (a # m) = (0, None, a # m)" using no(1) by simp
      then show ?thesis using Cons.prems(1) none(2) no(2) by simp
    next
      case (some i d f)
      then have "alloc_scan n (a # m) = (d, Some (((a # m) ! Suc i)\<lparr>fr_free := f\<rparr>), renode (a # m) (Suc i) f)"
        using no(1) by (simp add: renode_Suc)
      moreover have "lost_from (a # m) (Suc i) f d n" using some(3) by (simp add: lost_from_def)
      ultimately show ?thesis using Cons.prems(2) some(2) by blast
    qed
  next
    case (fit b f1)
    have b: "a_start b \<noteq> 0" using free_ok_mem [OF f fit(2)] by (auto simp: ent_ok_rent_of)
    then have "alloc_scan n (a # m) = (a_start b, Some (((a # m) ! 0)\<lparr>fr_free := f1\<rparr>), renode (a # m) 0 f1)"
      using fit(1) by (simp add: renode_def Let_def)
    moreover have "lost_from (a # m) 0 f1 (a_start b) n"
      using fit(3-6) sectors_mem [OF fit(2)] by (auto simp: lost_from_def span_def)
    ultimately show ?thesis using Cons.prems(2) b by blast
  qed
qed

lemma lost_node_ok:
  assumes s: "vfs_ok s" and l: "lost_from (freelists s) i f d n"
    and t: "t = write_sec (fr_this (freelists s ! i)) f (s\<lparr>freelists := renode (freelists s) i f\<rparr>)"
  shows "vfs_ok t" "span d n \<subseteq> all_free (freelists s)" "all_free (freelists t) = all_free (freelists s) - span d n"
    "map fr_this (freelists t) = map fr_this (freelists s)"
proof -
  have n: "nodes_ok (freelists s)" using s by (simp add: vfs_ok_def)
  have l': "i < length (freelists s)" "free_ok f" "f_next f = f_next (fr_free (freelists s ! i))"
    "span d n \<subseteq> sectors (fr_free (freelists s ! i))" "sectors f = sectors (fr_free (freelists s ! i)) - span d n"
    using l by (simp_all add: lost_from_def)
  show "vfs_ok t" unfolding t
    by (rule write_node_ok [OF s l'(1,3)]) (rule nodes_ok_shrink [OF n l'(1,2)], simp add: l'(5))
  show "span d n \<subseteq> all_free (freelists s)"
    using l'(1,4) nth_mem [OF l'(1)] unfolding all_free_def by blast
  show "all_free (freelists t) = all_free (freelists s) - span d n"
    using all_free_renode [OF n l'(1,5,4)] by (simp add: t write_sec_def)
  show "map fr_this (freelists t) = map fr_this (freelists s)" by (simp add: t write_sec_def)
qed

lemma alloc_block_cases:
  assumes s: "vfs_ok s" and n: "0 < unat n"
  obtains (fail) "alloc_block n s = (0, s)" "\<forall>fr\<in>set (freelists s). \<forall>a\<in>set (fents (fr_free fr)). unat (a_len a) < unat n"
  | (fit) d t where "alloc_block n s = (d, t)" "d \<noteq> 0" "vfs_ok t" "span d n \<subseteq> all_free (freelists s)"
      "all_free (freelists t) = all_free (freelists s) - span d n" "map fr_this (freelists t) = map fr_this (freelists s)"
proof -
  have "\<forall>fr\<in>set (freelists s). free_ok (fr_free fr)" using s by (simp add: vfs_ok_def nodes_ok_def)
  then show ?thesis using n
  proof (cases rule: alloc_scan_cases)
    case fail
    then have "alloc_block n s = (0, s)" by (simp add: alloc_block_def)
    then show ?thesis using that(1) fail(2) by blast
  next
    case (fit i d f)
    have "alloc_block n s = (d, write_sec (fr_this (freelists s ! i)) f (s\<lparr>freelists := renode (freelists s) i f\<rparr>))"
      using fit(1) by (simp add: alloc_block_def)
    then show ?thesis using that(2) fit(2) lost_node_ok [OF s fit(3) refl] by blast
  qed
qed

subsection \<open>Taking sectors at a place\<close>

definition starts :: "ulong \<Rightarrow> alloc \<Rightarrow> freelist list \<Rightarrow> bool" where
  "starts d a l \<longleftrightarrow> (\<exists>fr\<in>set l. a \<in> set (fents (fr_free fr))) \<and> a_start a = d"

lemma starts_simps [simp]:
  "\<not> starts d a []" "starts d a (fr # l) \<longleftrightarrow> a \<in> set (fents (fr_free fr)) \<and> a_start a = d \<or> starts d a l"
  by (auto simp: starts_def)

lemma starts_sector: "\<forall>fr\<in>set l. free_ok (fr_free fr) \<Longrightarrow> starts d a l \<Longrightarrow> unat d \<in> all_free l"
proof -
  assume l: "\<forall>fr\<in>set l. free_ok (fr_free fr)" and "starts d a l"
  then obtain fr where fr: "fr \<in> set l" "a \<in> set (fents (fr_free fr))" "a_start a = d" by (auto simp: starts_def)
  with l have "ent_ok (rent_of a)" by (auto dest: free_ok_mem)
  then have "unat d \<in> {unat (a_start a)..<unat (a_start a) + unat (a_len a)}" using fr(3) by (simp add: ent_ok_rent_of)
  then show ?thesis using sectors_mem [OF fr(2)] fr(1) by (auto simp: all_free_def)
qed

lemma first_last_entry:
  assumes f: "free_ok f" "nfree f \<noteq> 0" and a: "a \<in> set (fents f)"
  shows "unat (a_start (f_free f ! 0)) \<le> unat (a_start a)"
    "unat (a_start a) + unat (a_len a) \<le> unat (a_start (f_free f ! (nfree f - 1))) + unat (a_len (f_free f ! (nfree f - 1)))"
    "f_free f ! 0 \<in> set (fents f)" "f_free f ! (nfree f - 1) \<in> set (fents f)"
proof -
  have l: "length (fents f) = nfree f" using f(1) by (rule length_fents)
  have s: "sorted_wrt (\<lambda>a b. hi a < lo b) (runs f)" "\<forall>a\<in>set (fents f). ent_ok (rent_of a)"
    using f(1) by (simp_all add: free_ok_def ents_ok_def list_all_iff)
  obtain i where i: "i < nfree f" "fents f ! i = a" using a l by (auto simp: in_set_conv_nth)
  have lt: "hi (rent_of (fents f ! j)) < lo (rent_of (fents f ! k))" if "j < k" "k < nfree f" for j k
    using sorted_wrt_nth_less [OF s(1), of j k] that l by simp
  have n: "fents f ! 0 = f_free f ! 0" "fents f ! (nfree f - 1) = f_free f ! (nfree f - 1)"
    using f by (simp_all add: fents_nth)
  have "lo (rent_of (fents f ! 0)) \<le> lo (rent_of (fents f ! i))"
    using lt [of 0 i] i by (cases "i = 0") simp_all
  then show "unat (a_start (f_free f ! 0)) \<le> unat (a_start a)" using i(2) n by simp
  have "hi (rent_of (fents f ! i)) \<le> hi (rent_of (fents f ! (nfree f - 1)))"
    using lt [of i "nfree f - 1"] i(1) f(2) by (cases "i = nfree f - 1") (simp, simp, linarith)
  then show "unat (a_start a) + unat (a_len a) \<le> unat (a_start (f_free f ! (nfree f - 1))) + unat (a_len (f_free f ! (nfree f - 1)))"
    using i(2) n by simp
  show "f_free f ! 0 \<in> set (fents f)" "f_free f ! (nfree f - 1) \<in> set (fents f)"
    using f by (simp_all add: fents_mem)
qed

lemma nodes_ok_Cons:
  "nodes_ok (a # m) \<longleftrightarrow> free_ok (fr_free a) \<and> nodes_ok m \<and> (\<forall>b\<in>set m. before a b)"
  by (auto simp: nodes_ok_def)

lemma take_scan_cases:
  assumes "nodes_ok l" "0 < unat n"
  obtains (none) "take_scan d n l i0 = None" "\<And>a. \<not> starts d a l"
  | (some) i k f a where "take_scan d n l i0 = Some (i0 + i, k, f)" "lost_from l i f d k" "starts d a l" "unat k = min (unat n) (unat (a_len a))"
  using assms
proof (induction l arbitrary: i0 thesis)
  case Nil
  then show ?case by simp
next
  case (Cons fr m)
  let ?f = "fr_free fr"
  have f: "free_ok ?f" and m: "nodes_ok m" and bf: "\<forall>b\<in>set m. before fr b"
    using Cons.prems(3) by (simp_all add: nodes_ok_Cons)
  have mf: "\<forall>fr\<in>set m. free_ok (fr_free fr)" using m by (simp add: nodes_ok_def)
  have later: "x < unat d" if "starts d a m" "x \<in> sectors ?f" for a x
    using starts_sector [OF mf that(1)] that(2) bf by (auto simp: all_free_def before_def)
  have IH: ?case if c: "take_scan d n (fr # m) i0 = take_scan d n m (i0 + 1)" and no: "\<And>a. \<not> (a \<in> set (fents ?f) \<and> a_start a = d)"
  proof -
    show ?thesis
    proof (rule Cons.IH [where ?i0.0 = "i0 + 1", OF _ _ m Cons.prems(4)])
      assume "take_scan d n m (i0 + 1) = None" "\<And>a. \<not> starts d a m"
      then show ?thesis using Cons.prems(1) no unfolding c starts_simps by blast
    next
      fix i k g a
      assume g: "take_scan d n m (i0 + 1) = Some (i0 + 1 + i, k, g)" "lost_from m i g d k" "starts d a m" "unat k = min (unat n) (unat (a_len a))"
      have "take_scan d n (fr # m) i0 = Some (i0 + Suc i, k, g)" using g(1) unfolding c by simp
      moreover have "lost_from (fr # m) (Suc i) g d k" using g(2) by (simp add: lost_from_def)
      moreover have "starts d a (fr # m)" using g(3) by simp
      ultimately show ?thesis using g(4) by (rule Cons.prems(2))
    qed
  qed
  show ?case
  proof (cases "nfree ?f = 0")
    case True
    then have "fents ?f = []" by (simp add: fents_def)
    then show ?thesis using IH True by simp
  next
    case False
    let ?a = "f_free ?f ! 0" and ?l = "f_free ?f ! (nfree ?f - 1)"
    note fl = first_last_entry [OF f False]
    have mem: "?a \<in> set (fents ?f)" "?l \<in> set (fents ?f)"
      using f False by (simp_all add: fents_mem)
    have ok: "ent_ok (rent_of ?a)" "ent_ok (rent_of ?l)" using mem f by (simp_all add: free_ok_mem)
    have top: "unat (a_start ?l + a_len ?l) = unat (a_start ?l) + unat (a_len ?l)"
      using ok(2) by (simp add: ent_ok_rent_of unat_add_u32)
    have in0: "unat (a_start ?a) \<in> sectors ?f" "unat (a_start ?l) + unat (a_len ?l) - 1 \<in> sectors ?f"
      using sectors_mem [OF mem(1)] sectors_mem [OF mem(2)] ok by (auto simp: ent_ok_rent_of)
    consider (left) "d < a_start ?a" | (right) "\<not> d < a_start ?a" "a_start ?l + a_len ?l \<le> d"
      | (here) "\<not> d < a_start ?a" "\<not> a_start ?l + a_len ?l \<le> d" by blast
    then show ?thesis
    proof cases
      case left
      then have "\<not> starts d a (fr # m)" for a
        using fl(1) [of a] later [OF _ in0(1), of a] by (auto simp: word_nat)
      moreover have "take_scan d n (fr # m) i0 = None" using left False by simp
      ultimately show ?thesis using Cons.prems(1) by (metis)
    next
      case right
      have no: "\<not> (a \<in> set (fents ?f) \<and> a_start a = d)" for a
        using fl(2) [of a] free_ok_mem [OF f, of a] right(2) top by (auto simp: word_nat ent_ok_rent_of)
      have "take_scan d n (fr # m) i0 = take_scan d n m (i0 + 1)" using right False by simp
      then show ?thesis using no by (rule IH)
    next
      case here
      have r: "take_scan d n (fr # m) i0 =
          (case find (\<lambda>x. d = a_start (f_free ?f ! x)) [0..<nfree ?f] of None \<Rightarrow> None | Some x \<Rightarrow> Some (i0, take_chunk ?f x n))"
        using here False by (simp add: Let_def)
      show ?thesis
      proof (cases "find (\<lambda>x. d = a_start (f_free ?f ! x)) [0..<nfree ?f]")
        case None
        have "\<not> starts d a (fr # m)" for a
        proof
          assume "starts d a (fr # m)"
          then consider "a \<in> set (fents ?f)" "a_start a = d" | "starts d a m" by auto
          then show False
          proof cases
            case 1
            then obtain i where "i < nfree ?f" "f_free ?f ! i = a"
              using f by (auto simp: in_set_conv_nth length_fents fents_nth)
            then show False using None [unfolded find_upt_None, rule_format, of i] 1(2) by auto
          next
            case 2
            show False using later [OF 2 in0(2)] here(2) top by (simp add: word_nat)
          qed
        qed
        then show ?thesis using Cons.prems(1) r None by simp
      next
        case (Some x)
        then have x: "x < nfree ?f" "d = a_start (f_free ?f ! x)" using find_upt_Some [OF Some] by auto
        obtain k f1 where t: "take_chunk ?f x n = (k, f1)" by (cases "take_chunk ?f x n")
        note tk = take_chunk_ok [OF f x(1) Cons.prems(4) t]
        have a: "f_free ?f ! x \<in> set (fents ?f)" using f x(1) by (rule fents_mem)
        have range_sub: "{unat (a_start (f_free ?f ! x))..<unat (a_start (f_free ?f ! x)) + unat k} \<subseteq> sectors ?f"
          by (rule subset_trans [OF _ sectors_mem [OF a]]) (simp add: tk(1))
        have "take_scan d n (fr # m) i0 = Some (i0 + 0, k, f1)" using r Some t by simp
        moreover have "lost_from (fr # m) 0 f1 d k"
          using tk(2-4) range_sub unfolding lost_from_def span_def x(2) by simp
        moreover have "starts d (f_free ?f ! x) (fr # m)" using a x(2) by simp
        ultimately show ?thesis using tk(1) by (rule Cons.prems(2))
      qed
    qed
  qed
qed

lemma take_block_cases:
  assumes s: "vfs_ok s" and n: "0 < unat n"
  obtains (none) "take_block d n s = (0, s)" "\<And>a. \<not> starts d a (freelists s)"
  | (some) k a t where "take_block d n s = (k, t)" "starts d a (freelists s)" "unat k = min (unat n) (unat (a_len a))" "vfs_ok t"
      "span d k \<subseteq> all_free (freelists s)" "all_free (freelists t) = all_free (freelists s) - span d k"
      "map fr_this (freelists t) = map fr_this (freelists s)"
proof -
  have "nodes_ok (freelists s)" using s by (simp add: vfs_ok_def)
  from this n show ?thesis
  proof (cases rule: take_scan_cases [where d = d and ?i0.0 = 0])
    case none
    then show ?thesis using that(1) by (simp add: take_block_def)
  next
    case (some i k f a)
    have "take_block d n s = (k, write_sec (fr_this (freelists s ! i)) f (s\<lparr>freelists := renode (freelists s) i f\<rparr>))"
      using some(1) by (simp add: take_block_def set_node_def renode_def)
    then show ?thesis using that(2) some(3,4) lost_node_ok [OF s some(2) refl] by blast
  qed
qed

subsection \<open>Freeing\<close>

text \<open>All sectors before node \<open>h\<close> are below the range, all behind it are not.\<close>

definition home_ok :: "freelist list \<Rightarrow> ulong \<Rightarrow> nat \<Rightarrow> bool" where
  "home_ok l d h \<longleftrightarrow> h < length l \<and> (\<forall>j<h. \<forall>x\<in>sectors (fr_free (l ! j)). x < unat d) \<and>
     (\<forall>j. h < j \<and> j < length l \<longrightarrow> (\<forall>x\<in>sectors (fr_free (l ! j)). unat d \<le> x))"

lemma sectors_bounds:
  assumes f: "free_ok f" "nfree f \<noteq> 0" and x: "x \<in> sectors f"
  shows "unat (a_start (f_free f ! 0)) \<le> x"
    "x < unat (a_start (f_free f ! (nfree f - 1))) + unat (a_len (f_free f ! (nfree f - 1)))"
proof -
  from x obtain a where a: "a \<in> set (fents f)" "unat (a_start a) \<le> x" "x < unat (a_start a) + unat (a_len a)"
    by (auto simp: sectors_def cover_def)
  from first_last_entry(1,2) [OF f a(1)] a(2,3)
  show "unat (a_start (f_free f ! 0)) \<le> x" "x < unat (a_start (f_free f ! (nfree f - 1))) + unat (a_len (f_free f ! (nfree f - 1)))"
    by linarith+
qed

lemma before_nth: "nodes_ok l \<Longrightarrow> i < j \<Longrightarrow> j < length l \<Longrightarrow> before (l ! i) (l ! j)"
  unfolding nodes_ok_def by (blast intro: sorted_wrt_nth_less)

lemma sorted_above:
  assumes "nodes_ok l" "i < length l" "x \<in> sectors (fr_free (l ! i))" "c \<le> x" "i < j" "j < length l" "y \<in> sectors (fr_free (l ! j))"
  shows "c \<le> y"
  using before_nth [OF assms(1,5,6)] assms(3,4,7) by (auto simp: before_def dest!: bspec)

lemma find_home_ok:
  assumes "nodes_ok (pre @ l)" "pre @ l \<noteq> []" "span d n \<inter> all_free (pre @ l) = {}" "0 < unat n"
    "\<forall>j<length pre. \<forall>x\<in>sectors (fr_free (pre ! j)). x < unat d"
  shows "home_ok (pre @ l) d (find_home d l (length pre) (length pre - 1))"
  using assms
proof (induction l arbitrary: pre)
  case Nil
  then show ?case unfolding home_ok_def by (auto dest: less_le_trans [OF _ diff_le_self])
next
  case (Cons fr m)
  let ?f = "fr_free fr" and ?L = "pre @ fr # m" and ?i = "length pre"
  have f: "free_ok ?f" using Cons.prems(1) by (simp add: nodes_ok_split)
  have at: "?L ! ?i = fr" "?i < length ?L" by (simp_all add: nth_append)
  have pre: "\<forall>j<?i. \<forall>x\<in>sectors (fr_free (?L ! j)). x < unat d"
    using Cons.prems(5) by (auto simp: nth_append)
  have IH: ?case if "find_home d (fr # m) ?i (?i - 1) = find_home d m (?i + 1) ?i" "\<forall>x\<in>sectors ?f. x < unat d"
  proof -
    have "\<forall>j<length (pre @ [fr]). \<forall>x\<in>sectors (fr_free ((pre @ [fr]) ! j)). x < unat d"
      using Cons.prems(5) that(2) by (auto simp: nth_append less_Suc_eq)
    then have "home_ok ((pre @ [fr]) @ m) d (find_home d m (length (pre @ [fr])) (length (pre @ [fr]) - 1))"
      using Cons.prems by (intro Cons.IH) simp_all
    then show ?thesis using that(1) by simp
  qed
  show ?case
  proof (cases "nfree ?f = 0")
    case True
    then have "sectors ?f = {}" by (simp add: sectors_def fents_def)
    then show ?thesis using IH True by (simp add: Let_def)
  next
    case False
    let ?a = "f_free ?f ! 0" and ?l = "f_free ?f ! (nfree ?f - 1)"
    have mem: "?a \<in> set (fents ?f)" "?l \<in> set (fents ?f)" using f False by (simp_all add: fents_mem)
    have ok: "ent_ok (rent_of ?a)" "ent_ok (rent_of ?l)" using mem f by (simp_all add: free_ok_mem)
    have in0: "unat (a_start ?a) \<in> sectors ?f" "unat (a_start ?l) \<in> sectors ?f"
      using sectors_mem [OF mem(1)] sectors_mem [OF mem(2)] ok by (auto simp: ent_ok_rent_of)
    note up = sorted_above [OF Cons.prems(1) at(2), unfolded at(1)]
    consider (left) "d < a_start ?a" | (inside) "\<not> d < a_start ?a" "d < a_start ?l"
      | (right) "\<not> d < a_start ?a" "\<not> d < a_start ?l" by blast
    then show ?thesis
    proof cases
      case left
      then have h: "find_home d (fr # m) ?i (?i - 1) = ?i - 1" using False by (simp add: Let_def)
      have le: "unat d \<le> unat (a_start ?a)" using left by (simp add: word_nat)
      have "unat d \<le> x" if "?i - 1 < j" "j < length ?L" "x \<in> sectors (fr_free (?L ! j))" for j x
      proof (cases "j = ?i")
        case True
        then show ?thesis using that(3) at(1) sectors_bounds(1) [OF f False, of x] le by simp
      next
        case False
        then have "?i < j" using that(1) by simp
        then show ?thesis using up [OF in0(1) le] that(2,3) by blast
      qed
      moreover have "\<forall>j<?i - 1. \<forall>x\<in>sectors (fr_free (?L ! j)). x < unat d"
        using pre by (meson diff_le_self less_le_trans)
      moreover have "?i - 1 < length ?L" by simp
      ultimately show ?thesis unfolding h home_ok_def by blast
    next
      case inside
      then have h: "find_home d (fr # m) ?i (?i - 1) = ?i" using False by (simp add: Let_def)
      have le: "unat d \<le> unat (a_start ?l)" using inside by (simp add: word_nat)
      show ?thesis unfolding h home_ok_def using pre at(2) up [OF in0(2) le] by blast
    next
      case right
      have "unat d \<notin> {unat (a_start ?l)..<unat (a_start ?l) + unat (a_len ?l)}"
      proof
        assume "unat d \<in> {unat (a_start ?l)..<unat (a_start ?l) + unat (a_len ?l)}"
        then have "unat d \<in> all_free ?L" using sectors_mem [OF mem(2)] by auto
        moreover have "unat d \<in> span d n" using Cons.prems(4) by (simp add: span_def)
        ultimately show False using Cons.prems(3) by blast
      qed
      then have "\<forall>x\<in>sectors ?f. x < unat d"
        using right(2) sectors_bounds(2) [OF f False] by (fastforce simp: word_nat)
      then show ?thesis using IH right False by (simp add: Let_def)
    qed
  qed
qed

text \<open>The node the code chooses for a range.\<close>

definition home :: "ulong \<Rightarrow> vfree \<Rightarrow> nat" where
  "home d s = find_home d (freelists s) 0 0"

lemma home_ok:
  assumes "vfs_ok s" "span d n \<inter> all_free (freelists s) = {}" "0 < unat n"
  shows "home_ok (freelists s) d (home d s)"
  unfolding home_def using find_home_ok [of "[]" "freelists s" d n] assms by (simp add: vfs_ok_def)

lemma nodes_ok_grow:
  assumes l: "nodes_ok l" and h: "home_ok l d h" and n: "span d n \<inter> all_free l = {}" and f: "freed (fr_free (l ! h)) d n f"
  shows "nodes_ok (renode l h f)" "all_free (renode l h f) = all_free l \<union> span d n"
proof -
  have i: "h < length l" using h by (simp add: home_ok_def)
  note r = renode_split [OF i, of f]
  have a: "nodes_ok (take h l @ l ! h # drop (Suc h) l)" using l r by simp
  have s: "free_ok f" "sectors f = sectors (fr_free (l ! h)) \<union> span d n" using f by (simp_all add: freed_def)
  have lo: "\<forall>a\<in>set (take h l). \<forall>x\<in>sectors (fr_free a). x < unat d"
    using h i by (auto simp: home_ok_def in_set_conv_nth)
  have hi: "unat d + unat n \<le> x" if b: "b \<in> set (drop (Suc h) l)" "x \<in> sectors (fr_free b)" for b x
  proof -
    from b(1) obtain k where "k < length l - Suc h" "b = l ! (Suc h + k)"
      unfolding in_set_conv_nth by auto
    then obtain j where j: "h < j" "j < length l" "b = l ! j" using that [of "Suc h + k"] by simp
    then have "unat d \<le> x" using h b(2) by (auto simp: home_ok_def)
    moreover have "x \<in> all_free l" using j b(2) by (auto simp: all_free_def)
    then have "x \<notin> span d n" using n by blast
    ultimately show ?thesis by (auto simp: span_def)
  qed
  have lo_span: "x < y" if "a \<in> set (take h l)" "x \<in> sectors (fr_free a)" "y \<in> span d n" for a x y
    using less_le_trans [of x "unat d" y] lo that by (simp add: span_def)
  have hi_span: "y < x" if "b \<in> set (drop (Suc h) l)" "x \<in> sectors (fr_free b)" "y \<in> span d n" for b x y
    using less_le_trans [of y "unat d + unat n" x] hi [OF that(1,2)] that(3) by (simp add: span_def)
  have "\<forall>x\<in>set (take h l). before x ((l ! h)\<lparr>fr_free := f\<rparr>)" "\<forall>y\<in>set (drop (Suc h) l). before ((l ! h)\<lparr>fr_free := f\<rparr>) y"
    using a lo_span hi_span unfolding nodes_ok_split before_def by (auto simp: s(2))
  then show "nodes_ok (renode l h f)"
    unfolding conjunct2 [OF r] using a s(1) unfolding nodes_ok_split by simp
  have "all_free l = all_free (take h l) \<union> sectors (fr_free (l ! h)) \<union> all_free (drop (Suc h) l)"
    by (subst conjunct1 [OF r]) auto
  moreover have "all_free (renode l h f) = all_free (take h l) \<union> sectors f \<union> all_free (drop (Suc h) l)"
    by (subst conjunct2 [OF r]) auto
  ultimately show "all_free (renode l h f) = all_free l \<union> span d n" using s(2) by blast
qed

lemma free_block_ok:
  assumes s: "vfs_ok s" and e: "e_debug e" and r: "0 < unat d" "0 < unat n" "unat d + unat n < 2 ^ 32"
    and n: "span d n \<inter> all_free (freelists s) = {}" and room: "nfree (fr_free (freelists s ! home d s)) < NALLOC"
  obtains t where "free_block e d n s = Some (Inr t)" "vfs_ok t" "all_free (freelists t) = all_free (freelists s) \<union> span d n"
    "map fr_this (freelists t) = map fr_this (freelists s)"
proof -
  let ?i = "home d s" let ?f = "fr_free (freelists s ! ?i)"
  have h: "home_ok (freelists s) d ?i" by (rule home_ok [OF s n r(2)])
  then have i: "?i < length (freelists s)" by (simp add: home_ok_def)
  have no: "nodes_ok (freelists s)" using s by (simp add: vfs_ok_def)
  then have f: "free_ok ?f" using i by (simp add: nodes_ok_def)
  have "sectors ?f \<subseteq> all_free (freelists s)" using nth_mem [OF i] unfolding all_free_def by blast
  then have "fits ?f d n" using r n by (auto simp: fits_def)
  from f this obtain f1 where c: "free_chunk ?f d n = Inr (Some f1)" "freed ?f d n f1"
    by (cases rule: free_chunk_cases) (use room in auto)
  let ?t = "write_sec (fr_this (freelists s ! ?i)) f1 (s\<lparr>freelists := renode (freelists s) ?i f1\<rparr>)"
  note g = nodes_ok_grow [OF no h n c(2)]
  have ok: "vfs_ok ?t"
    by (rule write_node_ok [OF s i _ g(1)]) (use c(2) in \<open>simp add: freed_def\<close>)
  have "free_block e d n s = Some (Inr ?t)"
    using c(1) e r(2) s i ok unfolding free_block_def
    by (subst free_rounds.simps) (auto simp: home_def set_node_def renode_def vfs_ok_def Let_def write_sec_def)
  then show ?thesis using that ok g(2) by (simp add: write_sec_def)
qed

subsection \<open>Histories\<close>

text \<open>
  The file system allocates, extends and frees; \<open>U\<close> are the sectors its files have. A range is freed only
  by who has it, and only while the node it belongs in has a slot left.
\<close>

inductive vf_run :: "vfenv \<Rightarrow> vfree \<Rightarrow> vfree \<Rightarrow> nat set \<Rightarrow> bool" for e s0 where
  start: "vf_run e s0 s0 {}"
| alloc: "vf_run e s0 s U \<Longrightarrow> 0 < unat n \<Longrightarrow> alloc_block n s = (d, t) \<Longrightarrow>
    vf_run e s0 t (if d = 0 then U else U \<union> span d n)"
| take: "vf_run e s0 s U \<Longrightarrow> 0 < unat n \<Longrightarrow> take_block d n s = (k, t) \<Longrightarrow> vf_run e s0 t (U \<union> span d k)"
| free: "vf_run e s0 s U \<Longrightarrow> 0 < unat n \<Longrightarrow> span d n \<subseteq> U \<Longrightarrow> unat d + unat n < 2 ^ 32 \<Longrightarrow>
    nfree (fr_free (freelists s ! home d s)) < NALLOC \<Longrightarrow> free_block e d n s = Some (Inr t) \<Longrightarrow>
    vf_run e s0 t (U - span d n)"

lemma all_free_pos: "vfs_ok s \<Longrightarrow> 0 \<notin> all_free (freelists s)"
proof
  assume s: "vfs_ok s" and "0 \<in> all_free (freelists s)"
  then obtain fr a where a: "fr \<in> set (freelists s)" "a \<in> set (fents (fr_free fr))" "unat (a_start a) \<le> 0"
    by (auto simp: all_free_def sectors_def cover_def)
  then have "ent_ok (rent_of a)" using s by (auto simp: vfs_ok_def nodes_ok_def dest: free_ok_mem)
  then show False using a(3) by (simp add: ent_ok_rent_of)
qed

lemma vf_run_ok:
  assumes r: "vf_run e s0 s U" and e: "e_debug e" and s0: "vfs_ok s0"
  shows "vfs_ok s \<and> U \<inter> all_free (freelists s) = {} \<and> U \<union> all_free (freelists s) = all_free (freelists s0) \<and>
    map fr_this (freelists s) = map fr_this (freelists s0)"
  using r
proof induction
  case start
  show ?case using s0 by simp
next
  case (alloc s U n d t)
  then have s: "vfs_ok s" by blast
  from s alloc.hyps(2) show ?case
  proof (cases rule: alloc_block_cases)
    case fail
    then show ?thesis using alloc by simp
  next
    case (fit d1 t1)
    then have "d1 = d" "t1 = t" using alloc.hyps(3) by simp_all
    then show ?thesis using fit(2-6) alloc.IH by auto
  qed
next
  case (take s U n d k t)
  then have s: "vfs_ok s" by blast
  from s take.hyps(2) show ?case
  proof (cases rule: take_block_cases [where d = d])
    case none
    then show ?thesis using take by (simp add: span_def)
  next
    case (some k1 a t1)
    then have "k1 = k" "t1 = t" using take.hyps(3) by simp_all
    then show ?thesis using some(4-7) take.IH by auto
  qed
next
  case (free s U n d t)
  then have s: "vfs_ok s" and U: "U \<inter> all_free (freelists s) = {}" "U \<union> all_free (freelists s) = all_free (freelists s0)"
    "map fr_this (freelists s) = map fr_this (freelists s0)" by blast+
  have "unat d \<in> span d n" using free.hyps(2) by (simp add: span_def)
  then have "unat d \<noteq> 0" using free.hyps(3) U(2) all_free_pos [OF s0] by (metis UnCI subsetD)
  then have d: "0 < unat d" by simp
  have n: "span d n \<inter> all_free (freelists s) = {}" using free.hyps(3) U(1) by blast
  obtain t1 where t1: "free_block e d n s = Some (Inr t1)" "vfs_ok t1"
    "all_free (freelists t1) = all_free (freelists s) \<union> span d n" "map fr_this (freelists t1) = map fr_this (freelists s)"
    by (rule free_block_ok [OF s e d free.hyps(2,4) n free.hyps(5)])
  then have "t1 = t" using free.hyps(6) by simp
  then show ?case using t1(2-4) U free.hyps(3) by auto
qed

text \<open>
  C13: the free list stays well formed in every history of allocations, extensions and frees (those that need no
  balancing: the node a freed range belongs in has a slot left): each node has at most as many entries as slots, its entries are non-empty, ascending and separated, all nodes are in order,
  and the disk has the image of every node.
\<close>

theorem vstafs_well_formed:
  assumes "vf_run e s0 s U" "e_debug e" "vfs_ok s0"
  shows "vfs_ok s"
  using vf_run_ok [OF assms] by blast

text \<open>
  C12: no sector is lost or handed out twice: in every history of allocations, extensions and frees without
  balancing the sectors that files have and the free ones are disjoint, and together those that were
  free in the beginning.
\<close>

theorem vstafs_partition:
  assumes "vf_run e s0 s U" "e_debug e" "vfs_ok s0"
  shows "U \<inter> all_free (freelists s) = {} \<and> U \<union> all_free (freelists s) = all_free (freelists s0)"
  using vf_run_ok [OF assms] by blast

text \<open>
  C14: what a restart reads from the disk is the list in core: after any history of allocations, extensions and
  frees without balancing \<open>init_block\<close> ends and gives the state as it is, but for the count of lost blocks.
\<close>

theorem vstafs_reload:
  assumes "vf_run e s0 s U" "e_debug e" "vfs_ok s0"
  shows "init_block (disk s) = Some (s\<lparr>lost_blocks := 0\<rparr>)"
  using vf_run_ok [OF assms] reload by blast

text \<open>
  C15: freeing a range that is not free returns and adds exactly the range to the free sectors, whenever the node
  the range belongs in has a slot left.
\<close>

theorem vstafs_free_spec:
  assumes "vfs_ok s" "e_debug e" "0 < unat d" "0 < unat n" "unat d + unat n < 2 ^ 32"
    and "span d n \<inter> all_free (freelists s) = {}" "nfree (fr_free (freelists s ! home d s)) < NALLOC"
  shows "\<exists>t. free_block e d n s = Some (Inr t) \<and> vfs_ok t \<and> all_free (freelists t) = all_free (freelists s) \<union> span d n"
  using free_block_ok [OF assms] by metis

subsection \<open>A small disk\<close>

definition vf_slots :: "alloc list \<Rightarrow> alloc list" where
  "vf_slots as0 = as0 @ replicate (NALLOC - length as0) \<lparr>a_start = 0, a_len = 0\<rparr>"

definition vf_demo_node :: free where
  "vf_demo_node = \<lparr>f_next = 0, f_nfree = 2, f_free = vf_slots [\<lparr>a_start = 10, a_len = 5\<rparr>, \<lparr>a_start = 20, a_len = 8\<rparr>]\<rparr>"

definition vf_demo :: vfree where
  "vf_demo = \<lparr>freelists = [\<lparr>fr_this = FREE_SEC, fr_free = vf_demo_node\<rparr>], free_pend = [], lost_blocks = 0,
     disk = (\<lambda>_. vf_demo_node)\<rparr>"

definition vf_demo_env :: vfenv where
  "vf_demo_env = \<lparr>e_debug = True, e_core = True, e_slots = vf_slots [], e_queue = (\<lambda>_. True)\<rparr>"

lemma length_vf_slots: "length xs \<le> NALLOC \<Longrightarrow> length (vf_slots xs) = NALLOC"
  by (simp add: vf_slots_def)

lemma take_vf_slots: "n = length xs \<Longrightarrow> take n (vf_slots xs) = xs"
  by (simp add: vf_slots_def)

lemma vf_demo_node: "free_ok vf_demo_node" "sectors vf_demo_node = {10..<15} \<union> {20..<28}" "nfree vf_demo_node = 2" "f_next vf_demo_node = 0"
  by (simp_all add: vf_demo_node_def free_ok_def sectors_def fents_def nfree_def length_vf_slots take_vf_slots NALLOC_def
      ents_ok_simps ent_ok_rent_of)

lemma vf_demo_ok: "vfs_ok vf_demo" "all_free (freelists vf_demo) = {10..<15} \<union> {20..<28}"
  by (simp_all add: vfs_ok_def vf_demo_def nodes_ok_def vf_demo_node FREE_SEC_def)

lemma vf_demo_home: "nfree (fr_free (freelists vf_demo ! home d vf_demo)) < NALLOC"
proof -
  have "home d vf_demo = 0"
    by (simp add: home_def vf_demo_def vf_demo_node Let_def)
  then show ?thesis by (simp add: vf_demo_def vf_demo_node NALLOC_def)
qed

lemma vf_demo_run: "\<exists>t. vf_run vf_demo_env vf_demo t {20..<23}"
proof -
  obtain k t where t: "take_block 20 3 vf_demo = (k, t)" by (cases "take_block 20 3 vf_demo")
  have s: "\<lparr>a_start = 20, a_len = 8\<rparr> \<in> set (fents vf_demo_node)"
    by (simp add: vf_demo_node_def fents_def nfree_def take_vf_slots)
  then have st: "starts 20 \<lparr>a_start = 20, a_len = 8\<rparr> (freelists vf_demo)" by (simp add: vf_demo_def)
  have "0 < unat (3 :: ulong)" by simp
  from vf_demo_ok(1) this have "unat k = 3"
  proof (cases rule: take_block_cases [where d = 20])
    case none
    then show ?thesis using st by blast
  next
    case (some k1 a t1)
    have "a = \<lparr>a_start = 20, a_len = 8\<rparr>"
      using some(2) by (auto simp: vf_demo_def vf_demo_node_def fents_def nfree_def take_vf_slots)
    then show ?thesis using some(1,3) t by simp
  qed
  then have k: "span 20 k = {20..<23}" by (simp add: span_def)
  have "vf_run vf_demo_env vf_demo t ({} \<union> span 20 k)"
    by (rule vf_run.take [OF vf_run.start _ t]) simp
  then show ?thesis unfolding k by auto
qed

lemma vf_demo_env: "e_debug vf_demo_env"
  by (simp add: vf_demo_env_def)

lemma vstafs_well_formed_witness: "\<exists>t. vf_run vf_demo_env vf_demo t {20..<23} \<and> vfs_ok t"
  using vf_demo_run vstafs_well_formed [OF _ vf_demo_env vf_demo_ok(1)] by blast

lemma vstafs_partition_witness:
  "\<exists>t. vf_run vf_demo_env vf_demo t {20..<23} \<and> {20..<23} \<inter> all_free (freelists t) = {} \<and>
    {20..<23} \<union> all_free (freelists t) = {10..<15} \<union> {20..<28}"
  using vf_demo_run vstafs_partition [OF _ vf_demo_env vf_demo_ok(1)] vf_demo_ok(2) by metis

lemma vstafs_reload_witness:
  "\<exists>t. vf_run vf_demo_env vf_demo t {20..<23} \<and> init_block (disk t) = Some (t\<lparr>lost_blocks := 0\<rparr>)"
  using vf_demo_run vstafs_reload [OF _ vf_demo_env vf_demo_ok(1)] by blast

lemma vstafs_free_spec_witness:
  "\<exists>t. free_block vf_demo_env 15 5 vf_demo = Some (Inr t) \<and> vfs_ok t \<and> all_free (freelists t) = {10..<28}"
proof -
  have n: "span (15 :: ulong) (5 :: uint) \<inter> all_free (freelists vf_demo) = {}" by (auto simp: vf_demo_ok span_def)
  have "all_free (freelists vf_demo) \<union> span (15 :: ulong) (5 :: uint) = {10..<28}" by (auto simp: vf_demo_ok span_def)
  with vstafs_free_spec [OF vf_demo_ok(1) vf_demo_env _ _ _ n vf_demo_home] show ?thesis by simp
qed

end
