(* ===== verification/Vstafs_Balance.thy ===== *)
theory Vstafs_Balance
  imports Vstafs_Spec
begin

text \<open>
  The balancing of the free list of \<open>Vstafs_Alloc\<close>, which a node without a slot left starts: what
  \<open>move_forward\<close> and \<open>move_back\<close> do to the sectors of two nodes, and the chain on the disk after
  \<open>compress_freelist\<close> took a node out of the list.
\<close>

subsection \<open>Moving entries forward\<close>

definition slots_ok :: "free \<Rightarrow> bool" where
  "slots_ok f \<longleftrightarrow> length (f_free f) = NALLOC \<and> nfree f \<le> NALLOC"

lemma free_ok_slots: "free_ok f \<longleftrightarrow> slots_ok f \<and> ents_ok (runs f)"
  by (auto simp: free_ok_def slots_ok_def)

lemma nfree_add: "nfree f + unat c \<le> NALLOC \<Longrightarrow> nfree (f\<lparr>f_nfree := f_nfree f + c, f_free := xs\<rparr>) = nfree f + unat c"
  by (simp add: nfree_def NALLOC_def unat_add_u32)

lemma shift_fwd_ok:
  assumes "slots_ok ff" "slots_ok ft" "nfree ft + unat c \<le> NALLOC" "unat c \<le> nfree ff"
  obtains ff1 ft1 where "shift_fwd ff ft c = Inr (ff1, ft1)" "slots_ok ff1" "slots_ok ft1"
    "fents ff1 = take (nfree ff - unat c) (fents ff)" "fents ft1 = drop (nfree ff - unat c) (fents ff) @ fents ft"
    "nfree ff1 = nfree ff - unat c" "nfree ft1 = nfree ft + unat c" "f_next ff1 = f_next ff" "f_next ft1 = f_next ft"
proof -
  let ?up = "bcopy (nfree ft) 0 (unat c) (f_free ft)"
  let ?xs = "take (unat c) (drop (nfree ff - unat c) (f_free ff)) @ drop (unat c) ?up"
  let ?ff1 = "ff\<lparr>f_nfree := f_nfree ff - c\<rparr>" and ?ft1 = "ft\<lparr>f_free := ?xs, f_nfree := f_nfree ft + c\<rparr>"
  have l: "length (f_free ff) = NALLOC" "length (f_free ft) = NALLOC" "nfree ff \<le> NALLOC" "nfree ft \<le> NALLOC"
    using assms(1,2) by (simp_all add: slots_ok_def)
  have r: "shift_fwd ff ft c = Inr (?ff1, ?ft1)"
    using assms(3,4) by (simp add: shift_fwd_def Let_def)
  have nf: "nfree ?ff1 = nfree ff - unat c"
    using assms(4) by (simp add: nfree_def unat_sub_u32)
  have nt: "nfree ?ft1 = nfree ft + unat c"
    using assms(3) by (simp add: nfree_def NALLOC_def unat_add_u32)
  have up: "drop (unat c) ?up = take (nfree ft) (f_free ft) @ drop (unat c + nfree ft) (f_free ft)"
    using assms(3) l by (simp add: bcopy_def)
  have mv: "take (unat c) (drop (nfree ff - unat c) (f_free ff)) = drop (nfree ff - unat c) (fents ff)"
    using assms(4) by (simp add: fents_def drop_take)
  have len: "length (drop (nfree ff - unat c) (fents ff)) = unat c"
    using assms(4) l by (simp add: fents_def)
  have xs: "?xs = drop (nfree ff - unat c) (fents ff) @ take (nfree ft) (f_free ft) @ drop (unat c + nfree ft) (f_free ft)"
    unfolding up mv by simp
  have s1: "slots_ok ?ff1" using l nf by (simp add: slots_ok_def)
  have "length ?xs = NALLOC" unfolding xs using len l assms(3) by simp
  then have s2: "slots_ok ?ft1" using nt assms(3) by (simp add: slots_ok_def)
  have e1: "fents ?ff1 = take (nfree ff - unat c) (fents ff)"
    using nf by (simp add: fents_def)
  have "fents ?ft1 = take (nfree ft + unat c) ?xs" using nt by (simp add: fents_def)
  also have "\<dots> = drop (nfree ff - unat c) (fents ff) @ fents ft"
    unfolding xs using len l by (simp add: fents_def)
  finally have e2: "fents ?ft1 = drop (nfree ff - unat c) (fents ff) @ fents ft" .
  show ?thesis by (rule that [OF r s1 s2 e1 e2 nf nt]) simp_all
qed

text \<open>The two entries at the border, and whether they touch.\<close>

definition last_ent :: "free \<Rightarrow> alloc" where
  "last_ent f = f_free f ! (nfree f - 1)"

definition touch :: "free \<Rightarrow> free \<Rightarrow> bool" where
  "touch ff ft \<longleftrightarrow> a_start (last_ent ff) + a_len (last_ent ff) = a_start (f_free ft ! 0)"

text \<open>The sectors that are free no more when the entries touch: as many as the last entry of the first node has.\<close>

definition leak :: "free \<Rightarrow> free \<Rightarrow> nat set" where
  "leak ff ft = (let b = f_free ft ! 0; hi = unat (a_start b) + unat (a_len b) in {hi - unat (a_len (last_ent ff))..<hi})"

lemma move_forward_plain:
  assumes ok: "free_ok (fr_free a)" "free_ok (fr_free b)" and n: "unat c < nfree (fr_free a)" "nfree (fr_free b) \<noteq> 0"
    "nfree (fr_free b) + unat c \<le> NALLOC" and t: "\<not> touch (fr_free a) (fr_free b)"
  obtains ff ft where "move_forward e a (b # l) c = Inr (a\<lparr>fr_free := ff\<rparr>, b\<lparr>fr_free := ft\<rparr> # l)"
    "sectors ff \<union> sectors ft = sectors (fr_free a) \<union> sectors (fr_free b)" "nfree ff = nfree (fr_free a) - unat c"
proof -
  let ?a = "fr_free a" and ?b = "fr_free b"
  have s: "slots_ok ?a" "slots_ok ?b" using ok by (simp_all add: free_ok_slots)
  have c: "unat c \<le> nfree ?a" "unat (f_nfree ?b + c) = nfree ?b + unat c" "unat (c + f_nfree ?b) = nfree ?b + unat c"
    using n by (simp_all add: nfree_def NALLOC_def unat_add_u32)
  have j: "join_fwd ?a ?b c = Inr (?a, ?b, c)"
    using t n by (simp add: join_fwd_def touch_def last_ent_def Let_def)
  obtain ff ft where m: "shift_fwd ?a ?b c = Inr (ff, ft)" "fents ff = take (nfree ?a - unat c) (fents ?a)"
    "fents ft = drop (nfree ?a - unat c) (fents ?a) @ fents ?b" "nfree ff = nfree ?a - unat c"
    by (rule shift_fwd_ok [OF s n(3) c(1)])
  have r: "move_forward e a (b # l) c = Inr (a\<lparr>fr_free := ff\<rparr>, b\<lparr>fr_free := ft\<rparr> # l)"
    using n j c m(1) by (subst move_forward.simps) (simp add: forward_node_def)
  have "fents ?a = take (nfree ?a - unat c) (fents ?a) @ drop (nfree ?a - unat c) (fents ?a)" by simp
  then have "sectors ?a = sectors ff \<union> cover (map rent_of (drop (nfree ?a - unat c) (fents ?a)))"
    unfolding sectors_def m(2) by (metis cover_simps(3) map_append)
  then have "sectors ff \<union> sectors ft = sectors ?a \<union> sectors ?b"
    unfolding sectors_def m(3) by auto
  from that [OF r this m(4)] show ?thesis .
qed

lemma fents_last:
  assumes "free_ok f" "nfree f \<noteq> 0"
  shows "fents f = take (nfree f - 1) (fents f) @ [last_ent f]" "last_ent f \<in> set (fents f)"
proof -
  have l: "length (fents f) = nfree f" using assms(1) by (rule length_fents)
  moreover have "last_ent f = fents f ! (nfree f - 1)" using assms by (simp add: last_ent_def fents_nth)
  moreover have "fents f \<noteq> []" using calculation(1) assms(2) by auto
  ultimately have "last (fents f) = last_ent f" "fents f \<noteq> []" by (simp_all add: last_conv_nth)
  then show "fents f = take (nfree f - 1) (fents f) @ [last_ent f]" "last_ent f \<in> set (fents f)"
    using l by (metis append_butlast_last_id butlast_conv_take) (metis \<open>last (fents f) = last_ent f\<close> \<open>fents f \<noteq> []\<close> last_in_set)
qed

lemma fents_first:
  assumes "free_ok f" "nfree f \<noteq> 0"
  shows "fents f = f_free f ! 0 # tl (fents f)"
proof -
  have "length (fents f) = nfree f" using assms(1) by (rule length_fents)
  then have "fents f \<noteq> []" using assms(2) by auto
  moreover have "hd (fents f) = f_free f ! 0" using assms \<open>fents f \<noteq> []\<close> by (simp add: hd_conv_nth fents_nth)
  ultimately show ?thesis by (metis list.collapse)
qed

lemma cover_take_drop: "cover (map rent_of (take k xs)) \<union> cover (map rent_of (drop k xs)) = cover (map rent_of xs)"
proof -
  have "cover (map rent_of (take k xs)) \<union> cover (map rent_of (drop k xs)) = cover (map rent_of (take k xs @ drop k xs))"
    by (simp only: map_append cover_simps)
  then show ?thesis by (simp only: append_take_drop_id)
qed

lemma move_forward_touch:
  assumes ok: "free_ok (fr_free a)" "free_ok (fr_free b)" "before a b" and n: "unat c < nfree (fr_free a)" "nfree (fr_free b) \<noteq> 0"
    "nfree (fr_free b) + unat c \<le> NALLOC" "0 < unat c" and t: "touch (fr_free a) (fr_free b)"
  obtains ff ft where "move_forward e a (b # l) c = Inr (a\<lparr>fr_free := ff\<rparr>, b\<lparr>fr_free := ft\<rparr> # l)"
    "sectors ff \<union> sectors ft = sectors (fr_free a) \<union> sectors (fr_free b) - leak (fr_free a) (fr_free b)"
    "nfree ff = nfree (fr_free a) - unat c"
proof -
  let ?a = "fr_free a" and ?b = "fr_free b"
  let ?x = "last_ent ?a" and ?y = "f_free ?b ! 0" and ?A = "take (nfree ?a - 1) (fents ?a)" and ?B = "tl (fents ?b)"
  have na: "nfree ?a \<noteq> 0" using n(1) by simp
  note la = fents_last [OF ok(1) na] and fb = fents_first [OF ok(2) n(2)]
  have y: "?y \<in> set (fents ?b)" by (subst fb) simp
  have en: "ent_ok (rent_of ?x)" "ent_ok (rent_of ?y)" using free_ok_mem ok la(2) y by blast+
  have end_x: "unat (a_start ?x) + unat (a_len ?x) = unat (a_start ?y)"
    using t en(1) unfolding touch_def by (metis ent_ok_rent_of unat_add_u32)
  let ?a1 = "?a\<lparr>f_nfree := f_nfree ?a - 1\<rparr>" and ?b1 = "?b\<lparr>f_free := (f_free ?b)[0 := ?y\<lparr>a_start := a_start ?x\<rparr>]\<rparr>"
  have j: "join_fwd ?a ?b c = Inr (?a1, ?b1, c - 1)"
    using t n(2) na by (simp add: join_fwd_def touch_def last_ent_def Let_def)
  have na1: "nfree ?a1 = nfree ?a - 1" using na by (simp add: nfree_def unat_pred)
  have nb1: "nfree ?b1 = nfree ?b" by (simp add: nfree_def)
  have c1: "unat (c - 1) = unat c - 1" using n(4) by (rule unat_pred)
  have s: "slots_ok ?a1" "slots_ok ?b1" using ok na1 nb1 by (auto simp: free_ok_slots slots_ok_def)
  have ea: "fents ?a1 = ?A" unfolding fents_def na1 by simp
  have "fents ?b = [] @ ?y # ?B" using fb by simp
  from fents_set [OF this, of "?y\<lparr>a_start := a_start ?x\<rparr>"] have eb: "fents ?b1 = ?y\<lparr>a_start := a_start ?x\<rparr> # ?B" by simp
  have c: "unat (c - 1) \<le> nfree ?a1" "nfree ?b1 + unat (c - 1) \<le> NALLOC" "unat (f_nfree ?b + c) = nfree ?b + unat c"
    "unat (c - 1 + f_nfree ?b1) = nfree ?b1 + unat (c - 1)"
    using n na1 nb1 c1 by (simp_all add: nfree_def NALLOC_def unat_add_u32)
  obtain ff ft where m: "shift_fwd ?a1 ?b1 (c - 1) = Inr (ff, ft)" "fents ff = take (nfree ?a1 - unat (c - 1)) (fents ?a1)"
    "fents ft = drop (nfree ?a1 - unat (c - 1)) (fents ?a1) @ fents ?b1" "nfree ff = nfree ?a1 - unat (c - 1)"
    by (rule shift_fwd_ok [OF s c(2,1)])
  have r: "move_forward e a (b # l) c = Inr (a\<lparr>fr_free := ff\<rparr>, b\<lparr>fr_free := ft\<rparr> # l)"
    using n(1,2,3) j c m(1) by (subst move_forward.simps) (simp add: forward_node_def)
  have "sectors ff \<union> sectors ft = cover (map rent_of (fents ?a1)) \<union> cover (map rent_of (fents ?b1))"
    unfolding sectors_def m(2,3) map_append cover_simps Un_assoc [symmetric] cover_take_drop by (rule refl)
  also have "\<dots> = cover (map rent_of ?A) \<union> {unat (a_start ?x)..<unat (a_start ?x) + unat (a_len ?y)} \<union> cover (map rent_of ?B)"
    unfolding ea eb by auto
  finally have new: "sectors ff \<union> sectors ft =
    cover (map rent_of ?A) \<union> {unat (a_start ?x)..<unat (a_start ?x) + unat (a_len ?y)} \<union> cover (map rent_of ?B)" .
  have ra: "runs ?a = map rent_of ?A @ [rent_of ?x]"
    using arg_cong [OF la(1), of "map rent_of"] by (simp only: map_append list.map)
  have rb: "runs ?b = rent_of ?y # map rent_of ?B"
    using arg_cong [OF fb, of "map rent_of"] by (simp only: list.map)
  have A: "ents_ok (map rent_of ?A @ [rent_of ?x])" "sectors ?a = cover (map rent_of ?A) \<union> {unat (a_start ?x)..<unat (a_start ?y)}"
    using ok(1) unfolding free_ok_def sectors_def ra by (simp_all add: end_x)
  have B: "ents_ok (rent_of ?y # map rent_of ?B)" "sectors ?b = {unat (a_start ?y)..<unat (a_start ?y) + unat (a_len ?y)} \<union> cover (map rent_of ?B)"
    using ok(2) unfolding free_ok_def sectors_def rb by simp_all
  have la0: "z < unat (a_start ?x)" if z: "z \<in> cover (map rent_of ?A)" for z
  proof -
    from z obtain r where r: "r \<in> set (map rent_of ?A)" "z < hi r" by (rule coverE)
    with A(1) have "hi r < lo (rent_of ?x)" unfolding ents_ok_simps by (meson list.set_intros(1))
    with r(2) show ?thesis by simp
  qed
  have lb0: "unat (a_start ?y) + unat (a_len ?y) < z" if z: "z \<in> cover (map rent_of ?B)" for z
  proof -
    from z obtain r where r: "r \<in> set (map rent_of ?B)" "lo r \<le> z" by (rule coverE)
    with B(1) have "hi (rent_of ?y) < lo r" unfolding ents_ok_simps by blast
    with r(2) show ?thesis by simp
  qed
  have pos: "0 < unat (a_len ?x)" "0 < unat (a_len ?y)" using en by (simp_all add: ent_ok_rent_of)
  have lk: "leak ?a ?b = {unat (a_start ?x) + unat (a_len ?y)..<unat (a_start ?y) + unat (a_len ?y)}"
    unfolding leak_def Let_def end_x [symmetric] by (simp add: algebra_simps)
  have "sectors ff \<union> sectors ft = sectors ?a \<union> sectors ?b - leak ?a ?b"
    unfolding new A(2) B(2) lk using end_x pos by (auto dest: la0 [simplified] lb0)
  moreover have "nfree ff = nfree ?a - unat c" using m(4) na1 c1 n(1,4) by simp
  ultimately show ?thesis using that r by blast
qed

text \<open>
  C16: entries that move forward to the next node: the sectors of the two nodes stay free, unless the last entry
  of the first node touches the first of the second; then the length of the merged entry is
  not adjusted, and as many sectors as the last entry had are lost.
\<close>

theorem vstafs_forward_leak:
  assumes "free_ok (fr_free a)" "free_ok (fr_free b)" "before a b" "unat c < nfree (fr_free a)" "nfree (fr_free b) \<noteq> 0"
    "nfree (fr_free b) + unat c \<le> NALLOC" "0 < unat c"
  shows "\<exists>a1 b1. move_forward e a (b # l) c = Inr (a1, b1 # l) \<and> sectors (fr_free a1) \<union> sectors (fr_free b1) =
    sectors (fr_free a) \<union> sectors (fr_free b) - (if touch (fr_free a) (fr_free b) then leak (fr_free a) (fr_free b) else {})"
proof (cases "touch (fr_free a) (fr_free b)")
  case True
  obtain ff ft where "move_forward e a (b # l) c = Inr (a\<lparr>fr_free := ff\<rparr>, b\<lparr>fr_free := ft\<rparr> # l)"
    "sectors ff \<union> sectors ft = sectors (fr_free a) \<union> sectors (fr_free b) - leak (fr_free a) (fr_free b)"
    by (rule move_forward_touch [OF assms True])
  then show ?thesis using True by (intro exI conjI) (assumption, simp)
next
  case False
  obtain ff ft where "move_forward e a (b # l) c = Inr (a\<lparr>fr_free := ff\<rparr>, b\<lparr>fr_free := ft\<rparr> # l)"
    "sectors ff \<union> sectors ft = sectors (fr_free a) \<union> sectors (fr_free b)"
    by (rule move_forward_plain [OF assms(1,2,4-6) False])
  then show ?thesis using False by (intro exI conjI) (assumption, simp)
qed

lemma touch_demo:
  "free_ok \<lparr>f_next = 9, f_nfree = 2, f_free = vf_slots [\<lparr>a_start = 10, a_len = 5\<rparr>, \<lparr>a_start = 20, a_len = 8\<rparr>]\<rparr>"
  "free_ok \<lparr>f_next = 0, f_nfree = 1, f_free = vf_slots [\<lparr>a_start = 28, a_len = 12\<rparr>]\<rparr>"
  by (simp_all add: free_ok_def fents_def nfree_def length_vf_slots take_vf_slots NALLOC_def ents_ok_simps ent_ok_rent_of)

lemma vstafs_forward_leak_witness:
  "\<exists>a1 b1. move_forward vf_demo_env
      \<lparr>fr_this = 2, fr_free = \<lparr>f_next = 9, f_nfree = 2, f_free = vf_slots [\<lparr>a_start = 10, a_len = 5\<rparr>, \<lparr>a_start = 20, a_len = 8\<rparr>]\<rparr>\<rparr>
      [\<lparr>fr_this = 9, fr_free = \<lparr>f_next = 0, f_nfree = 1, f_free = vf_slots [\<lparr>a_start = 28, a_len = 12\<rparr>]\<rparr>\<rparr>] 1 = Inr (a1, [b1]) \<and>
    sectors (fr_free a1) \<union> sectors (fr_free b1) = {10..<15} \<union> {20..<32}"
proof -
  let ?fa = "\<lparr>f_next = 9, f_nfree = 2, f_free = vf_slots [\<lparr>a_start = 10, a_len = 5\<rparr>, \<lparr>a_start = 20, a_len = 8\<rparr>]\<rparr>"
  let ?fb = "\<lparr>f_next = 0, f_nfree = 1, f_free = vf_slots [\<lparr>a_start = 28, a_len = 12\<rparr>]\<rparr>"
  have s: "sectors ?fa = {10..<15} \<union> {20..<28}" "sectors ?fb = {28..<40}" "nfree ?fa = 2" "nfree ?fb = 1"
    by (simp_all add: sectors_def fents_def nfree_def take_vf_slots)
  have x: "last_ent ?fa = \<lparr>a_start = 20, a_len = 8\<rparr>" "vf_slots [\<lparr>a_start = 28, a_len = 12\<rparr>] ! 0 = \<lparr>a_start = 28, a_len = 12\<rparr>"
    by (simp_all add: last_ent_def nfree_def vf_slots_def)
  have t: "touch ?fa ?fb" "leak ?fa ?fb = {32..<40}" by (simp_all add: touch_def leak_def x Let_def)
  have r: "sectors ?fa \<union> sectors ?fb - leak ?fa ?fb = {10..<15} \<union> {20..<32}" by (auto simp: s t(2))
  have b: "before \<lparr>fr_this = 2, fr_free = ?fa\<rparr> \<lparr>fr_this = 9, fr_free = ?fb\<rparr>" by (auto simp: before_def s)
  from vstafs_forward_leak [of "\<lparr>fr_this = 2, fr_free = ?fa\<rparr>" "\<lparr>fr_this = 9, fr_free = ?fb\<rparr>" 1 vf_demo_env "[]"] touch_demo b t(1) r
  show ?thesis by (simp add: s(3,4) NALLOC_def)
qed

subsection \<open>A node that leaves the list\<close>

text \<open>All entries of \<open>ff\<close> are pulled back into \<open>ft\<close>; the entries at the border do not touch.\<close>

definition apart :: "free \<Rightarrow> free \<Rightarrow> bool" where
  "apart ft ff \<longleftrightarrow> nfree ft = 0 \<or> \<not> touch ft ff"

lemma move_back_all:
  assumes ok: "free_ok ft" "free_ok ff" and n: "nfree ft + nfree ff \<le> NALLOC" and a: "apart ft ff"
  obtains ft1 ff1 where "move_back e ft ff (f_nfree ff) = Inr (ft1, ff1)" "sectors ft1 = sectors ft \<union> sectors ff"
    "nfree ft1 = nfree ft + nfree ff" "f_nfree ff1 = 0" "f_next ft1 = f_next ft"
proof -
  let ?ft1 = "ft\<lparr>f_free := take (nfree ft) (f_free ft) @ take (unat (f_nfree ff)) (f_free ff) @ drop (nfree ft + unat (f_nfree ff)) (f_free ft),
      f_nfree := f_nfree ft + f_nfree ff\<rparr>"
  let ?ff1 = "ff\<lparr>f_nfree := f_nfree ff - f_nfree ff, f_free := bcopy (unat (f_nfree ff - f_nfree ff)) (unat (f_nfree ff)) 0 (f_free ff)\<rparr>"
  have j: "\<not> (0 < nfree ft \<and> a_start (f_free ft ! (nfree ft - 1)) + a_len (f_free ft ! (nfree ft - 1)) = a_start (f_free ff ! 0))"
    using a by (auto simp: apart_def touch_def last_ent_def)
  have nf: "unat (f_nfree ff) = nfree ff" "nfree ff \<le> NALLOC" using n by (simp_all add: nfree_def)
  have r: "move_back e ft ff (f_nfree ff) = Inr (?ft1, ?ff1)"
    unfolding move_back_def Let_def if_not_P [OF j] using j n nf by auto
  have n1: "nfree ?ft1 = nfree ft + nfree ff"
    using n by (simp add: nfree_def NALLOC_def unat_add_u32)
  have l: "length (fents ft) = nfree ft" "length (fents ff) = nfree ff" using ok by (simp_all add: length_fents)
  have "fents ?ft1 = take (nfree ft + nfree ff) (fents ft @ fents ff @ drop (nfree ft + nfree ff) (f_free ft))"
    using n1 nf(1) by (simp add: fents_def)
  also have "\<dots> = fents ft @ fents ff" using l by simp
  finally have "sectors ?ft1 = sectors ft \<union> sectors ff" by (simp add: sectors_def)
  then show ?thesis using that r n1 by simp
qed

text \<open>Nodes with at most half of their slots in use stay as they are when nothing is behind them.\<close>

lemma compress_last:
  "nfree (fr_free c) \<le> NALLOC div 2 \<Longrightarrow> compress_nodes e l [c] s = Some (Inr (s\<lparr>freelists := l @ [c]\<rparr>))"
  by (subst compress_nodes.simps, simp add: pull_back.simps [of e c "[]" s], simp add: compress_nodes.simps)

text \<open>
  C17: a node that is emptied while the list is compressed leaves the list in core, but not the chain on the
  disk. For a list of three nodes whose first two fill half a node together: \<open>compress_freelist\<close>
  ends with the first and the third node, and a restart reads the emptied node again,
  so that each sector it had is in the free list twice.
\<close>

theorem vstafs_stale_chain:
  assumes s: "vfs_ok s" "freelists s = [a, b, c]"
    and n: "nfree (fr_free a) + nfree (fr_free b) = NALLOC div 2" "0 < nfree (fr_free b)" "nfree (fr_free c) \<le> NALLOC div 2"
    and t: "apart (fr_free a) (fr_free b)"
  shows "\<exists>a1 s1. compress_freelist e s = Some (Inr s1) \<and> freelists s1 = [a1, c] \<and>
    sectors (fr_free a1) = sectors (fr_free a) \<union> sectors (fr_free b) \<and>
    map_option freelists (init_block (disk s1)) = Some [a1, b, c]"
proof -
  let ?a = "fr_free a" and ?b = "fr_free b"
  have nodes: "free_ok ?a" "free_ok ?b" using s by (simp_all add: vfs_ok_def nodes_ok_def)
  have lk: "f_next ?a = fr_this b" "f_next ?b = fr_this c" "f_next (fr_free c) = 0" "fr_this a = FREE_SEC"
    "distinct [fr_this a, fr_this b, fr_this c]" "fr_this a \<noteq> 0" "fr_this b \<noteq> 0" "fr_this c \<noteq> 0"
    "disk s (fr_this b) = ?b" "disk s (fr_this c) = fr_free c" "free_pend s = []"
    using s by (auto simp: vfs_ok_def)
  have "nfree ?a + nfree ?b \<le> NALLOC" using n(1) by (simp add: NALLOC_def)
  then obtain fa fb where m: "move_back e ?a ?b (f_nfree ?b) = Inr (fa, fb)" "sectors fa = sectors ?a \<union> sectors ?b"
    "nfree fa = nfree ?a + nfree ?b" "f_nfree fb = 0" "f_next fa = f_next ?a"
    using move_back_all [OF nodes _ t] by metis
  let ?a1 = "a\<lparr>fr_free := fa\<rparr>" and ?s0 = "queue_free e (fr_this b) s"
  have half: "nfree ?a < NALLOC div 2" "\<not> NALLOC div 2 < nfree ?a" using n(1,2) by simp_all
  have "unat (of_nat (NALLOC div 2) - f_nfree ?a :: uint) = unat (f_nfree ?b)"
    using n(1) by (simp add: nfree_def NALLOC_def unat_sub_u32)
  then have cnt: "of_nat (NALLOC div 2) - f_nfree ?a = f_nfree ?b" by (simp only: word_unat_eq_iff)
  have p: "pull_back e a [b, c] s = Some (Inr (?a1, [c], ?s0))"
    using half(1) m(1,3,4) n(1)
    by (subst pull_back.simps, simp add: cnt, simp add: pull_back.simps [of e "a\<lparr>fr_free := fa\<rparr>" "[c]"])
  have cn: "compress_nodes e [] (freelists s) s = Some (Inr (?s0\<lparr>freelists := [?a1, c]\<rparr>))"
    unfolding s(2) using p half(2) by (subst compress_nodes.simps) (simp add: compress_last [OF n(3)])
  let ?s1 = "write_nodes [?a1, c] None (?s0\<lparr>freelists := [?a1, c]\<rparr>)"
  have q: "disk (queue_free e d s) = disk s" for d by (simp add: queue_free_def)
  have r: "compress_freelist e s = Some (Inr ?s1)"
    unfolding compress_freelist_def cn using lk(3) by (simp add: write_freelist_def)
  have d: "disk ?s1 (fr_this a) = fa" "disk ?s1 (fr_this b) = ?b" "disk ?s1 (fr_this c) = fr_free c"
    using lk by (auto simp: write_sec_def q Let_def)
  have lin: "linked [?a1, b, c]" using lk m(5) by simp
  have "read_chain (disk ?s1) (fr_this ?a1) [] = Some ([] @ [?a1, b, c])"
    by (rule read_chain_linked [OF lin]) (use lk d in auto)
  then have "map_option freelists (init_block (disk ?s1)) = Some [?a1, b, c]"
    using lk(4) by (simp add: init_block_def)
  moreover have "freelists ?s1 = [?a1, c]" by (simp add: write_sec_def Let_def)
  ultimately show ?thesis using r m(2) by (intro exI [of _ ?a1] exI [of _ ?s1]) simp
qed

definition chain_runs :: "alloc list" where
  "chain_runs = map (\<lambda>i. \<lparr>a_start = of_nat (100 + 4 * i), a_len = 1\<rparr>) [0..<30]"

definition chain_a :: free where
  "chain_a = \<lparr>f_next = 50, f_nfree = 30, f_free = vf_slots chain_runs\<rparr>"

definition chain_b :: free where
  "chain_b = \<lparr>f_next = 60, f_nfree = 1, f_free = vf_slots [\<lparr>a_start = 1000, a_len = 5\<rparr>]\<rparr>"

definition chain_c :: free where
  "chain_c = \<lparr>f_next = 0, f_nfree = 0, f_free = vf_slots []\<rparr>"

definition chain_demo :: vfree where
  "chain_demo = \<lparr>freelists = [\<lparr>fr_this = FREE_SEC, fr_free = chain_a\<rparr>, \<lparr>fr_this = 50, fr_free = chain_b\<rparr>, \<lparr>fr_this = 60, fr_free = chain_c\<rparr>],
     free_pend = [], lost_blocks = 0, disk = (\<lambda>d. if d = 50 then chain_b else if d = 60 then chain_c else chain_a)\<rparr>"

lemma chain_runs:
  "length chain_runs = 30" "ents_ok (map rent_of chain_runs)" "\<And>x. x \<in> cover (map rent_of chain_runs) \<Longrightarrow> x < 1000"
  "a \<in> set chain_runs \<Longrightarrow> unat (a_start a) + unat (a_len a) < 1000"
proof -
  show l: "length chain_runs = 30" by (simp add: chain_runs_def)
  have u: "unat (of_nat (100 + 4 * i) :: ulong) = 100 + 4 * i" if "i < 30" for i
    using that by (intro unat_of_nat_u32) simp
  have n: "lo (map rent_of chain_runs ! i) = 100 + 4 * i" "hi (map rent_of chain_runs ! i) = 101 + 4 * i"
    if "i < length (map rent_of chain_runs)" for i
    using that u [of i] by (simp_all add: chain_runs_def)
  show "ents_ok (map rent_of chain_runs)"
    unfolding ents_ok_def sorted_wrt_iff_nth_less list_all_length ent_ok_def using n l by simp
  show b: "unat (a_start a) + unat (a_len a) < 1000" if "a \<in> set chain_runs" for a
    using that u by (auto simp: chain_runs_def)
  show "x < 1000" if "x \<in> cover (map rent_of chain_runs)" for x
    using that by (auto dest!: b elim!: coverE)
qed

lemma chain_nodes:
  "free_ok chain_a" "free_ok chain_b" "free_ok chain_c" "nfree chain_a = 30" "nfree chain_b = 1" "nfree chain_c = 0"
  "f_next chain_a = 50" "f_next chain_b = 60" "f_next chain_c = 0" "sectors chain_b = {1000..<1005}" "sectors chain_c = {}"
  "\<And>x. x \<in> sectors chain_a \<Longrightarrow> x < 1000"
proof -
  show "nfree chain_a = 30" "nfree chain_b = 1" "nfree chain_c = 0"
    by (simp_all add: nfree_def chain_a_def chain_b_def chain_c_def)
  then have f: "fents chain_a = chain_runs" "fents chain_b = [\<lparr>a_start = 1000, a_len = 5\<rparr>]" "fents chain_c = []"
    using chain_runs(1) by (simp_all add: fents_def chain_a_def chain_b_def chain_c_def take_vf_slots)
  show "free_ok chain_a" "free_ok chain_b" "free_ok chain_c"
    using chain_runs(1,2) f by (simp_all add: free_ok_def chain_a_def chain_b_def chain_c_def nfree_def length_vf_slots NALLOC_def
        ents_ok_simps ent_ok_rent_of)
  show "f_next chain_a = 50" "f_next chain_b = 60" "f_next chain_c = 0" by (simp_all add: chain_a_def chain_b_def chain_c_def)
  show "sectors chain_b = {1000..<1005}" "sectors chain_c = {}" using f by (simp_all add: sectors_def)
  show "x < 1000" if "x \<in> sectors chain_a" for x
    using that f by (auto simp: sectors_def intro: chain_runs(3))
qed

lemma chain_demo:
  "vfs_ok chain_demo" "freelists chain_demo = [\<lparr>fr_this = FREE_SEC, fr_free = chain_a\<rparr>, \<lparr>fr_this = 50, fr_free = chain_b\<rparr>, \<lparr>fr_this = 60, fr_free = chain_c\<rparr>]"
  "apart chain_a chain_b"
proof -
  show l: "freelists chain_demo = [\<lparr>fr_this = FREE_SEC, fr_free = chain_a\<rparr>, \<lparr>fr_this = 50, fr_free = chain_b\<rparr>, \<lparr>fr_this = 60, fr_free = chain_c\<rparr>]"
    by (simp add: chain_demo_def)
  have b: "\<forall>x\<in>sectors chain_a. \<forall>y\<in>{1000..<1005 :: nat}. x < y"
    using chain_nodes(12) by fastforce
  show "vfs_ok chain_demo"
    unfolding vfs_ok_def l using b
    by (simp add: nodes_ok_def before_def chain_nodes chain_demo_def FREE_SEC_def)
  have "last_ent chain_a \<in> set chain_runs"
    using fents_last(2) [OF chain_nodes(1)] chain_nodes(4) by (simp add: fents_def chain_a_def take_vf_slots chain_runs(1))
  from chain_runs(4) [OF this] have "unat (a_start (last_ent chain_a)) + unat (a_len (last_ent chain_a)) < 1000" .
  then have "unat (a_start (last_ent chain_a) + a_len (last_ent chain_a)) < 1000"
    by (subst unat_add_u32) simp_all
  moreover have "a_start (f_free chain_b ! 0) = 1000" by (simp add: chain_b_def vf_slots_def)
  ultimately show "apart chain_a chain_b" by (auto simp: apart_def touch_def)
qed

lemma vstafs_stale_chain_witness:
  "\<exists>a1 s1. compress_freelist vf_demo_env chain_demo = Some (Inr s1) \<and> freelists s1 = [a1, \<lparr>fr_this = 60, fr_free = chain_c\<rparr>] \<and>
    {1000..<1005} \<subseteq> sectors (fr_free a1) \<and>
    map_option freelists (init_block (disk s1)) = Some [a1, \<lparr>fr_this = 50, fr_free = chain_b\<rparr>, \<lparr>fr_this = 60, fr_free = chain_c\<rparr>]"
proof -
  have "nfree chain_a + nfree chain_b = NALLOC div 2" "0 < nfree chain_b" "nfree chain_c \<le> NALLOC div 2"
    by (simp_all add: chain_nodes NALLOC_def)
  then obtain a1 s1 where "compress_freelist vf_demo_env chain_demo = Some (Inr s1)" "freelists s1 = [a1, \<lparr>fr_this = 60, fr_free = chain_c\<rparr>]"
    "sectors (fr_free a1) = sectors chain_a \<union> sectors chain_b"
    "map_option freelists (init_block (disk s1)) = Some [a1, \<lparr>fr_this = 50, fr_free = chain_b\<rparr>, \<lparr>fr_this = 60, fr_free = chain_c\<rparr>]"
    using vstafs_stale_chain [OF chain_demo(1,2), of vf_demo_env] chain_demo(3) by auto
  then show ?thesis using chain_nodes(10) by (intro exI [of _ a1] exI [of _ s1]) simp
qed

end
