(* ===== verification/Exitgrp.thy ===== *)
theory Exitgrp
  imports Prelude
begin

text \<open>
  Exit groups, \<open>src/src/os/kern/exitgrp.c\<close>: the children of a process leave their exit status here, its
  threads wait for them. Calls are cut where a thread can sleep. The semaphore is what
  \<open>Mutex_Spec\<close> shows of one: a count that goes down with each \<open>p_sema\<close> and up with each \<open>v_sema\<close>, and the
  threads asleep on it in the order they came; those that were woken and did not run yet are kept
  beside. The kernel is built with \<open>DEBUG\<close>: a failed assertion is \<open>Panic\<close>.
\<close>

subsection \<open>Data\<close>

record fsem =
  f_cnt :: int
  f_sleep :: "ptr list"
  f_go :: "ptr list"

definition p_fsem :: "ptr \<Rightarrow> fsem \<Rightarrow> bool \<times> fsem" where
  "p_fsem t s =
     (if 0 < f_cnt s then (True, s\<lparr>f_cnt := f_cnt s - 1\<rparr>)
      else (False, s\<lparr>f_cnt := f_cnt s - 1, f_sleep := f_sleep s @ [t]\<rparr>))"

definition v_fsem :: "fsem \<Rightarrow> fsem" where
  "v_fsem s =
     (case f_sleep s of
        [] \<Rightarrow> s\<lparr>f_cnt := f_cnt s + 1\<rparr>
      | t # ts \<Rightarrow> s\<lparr>f_cnt := f_cnt s + 1, f_sleep := ts, f_go := f_go s @ [t]\<rparr>)"

text \<open>A thread that was woken goes on; one that is asleep is interrupted.\<close>

definition go_fsem :: "ptr \<Rightarrow> fsem \<Rightarrow> fsem option" where
  "go_fsem t s = (if t \<in> set (f_go s) then Some (s\<lparr>f_go := remove1 t (f_go s)\<rparr>) else None)"

definition intr_fsem :: "ptr \<Rightarrow> fsem \<Rightarrow> fsem option" where
  "intr_fsem t s =
     (if t \<in> set (f_sleep s) then Some (s\<lparr>f_cnt := f_cnt s + 1, f_sleep := remove1 t (f_sleep s)\<rparr>) else None)"

record exitst =
  e_pid :: ulong
  e_code :: uint
  e_usr :: ulong
  e_sys :: ulong
  e_event :: string

record exitgrp =
  e_parent :: ptr
  e_sema :: fsem
  e_stat :: "exitst list"
  e_refs :: ulong

text \<open>What the group uses of a process.\<close>

record eproc =
  p_pid :: ulong
  p_usr :: ulong
  p_sys :: ulong
  p_event :: string

subsection \<open>References\<close>

definition parent_exitgrp :: "(ptr \<Rightarrow> eproc) \<Rightarrow> exitgrp \<Rightarrow> ulong" where
  "parent_exitgrp procs e = (if e_parent e \<noteq> NULL then p_pid (procs (e_parent e)) else - 1)"

definition alloc_exitgrp :: "ptr \<Rightarrow> exitgrp" where
  "alloc_exitgrp parent =
     \<lparr>e_parent = parent, e_sema = \<lparr>f_cnt = 0, f_sleep = [], f_go = []\<rparr>, e_stat = [],
      e_refs = (if parent \<noteq> NULL then 1 else 0)\<rparr>"

definition ref_exitgrp :: "exitgrp \<Rightarrow> exitgrp outcome" where
  "ref_exitgrp e = (if e_refs e + 1 = 0 then Inl Panic else Inr (e\<lparr>e_refs := e_refs e + 1\<rparr>))"

text \<open>\<open>None\<close>: the group was freed.\<close>

definition deref_exitgrp :: "exitgrp \<Rightarrow> exitgrp option outcome" where
  "deref_exitgrp e =
     (if e_refs e = 0 then Inl Panic
      else
        (let e1 = e\<lparr>e_refs := e_refs e - 1\<rparr>
         in if 0 < e_refs e1 then Inr (Some e1)
            else if e_parent e1 \<noteq> NULL \<or> e_stat e1 \<noteq> [] then Inl Panic
            else Inr None))"

definition noparent_exitgrp :: "exitgrp \<Rightarrow> exitgrp option outcome" where
  "noparent_exitgrp e =
     (if e_parent e = NULL then Inl Panic
      else deref_exitgrp (e\<lparr>e_parent := NULL, e_stat := []\<rparr>))"

subsection \<open>Posting\<close>

text \<open>The look without the lock, before memory is allocated (which may sleep): the status to queue.\<close>

definition post_begin :: "eproc \<Rightarrow> uint \<Rightarrow> exitgrp \<Rightarrow> exitst option" where
  "post_begin p code e =
     (if e_parent e = NULL then None
      else Some \<lparr>e_pid = p_pid p, e_code = code, e_usr = p_usr p, e_sys = p_sys p, e_event = p_event p\<rparr>)"

text \<open>Under the lock; a status whose parent left meanwhile is freed.\<close>

definition post_end :: "exitst \<Rightarrow> exitgrp \<Rightarrow> exitgrp" where
  "post_end es e =
     (if e_parent e \<noteq> NULL then e\<lparr>e_stat := es # e_stat e, e_sema := v_fsem (e_sema e)\<rparr> else e)"

definition post_exitgrp :: "eproc \<Rightarrow> uint \<Rightarrow> exitgrp \<Rightarrow> exitgrp" where
  "post_exitgrp p code e = (case post_begin p code e of None \<Rightarrow> e | Some es \<Rightarrow> post_end es e)"

subsection \<open>Waiting\<close>

text \<open>
  \<open>Child\<close>: the call returns a status. \<open>NoChild\<close>: it returns null. \<open>Asleep\<close>: it waits for a child.
  \<open>Holding\<close>: it has a status and is asleep in the \<open>p_sema\<close> that keeps the count right.
\<close>

datatype wres = Child exitst | NoChild | Asleep | Holding exitst

text \<open>After the sleep: a message is expected.\<close>

definition wait_take :: "exitgrp \<Rightarrow> (wres \<times> exitgrp) outcome" where
  "wait_take e =
     (case e_stat e of
        [] \<Rightarrow> Inl Panic
      | es # ess \<Rightarrow> Inr (Child es, e\<lparr>e_stat := ess\<rparr>))"

definition wait_exitgrp :: "ptr \<Rightarrow> bool \<Rightarrow> exitgrp \<Rightarrow> (wres \<times> exitgrp) outcome" where
  "wait_exitgrp t block e =
     (if e_parent e = NULL then Inl Panic
      else
        (case e_stat e of
           es # ess \<Rightarrow>
             (let (got, s) = p_fsem t (e_sema e)
              in Inr (if got then Child es else Holding es, e\<lparr>e_stat := ess, e_sema := s\<rparr>))
         | [] \<Rightarrow>
             if e_refs e = 1 \<or> \<not> block then Inr (NoChild, e)
             else
               (let (got, s) = p_fsem t (e_sema e)
                in if got then wait_take (e\<lparr>e_sema := s\<rparr>) else Inr (Asleep, e\<lparr>e_sema := s\<rparr>))))"

text \<open>A thread asleep runs again; \<open>None\<close> while nobody woke it.\<close>

definition wait_woken :: "ptr \<Rightarrow> exitgrp \<Rightarrow> (wres \<times> exitgrp) outcome option" where
  "wait_woken t e = map_option (\<lambda>s. wait_take (e\<lparr>e_sema := s\<rparr>)) (go_fsem t (e_sema e))"

definition wait_intr :: "ptr \<Rightarrow> exitgrp \<Rightarrow> exitgrp option" where
  "wait_intr t e = map_option (\<lambda>s. e\<lparr>e_sema := s\<rparr>) (intr_fsem t (e_sema e))"

definition hold_woken :: "ptr \<Rightarrow> exitst \<Rightarrow> exitgrp \<Rightarrow> (wres \<times> exitgrp) option" where
  "hold_woken t es e = map_option (\<lambda>s. (Child es, e\<lparr>e_sema := s\<rparr>)) (go_fsem t (e_sema e))"

text \<open>The system call over it: \<open>waits\<close> of \<open>proc.c\<close>, for a call that did not sleep or was woken.\<close>

datatype wstatus = WErr string | WCode uint "exitst option"

definition waits_end :: "bool \<Rightarrow> bool \<Rightarrow> wres \<Rightarrow> wstatus option" where
  "waits_end w copied r =
     (case r of
        Child es \<Rightarrow> Some (if w \<and> \<not> copied then WErr ''fault'' else WCode (e_code es) (if w then Some es else None))
      | NoChild \<Rightarrow> Some (WErr ''no entry'')
      | Asleep \<Rightarrow> None
      | Holding es \<Rightarrow> None)"

end
