(* ===== verification/Exitgrp_Spec.thy ===== *)
theory Exitgrp_Spec
  imports Exitgrp "HOL-Library.Multiset"
begin

text \<open>
  Exit groups over the histories of the children that post and the threads of the parent that wait:
  every status is delivered once, and when a thread that was woken finds none.
\<close>

subsection \<open>Histories\<close>

text \<open>
  \<open>ws\<close> are the threads that wait for a child, \<open>hs\<close> those that have a status and are asleep in the last \<open>p_sema\<close>;
  \<open>P\<close> is what was posted and \<open>R\<close> what calls returned.
\<close>

inductive eg_run :: "exitgrp \<Rightarrow> ptr list \<Rightarrow> (ptr \<times> exitst) list \<Rightarrow> exitst multiset \<Rightarrow> exitst multiset \<Rightarrow> bool" where
  start: "p \<noteq> NULL \<Longrightarrow> eg_run (alloc_exitgrp p) [] [] {#} {#}"
| ref: "eg_run e ws hs P R \<Longrightarrow> ref_exitgrp e = Inr e1 \<Longrightarrow> eg_run e1 ws hs P R"
| deref: "eg_run e ws hs P R \<Longrightarrow> deref_exitgrp e = Inr (Some e1) \<Longrightarrow> eg_run e1 ws hs P R"
| post: "eg_run e ws hs P R \<Longrightarrow> eg_run (post_end es e) ws hs (add_mset es P) R"
| wait: "eg_run e ws hs P R \<Longrightarrow> t \<notin> set ws \<Longrightarrow> t \<notin> fst ` set hs \<Longrightarrow> wait_exitgrp t b e = Inr (r, e1) \<Longrightarrow>
    eg_run e1 (if r = Asleep then t # ws else ws) (case r of Holding es \<Rightarrow> (t, es) # hs | _ \<Rightarrow> hs) P
      (case r of Child es \<Rightarrow> add_mset es R | _ \<Rightarrow> R)"
| woken: "eg_run e ws hs P R \<Longrightarrow> t \<in> set ws \<Longrightarrow> wait_woken t e = Some (Inr (Child es, e1)) \<Longrightarrow>
    eg_run e1 (remove1 t ws) hs P (add_mset es R)"
| intr: "eg_run e ws hs P R \<Longrightarrow> t \<in> set ws \<Longrightarrow> wait_intr t e = Some e1 \<Longrightarrow> eg_run e1 (remove1 t ws) hs P R"
| released: "eg_run e ws hs P R \<Longrightarrow> (t, es) \<in> set hs \<Longrightarrow> hold_woken t es e = Some (r, e1) \<Longrightarrow>
    eg_run e1 ws (remove1 (t, es) hs) P (add_mset es R)"

text \<open>
  The count is the statuses less the threads that wait for one; the threads in either sleep are those of the
  semaphore; and every status posted was returned, is queued or is held.
\<close>

definition eg_inv :: "exitgrp \<Rightarrow> ptr list \<Rightarrow> (ptr \<times> exitst) list \<Rightarrow> exitst multiset \<Rightarrow> exitst multiset \<Rightarrow> bool" where
  "eg_inv e ws hs P R \<longleftrightarrow> e_parent e \<noteq> NULL \<and>
     f_cnt (e_sema e) = int (length (e_stat e)) - int (length ws) \<and>
     int (length (f_sleep (e_sema e))) = max 0 (- f_cnt (e_sema e)) \<and>
     distinct (f_sleep (e_sema e) @ f_go (e_sema e)) \<and>
     mset (f_sleep (e_sema e) @ f_go (e_sema e)) = mset (ws @ map fst hs) \<and>
     P = R + mset (e_stat e) + mset (map snd hs)"

lemma eg_inv_refs: "eg_inv e ws hs P R \<Longrightarrow> eg_inv (e\<lparr>e_refs := n\<rparr>) ws hs P R"
  by (simp add: eg_inv_def)

lemma eg_inv_post:
  "eg_inv e ws hs P R \<Longrightarrow> eg_inv (post_end es e) ws hs (add_mset es P) R"
  by (cases "f_sleep (e_sema e)") (auto simp: eg_inv_def post_end_def v_fsem_def max_def split: if_splits)

lemma eg_inv_hold:
  assumes "eg_inv e ws hs P R" "t \<notin> set ws" "t \<notin> fst ` set hs" "e_stat e = es # ess"
    and "p_fsem t (e_sema e) = (got, s)"
  shows "eg_inv (e\<lparr>e_stat := ess, e_sema := s\<rparr>) ws (if got then hs else (t, es) # hs) P (if got then add_mset es R else R)"
proof -
  have "t \<notin># mset (ws @ map fst hs)" using assms(2,3) by auto
  then have "t \<notin> set (f_sleep (e_sema e) @ f_go (e_sema e))"
    using assms(1) unfolding eg_inv_def by (metis set_mset_mset)
  then show ?thesis using assms(1,4,5) by (auto simp: eg_inv_def p_fsem_def max_def split: if_splits)
qed

lemma eg_inv_wait:
  assumes "eg_inv e ws hs P R" "t \<notin> set ws" "t \<notin> fst ` set hs" "e_stat e = []" "p_fsem t (e_sema e) = (got, s)"
  shows "\<not> got" "eg_inv (e\<lparr>e_sema := s\<rparr>) (t # ws) hs P R"
proof -
  have "t \<notin># mset (ws @ map fst hs)" using assms(2,3) by auto
  then have "t \<notin> set (f_sleep (e_sema e) @ f_go (e_sema e))"
    using assms(1) unfolding eg_inv_def by (metis set_mset_mset)
  then show "\<not> got" "eg_inv (e\<lparr>e_sema := s\<rparr>) (t # ws) hs P R"
    using assms(1,4,5) by (auto simp: eg_inv_def p_fsem_def max_def split: if_splits)
qed

lemma len_remove1:
  assumes "t \<in> set ws"
  shows "int (length (remove1 t ws)) = int (length ws) - 1"
proof -
  have "0 < length ws" using assms by (rule length_pos_if_in_set)
  moreover have "length (remove1 t ws) = length ws - 1" using assms by (simp add: length_remove1)
  ultimately show ?thesis by linarith
qed

lemma mset_remove1_add: "t \<in> set ws \<Longrightarrow> mset (remove1 t ws) + M = mset ws + M - {#t#}"
  by (simp add: union_commute)

lemma mset_sub_added: "A + add_mset t X - {#t#} = A + X"
  by simp

lemma eg_inv_go:
  assumes "eg_inv e ws hs P R" "go_fsem t (e_sema e) = Some s"
  shows "t \<in> set (f_go (e_sema e))" "f_cnt s = f_cnt (e_sema e)" "f_sleep s = f_sleep (e_sema e)"
    "distinct (f_sleep s @ f_go s)" "mset (f_sleep s @ f_go s) = mset (ws @ map fst hs) - {#t#}"
proof -
  show g: "t \<in> set (f_go (e_sema e))" "f_cnt s = f_cnt (e_sema e)" "f_sleep s = f_sleep (e_sema e)"
    using assms(2) by (auto simp: go_fsem_def split: if_splits)
  have s: "f_go s = remove1 t (f_go (e_sema e))" using assms(2) by (auto simp: go_fsem_def split: if_splits)
  have d: "distinct (f_sleep (e_sema e) @ f_go (e_sema e))" "mset (f_sleep (e_sema e) @ f_go (e_sema e)) = mset (ws @ map fst hs)"
    using assms(1) by (simp_all add: eg_inv_def)
  then show "distinct (f_sleep s @ f_go s)" unfolding g(3) s by (auto dest: notin_set_remove1 simp: set_remove1_eq)
  have "mset (f_sleep s @ f_go s) = mset (f_sleep (e_sema e) @ f_go (e_sema e)) - {#t#}"
    unfolding g(3) s using g(1) by simp
  then show "mset (f_sleep s @ f_go s) = mset (ws @ map fst hs) - {#t#}" unfolding d(2) .
qed

lemma eg_inv_woken:
  assumes i: "eg_inv e ws hs P R" and t: "t \<in> set ws" and w: "wait_woken t e = Some (Inr (Child es, e1))"
  shows "eg_inv e1 (remove1 t ws) hs P (add_mset es R)"
proof -
  obtain s where s0: "go_fsem t (e_sema e) = Some s" "wait_take (e\<lparr>e_sema := s\<rparr>) = Inr (Child es, e1)"
    using w by (auto simp: wait_woken_def)
  then obtain ess where ess: "e_stat e = es # ess" by (cases "e_stat e") (auto simp: wait_take_def)
  then have "e1 = e\<lparr>e_sema := s, e_stat := ess\<rparr>" using s0(2) by (simp add: wait_take_def)
  note s = s0(1) ess this
  note g = eg_inv_go [OF i s(1)]
  have m: "mset (f_sleep s @ f_go s) = mset (remove1 t ws @ map fst hs)"
    unfolding mset_append g(5) [unfolded mset_append] mset_remove1_add [OF t] by (rule refl)
  have c: "P = add_mset es R + mset ess + mset (map snd hs)"
    using i s(2) by (simp add: eg_inv_def)
  show ?thesis
    unfolding eg_inv_def s(3) using i g(2-4) m c s(2) len_remove1 [OF t] by (simp add: eg_inv_def)
qed

lemma eg_inv_intr:
  assumes i: "eg_inv e ws hs P R" and t: "t \<in> set ws" and w: "wait_intr t e = Some e1"
  shows "eg_inv e1 (remove1 t ws) hs P R"
proof -
  let ?s = "e_sema e"
  have s: "t \<in> set (f_sleep ?s)" "e1 = e\<lparr>e_sema := ?s\<lparr>f_cnt := f_cnt ?s + 1, f_sleep := remove1 t (f_sleep ?s)\<rparr>\<rparr>"
    using w by (auto simp: wait_intr_def intr_fsem_def split: if_splits)
  have p: "0 < length (f_sleep ?s)" using s(1) by (rule length_pos_if_in_set)
  have d: "distinct (f_sleep ?s @ f_go ?s)" "mset (f_sleep ?s @ f_go ?s) = mset (ws @ map fst hs)"
    "int (length (f_sleep ?s)) = max 0 (- f_cnt ?s)"
    using i by (simp_all add: eg_inv_def)
  have m: "mset (remove1 t (f_sleep ?s) @ f_go ?s) = mset (remove1 t ws @ map fst hs)"
    unfolding mset_append mset_remove1_add [OF t] mset_remove1_add [OF s(1)] d(2) [unfolded mset_append] by (rule refl)
  have "distinct (remove1 t (f_sleep ?s) @ f_go ?s)"
    using d(1) by (auto dest: notin_set_remove1)
  moreover have "int (length (remove1 t (f_sleep ?s))) = max 0 (- (f_cnt ?s + 1))"
    using d(3) p len_remove1 [OF s(1)] by (simp add: max_def split: if_splits)
  ultimately show ?thesis
    unfolding eg_inv_def s(2) using i m len_remove1 [OF t] by (simp add: eg_inv_def)
qed

lemma eg_inv_done:
  assumes i: "eg_inv e ws hs P R" and t: "(t, es) \<in> set hs" and w: "hold_woken t es e = Some (r, e1)"
  shows "eg_inv e1 ws (remove1 (t, es) hs) P (add_mset es R)"
proof -
  obtain s where s: "go_fsem t (e_sema e) = Some s" "e1 = e\<lparr>e_sema := s\<rparr>"
    using w by (auto simp: hold_woken_def)
  note g = eg_inv_go [OF i s(1)]
  have h: "mset hs = add_mset (t, es) (mset (remove1 (t, es) hs))" using t by simp
  have m: "mset (map f hs) = add_mset (f (t, es)) (mset (map f (remove1 (t, es) hs)))" for f
    using arg_cong [OF h, of "image_mset f"] by simp
  have "mset (f_sleep s @ f_go s) = mset (ws @ map fst (remove1 (t, es) hs))"
    unfolding mset_append g(5) [unfolded mset_append] m fst_conv by (rule mset_sub_added)
  moreover have "P = add_mset es R + mset (e_stat e) + mset (map snd (remove1 (t, es) hs))"
    using i m [of snd] by (simp add: eg_inv_def)
  ultimately show ?thesis using i g(2-4) unfolding s(2) eg_inv_def by simp
qed

lemma eg_run_inv: "eg_run e ws hs P R \<Longrightarrow> eg_inv e ws hs P R"
proof (induction rule: eg_run.induct)
  case (start p)
  then show ?case by (simp add: eg_inv_def alloc_exitgrp_def)
next
  case (ref e ws hs P R e1)
  then show ?case by (auto simp: ref_exitgrp_def split: if_splits intro: eg_inv_refs)
next
  case (deref e ws hs P R e1)
  then show ?case by (auto simp: deref_exitgrp_def Let_def split: if_splits intro: eg_inv_refs)
next
  case (post e ws hs P R es)
  then show ?case by (blast intro: eg_inv_post)
next
  case (wait e ws hs P R t b r e1)
  obtain got s where p: "p_fsem t (e_sema e) = (got, s)" by (cases "p_fsem t (e_sema e)")
  have par: "e_parent e \<noteq> NULL" using wait.IH by (simp add: eg_inv_def)
  show ?case
  proof (cases "e_stat e")
    case (Cons es ess)
    then have "r = (if got then Child es else Holding es)" "e1 = e\<lparr>e_stat := ess, e_sema := s\<rparr>"
      using wait.hyps(4) p par by (auto simp: wait_exitgrp_def)
    then show ?thesis using eg_inv_hold [OF wait.IH wait.hyps(2,3) Cons p] by auto
  next
    case Nil
    show ?thesis
    proof (cases "e_refs e = 1 \<or> \<not> b")
      case True
      then have "r = NoChild" "e1 = e" using wait.hyps(4) Nil par by (auto simp: wait_exitgrp_def)
      then show ?thesis using wait.IH by simp
    next
      case False
      note w = eg_inv_wait [OF wait.IH wait.hyps(2,3) Nil p]
      then have "r = Asleep" "e1 = e\<lparr>e_sema := s\<rparr>" using wait.hyps(4) Nil False p par by (auto simp: wait_exitgrp_def)
      then show ?thesis using w(2) by simp
    qed
  qed
next
  case (woken e ws hs P R t es e1)
  then show ?case by (blast intro: eg_inv_woken)
next
  case (intr e ws hs P R t e1)
  then show ?case by (blast intro: eg_inv_intr)
next
  case (released e ws hs P R t es r e1)
  then show ?case by (blast intro: eg_inv_done)
qed

subsection \<open>Properties\<close>

text \<open>
  C18: every exit status is delivered once: in every history of an exit group what was posted is what calls
  returned, what is queued and what is held by a thread about to return; and the count of the semaphore is
  the number of queued statuses less the threads that wait.
\<close>

theorem exit_accounting:
  assumes "eg_run e ws hs P R"
  shows "P = R + mset (e_stat e) + mset (map snd hs) \<and> f_cnt (e_sema e) = int (length (e_stat e)) - int (length ws)"
  using eg_run_inv [OF assms] by (simp add: eg_inv_def)

text \<open>
  C19: while no thread is held up with a status in the last \<open>p_sema\<close> of the call, a thread woken from its wait
  finds a status and returns it.
\<close>

theorem exit_wait_returns:
  assumes "eg_run e ws [] P R" "t \<in> set (f_go (e_sema e))"
  shows "\<exists>es e1. wait_woken t e = Some (Inr (Child es, e1)) \<and> es \<in># P"
proof -
  note i = eg_run_inv [OF assms(1), unfolded eg_inv_def]
  have "length (f_sleep (e_sema e)) + length (f_go (e_sema e)) = length ws"
    using i by (metis append_Nil2 length_append list.simps(8) size_mset)
  moreover have "0 < length (f_go (e_sema e))" using assms(2) by (rule length_pos_if_in_set)
  ultimately have "e_stat e \<noteq> []" using i by (auto simp: max_def split: if_splits)
  then obtain es ess where s: "e_stat e = es # ess" by (cases "e_stat e") auto
  then have "wait_woken t e = Some (Inr (Child es, e\<lparr>e_sema := (e_sema e)\<lparr>f_go := remove1 t (f_go (e_sema e))\<rparr>, e_stat := ess\<rparr>))"
    using assms(2) by (simp add: wait_woken_def go_fsem_def wait_take_def)
  moreover have "es \<in># P" using i s by auto
  ultimately show ?thesis by blast
qed

text \<open>
  C20: two threads of a parent that wait can stop the kernel. When one is asleep and a child posts its status, a
  second one that calls \<open>wait_exitgrp\<close> before the first runs takes the status, and is held up; the
  first finds no status and fails the assertion (without it, it follows a null pointer).
\<close>

theorem exit_race:
  assumes "eg_run e [w] [] P R" "w \<in> set (f_sleep (e_sema e))"
  shows "\<exists>e2. wait_exitgrp t b (post_end es e) = Inr (Holding es, e2) \<and> wait_woken w e2 = Some (Inl Panic)"
proof -
  note i = eg_run_inv [OF assms(1), unfolded eg_inv_def]
  then have m: "mset (f_sleep (e_sema e) @ f_go (e_sema e)) = {#w#}" by simp
  then have l: "length (f_sleep (e_sema e)) + length (f_go (e_sema e)) = 1"
    by (metis length_append size_mset size_single)
  moreover have "0 < length (f_sleep (e_sema e))" using assms(2) by (rule length_pos_if_in_set)
  ultimately have "length (f_go (e_sema e)) = 0" "length (f_sleep (e_sema e)) = 1" by linarith+
  then have g: "f_go (e_sema e) = []" "length (f_sleep (e_sema e)) = 1" by simp_all
  then have s: "f_sleep (e_sema e) = [w]" using assms(2) by (auto simp: length_Suc_conv)
  have c: "f_cnt (e_sema e) = - 1" "e_stat e = []" "e_parent e \<noteq> NULL"
    using i g(2) by (auto simp: max_def split: if_splits)
  show ?thesis
    using s c g(1)
    by (simp add: post_end_def v_fsem_def wait_exitgrp_def p_fsem_def wait_woken_def go_fsem_def wait_take_def)
qed

definition exit_demo :: exitgrp where
  "exit_demo = \<lparr>e_parent = 5, e_sema = \<lparr>f_cnt = - 1, f_sleep = [7], f_go = []\<rparr>, e_stat = [], e_refs = 2\<rparr>"

definition exit_demo_st :: exitst where
  "exit_demo_st = \<lparr>e_pid = 12, e_code = 3, e_usr = 0, e_sys = 0, e_event = []\<rparr>"

lemma exit_demo_run: "eg_run exit_demo [7] [] {#} {#}"
proof -
  have r: "ref_exitgrp (alloc_exitgrp 5) = Inr \<lparr>e_parent = 5, e_sema = \<lparr>f_cnt = 0, f_sleep = [], f_go = []\<rparr>, e_stat = [], e_refs = 2\<rparr>"
    by (simp add: ref_exitgrp_def alloc_exitgrp_def)
  have "wait_exitgrp 7 True \<lparr>e_parent = 5, e_sema = \<lparr>f_cnt = 0, f_sleep = [], f_go = []\<rparr>, e_stat = [], e_refs = 2\<rparr> = Inr (Asleep, exit_demo)"
    by (simp add: wait_exitgrp_def p_fsem_def exit_demo_def)
  from eg_run.wait [OF eg_run.ref [OF eg_run.start r] _ _ this] show ?thesis by simp
qed

lemma exit_accounting_witness: "\<exists>es. mset [es] = {#} + mset (e_stat (post_end es exit_demo)) + {#} \<and> f_cnt (e_sema (post_end es exit_demo)) = 0"
  using exit_accounting [OF eg_run.post [OF exit_demo_run, of exit_demo_st]]
  by (intro exI [of _ exit_demo_st]) (simp add: exit_demo_def post_end_def)

lemma exit_wait_returns_witness: "\<exists>es e1. wait_woken 7 (post_end exit_demo_st exit_demo) = Some (Inr (Child es, e1)) \<and> es = exit_demo_st"
  using exit_wait_returns [OF eg_run.post [OF exit_demo_run, of exit_demo_st], of 7]
  by (simp add: exit_demo_def post_end_def v_fsem_def)

lemma exit_race_witness:
  "\<exists>e2. wait_exitgrp 8 True (post_end exit_demo_st exit_demo) = Inr (Holding exit_demo_st, e2) \<and> wait_woken 7 e2 = Some (Inl Panic)"
  using exit_race [OF exit_demo_run] by (simp add: exit_demo_def)

end
