(* ===== verification/Event.thy ===== *)
theory Event
  imports Mutex Perm Hash Srvlib
begin

text \<open>
  Processes over threads: events (\<open>src/src/os/kern/event.c\<close>), process groups (the same file) and the system call
  on scheduling (\<open>sched_op\<close> of \<open>sched.c\<close>). The kernel below is that of \<open>Kern\<close>: threads, run queues and semaphores.
  The semaphores that protect a process, a group and the table of processes are released before each
  function ends, so that only the interruption of the wait for one is part of the model, as a
  decision of the environment.
\<close>

subsection \<open>Data\<close>

definition P_SIG :: uchar where "P_SIG = 2"

definition T_EPHEM :: uchar where "T_EPHEM = 0x10"

definition PG_GROWTH :: nat where "PG_GROWTH = 20"

definition NOTIFY_PG :: ulong where "NOTIFY_PG = - 1"

record pgrp =
  pg_nmember :: uint
  pg_nelem :: uint
  pg_members :: "ulong list"

text \<open>What events and scheduling use of \<open>struct proc\<close>.\<close>

record eprocess =
  q_pid :: ulong
  q_threads :: "ptr list"
  q_nthread :: uint
  q_handler :: ulong
  q_pgrp :: ptr
  q_prot :: prot
  q_ids :: "perm list"

text \<open>The kernel, the fields of threads that \<open>Kern\<close> does not have, processes and groups by address.\<close>

record evstate =
  core :: kern
  t_proc :: "ptr \<Rightarrow> ptr"
  t_pid :: "ptr \<Rightarrow> ulong"
  t_evsys :: "ptr \<Rightarrow> string"
  t_evproc :: "ptr \<Rightarrow> string"
  procs :: "ptr \<Rightarrow> eprocess"
  pgrps :: "ptr \<Rightarrow> pgrp"
  pid_hash :: "ptr hash"

definition upd_proc :: "ptr \<Rightarrow> (eprocess \<Rightarrow> eprocess) \<Rightarrow> evstate \<Rightarrow> evstate" where
  "upd_proc p f s = s\<lparr>procs := (procs s)(p := f (procs s p))\<rparr>"

abbreviation curproc :: "evstate \<Rightarrow> ptr" where
  "curproc s \<equiv> t_proc s (curthread (core s))"

subsection \<open>Process groups\<close>

definition alloc_pgrp :: pgrp where
  "alloc_pgrp = \<lparr>pg_nmember = 0, pg_nelem = of_nat PG_GROWTH, pg_members = replicate PG_GROWTH 0\<rparr>"

text \<open>A search that finds nothing runs past the end of the list.\<close>

definition join_pgrp :: "ulong \<Rightarrow> pgrp \<Rightarrow> pgrp outcome" where
  "join_pgrp pid pg =
     (let pg1 = (if pg_nelem pg \<le> pg_nmember pg
                 then pg\<lparr>pg_members := take (unat (pg_nelem pg)) (pg_members pg) @ replicate PG_GROWTH 0,
                         pg_nelem := pg_nelem pg + of_nat PG_GROWTH\<rparr>
                 else pg)
      in case find (\<lambda>i. pg_members pg1 ! i = 0) [0..<length (pg_members pg1)] of
           None \<Rightarrow> Inl BufferOverrun
         | Some i \<Rightarrow> Inr (pg1\<lparr>pg_members := (pg_members pg1)[i := pid], pg_nmember := pg_nmember pg1 + 1\<rparr>))"

text \<open>\<open>None\<close>: the last member left, the group was freed.\<close>

definition leave_pgrp :: "ulong \<Rightarrow> pgrp \<Rightarrow> pgrp option outcome" where
  "leave_pgrp pid pg =
     (if pg_nmember pg = 1 then Inr None
      else
        (case find (\<lambda>i. pg_members pg ! i = pid) [0..<length (pg_members pg)] of
           None \<Rightarrow> Inl BufferOverrun
         | Some i \<Rightarrow> Inr (Some (pg\<lparr>pg_nmember := pg_nmember pg - 1, pg_members := (pg_members pg)[i := 0]\<rparr>))))"

text \<open>The list of the members that \<open>notifypg\<close> makes.\<close>

fun pg_list :: "nat \<Rightarrow> ulong list \<Rightarrow> ulong list outcome" where
  "pg_list 0 lp = Inr []"
| "pg_list (Suc n) lp =
     (case dropWhile (\<lambda>x. x = 0) lp of
        [] \<Rightarrow> Inl BufferOverrun
      | x # lp1 \<Rightarrow> obind (pg_list n lp1) (\<lambda>l. Inr (x # l)))"

text \<open>\<open>setsid\<close> of \<open>proc.c\<close>: the process leaves its group for a new one at the address \<open>a\<close>.\<close>

definition setsid :: "bool \<Rightarrow> ptr \<Rightarrow> evstate \<Rightarrow> (string option \<times> evstate) outcome" where
  "setsid intr a s =
     (let p = curproc s; pid = q_pid (procs s p); g = q_pgrp (procs s p)
      in if intr then Inr (Some ''intr'', s)
         else
           obind (leave_pgrp pid (pgrps s g)) (\<lambda>r.
           obind (join_pgrp pid alloc_pgrp) (\<lambda>pg.
             Inr (None, upd_proc p (\<lambda>x. x\<lparr>q_pgrp := a\<rparr>)
               (s\<lparr>pgrps := (case r of None \<Rightarrow> pgrps s | Some g1 \<Rightarrow> (pgrps s)(g := g1))(a := pg)\<rparr>)))))"

subsection \<open>Events\<close>

text \<open>
  The error, if any, and the state. \<open>None\<close>: the semaphore the thread sleeps on is locked, and the code
  tries again until it is not.
\<close>

definition signal_thread :: "ptr \<Rightarrow> string \<Rightarrow> bool \<Rightarrow> evstate \<Rightarrow> (string option \<times> evstate) option" where
  "signal_thread t event is_sys s =
     (if \<not> is_sys \<and> t_evproc s t \<noteq> [] then Some (Some E_AGAIN, s)
      else
        (let k1 = p_lock_void RunqLock SPLHI (core s);
             s1 = (if is_sys then s\<lparr>t_evsys := (t_evsys s)(t := event)\<rparr> else s\<lparr>t_evproc := (t_evproc s)(t := event)\<rparr>);
             r = (case t_state (thr k1 t) of
                    TS_SLEEP \<Rightarrow>
                      if t_nointr (thr k1 t) then Some k1
                      else (let (x, k2) = cunsleep t k1 in if x \<noteq> 0 then None else lsetrun t k2)
                  | TS_ONPROC \<Rightarrow> Some (nudge (t_eng (thr k1 t)) k1)
                  | TS_RUN \<Rightarrow> Some k1
                  | TS_DEAD \<Rightarrow> Some k1)
         in map_option (\<lambda>k2. (None, s1\<lparr>core := v_lock RunqLock SPL0 k2\<rparr>)) r))"

text \<open>The two loops of \<open>notify2\<close>: over the threads with a given id, and over all.\<close>

fun notify_one :: "ulong \<Rightarrow> ptr list \<Rightarrow> string \<Rightarrow> evstate \<Rightarrow> (string option \<times> evstate) option" where
  "notify_one pid [] ev s = Some (Some E_SRCH, s)"
| "notify_one pid (t # ts) ev s =
     (if t_pid s t = pid then
        (case signal_thread t ev False s of
           None \<Rightarrow> None
         | Some (Some x, s1) \<Rightarrow> Some (Some x, s1)
         | Some (None, s1) \<Rightarrow> notify_one pid ts ev s1)
      else notify_one pid ts ev s)"

fun notify_all :: "ptr list \<Rightarrow> string \<Rightarrow> evstate \<Rightarrow> (string option \<times> evstate) option" where
  "notify_all [] ev s = Some (None, s)"
| "notify_all (t # ts) ev s =
     (case signal_thread t ev False s of
        None \<Rightarrow> None
      | Some (Some x, s1) \<Rightarrow> Some (Some x, s1)
      | Some (None, s1) \<Rightarrow> notify_all ts ev s1)"

text \<open>\<open>pfind\<close> of \<open>proc.c\<close>.\<close>

definition pfind :: "ulong \<Rightarrow> evstate \<Rightarrow> ptr option" where
  "pfind pid s = hash_lookup (Some (pid_hash s)) pid"

text \<open>\<open>notify2\<close>, with what it does for a whole group as an argument.\<close>

definition notify_with :: "(ptr \<Rightarrow> evstate \<Rightarrow> (string option \<times> evstate) outcome option) \<Rightarrow> bool \<Rightarrow> ulong \<Rightarrow> ulong \<Rightarrow> string \<Rightarrow>
    evstate \<Rightarrow> (string option \<times> evstate) outcome option" where
  "notify_with pg intr arg_proc arg_thread ev s =
     (if arg_proc = 0 \<and> intr then Some (Inr (Some ''intr'', s))
      else
        (case if arg_proc = 0 then Some (curproc s) else pfind arg_proc s of
           None \<Rightarrow> Some (Inr (Some E_SRCH, s))
         | Some p \<Rightarrow>
             if perm_calc (q_ids (procs s (curproc s))) PROCPERMS (q_prot (procs s p)) AND P_SIG = 0 then Some (Inr (Some E_PERM, s))
             else if arg_thread = NOTIFY_PG then pg p s
             else if arg_thread \<noteq> 0 then map_option Inr (notify_one arg_thread (q_threads (procs s p)) ev s)
             else map_option Inr (notify_all (q_threads (procs s p)) ev s)))"

definition notify_proc :: "ulong \<Rightarrow> string \<Rightarrow> evstate \<Rightarrow> evstate option" where
  "notify_proc pid ev s =
     (case notify_with (\<lambda>p s1. Some (Inr (None, s1))) False pid 0 ev s of
        Some (Inr (r, s1)) \<Rightarrow> Some s1
      | _ \<Rightarrow> None)"

text \<open>The calls for the members of a group; what they return is not looked at.\<close>

fun notify_members :: "ulong list \<Rightarrow> string \<Rightarrow> evstate \<Rightarrow> evstate option" where
  "notify_members [] ev s = Some s"
| "notify_members (pid # ps) ev s =
     (case notify_proc pid ev s of None \<Rightarrow> None | Some s1 \<Rightarrow> notify_members ps ev s1)"

definition notifypg :: "string \<Rightarrow> ptr \<Rightarrow> evstate \<Rightarrow> (string option \<times> evstate) outcome option" where
  "notifypg ev p s =
     (let pg = pgrps s (q_pgrp (procs s p))
      in case pg_list (unat (pg_nmember pg)) (pg_members pg) of
           Inl f \<Rightarrow> Some (Inl f)
         | Inr l \<Rightarrow> map_option (\<lambda>s1. Inr (None, s1)) (notify_members l ev s))"

definition notify2 :: "bool \<Rightarrow> ulong \<Rightarrow> ulong \<Rightarrow> string \<Rightarrow> evstate \<Rightarrow> (string option \<times> evstate) outcome option" where
  "notify2 intr arg_proc arg_thread ev s = notify_with (notifypg ev) intr arg_proc arg_thread ev s"

definition selfsig :: "string \<Rightarrow> evstate \<Rightarrow> evstate" where
  "selfsig ev s =
     (let (m, k1) = p_lock RunqLock SPLHI (core s)
      in s\<lparr>t_evsys := (t_evsys s)(curthread k1 := ev), core := v_lock RunqLock m k1\<rparr>)"

text \<open>
  \<open>check_events\<close>: the event that is handed to the thread, if any. \<open>dbg\<close> is what a debugger leaves of it
  (\<open>ptrace_event\<close>).
\<close>

definition check_events :: "(string \<Rightarrow> string) \<Rightarrow> evstate \<Rightarrow> string option \<times> evstate" where
  "check_events dbg s =
     (let (m, k1) = p_lock RunqLock SPLHI (core s); t = curthread k1;
          deliver = (\<lambda>ev. if dbg ev \<noteq> [] then Some (dbg ev) else None); k2 = v_lock RunqLock m k1
      in if t_evsys s t \<noteq> [] then (deliver (t_evsys s t), s\<lparr>t_evsys := (t_evsys s)(t := []), core := k2\<rparr>)
         else if t_evproc s t \<noteq> [] then (deliver (t_evproc s t), s\<lparr>t_evproc := (t_evproc s)(t := []), core := k2\<rparr>)
         else (None, s\<lparr>core := k2\<rparr>))"

definition notify_handler :: "ulong \<Rightarrow> evstate \<Rightarrow> evstate" where
  "notify_handler handler s = upd_proc (curproc s) (\<lambda>x. x\<lparr>q_handler := handler\<rparr>) s"

subsection \<open>The system call on scheduling\<close>

definition SCHEDOP_SETPRIO :: uint where "SCHEDOP_SETPRIO = 0"
definition SCHEDOP_GETPRIO :: uint where "SCHEDOP_GETPRIO = 1"
definition SCHEDOP_YIELD :: uint where "SCHEDOP_YIELD = 2"
definition SCHEDOP_EPHEM :: uint where "SCHEDOP_EPHEM = 3"
definition SCHEDOP_PROFILE :: uint where "SCHEDOP_PROFILE = 4"

text \<open>What the call comes to: a value, an error, the switch to another thread, or the exit of the process.\<close>

datatype schedres = SValue uint | SErr string | SRoot | SYield "(spl \<times> switched) option" | SExit

definition sched_profile :: "bool \<Rightarrow> uint \<Rightarrow> evstate \<Rightarrow> schedres \<times> evstate" where
  "sched_profile intr arg s =
     (let t = curthread (core s); f = t_flags (thr (core s) t)
      in if intr then (SErr ''intr'', s)
         else (SValue 0, s\<lparr>core := upd_thr t (\<lambda>x. x\<lparr>t_flags := (if arg \<noteq> 0 then f OR T_PROFILE else f AND NOT T_PROFILE)\<rparr>) (core s)\<rparr>))"

text \<open>
  \<open>SRoot\<close> is the result -1 of \<open>sched_prichg\<close>. There is no return after \<open>SCHEDOP_EPHEM\<close>: it goes on
  with the code of \<open>SCHEDOP_PROFILE\<close>. \<open>intr\<close> and \<open>intr1\<close>: an event interrupts the first, the second wait.
\<close>

definition sched_op :: "(nat \<Rightarrow> ulong) \<Rightarrow> bool \<Rightarrow> bool \<Rightarrow> bool \<Rightarrow> uint \<Rightarrow> uint \<Rightarrow> evstate \<Rightarrow> schedres \<times> evstate" where
  "sched_op rnds isroot intr intr1 op0 arg s =
     (let t = curthread (core s); p = t_proc s t; f = t_flags (thr (core s) t)
      in if op0 = SCHEDOP_SETPRIO \<and> arg \<in> {PRI_BG, PRI_RT, PRI_TIMESHARE} then
           (case sched_prichg isroot arg (core s) of
              None \<Rightarrow> (SRoot, s)
            | Some k \<Rightarrow> (SValue 0, s\<lparr>core := k\<rparr>))
         else if op0 = SCHEDOP_GETPRIO then
           (SValue (if f AND T_BG \<noteq> 0 then PRI_BG else if f AND T_RT \<noteq> 0 then PRI_RT else PRI_TIMESHARE), s)
         else if op0 = SCHEDOP_YIELD then (SYield (timeslice rnds (core s)), s)
         else if op0 = SCHEDOP_EPHEM then
           (if q_nthread (procs s p) = 1 then (SExit, s)
            else if intr then (SErr ''intr'', s)
            else sched_profile intr1 arg
                   (upd_proc p (\<lambda>x. x\<lparr>q_nthread := q_nthread x - 1\<rparr>)
                      (s\<lparr>core := upd_thr t (\<lambda>x. x\<lparr>t_flags := f OR T_EPHEM\<rparr>) (core s)\<rparr>)))
         else if op0 = SCHEDOP_PROFILE then sched_profile intr arg s
         else (SErr E_INVAL, s))"

end
