(* ===== verification/Event_Spec.thy ===== *)
theory Event_Spec
  imports Event Mutex_Spec "HOL-Library.Multiset"
begin

text \<open>
  Process groups as multisets of processes; what an event does to a sleeping thread, over the invariants of the
  run queues and of the semaphores; and the result of an event for a single thread.
\<close>

subsection \<open>Process groups\<close>

definition pg_set :: "pgrp \<Rightarrow> ulong multiset" where
  "pg_set pg = mset (filter (\<lambda>x. x \<noteq> 0) (pg_members pg))"

definition pg_ok :: "pgrp \<Rightarrow> bool" where
  "pg_ok pg \<longleftrightarrow> length (pg_members pg) = unat (pg_nelem pg) \<and> unat (pg_nmember pg) = size (pg_set pg)"

lemma size_pg: "size (pg_set pg) = length (filter (\<lambda>x. x \<noteq> 0) (pg_members pg))"
  unfolding pg_set_def by (rule size_mset)

lemma filter_update:
  assumes "i < length xs" "xs ! i = 0" "y \<noteq> 0"
  shows "mset (filter (\<lambda>x. x \<noteq> 0) (xs[i := y])) = add_mset y (mset (filter (\<lambda>x. x \<noteq> 0) (xs :: ulong list)))"
proof -
  have "xs = take i xs @ xs ! i # drop (Suc i) xs" using assms(1) by (rule id_take_nth_drop)
  then have "filter (\<lambda>x. x \<noteq> 0) xs = filter (\<lambda>x. x \<noteq> 0) (take i xs) @ filter (\<lambda>x. x \<noteq> 0) (drop (Suc i) xs)"
    using assms(2) by (metis (mono_tags, lifting) filter.simps(2) filter_append)
  then show ?thesis using assms by (simp add: upd_conv_take_nth_drop)
qed

lemma filter_clear:
  assumes "i < length xs" "xs ! i \<noteq> (0 :: ulong)"
  shows "mset (filter (\<lambda>x. x \<noteq> 0) (xs[i := 0])) = mset (filter (\<lambda>x. x \<noteq> 0) xs) - {#xs ! i#}"
proof -
  have "mset (filter (\<lambda>x. x \<noteq> 0) ((xs[i := 0])[i := xs ! i])) = add_mset (xs ! i) (mset (filter (\<lambda>x. x \<noteq> 0) (xs[i := 0])))"
    using assms by (intro filter_update) simp_all
  then show ?thesis by simp
qed

lemma full_members: "length (filter (\<lambda>x. x \<noteq> 0) xs) < length xs \<Longrightarrow> \<exists>i<length xs. xs ! i = (0 :: ulong)"
proof (rule ccontr)
  assume l: "length (filter (\<lambda>x. x \<noteq> 0) xs) < length xs" and n: "\<not> (\<exists>i<length xs. xs ! i = 0)"
  have "\<forall>x\<in>set xs. x \<noteq> 0" using n by (auto simp: in_set_conv_nth)
  then have "filter (\<lambda>x. x \<noteq> 0) xs = xs" by (rule filter_True)
  with l show False by simp
qed

lemma pg_join_ok:
  assumes ok: "pg_ok pg" and pid: "pid \<noteq> 0" and room: "size (pg_set pg) < 2 ^ 31" "unat (pg_nelem pg) < 2 ^ 31"
  obtains pg1 where "join_pgrp pid pg = Inr pg1" "pg_ok pg1" "pg_set pg1 = add_mset pid (pg_set pg)"
    "unat (pg_nelem pg1) \<le> unat (pg_nelem pg) + (if pg_nelem pg \<le> pg_nmember pg then PG_GROWTH else 0)"
proof -
  define pg1 where "pg1 = (if pg_nelem pg \<le> pg_nmember pg
                 then pg\<lparr>pg_members := take (unat (pg_nelem pg)) (pg_members pg) @ replicate PG_GROWTH 0,
                         pg_nelem := pg_nelem pg + of_nat PG_GROWTH\<rparr>
                 else pg)"
  have l: "length (pg_members pg) = unat (pg_nelem pg)" "unat (pg_nmember pg) = size (pg_set pg)"
    using ok by (simp_all add: pg_ok_def)
  have u: "unat (pg_nelem pg + of_nat PG_GROWTH) = unat (pg_nelem pg) + PG_GROWTH"
    using room(2) by (simp add: PG_GROWTH_def unat_add_u32)
  have ok1: "pg_ok pg1" "pg_set pg1 = pg_set pg" "pg_nmember pg1 = pg_nmember pg"
    using l u by (simp_all add: pg1_def pg_ok_def pg_set_def)
  have sz: "size (pg_set pg) \<le> length (pg_members pg)"  by (simp add: size_pg)
  have "unat (pg_nmember pg1) < length (pg_members pg1)"
  proof (cases "pg_nelem pg \<le> pg_nmember pg")
    case True
    then have "pg1 = pg\<lparr>pg_members := take (unat (pg_nelem pg)) (pg_members pg) @ replicate PG_GROWTH 0,
      pg_nelem := pg_nelem pg + of_nat PG_GROWTH\<rparr>" by (simp add: pg1_def)
    then show ?thesis using l sz by (simp add: PG_GROWTH_def)
  next
    case False
    then show ?thesis using l by (simp add: pg1_def word_le_nat_alt)
  qed
  then have "length (filter (\<lambda>x. x \<noteq> 0) (pg_members pg1)) < length (pg_members pg1)"
    using ok1(1) by (simp add: pg_ok_def size_pg)
  then obtain j where j: "j < length (pg_members pg1)" "pg_members pg1 ! j = 0" using full_members by blast
  then obtain i where i: "find (\<lambda>i. pg_members pg1 ! i = 0) [0..<length (pg_members pg1)] = Some i"
    using find_upt_None [of "\<lambda>i. pg_members pg1 ! i = 0" 0 "length (pg_members pg1)"]
    by (cases "find (\<lambda>i. pg_members pg1 ! i = 0) [0..<length (pg_members pg1)]") auto
  then have i': "i < length (pg_members pg1)" "pg_members pg1 ! i = 0" using find_upt_Some by blast+
  let ?pg2 = "pg1\<lparr>pg_members := (pg_members pg1)[i := pid], pg_nmember := pg_nmember pg1 + 1\<rparr>"
  have r: "join_pgrp pid pg = Inr ?pg2" using i unfolding join_pgrp_def pg1_def [symmetric] by simp
  have m: "pg_set ?pg2 = add_mset pid (pg_set pg)"
    using filter_update [OF i' pid] ok1(2) by (simp add: pg_set_def)
  have "unat (pg_nmember pg1 + 1) = size (pg_set pg) + 1"
    using room(1) l(2) ok1(3) by (simp add: unat_add_u32)
  then have "pg_ok ?pg2" using ok1(1) m by (simp add: pg_ok_def)
  moreover have "unat (pg_nelem ?pg2) \<le> unat (pg_nelem pg) + (if pg_nelem pg \<le> pg_nmember pg then PG_GROWTH else 0)"
    using u by (simp add: pg1_def)
  ultimately show ?thesis using that r m by blast
qed

lemma pg_leave_ok:
  assumes ok: "pg_ok pg" and pid: "pid \<in># pg_set pg" and two: "1 < size (pg_set pg)"
  obtains pg1 where "leave_pgrp pid pg = Inr (Some pg1)" "pg_ok pg1" "pg_set pg1 = pg_set pg - {#pid#}" "pg_nelem pg1 = pg_nelem pg"
proof -
  have l: "length (pg_members pg) = unat (pg_nelem pg)" "unat (pg_nmember pg) = size (pg_set pg)"
    using ok by (simp_all add: pg_ok_def)
  have p: "pid \<in> set (pg_members pg)" "pid \<noteq> 0" using pid by (auto simp: pg_set_def)
  then obtain j where "j < length (pg_members pg)" "pg_members pg ! j = pid" by (auto simp: in_set_conv_nth)
  then obtain i where i: "find (\<lambda>i. pg_members pg ! i = pid) [0..<length (pg_members pg)] = Some i"
    using find_upt_None [of "\<lambda>i. pg_members pg ! i = pid" 0 "length (pg_members pg)"]
    by (cases "find (\<lambda>i. pg_members pg ! i = pid) [0..<length (pg_members pg)]") auto
  then have i': "i < length (pg_members pg)" "pg_members pg ! i = pid" using find_upt_Some by blast+
  let ?pg1 = "pg\<lparr>pg_nmember := pg_nmember pg - 1, pg_members := (pg_members pg)[i := 0]\<rparr>"
  have one: "pg_nmember pg \<noteq> 1" using two l(2) by auto
  have r: "leave_pgrp pid pg = Inr (Some ?pg1)" using i one by (simp add: leave_pgrp_def)
  have m: "pg_set ?pg1 = pg_set pg - {#pid#}"
    using filter_clear [OF i'(1)] i'(2) p(2) by (simp add: pg_set_def)
  have "unat (pg_nmember pg - 1) = size (pg_set pg) - 1"
    using two l(2) unat_sub_u32 [of 1 "pg_nmember pg"] by simp
  then have "pg_ok ?pg1" using l(1) m pid by (simp add: pg_ok_def size_Diff_singleton)
  then show ?thesis using that r m by simp
qed

lemma pg_list_ok:
  "n = length (filter (\<lambda>x. x \<noteq> 0) xs) \<Longrightarrow> pg_list n xs = Inr (filter (\<lambda>x. x \<noteq> (0 :: ulong)) xs)"
proof (induction n arbitrary: xs)
  case 0
  then show ?case by simp
next
  case (Suc n)
  have f: "filter (\<lambda>x. x \<noteq> 0) xs = filter (\<lambda>x. x \<noteq> 0) (dropWhile (\<lambda>x. x = 0) xs)"
    by (induction xs) auto
  obtain y ys where d: "dropWhile (\<lambda>x. x = 0) xs = y # ys"
    using Suc.prems f by (cases "dropWhile (\<lambda>x. x = 0) xs") auto
  then have "y \<noteq> 0" by (auto simp: dropWhile_eq_Cons_conv)
  then have "filter (\<lambda>x. x \<noteq> 0) xs = y # filter (\<lambda>x. x \<noteq> 0) ys" using f d by simp
  then show ?case using Suc d by (simp add: obind_def)
qed

text \<open>Members come and go; the last one does not leave.\<close>

datatype pgop = Join ulong | Leave ulong

fun pg_abs :: "pgop list \<Rightarrow> ulong multiset \<Rightarrow> ulong multiset" where
  "pg_abs [] M = M"
| "pg_abs (Join p # ops) M = pg_abs ops (add_mset p M)"
| "pg_abs (Leave p # ops) M = pg_abs ops (M - {#p#})"

fun pg_legal :: "pgop list \<Rightarrow> ulong multiset \<Rightarrow> bool" where
  "pg_legal [] M = True"
| "pg_legal (Join p # ops) M = (p \<noteq> 0 \<and> pg_legal ops (add_mset p M))"
| "pg_legal (Leave p # ops) M = (p \<in># M \<and> 1 < size M \<and> pg_legal ops (M - {#p#}))"

fun pg_run :: "pgop list \<Rightarrow> pgrp \<Rightarrow> pgrp option outcome" where
  "pg_run [] pg = Inr (Some pg)"
| "pg_run (Join p # ops) pg = obind (join_pgrp p pg) (pg_run ops)"
| "pg_run (Leave p # ops) pg = obind (leave_pgrp p pg) (\<lambda>r. case r of None \<Rightarrow> Inr None | Some pg1 \<Rightarrow> pg_run ops pg1)"

lemma pg_run_ok:
  assumes "pg_ok pg" "pg_legal ops (pg_set pg)" "size (pg_set pg) + length ops < 2 ^ 31"
    "unat (pg_nelem pg) + PG_GROWTH * length ops < 2 ^ 31"
  shows "\<exists>pg1. pg_run ops pg = Inr (Some pg1) \<and> pg_ok pg1 \<and> pg_set pg1 = pg_abs ops (pg_set pg)"
  using assms
proof (induction ops arbitrary: pg)
  case Nil
  then show ?case by simp
next
  case (Cons x ops)
  show ?case
  proof (cases x)
    case (Join p)
    have h: "p \<noteq> 0" "size (pg_set pg) < 2 ^ 31" "unat (pg_nelem pg) < 2 ^ 31" using Cons.prems Join by auto
    obtain pg1 where r: "join_pgrp p pg = Inr pg1" "pg_ok pg1" "pg_set pg1 = add_mset p (pg_set pg)"
      "unat (pg_nelem pg1) \<le> unat (pg_nelem pg) + (if pg_nelem pg \<le> pg_nmember pg then PG_GROWTH else 0)"
      by (rule pg_join_ok [OF Cons.prems(1) h])
    have g: "(if pg_nelem pg \<le> pg_nmember pg then PG_GROWTH else 0) \<le> PG_GROWTH" by simp
    have "size (pg_set pg1) + length ops < 2 ^ 31" "unat (pg_nelem pg1) + PG_GROWTH * length ops < 2 ^ 31"
      using Cons.prems(3,4) r(3,4) g by (simp_all add: algebra_simps)
    from Cons.IH [OF r(2) _ this] Cons.prems(2) Join r(1,3) show ?thesis by (simp add: obind_def)
  next
    case (Leave p)
    have h: "p \<in># pg_set pg" "1 < size (pg_set pg)" using Cons.prems(2) Leave by auto
    obtain pg1 where r: "leave_pgrp p pg = Inr (Some pg1)" "pg_ok pg1" "pg_set pg1 = pg_set pg - {#p#}" "pg_nelem pg1 = pg_nelem pg"
      by (rule pg_leave_ok [OF Cons.prems(1) h])
    have "size (pg_set pg1) + length ops < 2 ^ 31" "unat (pg_nelem pg1) + PG_GROWTH * length ops < 2 ^ 31"
      using Cons.prems(3,4) r(3,4) h by (simp_all add: size_Diff_singleton)
    from Cons.IH [OF r(2) _ this] Cons.prems(2) Leave r(1,3) show ?thesis by (simp add: obind_def)
  qed
qed

lemma pg_alloc_ok: "pg_ok alloc_pgrp" "pg_set alloc_pgrp = {#}"
  by (simp_all add: pg_ok_def pg_set_def alloc_pgrp_def PG_GROWTH_def)

lemma alloc_nelem: "unat (pg_nelem alloc_pgrp) = 20"
  by (simp add: alloc_pgrp_def PG_GROWTH_def)

text \<open>
  C21: a process group is the multiset of its members: after any sequence of processes that join and leave, the
  list grows as it must, no search runs past its end, and the list that a signal to the group
  goes through has every member exactly once.
\<close>

theorem pgrp_run_spec:
  assumes "pg_legal ops {#}" "PG_GROWTH * length ops < 2 ^ 30"
  shows "\<exists>pg l. pg_run ops alloc_pgrp = Inr (Some pg) \<and> pg_list (unat (pg_nmember pg)) (pg_members pg) = Inr l \<and>
    mset l = pg_abs ops {#}"
proof -
  have "length ops \<le> PG_GROWTH * length ops" by (simp add: PG_GROWTH_def)
  then have "length ops < 2 ^ 30" using assms(2) by (rule le_less_trans)
  then have b: "size (pg_set alloc_pgrp) + length ops < 2 ^ 31" "unat (pg_nelem alloc_pgrp) + PG_GROWTH * length ops < 2 ^ 31"
    using assms(2) alloc_nelem by (simp_all add: pg_alloc_ok)
  from pg_run_ok [OF pg_alloc_ok(1) _ b] assms(1) obtain pg where
    pg: "pg_run ops alloc_pgrp = Inr (Some pg)" "pg_ok pg" "pg_set pg = pg_abs ops {#}" by (auto simp: pg_alloc_ok)
  have "unat (pg_nmember pg) = length (filter (\<lambda>x. x \<noteq> 0) (pg_members pg))"
    using pg(2) by (simp add: pg_ok_def size_pg)
  from pg_list_ok [OF this] pg(1,3) show ?thesis by (simp add: pg_set_def)
qed

lemma pgrp_run_spec_witness:
  "\<exists>pg l. pg_run [Join 4, Join 9, Leave 4, Join 5] alloc_pgrp = Inr (Some pg) \<and>
    pg_list (unat (pg_nmember pg)) (pg_members pg) = Inr l \<and> mset l = {#9, 5#}"
  using pgrp_run_spec [of "[Join 4, Join 9, Leave 4, Join 5]"] by (simp add: PG_GROWTH_def add_mset_commute)

subsection \<open>Events for a thread that sleeps\<close>

lemma sem_runq_lock: "sem (p_lock_void RunqLock m k) = sem k" "sem (v_lock RunqLock m k) = sem k"
  by (simp_all add: p_lock_void_def v_lock_def Let_def ATOMIC_INCL_CPU_LOCKS_def ATOMIC_DECL_CPU_LOCKS_def
      upd_cpu_def cli_def sti_def)

lemma sema_inv_run:
  assumes inv: "sema_inv k Q" and k': "thr k' = (thr k)(t := (thr k t)\<lparr>t_state := TS_RUN\<rparr>)" "t_wchan (thr k t) = NULL"
    "sem k' = sem k"
  shows "sema_inv k' Q"
proof -
  have "thd k' = thd k" "ttl k' = ttl k" by (auto simp: k'(1) fun_eq_iff)
  then have "sleepers k' s ts = sleepers k s ts" for s ts by (simp add: sleepers_def k'(3))
  moreover have "t_wchan (thr k' p) = t_wchan (thr k p)" for p by (simp add: k'(1))
  moreover have "t_state (thr k' p) = TS_SLEEP" if "p \<in> set (Q s)" "s \<noteq> NULL" for p s
    using sema_invD(3,4) [OF inv that(2), of p] that by (auto simp: k'(1,2))
  ultimately show ?thesis using inv by (simp add: sema_inv_def k'(3))
qed

lemma cunsleep_frame:
  assumes inv: "sema_inv k Q" and t: "t \<noteq> NULL" "t_wchan (thr k t) = s" "s \<noteq> NULL" and u: "\<not> s_lock (sem k s)"
  shows "t_runq (thr (snd (cunsleep t k)) t) = t_runq (thr k t)" "engines_ok (snd (cunsleep t k)) = engines_ok k"
proof -
  define k1 where "k1 = set_lock (SemaLock s) True (ATOMIC_INCL_CPU_LOCKS (cli k))"
  have c: "cp_lock (SemaLock s) SPLHI k = (Some (geti k), k1)" using u by (simp add: cp_lock_def k1_def)
  have f: "thr k1 = thr k" "same_sems k k1"
    by (simp_all add: k1_def ATOMIC_INCL_CPU_LOCKS_def same_sems_def kern_simps)
  have e1: "engines_ok k1 = engines_ok k"
    by (rule engines_cong) (simp_all add: k1_def ATOMIC_INCL_CPU_LOCKS_def upd_cpu_def kern_simps)
  have "sema_inv k1 Q" using inv sema_inv_core [OF f] by blast
  moreover have "t \<in> set (Q s)" using sema_invD(3) [OF inv t(3), of t] t by simp
  ultimately have d: "requeued s (set (Q s)) k1 (dq_sema s t k1)"
    using dq_sema_sleepers(2) sema_invD(1) t(3) by blast
  have e: "snd (cunsleep t k) = v_lock (SemaLock s) (geti k)
    (upd_thr t (\<lambda>x. x\<lparr>t_wchan := NULL, t_intr := True\<rparr>) (dq_sema s t k1))"
    by (simp add: cunsleep_def t(2) c Let_def)
  have "t_runq (thr (dq_sema s t k1) t) = t_runq (thr k t)"
    using d f(1) by (simp add: requeued_def thr_same_def)
  then show "t_runq (thr (snd (cunsleep t k)) t) = t_runq (thr k t)" by (simp add: e kern_simps)
  show "engines_ok (snd (cunsleep t k)) = engines_ok k"
    using requeued_engines [OF d] e1 by (simp add: e kern_simps)
qed

lemma signal_asleep:
  assumes inv: "sema_inv (core s) Q" and t: "t \<noteq> NULL" "t_wchan (thr (core s) t) = p" "p \<noteq> NULL"
    and st: "t_state (thr (core s) t) = TS_SLEEP" "\<not> t_nointr (thr (core s) t)" and u: "\<not> s_lock (sem (core s) p)"
    and run: "runq_inv (core s) v" "engines_ok (core s)" "parked (core s) v (t_runq (thr (core s) t))"
    and room: "unat (s_nrun (sch (core s) sched_root)) + 1 < 2 ^ 32" and ev: "is_sys \<or> t_evproc s t = []"
  shows "\<exists>s' v'. signal_thread t ev is_sys s = Some (None, s') \<and> (if is_sys then t_evsys s' else t_evproc s') t = ev \<and>
    sema_inv (core s') (Q(p := remove1 t (Q p))) \<and> s_count (sem (core s') p) = s_count (sem (core s) p) + 1 \<and>
    t_wchan (thr (core s') t) = NULL \<and> t_intr (thr (core s') t) \<and> t_state (thr (core s') t) = TS_RUN \<and>
    runq_inv (core s') v' \<and> engines_ok (core s') \<and> queued v' = insert (t_runq (thr (core s) t)) (queued v)"
proof -
  define k1 where "k1 = p_lock_void RunqLock SPLHI (core s)"
  have k1: "thr k1 = thr (core s)" "sch k1 = sch (core s)" "sem k1 = sem (core s)" "engines_ok k1"
    using run(2) by (simp_all add: k1_def kern_simps sem_runq_lock)
  have same1: "same_sems (core s) k1" by (simp add: same_sems_def k1(3))
  have inv1: "sema_inv k1 Q" using inv sema_inv_core [OF k1(1) same1] by blast
  have h: "t \<noteq> NULL" "t_wchan (thr k1 t) = p" "p \<noteq> NULL" using t by (simp_all add: k1(1))
  have u1: "\<not> s_lock (sem k1 p)" using u by (simp add: k1(3))
  obtain x k2 where c: "cunsleep t k1 = (x, k2)" by (cases "cunsleep t k1")
  have k2: "x = 0" "sema_inv k2 (Q(p := remove1 t (Q p)))" "s_count (sem k2 p) = s_count (sem (core s) p) + 1"
    "t_intr (thr k2 t)" "t_wchan (thr k2 t) = NULL" "sch k2 = sch (core s)"
    using cunsleep_inv [OF inv1 h] u1 by (simp_all add: c k1)
  have k2': "t_runq (thr k2 t) = t_runq (thr (core s) t)" "engines_ok k2"
    using cunsleep_frame [OF inv1 h u1] by (simp_all add: c k1)
  have run2: "runq_inv k2 v" "parked k2 v (t_runq (thr (core s) t))" "unat (s_nrun (sch k2 sched_root)) + 1 < 2 ^ 32"
    using run(1,3) room runq_inv_sch [OF k2(6)] parked_sch [OF k2(6)] by (simp_all add: k2(6))
  obtain k3 where k3: "lsetrun t k2 = Some k3"
    "runq_inv k3 (view_enqueue (run_class (thr k2 t)) (s_up (sch k2 (t_runq (thr (core s) t)))) (t_runq (thr (core s) t)) v)"
    "thr k3 = (thr k2)(t := (thr k2 t)\<lparr>t_state := TS_RUN\<rparr>)" "sem k3 = sem k2" "engines_ok k3"
    using lsetrun_inv [OF run2(1) k2'(2) run2(2) k2'(1) run2(3)] by blast
  define k4 where "k4 = v_lock RunqLock SPL0 k3"
  have k4: "thr k4 = thr k3" "sch k4 = sch k3" "sem k4 = sem k2" "engines_ok k4"
    using k3(4,5) by (simp_all add: k4_def kern_simps sem_runq_lock)
  define s' where "s' = (if is_sys then s\<lparr>t_evsys := (t_evsys s)(t := ev)\<rparr>
    else s\<lparr>t_evproc := (t_evproc s)(t := ev)\<rparr>)\<lparr>core := k4\<rparr>"
  have sig: "signal_thread t ev is_sys s = Some (None, s')"
    using ev st k3(1) k2(1) c by (simp add: signal_thread_def s'_def k4_def Let_def k1_def [symmetric] k1(1))
  have core: "core s' = k4" "(if is_sys then t_evsys s' else t_evproc s') t = ev" by (simp_all add: s'_def)
  have inv4: "sema_inv k4 (Q(p := remove1 t (Q p)))"
    by (rule sema_inv_run [OF k2(2), where t = t]) (simp_all add: k4 k3(3) k2(5))
  have run4: "runq_inv k4 (view_enqueue (run_class (thr k2 t)) (s_up (sch k2 (t_runq (thr (core s) t)))) (t_runq (thr (core s) t)) v)"
    using k3(2) runq_inv_sch [OF k4(2)] by blast
  have qd: "queued (view_enqueue (run_class (thr k2 t)) (s_up (sch k2 (t_runq (thr (core s) t)))) (t_runq (thr (core s) t)) v)
    = insert (t_runq (thr (core s) t)) (queued v)"
    by (rule queued_enqueue [OF run2(2)])
  show ?thesis
    by (intro exI [of _ s'] exI conjI, rule sig, rule core(2), unfold core(1), rule inv4, (simp add: k4 k3(3) k2)+, rule run4,
        rule k4(4), rule qd)
qed


text \<open>A process whose thread 20, with the id 7, sleeps on the semaphore 50.\<close>

definition asleep_ev :: evstate where
  "asleep_ev = \<lparr>core = asleep_kern, t_proc = (\<lambda>_. 60), t_pid = (\<lambda>_. 7), t_evsys = (\<lambda>_. []), t_evproc = (\<lambda>_. []),
     procs = (\<lambda>_. \<lparr>q_pid = 3, q_threads = [20], q_nthread = 1, q_handler = 0, q_pgrp = 70,
       q_prot = \<lparr>prot_len = 0, prot_default = 2, prot_id = [], prot_bits = []\<rparr>,
       q_ids = replicate 6 \<lparr>perm_len = 0, perm_id = replicate 7 0, perm_uid = 0\<rparr>\<rparr>),
     pgrps = (\<lambda>_. alloc_pgrp), pid_hash = \<lparr>h_hashsize = 1, h_hashmask = 0, h_hash = [[]]\<rparr>\<rparr>"

lemma asleep_ev_facts:
  "core asleep_ev = asleep_kern" "t_evproc asleep_ev = (\<lambda>_. [])" "t_pid asleep_ev = (\<lambda>_. 7)"
  "procs asleep_ev (curproc asleep_ev) = procs asleep_ev 60" "curproc asleep_ev = 60"
  "q_threads (procs asleep_ev 60) = [20]"
  by (simp_all add: asleep_ev_def)

lemma asleep_thread:
  "t_wchan (thr asleep_kern 20) = 50" "t_state (thr asleep_kern 20) = TS_SLEEP"
  "\<not> t_nointr (thr asleep_kern 20)" "\<not> s_lock (sem asleep_kern 50)"
  "unat (s_nrun (sch asleep_kern sched_root)) + 1 < 2 ^ 32"
  by (simp_all add: asleep_kern_def kern_simps one_thread_sem one_thread_nodes boot_kern_def)



subsection \<open>An event for one thread\<close>

lemma notify_one_result:
  "notify_one pid ts ev s = Some (r, s') \<Longrightarrow> r = Some E_SRCH \<or> r = Some E_AGAIN"
proof (induction ts arbitrary: s)
  case (Cons t ts)
  have "fst x = Some E_AGAIN \<or> fst x = None" if "signal_thread t ev False s = Some x" for x
    using that by (auto simp: signal_thread_def Let_def split: if_splits option.splits)
  with Cons show ?case by (auto split: if_splits option.splits)
qed simp

lemma signal_recorded:
  "signal_thread t ev False s = Some (None, s') \<Longrightarrow> t_evproc s' = (t_evproc s)(t := ev) \<and> t_pid s' = t_pid s"
  by (auto simp: signal_thread_def Let_def split: if_splits option.splits)

lemma notify_one_delivers:
  "notify_one pid ts ev s = Some (Some E_SRCH, s') \<Longrightarrow>
    t_evproc s' = (\<lambda>t. if t \<in> set ts \<and> t_pid s t = pid then ev else t_evproc s t)"
proof (induction ts arbitrary: s)
  case (Cons t ts)
  show ?case
  proof (cases "t_pid s t = pid")
    case True
    then obtain x where x: "signal_thread t ev False s = Some x" using Cons.prems by (cases "signal_thread t ev False s") auto
    have "E_AGAIN \<noteq> E_SRCH" by (simp add: E_AGAIN_def E_SRCH_def)
    moreover have "fst x = Some E_AGAIN \<or> fst x = None"
      using x by (auto simp: signal_thread_def Let_def split: if_splits option.splits)
    ultimately obtain s1 where s1: "x = (None, s1)" using Cons.prems True x by (cases x) auto
    then have "notify_one pid ts ev s1 = Some (Some E_SRCH, s')" using Cons.prems True x by simp
    from Cons.IH [OF this] signal_recorded [OF x [unfolded s1]] True show ?thesis by (auto simp: fun_eq_iff)
  next
    case False
    with Cons show ?thesis by (auto simp: fun_eq_iff)
  qed
qed simp

text \<open>
  \<open>notify\<close> for a single thread never reports success. A process that may be signalled gets the event into the
  threads with the id, as the loop says, but the code after the loop, \<open>Never found him\<close>, is reached
  in that case too: the result is \<open>E_SRCH\<close> with the event delivered, or \<open>E_AGAIN\<close>.
\<close>

theorem notify_thread_esrch:
  assumes "(if arg_proc = 0 then Some (curproc s) else pfind arg_proc s) = Some p"
    and "perm_calc (q_ids (procs s (curproc s))) PROCPERMS (q_prot (procs s p)) AND P_SIG \<noteq> 0"
    and "arg_thread \<noteq> 0" "arg_thread \<noteq> NOTIFY_PG"
    and "notify2 False arg_proc arg_thread ev s = Some (Inr (r, s'))"
  shows "r \<in> {Some E_SRCH, Some E_AGAIN} \<and>
    (r = Some E_SRCH \<longrightarrow>
      t_evproc s' = (\<lambda>t. if t \<in> set (q_threads (procs s p)) \<and> t_pid s t = arg_thread then ev else t_evproc s t))"
proof -
  have n: "notify_one arg_thread (q_threads (procs s p)) ev s = Some (r, s')"
    using assms by (auto simp: notify2_def notify_with_def split: if_splits)
  then show ?thesis using notify_one_result [OF n] notify_one_delivers by blast
qed

lemma notify_thread_esrch_witness:
  "\<exists>s'. notify2 False 0 7 ''kill'' asleep_ev = Some (Inr (Some E_SRCH, s')) \<and> t_evproc s' 20 = ''kill''"
proof -
  obtain s1 where s1: "signal_thread 20 ''kill'' False asleep_ev = Some (None, s1)"
    using signal_asleep [of asleep_ev "(\<lambda>_. [])(50 := [20])" 20 50 empty_view False "''kill''"]
    by (auto simp: asleep_ev_facts asleep_kern_facts asleep_thread one_thread_nodes)
  have ok: "(if (0::ulong) = 0 then Some (curproc asleep_ev) else pfind 0 asleep_ev) = Some 60"
    "perm_calc (q_ids (procs asleep_ev (curproc asleep_ev))) PROCPERMS (q_prot (procs asleep_ev 60)) AND P_SIG \<noteq> 0"
    by (simp_all add: asleep_ev_def perm_calc_def perm_step_def perm_step_loop.simps PERM_ACTIVE_def PERMLEN_def PROCPERMS_def P_SIG_def
        upt_rec [of 0 6] upt_rec)
  have n: "notify2 False 0 7 ''kill'' asleep_ev = Some (Inr (Some E_SRCH, s1))"
    using ok s1 by (simp add: notify2_def notify_with_def asleep_ev_facts NOTIFY_PG_def)
  from notify_thread_esrch [OF ok _ _ n] n show ?thesis
    by (simp add: NOTIFY_PG_def asleep_ev_facts)
qed

end
