(* ===== verification/Xclock.thy ===== *)
theory Xclock
  imports Mutex
begin

text \<open>
  The clock, \<open>src/src/os/kern/xclock.c\<close> (structures of \<open>xclock.h\<close>, \<open>percpu.h\<close>, \<open>types.h\<close>): ticks, the time of day,
  and the list of threads that sleep until a time. It runs on the kernel of \<open>Kern\<close>: each entry of the list has
  a semaphore (\<open>e_sema\<close>, at the address of the entry) that its thread sleeps on. The singly linked
  list is a list of addresses. A sleep is cut where \<open>p_sema_v_lock\<close> switches away. The time since
  the last tick, which \<open>get_itime\<close> reads from the timer, is an argument.
\<close>

subsection \<open>Data\<close>

definition HZ :: ulong where "HZ = 20"
definition T_MAX_OINK :: uchar where "T_MAX_OINK = 32"
definition CPU_CLOCK :: uchar where "CPU_CLOCK = 0x4"
definition PRICATCH :: uint where "PRICATCH = 0x7F"

record time =
  t_sec :: ulong
  t_usec :: ulong

record eventq =
  e_tid :: ulong
  e_time :: time
  e_onlist :: bool

text \<open>
  The kernel; of this CPU \<open>pc_time\<close> and \<open>pc_ticks\<close>; of threads their id, the time billed and the event from the
  system; the entries by address, the list, the time of the boot, and the lock of the list.
\<close>

record clock =
  kn :: kern
  pc_time0 :: ulong
  pc_time1 :: ulong
  pc_ticks :: ulong
  tids :: "ptr \<Rightarrow> ulong"
  usrcpu :: "ptr \<Rightarrow> ulong"
  syscpu :: "ptr \<Rightarrow> ulong"
  sysev :: "ptr \<Rightarrow> string"
  events :: "ptr \<Rightarrow> eventq"
  eventqs :: "ptr list"
  boot_time :: time
  time_lock :: lockid

definition CVT_TIME :: "ulong \<Rightarrow> ulong \<Rightarrow> time" where
  "CVT_TIME tim0 tim1 = \<lparr>t_sec = tim1, t_usec = tim0 * (1000000 div HZ)\<rparr>"

subsection \<open>Waking\<close>

text \<open>The test for a hit; seconds and microseconds are signed.\<close>

definition due :: "time \<Rightarrow> time \<Rightarrow> bool" where
  "due t x \<longleftrightarrow>
     sint (t_sec x) = sint (t_sec t) \<and> sint (t_usec x) \<le> sint (t_usec t) \<or> sint (t_sec x) < sint (t_sec t)"

text \<open>The entries that stay on the list, and the state.\<close>

fun alarm_scan :: "time \<Rightarrow> ptr list \<Rightarrow> clock \<Rightarrow> (ptr list \<times> clock) option" where
  "alarm_scan t [] s = Some ([], s)"
| "alarm_scan t (e # es) s =
     (if sint (t_sec t) < sint (t_sec (e_time (events s e))) then Some (e # es, s)
      else if due t (e_time (events s e)) then
        (case v_sema e (kn s) of
           None \<Rightarrow> None
         | Some k \<Rightarrow> alarm_scan t es (s\<lparr>events := (events s)(e := (events s e)\<lparr>e_onlist := False\<rparr>), kn := k\<rparr>))
      else map_option (\<lambda>(l, s1). (e # l, s1)) (alarm_scan t es s))"

definition alarm_wakeup :: "time \<Rightarrow> clock \<Rightarrow> clock option" where
  "alarm_wakeup t s =
     map_option (\<lambda>(l, s1). s1\<lparr>eventqs := l, kn := v_lock (time_lock s1) SPLHI_SAME (kn s1)\<rparr>)
       (alarm_scan t (eventqs s) (s\<lparr>kn := p_lock_void (time_lock s) SPLHI (kn s)\<rparr>))"

subsection \<open>Ticks\<close>

text \<open>The loop that turns ticks into seconds.\<close>

function carry_ticks :: "ulong \<Rightarrow> ulong \<Rightarrow> ulong \<times> ulong" where
  "carry_ticks t0 t1 = (if HZ \<le> t0 then carry_ticks (t0 - HZ) (t1 + 1) else (t0, t1))"
  by pat_completeness auto
termination
  by (relation "measure (\<lambda>(t0, t1). unat t0)") (auto simp: HZ_def word_le_nat_alt unat_sub_u32)

declare carry_ticks.simps [simp del]

text \<open>What a tick does to the thread it finds on the CPU.\<close>

definition bill_tick :: "bool \<Rightarrow> ptr \<Rightarrow> clock \<Rightarrow> clock" where
  "bill_tick usermode t s =
     (let s1 = (if usermode then s\<lparr>usrcpu := (usrcpu s)(t := usrcpu s t + 1)\<rparr>
                else s\<lparr>syscpu := (syscpu s)(t := syscpu s t + 1)\<rparr>);
          s2 = (if t_flags (thr (kn s) t) AND T_PROFILE \<noteq> 0 \<and> sysev s t = [] then s1\<lparr>sysev := (sysev s)(t := ''tick'')\<rparr>
                else s1);
          k1 = (if 0 < t_runticks (thr (kn s) t) then upd_thr t (\<lambda>x. x\<lparr>t_runticks := t_runticks x - 1\<rparr>) (kn s) else kn s);
          k2 = (if t_runticks (thr k1 t) = 0 then
                  upd_cpu (\<lambda>c. c\<lparr>pc_preempt := True\<rparr>)
                    (if t_oink (thr k1 t) < T_MAX_OINK then upd_thr t (\<lambda>x. x\<lparr>t_oink := t_oink x + 1\<rparr>) k1 else k1)
                else k1)
      in s2\<lparr>kn := k2\<rparr>)"

definition hardclock :: "bool \<Rightarrow> clock \<Rightarrow> clock option" where
  "hardclock usermode s =
     (if pc_flags (cpu (kn s)) AND CPU_CLOCK \<noteq> 0 then Some (s\<lparr>pc_ticks := pc_ticks s + 1\<rparr>)
      else
        (let k1 = sti (upd_cpu (\<lambda>c. c\<lparr>pc_flags := pc_flags c OR CPU_CLOCK, pc_nopreempt := pc_nopreempt c + 1\<rparr>) (kn s));
             (t0, t1) = carry_ticks (pc_time0 s + pc_ticks s + 1) (pc_time1 s);
             s1 = s\<lparr>kn := k1, pc_time0 := t0, pc_time1 := t1, pc_ticks := 0\<rparr>;
             t = curthread k1;
             s2 = (if t \<noteq> NULL then bill_tick usermode t s1 else s1);
             r = (if eventqs s2 \<noteq> [] then alarm_wakeup (CVT_TIME (pc_time0 s2) (pc_time1 s2)) s2 else Some s2)
         in map_option (\<lambda>s3. s3\<lparr>kn := upd_cpu (\<lambda>c. c\<lparr>pc_flags := pc_flags c AND NOT CPU_CLOCK,
                                                     pc_nopreempt := pc_nopreempt c - 1\<rparr>) (kn s3)\<rparr>) r))"

subsection \<open>The time of day\<close>

text \<open>\<open>arg_time\<close> is what \<open>copyin\<close> read, if it could; the result says whether the call succeeded.\<close>

definition time_set :: "bool \<Rightarrow> time option \<Rightarrow> ulong \<Rightarrow> clock \<Rightarrow> bool \<times> clock" where
  "time_set isroot arg_time itime s =
     (case arg_time of
        None \<Rightarrow> (False, s)
      | Some t \<Rightarrow>
          if \<not> isroot then (False, s)
          else
            (let ct = CVT_TIME (pc_time0 s) (pc_time1 s);
                 sec = t_sec t - t_sec ct; usec = t_usec t - (t_usec ct + itime);
                 b = (if sint usec < 0 then \<lparr>t_sec = sec - 1, t_usec = usec + 1000000\<rparr>
                      else if 1000000 \<le> sint usec then \<lparr>t_sec = sec + 1, t_usec = usec - 1000000\<rparr>
                      else \<lparr>t_sec = sec, t_usec = usec\<rparr>)
             in (True, s\<lparr>boot_time := b\<rparr>)))"

lemma sint_minus_million:
  assumes "1000000 \<le> sint (u :: ulong)"
  shows "sint (u - 1000000) = sint u - 1000000"
proof -
  have u2: "unat u < 2147483648" using assms sint_neg_iff [of u] by linarith
  then have u: "int (unat u) = sint u" unfolding sint_u32 by (rule if_P [symmetric])
  have "1000000 \<le> unat u" using u assms by linarith
  then have "unat (u - 1000000) = unat u - 1000000" by (simp add: unat_sub_u32)
  then have "sint (u - 1000000) = int (unat u - 1000000)" unfolding sint_u32 using u2 by simp
  then show ?thesis using u assms by linarith
qed

function carry_usec :: "time \<Rightarrow> time" where
  "carry_usec t =
     (if 1000000 \<le> sint (t_usec t) then carry_usec \<lparr>t_sec = t_sec t + 1, t_usec = t_usec t - 1000000\<rparr> else t)"
  by pat_completeness auto
termination
  by (relation "measure (\<lambda>t. nat (sint (t_usec t)))") (auto simp: sint_minus_million)

declare carry_usec.simps [simp del]

definition time_get :: "ulong \<Rightarrow> bool \<Rightarrow> clock \<Rightarrow> time option" where
  "time_get itime copied s =
     (let t = CVT_TIME (pc_time0 s) (pc_time1 s);
          t1 = \<lparr>t_sec = t_sec t + t_sec (boot_time s), t_usec = t_usec t + t_usec (boot_time s) + itime\<rparr>
      in if copied then Some (carry_usec t1) else None)"

definition uptime :: "ulong \<Rightarrow> clock \<Rightarrow> time" where
  "uptime itime s =
     (let t = CVT_TIME (pc_time0 s) (pc_time1 s); u = t_usec t + itime
      in if 1000000 \<le> sint u then \<lparr>t_sec = t_sec t + 1, t_usec = u - 1000000\<rparr> else \<lparr>t_sec = t_sec t, t_usec = u\<rparr>)"

subsection \<open>Sleeping\<close>

text \<open>The place of a new entry: the comparison is one of unsigned numbers.\<close>

fun queue_event :: "ptr \<Rightarrow> ulong \<Rightarrow> (ptr \<Rightarrow> eventq) \<Rightarrow> ptr list \<Rightarrow> ptr list" where
  "queue_event ev l evs [] = [ev]"
| "queue_event ev l evs (e # es) =
     (if l \<le> t_sec (e_time (evs e)) then ev # e # es else e # queue_event ev l evs es)"

text \<open>\<open>timed_sleep\<close> up to its switch, with the entry at \<open>ev\<close>. The semaphore starts at 0: the thread sleeps.\<close>

definition timed_sleep :: "ptr \<Rightarrow> time \<Rightarrow> bool \<Rightarrow> clock \<Rightarrow> clock outcome" where
  "timed_sleep ev t intr s =
     (let k1 = set_sema ev 0 (init_sema ev (kn s));
          evs = (events s)(ev := \<lparr>e_tid = tids s (curthread k1), e_time = t, e_onlist = True\<rparr>);
          k2 = p_lock_void (time_lock s) SPLHI k1;
          l = queue_event ev (t_sec t) evs (eventqs s)
      in case p_sema_v_lock ev (if intr then PRICATCH else PRIHI) (time_lock s) k2 of
           Got k3 \<Rightarrow> Inl Panic
         | Sleeps k3 \<Rightarrow> Inr (s\<lparr>events := evs, eventqs := l, kn := k3\<rparr>))"

text \<open>The rest, when the thread runs again: the error, if any. The entry is freed.\<close>

definition timed_resume :: "ptr \<Rightarrow> bool \<Rightarrow> clock \<Rightarrow> (string option \<times> clock) outcome" where
  "timed_resume ev intr s =
     (let (r, k1) = p_sema_resume (kn s)
      in if r \<noteq> 0 then
           (let k2 = p_lock_void (time_lock s) SPLHI k1
            in if \<not> intr then Inl Panic
               else if e_onlist (events s ev) \<and> ev \<notin> set (eventqs s) then Inl Panic
               else Inr (Some ''intr'',
                      s\<lparr>eventqs := (if e_onlist (events s ev) then remove1 ev (eventqs s) else eventqs s),
                        kn := v_lock (time_lock s) SPL0 k2\<rparr>))
         else if e_onlist (events s ev) then Inl Panic
         else Inr (None, s\<lparr>kn := k1\<rparr>))"

definition interval_sleep :: "ptr \<Rightarrow> ulong \<Rightarrow> clock \<Rightarrow> clock outcome" where
  "interval_sleep ev secs s =
     (let tm = CVT_TIME (pc_time0 s) (pc_time1 s) in timed_sleep ev (tm\<lparr>t_sec := t_sec tm + secs\<rparr>) False s)"

text \<open>\<open>None\<close>: the time could not be read.\<close>

definition boot_relative :: "time \<Rightarrow> time \<Rightarrow> time" where
  "boot_relative boot t =
     (let sec = t_sec t - t_sec boot; usec = t_usec t - t_usec boot
      in if sint usec < 0 then \<lparr>t_sec = sec - 1, t_usec = usec + 1000000\<rparr> else \<lparr>t_sec = sec, t_usec = usec\<rparr>)"

definition time_sleep :: "ptr \<Rightarrow> time option \<Rightarrow> clock \<Rightarrow> clock outcome option" where
  "time_sleep ev arg_time s =
     (case arg_time of
        None \<Rightarrow> None
      | Some t \<Rightarrow> Some (timed_sleep ev (boot_relative (boot_time s) t) True s))"

end
