(* ===== verification/Xclock_Spec.thy ===== *)
theory Xclock_Spec
  imports Xclock Mutex_Spec
begin

text \<open>
  The properties of the clock: an alarm wakes exactly the threads that are due and keeps semaphores and run
  queues well formed; no thread stays on the list past its time; ticks are not lost; the time that was
  set is the time that is read; and the sleeps that end too late.
\<close>

subsection \<open>Alarms\<close>

definition by_second :: "(ptr \<Rightarrow> eventq) \<Rightarrow> ptr list \<Rightarrow> bool" where
  "by_second evs es \<longleftrightarrow> sorted_wrt (\<lambda>a b. sint (t_sec (e_time (evs a))) \<le> sint (t_sec (e_time (evs b)))) es"

lemma due_not_later: "due t x \<Longrightarrow> \<not> sint (t_sec t) < sint (t_sec x)"
  by (auto simp: due_def)

fun alarm_rest :: "time \<Rightarrow> (ptr \<Rightarrow> eventq) \<Rightarrow> ptr list \<Rightarrow> ptr list" where
  "alarm_rest t evs [] = []"
| "alarm_rest t evs (e # es) =
     (if sint (t_sec t) < sint (t_sec (e_time (evs e))) then e # es
      else if due t (e_time (evs e)) then alarm_rest t evs es else e # alarm_rest t evs es)"

lemma alarm_rest_sorted: "by_second evs es \<Longrightarrow> alarm_rest t evs es = filter (\<lambda>e. \<not> due t (e_time (evs e))) es"
proof (induction es)
  case (Cons e es)
  show ?case
  proof (cases "sint (t_sec t) < sint (t_sec (e_time (evs e)))")
    case True
    with Cons.prems have "\<forall>x\<in>set (e # es). sint (t_sec t) < sint (t_sec (e_time (evs x)))"
      by (auto simp: by_second_def)
    then have "\<forall>x\<in>set (e # es). \<not> due t (e_time (evs x))" using due_not_later by blast
    then show ?thesis using True by (simp del: filter.simps add: filter_id_conv)
  next
    case False
    with Cons show ?thesis by (simp add: by_second_def)
  qed
qed simp

lemma alarm_rest_subset: "set (alarm_rest t evs es) \<subseteq> set es"
  by (induction es) auto

lemma alarm_rest_cong: "(\<And>e. e \<in> set es \<Longrightarrow> e_time (evs' e) = e_time (evs e)) \<Longrightarrow> alarm_rest t evs' es = alarm_rest t evs es"
  by (induction es) auto

lemma alarm_scan_list:
  "alarm_scan t es s = Some (l, s') \<Longrightarrow> distinct es \<Longrightarrow>
    l = alarm_rest t (events s) es \<and> (\<forall>e. e_time (events s' e) = e_time (events s e)) \<and>
    (\<forall>e. e \<notin> set es - set l \<longrightarrow> events s' e = events s e) \<and>
    (pc_time0 s', pc_time1 s', pc_ticks s', boot_time s', time_lock s') = (pc_time0 s, pc_time1 s, pc_ticks s, boot_time s, time_lock s)"
proof (induction es arbitrary: l s)
  case (Cons e es)
  consider (later) "sint (t_sec t) < sint (t_sec (e_time (events s e)))"
    | (hit) k where "\<not> sint (t_sec t) < sint (t_sec (e_time (events s e)))" "due t (e_time (events s e))" "v_sema e (kn s) = Some k"
    | (miss) "\<not> sint (t_sec t) < sint (t_sec (e_time (events s e)))" "\<not> due t (e_time (events s e))"
    using Cons.prems(1) by (fastforce split: option.splits)
  then show ?case
  proof cases
    case later
    with Cons.prems show ?thesis by auto
  next
    case hit
    define s1 where "s1 = s\<lparr>events := (events s)(e := (events s e)\<lparr>e_onlist := False\<rparr>), kn := k\<rparr>"
    have s1: "e_time (events s1 x) = e_time (events s x)" "x \<noteq> e \<Longrightarrow> events s1 x = events s x"
      "(pc_time0 s1, pc_time1 s1, pc_ticks s1, boot_time s1, time_lock s1) = (pc_time0 s, pc_time1 s, pc_ticks s, boot_time s, time_lock s)" for x
      by (simp_all add: s1_def)
    have "alarm_scan t es s1 = Some (l, s')" using Cons.prems(1) hit by (simp add: s1_def)
    moreover have "distinct es" using Cons.prems(2) by simp
    ultimately have ih: "l = alarm_rest t (events s1) es \<and> (\<forall>e. e_time (events s' e) = e_time (events s1 e)) \<and>
      (\<forall>e. e \<notin> set es - set l \<longrightarrow> events s' e = events s1 e) \<and>
      (pc_time0 s', pc_time1 s', pc_ticks s', boot_time s', time_lock s') =
        (pc_time0 s1, pc_time1 s1, pc_ticks s1, boot_time s1, time_lock s1)" by (rule Cons.IH)
    have "alarm_rest t (events s1) es = alarm_rest t (events s) es" by (rule alarm_rest_cong) (rule s1(1))
    then have l: "l = alarm_rest t (events s) es" using ih by simp
    then have e: "e \<notin> set l" using alarm_rest_subset [of t "events s" es] Cons.prems(2) by auto
    then have ev: "\<forall>x. x \<notin> set (e # es) - set l \<longrightarrow> events s' x = events s x"
    proof (intro allI impI)
      fix x assume x: "x \<notin> set (e # es) - set l"
      then have "x \<noteq> e" using e by auto
      then show "events s' x = events s x" using ih s1(2) x by simp
    qed
    show ?thesis using ih hit l s1 ev by simp
  next
    case miss
    with Cons.prems(1) obtain l1 where l1: "alarm_scan t es s = Some (l1, s')" "l = e # l1" by auto
    from Cons.IH [OF l1(1)] Cons.prems(2) l1(2) miss show ?thesis by auto
  qed
qed simp

lemma alarm_scan_wakes:
  assumes "sema_inv (kn s) Q" "runq_inv (kn s) v" "engines_ok (kn s)"
    "\<forall>e\<in>set es. e \<noteq> NULL \<and> Q e = [w e] \<and> parked (kn s) v (t_runq (thr (kn s) (w e)))"
    "distinct es" "distinct (map (\<lambda>e. t_runq (thr (kn s) (w e))) es)"
    "unat (s_nrun (sch (kn s) sched_root)) + length es < 2 ^ 32"
  shows "\<exists>l s' v'. alarm_scan t es s = Some (l, s') \<and> sema_inv (kn s') (\<lambda>e. if e \<in> set es - set l then [] else Q e) \<and>
    runq_inv (kn s') v' \<and> engines_ok (kn s') \<and>
    (\<forall>e\<in>set es - set l. t_state (thr (kn s') (w e)) = TS_RUN \<and> t_wchan (thr (kn s') (w e)) = NULL \<and> \<not> e_onlist (events s' e)) \<and>
    (\<forall>p. p \<notin> w ` (set es - set l) \<longrightarrow> thr_same (thr (kn s) p) (thr (kn s') p))"
  using assms
proof (induction es arbitrary: s Q v)
  case Nil
  then show ?case by auto
next
  case (Cons e es)
  show ?case
  proof (cases "sint (t_sec t) < sint (t_sec (e_time (events s e)))")
    case True
    then have "alarm_scan t (e # es) s = Some (e # es, s)" by simp
    with Cons.prems(1-3) show ?thesis by (intro exI conjI) (assumption, simp_all)
  next
    case False
    note early = False
    show ?thesis
    proof (cases "due t (e_time (events s e))")
      case False
      have "\<exists>l s' v'. alarm_scan t es s = Some (l, s') \<and> sema_inv (kn s') (\<lambda>e. if e \<in> set es - set l then [] else Q e) \<and>
        runq_inv (kn s') v' \<and> engines_ok (kn s') \<and>
        (\<forall>e\<in>set es - set l. t_state (thr (kn s') (w e)) = TS_RUN \<and> t_wchan (thr (kn s') (w e)) = NULL \<and> \<not> e_onlist (events s' e)) \<and>
        (\<forall>p. p \<notin> w ` (set es - set l) \<longrightarrow> thr_same (thr (kn s) p) (thr (kn s') p))"
        using Cons.prems by (intro Cons.IH) auto
      then obtain l s' v' where ih: "alarm_scan t es s = Some (l, s')"
        "sema_inv (kn s') (\<lambda>e. if e \<in> set es - set l then [] else Q e)" "runq_inv (kn s') v'" "engines_ok (kn s')"
        "\<forall>e\<in>set es - set l. t_state (thr (kn s') (w e)) = TS_RUN \<and> t_wchan (thr (kn s') (w e)) = NULL \<and> \<not> e_onlist (events s' e)"
        "\<forall>p. p \<notin> w ` (set es - set l) \<longrightarrow> thr_same (thr (kn s) p) (thr (kn s') p)" by blast
      have d: "set (e # es) - set (e # l) = set es - set l" using Cons.prems(5) by auto
      have "alarm_scan t (e # es) s = Some (e # l, s')" using early False ih(1) by simp
      with ih(2-6) show ?thesis by (intro exI [of _ "e # l"] exI [of _ s'] exI [of _ v'] conjI) (simp_all only: d)
    next
      case True
      have e: "e \<noteq> NULL" "Q e = [w e]" "parked (kn s) v (t_runq (thr (kn s) (w e)))" using Cons.prems(4) by simp_all
      have room: "unat (s_nrun (sch (kn s) sched_root)) + 1 < 2 ^ 32" using Cons.prems(7) by simp
      obtain k1 v1 where k1: "v_sema e (kn s) = Some k1" "sema_inv k1 (Q(e := []))" "t_wchan (thr k1 (w e)) = NULL"
        "t_state (thr k1 (w e)) = TS_RUN" "\<And>p. p \<noteq> w e \<Longrightarrow> thr_same (thr (kn s) p) (thr k1 p)" "runq_inv k1 v1" "engines_ok k1"
        "\<And>p. parked (kn s) v p \<Longrightarrow> p \<noteq> t_runq (thr (kn s) (w e)) \<Longrightarrow> parked k1 v1 p"
        "unat (s_nrun (sch k1 sched_root)) \<le> unat (s_nrun (sch (kn s) sched_root)) + 1"
        using v_sema_wakes [OF Cons.prems(1) e(1,2) Cons.prems(2,3) e(3) room] by blast
      define s1 where "s1 = s\<lparr>events := (events s)(e := (events s e)\<lparr>e_onlist := False\<rparr>), kn := k1\<rparr>"
      have kn1: "kn s1 = k1" by (simp add: s1_def)
      have wn: "w x \<noteq> w e" if "x \<in> set es" for x
        using that Cons.prems(6) by (auto simp: image_iff)
      have rq: "t_runq (thr k1 (w x)) = t_runq (thr (kn s) (w x))" if "x \<in> set es" for x
        using thr_sameD(2) [OF k1(5) [OF wn [OF that]]] .
      have all: "\<forall>x\<in>set es. x \<noteq> NULL \<and> (Q(e := [])) x = [w x] \<and> parked (kn s1) v1 (t_runq (thr (kn s1) (w x)))"
      proof
        fix x assume x: "x \<in> set es"
        then have "t_runq (thr (kn s) (w x)) \<noteq> t_runq (thr (kn s) (w e))" using Cons.prems(6) by (auto simp: image_iff)
        then show "x \<noteq> NULL \<and> (Q(e := [])) x = [w x] \<and> parked (kn s1) v1 (t_runq (thr (kn s1) (w x)))"
          using x Cons.prems(4,5) k1(8) rq by (auto simp: kn1)
      qed
      have mp: "map (\<lambda>x. t_runq (thr (kn s1) (w x))) es = map (\<lambda>x. t_runq (thr (kn s) (w x))) es"
        by (simp add: kn1 rq)
      have ds: "distinct es" "distinct (map (\<lambda>x. t_runq (thr (kn s1) (w x))) es)" unfolding mp using Cons.prems(5,6) by auto
      have rm: "unat (s_nrun (sch (kn s1) sched_root)) + length es < 2 ^ 32"
        using k1(9) Cons.prems(7) by (simp add: kn1)
      obtain l s' v' where ih: "alarm_scan t es s1 = Some (l, s')"
        "sema_inv (kn s') (\<lambda>x. if x \<in> set es - set l then [] else (Q(e := [])) x)" "runq_inv (kn s') v'" "engines_ok (kn s')"
        "\<forall>x\<in>set es - set l. t_state (thr (kn s') (w x)) = TS_RUN \<and> t_wchan (thr (kn s') (w x)) = NULL \<and> \<not> e_onlist (events s' x)"
        "\<forall>p. p \<notin> w ` (set es - set l) \<longrightarrow> thr_same (thr (kn s1) p) (thr (kn s') p)"
        using Cons.IH [OF k1(2) [folded kn1] k1(6) [folded kn1] k1(7) [folded kn1] all ds rm] by blast
      have sc: "alarm_scan t (e # es) s = Some (l, s')" using early True k1(1) ih(1) by (simp add: s1_def)
      note li = alarm_scan_list [OF ih(1) ds(1)]
      have el: "e \<notin> set l" "e \<notin> set es" using li alarm_rest_subset Cons.prems(5) by (auto dest: subsetD)
      then have d: "set (e # es) - set l = insert e (set es - set l)" by auto
      have ne: "w e \<notin> w ` (set es - set l)" using wn by (force simp: image_iff)
      then have same: "thr_same (thr k1 (w e)) (thr (kn s') (w e))" using ih(6) by (simp add: kn1)
      have "(\<lambda>x. if x \<in> set es - set l then [] else (Q(e := [])) x) = (\<lambda>x. if x \<in> set (e # es) - set l then [] else Q x)"
        using el by (auto simp: d fun_eq_iff)
      then have si: "sema_inv (kn s') (\<lambda>x. if x \<in> set (e # es) - set l then [] else Q x)" using ih(2) by simp
      have off: "\<not> e_onlist (events s' e)" using li el by (simp add: s1_def)
      have wk: "\<forall>x\<in>set (e # es) - set l. t_state (thr (kn s') (w x)) = TS_RUN \<and> t_wchan (thr (kn s') (w x)) = NULL \<and> \<not> e_onlist (events s' x)"
        using ih(5) off thr_sameD(1,3) [OF same] k1(3,4) unfolding d by simp
      have fr: "\<forall>p. p \<notin> w ` (set (e # es) - set l) \<longrightarrow> thr_same (thr (kn s) p) (thr (kn s') p)"
      proof (intro allI impI)
        fix p assume "p \<notin> w ` (set (e # es) - set l)"
        then have "p \<noteq> w e" "p \<notin> w ` (set es - set l)" unfolding d by auto
        then show "thr_same (thr (kn s) p) (thr (kn s') p)"
          using k1(5) ih(6) unfolding kn1 thr_same_def by metis
      qed
      from sc si ih(3,4) wk fr show ?thesis by blast
    qed
  qed
qed

subsection \<open>The list in every history\<close>

text \<open>
  Sleeps (for a time that does not precede the boot), their ends, alarms and everything else the kernel does, as a
  history of the list.
\<close>

inductive clk_run :: "clock \<Rightarrow> bool" where
  start: "eventqs s = [] \<Longrightarrow> clk_run s"
| sleep: "clk_run s \<Longrightarrow> ev \<notin> set (eventqs s) \<Longrightarrow> 0 \<le> sint (t_sec t) \<Longrightarrow> timed_sleep ev t intr s = Inr s1 \<Longrightarrow> clk_run s1"
| resume: "clk_run s \<Longrightarrow> timed_resume ev intr s = Inr (r, s1) \<Longrightarrow> clk_run s1"
| tick: "clk_run s \<Longrightarrow> hardclock usermode s = Some s1 \<Longrightarrow> clk_run s1"
| alarm: "clk_run s \<Longrightarrow> alarm_wakeup t s = Some s1 \<Longrightarrow> clk_run s1"
| other: "clk_run s \<Longrightarrow> eventqs s1 = eventqs s \<Longrightarrow> (\<And>e. e \<in> set (eventqs s) \<Longrightarrow> events s1 e = events s e) \<Longrightarrow> clk_run s1"

definition list_ok :: "(ptr \<Rightarrow> eventq) \<Rightarrow> ptr list \<Rightarrow> bool" where
  "list_ok evs es \<longleftrightarrow> distinct es \<and> by_second evs es \<and> (\<forall>e\<in>set es. 0 \<le> sint (t_sec (e_time (evs e))))"

lemma list_ok_filter: "list_ok evs es \<Longrightarrow> list_ok evs (filter P es)"
  by (auto simp: list_ok_def by_second_def sorted_wrt_filter)

lemma list_ok_cong: "list_ok evs es \<Longrightarrow> (\<And>e. e \<in> set es \<Longrightarrow> e_time (evs' e) = e_time (evs e)) \<Longrightarrow> list_ok evs' es"
  unfolding list_ok_def by_second_def by (auto elim: sorted_wrt_mono_rel [rotated])

lemma queue_event_set: "set (queue_event ev l evs es) = insert ev (set es)"
  by (induction es) auto

lemma nonneg_word_le: "0 \<le> sint (a :: ulong) \<Longrightarrow> 0 \<le> sint b \<Longrightarrow> a \<le> b \<longleftrightarrow> sint a \<le> sint b"
proof -
  assume "0 \<le> sint a" "0 \<le> sint b"
  then have "unat a < 2147483648" "unat b < 2147483648" using sint_neg_iff [of a] sint_neg_iff [of b] by linarith+
  then have "sint a = int (unat a)" "sint b = int (unat b)" unfolding sint_u32 by (simp_all only: if_True)
  then show "a \<le> b \<longleftrightarrow> sint a \<le> sint b" by (simp only: word_le_nat_alt of_nat_le_iff)
qed

lemma list_ok_queue:
  assumes "list_ok evs es" "ev \<notin> set es" "0 \<le> sint (t_sec (e_time (evs ev)))"
  shows "list_ok evs (queue_event ev (t_sec (e_time (evs ev))) evs es)"
  using assms
proof (induction es)
  case Nil
  then show ?case by (simp add: list_ok_def by_second_def)
next
  case (Cons e es)
  have o: "list_ok evs es" "0 \<le> sint (t_sec (e_time (evs e)))" using Cons.prems(1) by (simp_all add: list_ok_def by_second_def)
  have ih: "list_ok evs (queue_event ev (t_sec (e_time (evs ev))) evs es)" using Cons o by simp
  have le: "t_sec (e_time (evs ev)) \<le> t_sec (e_time (evs e)) \<longleftrightarrow> sint (t_sec (e_time (evs ev))) \<le> sint (t_sec (e_time (evs e)))"
    by (rule nonneg_word_le [OF Cons.prems(3) o(2)])
  show ?case
  proof (cases "t_sec (e_time (evs ev)) \<le> t_sec (e_time (evs e))")
    case True
    with le Cons.prems show ?thesis by (auto simp: list_ok_def by_second_def)
  next
    case False
    with le Cons.prems ih show ?thesis by (auto simp: list_ok_def by_second_def queue_event_set)
  qed
qed

lemma alarm_wakeup_list:
  assumes "alarm_wakeup t s = Some s1" "list_ok (events s) (eventqs s)"
  shows "eventqs s1 = filter (\<lambda>e. \<not> due t (e_time (events s e))) (eventqs s)" "\<forall>e. e_time (events s1 e) = e_time (events s e)"
    "(pc_time0 s1, pc_time1 s1, pc_ticks s1) = (pc_time0 s, pc_time1 s, pc_ticks s)"
proof -
  obtain l s2 where a: "alarm_scan t (eventqs s) (s\<lparr>kn := p_lock_void (time_lock s) SPLHI (kn s)\<rparr>) = Some (l, s2)"
    "s1 = s2\<lparr>eventqs := l, kn := v_lock (time_lock s2) SPLHI_SAME (kn s2)\<rparr>"
    using assms(1) by (auto simp: alarm_wakeup_def)
  have o: "distinct (eventqs s)" "by_second (events s) (eventqs s)" using assms(2) by (simp_all add: list_ok_def)
  note r = alarm_scan_list [OF a(1) o(1)]
  show "eventqs s1 = filter (\<lambda>e. \<not> due t (e_time (events s e))) (eventqs s)"
    using r alarm_rest_sorted [OF o(2)] by (simp add: a(2))
  show "\<forall>e. e_time (events s1 e) = e_time (events s e)" "(pc_time0 s1, pc_time1 s1, pc_ticks s1) = (pc_time0 s, pc_time1 s, pc_ticks s)"
    using r by (simp_all add: a(2))
qed

lemma alarm_wakeup_ok: "alarm_wakeup t s = Some s1 \<Longrightarrow> list_ok (events s) (eventqs s) \<Longrightarrow> list_ok (events s1) (eventqs s1)"
  using alarm_wakeup_list [of t s s1] list_ok_filter list_ok_cong by metis

lemma bill_tick_list: "eventqs (bill_tick u t s) = eventqs s" "events (bill_tick u t s) = events s"
  "pc_time0 (bill_tick u t s) = pc_time0 s" "pc_time1 (bill_tick u t s) = pc_time1 s" "pc_ticks (bill_tick u t s) = pc_ticks s"
  by (simp_all add: bill_tick_def Let_def)

text \<open>What a tick that is not nested comes to, but for the kernel.\<close>

lemma hardclock_cases:
  assumes "hardclock u s = Some s'"
  obtains (nested) "s' = s\<lparr>pc_ticks := pc_ticks s + 1\<rparr>"
  | (tick) s2 s3 where "eventqs s2 = eventqs s" "events s2 = events s" "pc_ticks s2 = 0"
    "(pc_time0 s2, pc_time1 s2) = carry_ticks (pc_time0 s + pc_ticks s + 1) (pc_time1 s)"
    "s3 = s2 \<and> eventqs s2 = [] \<or> alarm_wakeup (CVT_TIME (pc_time0 s2) (pc_time1 s2)) s2 = Some s3"
    "\<exists>k. s' = s3\<lparr>kn := k\<rparr>"
proof (cases "pc_flags (cpu (kn s)) AND CPU_CLOCK \<noteq> 0")
  case True
  with assms nested show ?thesis by (simp add: hardclock_def)
next
  case False
  define k1 where "k1 = sti (upd_cpu (\<lambda>c. c\<lparr>pc_flags := pc_flags c OR CPU_CLOCK, pc_nopreempt := pc_nopreempt c + 1\<rparr>) (kn s))"
  obtain t0 t1 where c: "carry_ticks (pc_time0 s + pc_ticks s + 1) (pc_time1 s) = (t0, t1)" by fastforce
  define s1 where "s1 = s\<lparr>kn := k1, pc_time0 := t0, pc_time1 := t1, pc_ticks := 0\<rparr>"
  define s2 where "s2 = (if curthread k1 \<noteq> NULL then bill_tick u (curthread k1) s1 else s1)"
  have h: "map_option (\<lambda>s3. s3\<lparr>kn := upd_cpu (\<lambda>c. c\<lparr>pc_flags := pc_flags c AND NOT CPU_CLOCK, pc_nopreempt := pc_nopreempt c - 1\<rparr>) (kn s3)\<rparr>)
    (if eventqs s2 \<noteq> [] then alarm_wakeup (CVT_TIME (pc_time0 s2) (pc_time1 s2)) s2 else Some s2) = Some s'"
    using assms unfolding hardclock_def if_not_P [OF False] Let_def c prod.case s2_def s1_def k1_def .
  then obtain s3 where s3: "(if eventqs s2 \<noteq> [] then alarm_wakeup (CVT_TIME (pc_time0 s2) (pc_time1 s2)) s2 else Some s2) = Some s3"
    "\<exists>k. s' = s3\<lparr>kn := k\<rparr>" by auto
  have s2: "eventqs s2 = eventqs s" "events s2 = events s" "pc_ticks s2 = 0" "(pc_time0 s2, pc_time1 s2) = (t0, t1)"
    by (simp_all add: s2_def bill_tick_list s1_def)
  show ?thesis by (rule tick [of s2 s3]) (use s2 s3 c in \<open>auto split: if_splits\<close>)
qed

lemma clk_run_ok: "clk_run s \<Longrightarrow> list_ok (events s) (eventqs s)"
proof (induction rule: clk_run.induct)
  case (start s)
  then show ?case by (simp add: list_ok_def by_second_def)
next
  case (sleep s ev t intr s1)
  let ?evs = "(events s)(ev := \<lparr>e_tid = tids s (curthread (set_sema ev 0 (init_sema ev (kn s)))), e_time = t, e_onlist = True\<rparr>)"
  have s1: "events s1 = ?evs" "eventqs s1 = queue_event ev (t_sec t) ?evs (eventqs s)"
    using sleep.hyps(4) by (auto simp: timed_sleep_def Let_def split: p_result.splits)
  have "list_ok ?evs (eventqs s)" using sleep.hyps(2) by (intro list_ok_cong [OF sleep.IH]) auto
  then have "list_ok ?evs (queue_event ev (t_sec (e_time (?evs ev))) ?evs (eventqs s))"
    by (rule list_ok_queue) (use sleep.hyps in simp_all)
  moreover have "t_sec (e_time (?evs ev)) = t_sec t" by simp
  ultimately show ?case by (simp only: s1)
next
  case (resume s ev intr r s1)
  have r: "remove1 ev (eventqs s) = filter (\<lambda>y. ev \<noteq> y) (eventqs s)"
    using resume.IH by (simp add: list_ok_def distinct_remove1_removeAll removeAll_filter_not_eq)
  have e: "eventqs s1 = eventqs s \<or> eventqs s1 = remove1 ev (eventqs s)" "events s1 = events s"
    using resume.hyps(2) by (auto simp: timed_resume_def Let_def split: if_splits prod.splits)
  from e(1) show ?case
  proof
    assume "eventqs s1 = eventqs s"
    then show ?thesis using e(2) resume.IH by simp
  next
    assume "eventqs s1 = remove1 ev (eventqs s)"
    then show ?thesis unfolding e(2) r using list_ok_filter [OF resume.IH] by simp
  qed
next
  case (tick s u s1)
  from tick.hyps(2) show ?case
  proof (cases rule: hardclock_cases)
    case nested
    then show ?thesis using tick.IH by simp
  next
    case (tick s2 s3)
    then have "list_ok (events s3) (eventqs s3)" using \<open>list_ok (events s) (eventqs s)\<close> alarm_wakeup_ok [of _ s2 s3] by auto
    then show ?thesis using tick(6) by auto
  qed
next
  case (alarm s t s1)
  then show ?case using alarm_wakeup_ok by blast
next
  case (other s s1)
  then show ?case using list_ok_cong [of "events s" "eventqs s" "events s1"] by simp
qed

subsection \<open>Ticks and the time of day\<close>

lemma carry_ticks_eq:
  assumes "unat t1 * 20 + unat t0 < 2 ^ 32"
  shows "unat (fst (carry_ticks t0 t1)) = unat t0 mod 20 \<and> unat (snd (carry_ticks t0 t1)) = unat t1 + unat t0 div 20"
  using assms
proof (induction t0 t1 rule: carry_ticks.induct)
  case (1 t0 t1)
  show ?case
  proof (cases "HZ \<le> t0")
    case True
    then have t0: "20 \<le> unat t0" by (simp add: HZ_def word_le_nat_alt)
    then have a: "unat (t0 - HZ) = unat t0 - 20" by (simp add: HZ_def unat_sub_u32)
    have b: "unat (t1 + 1) = unat t1 + 1" using 1(2) t0 by (simp add: unat_add_u32)
    have "unat (t1 + 1) * 20 + unat (t0 - HZ) < 2 ^ 32" using 1(2) t0 unfolding a b by simp
    from 1(1) [OF True this] t0 show ?thesis
      unfolding a b carry_ticks.simps [of t0 t1] if_P [OF True] by (simp add: le_mod_geq le_div_geq)
  next
    case False
    then have "unat t0 < 20" by (simp add: HZ_def word_less_nat_alt not_le)
    then show ?thesis unfolding carry_ticks.simps [of t0 t1] if_not_P [OF False] by simp
  qed
qed

text \<open>The ticks since the boot, with those that came while the last one was handled.\<close>

definition ticks :: "clock \<Rightarrow> nat" where
  "ticks s = unat (pc_time1 s) * 20 + unat (pc_time0 s) + unat (pc_ticks s)"

lemma carry_ticks_count:
  assumes "carry_ticks (p + q + 1) t1 = (a, b)" "unat t1 * 20 + unat p + unat q + 1 < 2 ^ 32"
  shows "unat b * 20 + unat a = unat t1 * 20 + unat p + unat q + 1" "unat a < 20"
proof -
  have u: "unat (p + q) = unat p + unat q" using assms(2) by (simp add: unat_add_u32)
  then have n: "unat (p + q + 1) = unat p + unat q + 1" using assms(2) by (simp add: unat_add_u32)
  have l: "unat t1 * 20 + unat (p + q + 1) < 2 ^ 32" using assms(2) n by simp
  from carry_ticks_eq [OF l] have "unat a = unat (p + q + 1) mod 20" "unat b = unat t1 + unat (p + q + 1) div 20"
    using assms(1) by simp_all
  then show "unat b * 20 + unat a = unat t1 * 20 + unat p + unat q + 1" "unat a < 20"
    using n by (simp_all add: algebra_simps)
qed

text \<open>
  No tick is lost: every call of \<open>hardclock\<close> that returns adds one to the ticks since the boot, whether it
  is nested in another or not, and one that is not leaves less than a second in the lower slot.
\<close>

theorem hardclock_counts:
  assumes "clk_run s" "hardclock usermode s = Some s'" "ticks s + 1 < 2 ^ 32"
  shows "ticks s' = ticks s + 1 \<and> (pc_ticks s' = 0 \<longrightarrow> unat (pc_time0 s') < 20 \<or> pc_ticks s + 1 = 0)"
  using assms(2)
proof (cases rule: hardclock_cases)
  case nested
  have "unat (pc_ticks s + 1) = unat (pc_ticks s) + 1" using assms(3) by (simp add: ticks_def unat_add_u32)
  then show ?thesis by (simp add: nested ticks_def)
next
  case (tick s2 s3)
  have f: "(pc_time0 s3, pc_time1 s3, pc_ticks s3) = (pc_time0 s2, pc_time1 s2, 0)"
    using tick(5) alarm_wakeup_list(3) [of _ s2 s3] clk_run_ok [OF assms(1)] tick(1,2,3) by auto
  have c: "carry_ticks (pc_time0 s + pc_ticks s + 1) (pc_time1 s) = (pc_time0 s3, pc_time1 s3)" using tick(4) f by simp
  have "unat (pc_time1 s) * 20 + unat (pc_time0 s) + unat (pc_ticks s) + 1 < 2 ^ 32" using assms(3) by (simp add: ticks_def)
  note n = carry_ticks_count [OF c this]
  have s': "pc_time0 s' = pc_time0 s3" "pc_time1 s' = pc_time1 s3" "pc_ticks s' = 0" using tick(6) f by auto
  show ?thesis using n by (simp add: ticks_def s')
qed

text \<open>
  C24: a thread left asleep by an alarm is not due: in every history of sleeps until times after the boot, of
  their ends and of ticks, the threads that are on the list after an alarm for a time all sleep
  until a later one.
\<close>

theorem no_overdue:
  assumes "clk_run s" "alarm_wakeup t s = Some s'" "e \<in> set (eventqs s')"
  shows "\<not> due t (e_time (events s' e))"
  using alarm_wakeup_list(1,2) [OF assms(2) clk_run_ok [OF assms(1)]] assms(3) by simp

lemma usec_per_tick: "1000000 div HZ = 50000"
  by (simp add: HZ_def unat_arith_simps unat_div)

lemma carry_usec_stop: "sint (t_usec t) < 1000000 \<Longrightarrow> carry_usec t = t"
  by (subst carry_usec.simps) simp

lemma carry_usec_once:
  assumes "0 \<le> sint (u :: ulong)" "sint u < 1000000"
  shows "carry_usec \<lparr>t_sec = x, t_usec = u + 1000000\<rparr> = \<lparr>t_sec = x + 1, t_usec = u\<rparr>"
proof -
  have "unat u < 2147483648" using assms(1) sint_neg_iff [of u] by linarith
  then have i: "sint u = int (unat u)" unfolding sint_u32 by (simp only: if_True)
  then have n: "unat u < 1000000" using assms(2) by linarith
  then have "unat (u + 1000000) = unat u + 1000000" by (simp add: unat_add_u32)
  then have "sint (u + 1000000) = int (unat u + 1000000)" unfolding sint_u32 using n by simp
  then have "1000000 \<le> sint (u + 1000000)" by simp
  then show ?thesis using assms(2) by (subst carry_usec.simps) (simp add: carry_usec_stop)
qed

lemma small_difference:
  assumes "0 \<le> sint (u :: ulong)" "sint u < 1000000" "unat c < 2000000" "0 \<le> sint (u - c)"
  shows "sint (u - c) < 1000000"
proof -
  have "unat u < 2147483648" using assms(1) sint_neg_iff [of u] by linarith
  then have "sint u = int (unat u)" unfolding sint_u32 by (simp only: if_True)
  then have n: "unat u < 1000000" using assms(2) by linarith
  have s: "unat (u - c) < 2147483648" using assms(4) sint_neg_iff [of "u - c"] by linarith
  have "unat c \<le> unat u"
  proof (rule ccontr)
    assume c: "\<not> unat c \<le> unat u"
    then have "unat (u - c) = unat u + 2 ^ 32 - unat c" by (simp add: unat_sub_if')
    then show False using s assms(3) by simp
  qed
  then have "unat (u - c) = unat u - unat c" by (rule unat_sub_u32)
  then have "sint (u - c) = int (unat u - unat c)" unfolding sint_u32 using n by simp
  then show ?thesis using n by linarith
qed

text \<open>
  C25: the clock keeps the time it was given: what \<open>time_set\<close> of the superuser stored is what \<open>time_get\<close>
  returns at the same moment, to the microsecond, for all seconds, also those before the time since
  the boot.
\<close>

theorem time_set_get:
  assumes "0 \<le> sint (t_usec t)" "sint (t_usec t) < 1000000" "unat (pc_time0 s) < 20" "unat itime \<le> 100000"
    and "time_set True (Some t) itime s = (ok, s')"
  shows "ok \<and> time_get itime True s' = Some t"
proof -
  define c where "c = pc_time0 s * 50000 + itime"
  have "unat (pc_time0 s * 50000) = unat (pc_time0 s) * 50000"
    using assms(3) by (simp add: unat_mult_lem [THEN iffD1])
  then have "unat c = unat (pc_time0 s) * 50000 + unat itime" using assms(3,4) by (simp add: c_def unat_add_u32)
  then have c: "unat c < 2000000" using assms(3,4) by linarith
  obtain sec usec where t: "t = \<lparr>t_sec = sec, t_usec = usec\<rparr>" by (cases t)
  have ct: "t_usec (CVT_TIME (pc_time0 s) (pc_time1 s)) + itime = c" "t_sec (CVT_TIME (pc_time0 s) (pc_time1 s)) = pc_time1 s"
    by (simp_all add: CVT_TIME_def c_def usec_per_tick)
  have s': "pc_time0 s' = pc_time0 s" "pc_time1 s' = pc_time1 s" and ok: ok
    using assms(5) by (auto simp: time_set_def Let_def)
  show ?thesis
  proof (cases "sint (usec - c) < 0")
    case True
    then have "boot_time s' = \<lparr>t_sec = sec - pc_time1 s - 1, t_usec = usec - c + 1000000\<rparr>"
      using assms(5) by (auto simp: time_set_def Let_def t ct)
    then have "time_get itime True s' = Some (carry_usec \<lparr>t_sec = sec - 1, t_usec = usec + 1000000\<rparr>)"
      by (simp add: time_get_def s' CVT_TIME_def usec_per_tick c_def algebra_simps)
    with assms(1,2) ok show ?thesis by (simp add: t carry_usec_once)
  next
    case False
    then have "sint (usec - c) < 1000000" using small_difference [of usec c] assms(1,2) c by (simp add: t)
    then have "boot_time s' = \<lparr>t_sec = sec - pc_time1 s, t_usec = usec - c\<rparr>"
      using assms(5) False by (auto simp: time_set_def Let_def t ct)
    then have "time_get itime True s' = Some (carry_usec \<lparr>t_sec = sec, t_usec = usec\<rparr>)"
      by (simp add: time_get_def s' CVT_TIME_def usec_per_tick c_def algebra_simps)
    with assms(2) ok show ?thesis by (simp add: t carry_usec_stop)
  qed
qed

subsection \<open>Who wakes, and who does not\<close>

lemma alarm_wakeup_runs:
  assumes "sema_inv (kn s) Q" "runq_inv (kn s) v" "engines_ok (kn s)"
    "\<forall>e\<in>set (eventqs s). e \<noteq> NULL \<and> Q e = [w e] \<and> parked (kn s) v (t_runq (thr (kn s) (w e)))"
    "distinct (map (\<lambda>e. t_runq (thr (kn s) (w e))) (eventqs s))" "by_second (events s) (eventqs s)"
    "unat (s_nrun (sch (kn s) sched_root)) + length (eventqs s) < 2 ^ 32" "distinct (eventqs s)"
  obtains s' v' where "alarm_wakeup t s = Some s'"
    "eventqs s' = filter (\<lambda>e. \<not> due t (e_time (events s e))) (eventqs s)"
    "sema_inv (kn s') (\<lambda>e. if e \<in> set (eventqs s) - set (eventqs s') then [] else Q e)"
    "runq_inv (kn s') v'" "engines_ok (kn s')"
    "\<forall>e\<in>set (eventqs s) - set (eventqs s'). t_state (thr (kn s') (w e)) = TS_RUN \<and> t_wchan (thr (kn s') (w e)) = NULL \<and> \<not> e_onlist (events s' e)"
    "\<forall>p. p \<notin> w ` (set (eventqs s) - set (eventqs s')) \<longrightarrow> thr_same (thr (kn s) p) (thr (kn s') p)"
    "\<forall>e\<in>set (eventqs s'). events s' e = events s e"
proof -
  define s1 where "s1 = s\<lparr>kn := p_lock_void (time_lock s) SPLHI (kn s)\<rparr>"
  have k1: "thr (kn s1) = thr (kn s)" "sch (kn s1) = sch (kn s)" "same_sems (kn s) (kn s1)" "engines_ok (kn s1)"
    using assms(3) by (simp_all add: s1_def same_sems_def kern_simps)
  have f1: "eventqs s1 = eventqs s" "events s1 = events s" "time_lock s1 = time_lock s" by (simp_all add: s1_def)
  have i1: "sema_inv (kn s1) Q" "runq_inv (kn s1) v"
    using assms(1,2) sema_inv_core [OF k1(1,3)] runq_inv_sch [OF k1(2)] by blast+
  have p1: "\<forall>e\<in>set (eventqs s). e \<noteq> NULL \<and> Q e = [w e] \<and> parked (kn s1) v (t_runq (thr (kn s1) (w e)))"
    using assms(4) parked_sch [OF k1(2)] by (simp add: k1(1))
  have d1: "distinct (map (\<lambda>e. t_runq (thr (kn s1) (w e))) (eventqs s))" using assms(5) by (simp add: k1(1))
  have r1: "unat (s_nrun (sch (kn s1) sched_root)) + length (eventqs s) < 2 ^ 32" using assms(7) by (simp add: k1(2))
  obtain l s2 v2 where a: "alarm_scan t (eventqs s) s1 = Some (l, s2)"
    "sema_inv (kn s2) (\<lambda>e. if e \<in> set (eventqs s) - set l then [] else Q e)" "runq_inv (kn s2) v2" "engines_ok (kn s2)"
    "\<forall>e\<in>set (eventqs s) - set l. t_state (thr (kn s2) (w e)) = TS_RUN \<and> t_wchan (thr (kn s2) (w e)) = NULL \<and> \<not> e_onlist (events s2 e)"
    "\<forall>p. p \<notin> w ` (set (eventqs s) - set l) \<longrightarrow> thr_same (thr (kn s1) p) (thr (kn s2) p)"
    using alarm_scan_wakes [OF i1 k1(4) p1 assms(8) d1 r1] by blast
  note li = alarm_scan_list [OF a(1) assms(8)]
  have l: "l = filter (\<lambda>e. \<not> due t (e_time (events s e))) (eventqs s)"
    using li alarm_rest_sorted [OF assms(6)] by (simp add: f1)
  define s' where "s' = s2\<lparr>eventqs := l, kn := v_lock (time_lock s2) SPLHI_SAME (kn s2)\<rparr>"
  have al: "alarm_wakeup t s = Some s'" using a(1) by (simp add: alarm_wakeup_def s1_def [symmetric] s'_def)
  have k': "thr (kn s') = thr (kn s2)" "sch (kn s') = sch (kn s2)" "same_sems (kn s2) (kn s')" "engines_ok (kn s')"
    using a(4) by (simp_all add: s'_def same_sems_def kern_simps)
  have f': "eventqs s' = l" "events s' = events s2" by (simp_all add: s'_def)
  have "sema_inv (kn s') (\<lambda>e. if e \<in> set (eventqs s) - set (eventqs s') then [] else Q e)"
    using a(2) sema_inv_core [OF k'(1,3)] by (simp only: f')
  moreover have "runq_inv (kn s') v2" using a(3) runq_inv_sch [OF k'(2)] by blast
  moreover have "\<forall>e\<in>set (eventqs s'). events s' e = events s e" using li by (simp add: f1 f')
  ultimately show ?thesis using that [of s' v2] al a(5,6) k' by (simp add: f' k1(1) l)
qed


lemma timed_sleep_sleeps:
  "\<exists>k. timed_sleep ev t intr s = Inr (s\<lparr>events := (events s)(ev := \<lparr>e_tid = tids s (curthread (kn s)), e_time = t, e_onlist = True\<rparr>),
     eventqs := queue_event ev (t_sec t) ((events s)(ev := \<lparr>e_tid = tids s (curthread (kn s)), e_time = t, e_onlist = True\<rparr>)) (eventqs s),
     kn := k\<rparr>)"
proof -
  have "curthread (set_sema ev 0 (init_sema ev (kn s))) = curthread (kn s)"
    by (simp add: set_sema_def init_sema_def init_lock_def kern_simps)
  moreover define k2 where "k2 = p_lock_void (time_lock s) SPLHI (set_sema ev 0 (init_sema ev (kn s)))"
  have "s_count (sem k2 ev) = 0" by (simp add: k2_def set_sema_def kern_simps)
  then have "\<exists>k3. p_sema_v_lock ev (if intr then PRICATCH else PRIHI) (time_lock s) k2 = Sleeps k3"
    by (simp add: p_sema_v_lock_def Let_def kern_simps)
  then obtain k3 where "p_sema_v_lock ev (if intr then PRICATCH else PRIHI) (time_lock s) k2 = Sleeps k3" by blast
  ultimately show ?thesis by (intro exI [of _ k3]) (simp add: timed_sleep_def Let_def k2_def)
qed

lemma queue_event_last: "sint l < 0 \<Longrightarrow> \<forall>e\<in>set es. 0 \<le> sint (t_sec (e_time (evs e))) \<Longrightarrow> queue_event ev l evs es = es @ [ev]"
proof (induction es)
  case (Cons e es)
  have "2147483648 \<le> unat l" "unat (t_sec (e_time (evs e))) < 2147483648"
    using Cons.prems sint_neg_iff [of l] sint_neg_iff [of "t_sec (e_time (evs e))"] by auto
  then have "\<not> l \<le> t_sec (e_time (evs e))" by (simp add: word_le_nat_alt)
  with Cons show ?case by simp
qed simp

text \<open>
  C26: a sleep until a time before the boot does not end while another thread sleeps for longer. Seconds before
  the boot are negative, and large numbers in the comparison that looks for the place: the entry goes
  to the end of the list, where an alarm that finds a later first entry never looks, though it is due.
\<close>

theorem past_sleep_stuck:
  assumes "clk_run s" "eventqs s = e0 # es" "ev \<notin> set (eventqs s)" "0 \<le> sint (t_sec now)"
    and "sint (t_sec now) < sint (t_sec (e_time (events s e0)))" "sint (t_sec (boot_relative (boot_time s) t)) < 0"
  shows "\<exists>s1 s2. time_sleep ev (Some t) s = Some (Inr s1) \<and> eventqs s1 = eventqs s @ [ev] \<and> due now (e_time (events s1 ev)) \<and>
    alarm_wakeup now s1 = Some s2 \<and> eventqs s2 = eventqs s1 \<and> thr (kn s2) = thr (kn s1)"
proof -
  let ?t = "boot_relative (boot_time s) t"
  let ?evs = "(events s)(ev := \<lparr>e_tid = tids s (curthread (kn s)), e_time = ?t, e_onlist = True\<rparr>)"
  obtain k where k: "timed_sleep ev ?t True s = Inr (s\<lparr>events := ?evs, eventqs := queue_event ev (t_sec ?t) ?evs (eventqs s), kn := k\<rparr>)"
    using timed_sleep_sleeps by blast
  have "\<forall>e\<in>set (eventqs s). 0 \<le> sint (t_sec (e_time (?evs e)))"
    using clk_run_ok [OF assms(1)] assms(3) by (auto simp: list_ok_def)
  then have q: "queue_event ev (t_sec ?t) ?evs (eventqs s) = eventqs s @ [ev]" by (rule queue_event_last [OF assms(6)])
  let ?s1 = "s\<lparr>events := ?evs, eventqs := eventqs s @ [ev], kn := k\<rparr>"
  have e0: "e0 \<noteq> ev" using assms(2,3) by auto
  let ?s2 = "?s1\<lparr>kn := v_lock (time_lock s) SPLHI_SAME (p_lock_void (time_lock s) SPLHI k)\<rparr>"
  have "time_sleep ev (Some t) s = Some (Inr ?s1)" by (simp only: time_sleep_def option.case k q)
  moreover have "alarm_wakeup now ?s1 = Some ?s2" using assms(2,5) e0 by (simp add: alarm_wakeup_def)
  moreover have "due now (e_time (events ?s1 ev))" using assms(4,6) by (simp add: due_def)
  moreover have "eventqs ?s1 = eventqs s @ [ev]" "eventqs ?s2 = eventqs ?s1" "thr (kn ?s2) = thr (kn ?s1)"
    by (simp_all add: kern_simps)
  ultimately show ?thesis by blast
qed

subsection \<open>A small machine\<close>

text \<open>No thread on the CPU and no sleeper; and thread 20 asleep until second 3 on the entry at 50.\<close>

definition clk_boot :: clock where
  "clk_boot = \<lparr>kn = running_kern, pc_time0 = 19, pc_time1 = 1, pc_ticks = 0, tids = (\<lambda>_. 7), usrcpu = (\<lambda>_. 0), syscpu = (\<lambda>_. 0),
     sysev = (\<lambda>_. []), events = (\<lambda>_. \<lparr>e_tid = 0, e_time = \<lparr>t_sec = 3, t_usec = 0\<rparr>, e_onlist = True\<rparr>), eventqs = [],
     boot_time = \<lparr>t_sec = 100, t_usec = 0\<rparr>, time_lock = OtherLock 90\<rparr>"

definition clk_asleep :: clock where
  "clk_asleep = clk_boot\<lparr>kn := asleep_kern, eventqs := [50]\<rparr>"

lemma clk_asleep_list: "\<exists>s. clk_run s \<and> eventqs s = [50] \<and> e_time (events s 50) = \<lparr>t_sec = 3, t_usec = 0\<rparr> \<and> boot_time s = boot_time clk_boot"
proof -
  have "clk_run clk_boot" by (rule clk_run.start) (simp add: clk_boot_def)
  moreover obtain k where k: "timed_sleep 50 \<lparr>t_sec = 3, t_usec = 0\<rparr> True clk_boot = Inr (clk_boot\<lparr>
      events := (events clk_boot)(50 := \<lparr>e_tid = tids clk_boot (curthread (kn clk_boot)), e_time = \<lparr>t_sec = 3, t_usec = 0\<rparr>, e_onlist = True\<rparr>),
      eventqs := queue_event 50 3 ((events clk_boot)(50 := \<lparr>e_tid = tids clk_boot (curthread (kn clk_boot)), e_time = \<lparr>t_sec = 3, t_usec = 0\<rparr>, e_onlist = True\<rparr>)) (eventqs clk_boot), kn := k\<rparr>)"
    (is "_ = Inr ?s1") using timed_sleep_sleeps [of 50 "\<lparr>t_sec = 3, t_usec = 0\<rparr>" True clk_boot] by auto
  ultimately have "clk_run ?s1" by (intro clk_run.sleep [OF _ _ _ k]) (simp_all add: clk_boot_def)
  then show ?thesis by (intro exI [of _ ?s1]) (simp add: clk_boot_def)
qed

lemma hardclock_counts_witness: "\<exists>s'. hardclock True clk_boot = Some s' \<and> ticks s' = 40"
proof -
  have r: "clk_run clk_boot" by (rule clk_run.start) (simp add: clk_boot_def)
  have e: "eventqs clk_boot = []" "ticks clk_boot = 39" by (simp_all add: clk_boot_def ticks_def)
  have "\<exists>s'. hardclock True clk_boot = Some s'"
    by (auto simp: hardclock_def Let_def bill_tick_list e split: prod.splits)
  then obtain s' where s': "hardclock True clk_boot = Some s'" by blast
  from hardclock_counts [OF r s'] s' show ?thesis by (simp add: e)
qed

lemma no_overdue_witness:
  "\<exists>s s'. alarm_wakeup \<lparr>t_sec = 2, t_usec = 950000\<rparr> s = Some s' \<and> eventqs s' = [50] \<and> \<not> due \<lparr>t_sec = 2, t_usec = 950000\<rparr> (e_time (events s' 50))"
proof -
  obtain s where s: "clk_run s" "eventqs s = [50]" "e_time (events s 50) = \<lparr>t_sec = 3, t_usec = 0\<rparr>" using clk_asleep_list by blast
  have "alarm_wakeup \<lparr>t_sec = 2, t_usec = 950000\<rparr> s = Some (s\<lparr>kn := v_lock (time_lock s) SPLHI_SAME (p_lock_void (time_lock s) SPLHI (kn s))\<rparr>)"
    using s(2,3) by (simp add: alarm_wakeup_def)
  moreover from no_overdue [OF s(1) this, of 50]
  have "\<not> due \<lparr>t_sec = 2, t_usec = 950000\<rparr> (e_time (events s 50))" using s(2) by simp
  ultimately show ?thesis using s(2) by (intro exI conjI) (assumption, simp_all)
qed

lemma time_set_get_witness:
  "\<exists>s'. time_set True (Some \<lparr>t_sec = 5, t_usec = 20\<rparr>) 700 clk_boot = (True, s') \<and> time_get 700 True s' = Some \<lparr>t_sec = 5, t_usec = 20\<rparr>"
proof -
  obtain ok s' where r: "time_set True (Some \<lparr>t_sec = 5, t_usec = 20\<rparr>) 700 clk_boot = (ok, s')" by fastforce
  from time_set_get [OF _ _ _ _ r] have "ok \<and> time_get 700 True s' = Some \<lparr>t_sec = 5, t_usec = 20\<rparr>" by (simp add: clk_boot_def)
  with r show ?thesis by simp
qed


lemma past_sleep_stuck_witness:
  "\<exists>s s1 s2. time_sleep 60 (Some \<lparr>t_sec = 90, t_usec = 0\<rparr>) s = Some (Inr s1) \<and> eventqs s1 = [50, 60] \<and>
    alarm_wakeup \<lparr>t_sec = 2, t_usec = 0\<rparr> s1 = Some s2 \<and> eventqs s2 = [50, 60]"
proof -
  obtain s where s: "clk_run s" "eventqs s = [50]" "e_time (events s 50) = \<lparr>t_sec = 3, t_usec = 0\<rparr>" "boot_time s = boot_time clk_boot"
    using clk_asleep_list by blast
  have "sint (t_sec (boot_relative (boot_time s) \<lparr>t_sec = 90, t_usec = 0\<rparr>)) < 0"
    by (simp add: boot_relative_def s(4) clk_boot_def)
  from past_sleep_stuck [OF s(1,2) _ _ _ this, of 60 "\<lparr>t_sec = 2, t_usec = 0\<rparr>"] s(2,3)
  have "\<exists>s1 s2. time_sleep 60 (Some \<lparr>t_sec = 90, t_usec = 0\<rparr>) s = Some (Inr s1) \<and> eventqs s1 = [50, 60] \<and>
    alarm_wakeup \<lparr>t_sec = 2, t_usec = 0\<rparr> s1 = Some s2 \<and> eventqs s2 = [50, 60]" by auto
  then show ?thesis by blast
qed

end
