(* ===== verification/Ipc.thy ===== *)
theory Ipc
  imports Srvlib
begin

text \<open>
  Message passing in the kernel: \<open>src/src/os/kern/msg.h\<close>, \<open>msg.c\<close>, \<open>msgcon.c\<close>, \<open>msgkern.c\<close>,
  \<open>port.c\<close> and \<open>copyoutsegs\<close> of \<open>seg.c\<close>.

  A system call is cut where it can sleep: one function runs from one sleep to the next. The
  spinlocks of a port and of a portref, and the semaphores that protect a process or the table of
  names, are released before such a function ends, so that its effect is atomic for the others.
  What remains are the semaphores a call can stay asleep on.
\<close>

subsection \<open>Semaphores\<close>

text \<open>
  The count of \<open>sema_t\<close>, negative while threads sleep (\<open>Mutex\<close> verifies the operations), and how
  many sleepers were woken that did not run since.
\<close>

record asem =
  a_cnt :: int
  a_go :: nat

definition p_asem :: "asem \<Rightarrow> bool \<times> asem" where
  "p_asem s = (0 < a_cnt s, s\<lparr>a_cnt := a_cnt s - 1\<rparr>)"

definition v_asem :: "asem \<Rightarrow> asem" where
  "v_asem s = (if a_cnt s < 0 then s\<lparr>a_cnt := a_cnt s + 1, a_go := a_go s + 1\<rparr> else s\<lparr>a_cnt := a_cnt s + 1\<rparr>)"

text \<open>A sleeper goes on after its sleep: woken, or taken off the queue by an event.\<close>

definition woken :: "asem \<Rightarrow> asem option" where
  "woken s = (if 0 < a_go s then Some (s\<lparr>a_go := a_go s - 1\<rparr>) else None)"

definition unsleep :: "asem \<Rightarrow> asem option" where
  "unsleep s = (if a_cnt s < 0 then Some (s\<lparr>a_cnt := a_cnt s + 1\<rparr>) else None)"

subsection \<open>Data\<close>

definition PROCPORTS :: nat where "PROCPORTS = 4"
definition PROCOPENS :: nat where "PROCOPENS = 32"
definition ERRLEN :: nat where "ERRLEN = 16"
definition START_ROTOR :: ulong where "START_ROTOR = 1024"
definition PORT_RESERVED :: ptr where "PORT_RESERVED = 1"

definition M_ISR :: uint where "M_ISR = 5"
definition M_RESVD :: uint where "M_RESVD = 99"
definition M_READ :: uint where "M_READ = 0x80000000"
definition ACC_NOCLONE :: uint where "ACC_NOCLONE = 0x80000000"

definition E_NOSPC :: string where "E_NOSPC = ''no space''"
definition E_FAULT :: string where "E_FAULT = ''fault''"
definition E_BADF :: string where "E_BADF = ''bad file''"
definition E_INTR :: string where "E_INTR = ''intr''"

datatype pstate = PS_IOWAIT | PS_IODONE | PS_ABWAIT | PS_ABDONE | PS_OPENING | PS_CLOSING

text \<open>A segment of a user's message: address and length.\<close>

type_synonym useg = "ulong \<times> uint"

text \<open>
  A message of the kernel. \<open>sm_seg\<close> holds the first \<open>sm_nseg\<close> slots; a connect message has the address
  of the client's abilities in slot 0 while \<open>sm_nseg\<close> is 0, which is \<open>sm_ids\<close>. \<open>sm_mseg\<close> and \<open>sm_mnseg\<close>
  are the segments in the user's format.
\<close>

record sysmsg =
  sm_op :: uint
  sm_arg :: ulong
  sm_arg1 :: ulong
  sm_sender :: ptr
  sm_mseg :: "useg list"
  sm_mnseg :: uint
  sm_seg :: "ptr list"
  sm_ids :: ptr
  sm_next :: ptr
  sm_err :: string

record portref =
  pr_sema :: asem
  pr_port :: ptr
  pr_state :: pstate
  pr_nodup :: bool
  pr_refs :: ulong
  pr_iowait :: asem
  pr_svwait :: asem
  pr_msg :: ptr
  pr_segs :: "ptr list"

text \<open>The ring of portrefs under a port is a list that starts at \<open>p_refs\<close>.\<close>

record port =
  p_sema :: asem
  p_wait :: asem
  p_hd :: ptr
  p_tl :: ptr
  p_refs :: "ptr list"
  p_closing :: bool
  p_isr :: bool
  p_name :: ulong

text \<open>
  The parts of \<open>struct proc\<close> that belong to messages; \<open>p_prefs\<close> is the hash of portrefs, \<open>pd_name\<close> and
  \<open>pd_port\<close> name the port a debugger is connected through.
\<close>

record iproc =
  p_open :: "ptr list"
  p_nopen :: int
  p_ports :: "ptr list"
  p_prefs :: "ptr set"
  pd_name :: ulong
  pd_port :: int

text \<open>A segment of the kernel: the address it is mapped at, the offset in its view and its length.\<close>

record kseg =
  s_vaddr :: ulong
  s_off :: uint
  s_len :: uint

record ipc =
  msgs :: "ptr \<Rightarrow> sysmsg"
  prefs :: "ptr \<Rightarrow> portref"
  ports :: "ptr \<Rightarrow> port"
  procs :: "ptr \<Rightarrow> iproc"
  portnames :: "ulong \<rightharpoonup> ptr"
  rotor :: ulong
  ksegs :: "ptr \<Rightarrow> kseg"
  live :: "ptr set"

definition upd_msg :: "ptr \<Rightarrow> (sysmsg \<Rightarrow> sysmsg) \<Rightarrow> ipc \<Rightarrow> ipc" where
  "upd_msg a g st = st\<lparr>msgs := (msgs st)(a := g (msgs st a))\<rparr>"

definition upd_pref :: "ptr \<Rightarrow> (portref \<Rightarrow> portref) \<Rightarrow> ipc \<Rightarrow> ipc" where
  "upd_pref a g st = st\<lparr>prefs := (prefs st)(a := g (prefs st a))\<rparr>"

definition upd_port :: "ptr \<Rightarrow> (port \<Rightarrow> port) \<Rightarrow> ipc \<Rightarrow> ipc" where
  "upd_port a g st = st\<lparr>ports := (ports st)(a := g (ports st a))\<rparr>"

definition upd_proc :: "ptr \<Rightarrow> (iproc \<Rightarrow> iproc) \<Rightarrow> ipc \<Rightarrow> ipc" where
  "upd_proc a g st = st\<lparr>procs := (procs st)(a := g (procs st a))\<rparr>"

text \<open>
  What the rest of the system decides: whether copies from and to the user's memory succeed, the
  segment \<open>make_seg\<close> builds for the \<open>x\<close>-th part of a message (address and offset), where \<open>attach_seg\<close>
  maps a segment, whether a wait for the process is interrupted, and the addresses of new
  structures.
\<close>

record ienv =
  i_copyin :: bool
  i_copyout :: bool
  i_uucopy :: "nat \<Rightarrow> bool"
  i_seg :: "nat \<Rightarrow> (ptr \<times> uint) option"
  i_attach :: "ptr \<Rightarrow> ulong option"
  i_intr :: bool
  i_kmem :: "ptr \<times> uint"
  i_new :: ptr

text \<open>A message as the user passes it; \<open>m_seg\<close> has \<open>MSGSEGS\<close> slots.\<close>

record umsg =
  u_op :: uint
  u_arg :: ulong
  u_arg1 :: ulong
  u_sender :: ptr
  u_seg :: "useg list"
  u_nseg :: uint

text \<open>
  Where a system call stands: it returned an error or a value, a receiver got a message, or it is
  asleep: for its turn on a portref or port, for the reply, for the confirmation of an abort,
  for a message to arrive, or for the client to copy out the reply.
\<close>

datatype sys =
    Return "string + uint"
  | Received umsg uint
  | Turn ptr
  | Reply ptr
  | Aborting ptr
  | PortTurn ptr
  | Arrival ptr
  | Copyout ptr

subsection \<open>msg.h: the queue of a port\<close>

definition inline_lqueue_msg :: "ptr \<Rightarrow> ptr \<Rightarrow> ipc \<Rightarrow> ipc" where
  "inline_lqueue_msg port sm st =
     (let st1 = upd_msg sm (\<lambda>m. m\<lparr>sm_next := NULL\<rparr>) st;
          st2 = (if p_hd (ports st1 port) \<noteq> NULL
                 then upd_msg (p_tl (ports st1 port)) (\<lambda>m. m\<lparr>sm_next := sm\<rparr>) st1
                 else upd_port port (\<lambda>q. q\<lparr>p_hd := sm\<rparr>) st1)
      in upd_port port (\<lambda>q. q\<lparr>p_tl := sm, p_wait := v_asem (p_wait q)\<rparr>) st2)"

definition queue_msg :: "ptr \<Rightarrow> ptr \<Rightarrow> ipc \<Rightarrow> ipc" where
  "queue_msg port sm st = inline_lqueue_msg port sm st"

definition lqueue_msg :: "ptr \<Rightarrow> ptr \<Rightarrow> ipc \<Rightarrow> ipc" where
  "lqueue_msg port sm st = inline_lqueue_msg port sm st"

text \<open>The message before \<open>sm\<close> in the queue from \<open>s\<close> on, null when \<open>sm\<close> does not follow.\<close>

partial_function (option) prev_msg :: "ipc \<Rightarrow> ptr \<Rightarrow> ptr \<Rightarrow> ptr option" where
  "prev_msg st sm s =
     (if s = NULL then Some NULL
      else if sm_next (msgs st s) = sm then Some s
      else prev_msg st sm (sm_next (msgs st s)))"

declare prev_msg.simps [code]

text \<open>An interrupted sender takes its message out of the queue, if it is still there.\<close>

definition unqueue_msg :: "ptr \<Rightarrow> ptr \<Rightarrow> ipc \<Rightarrow> (bool \<times> ipc) option" where
  "unqueue_msg port sm st =
     (if p_hd (ports st port) = sm
      then Some (sm \<noteq> NULL, upd_port port (\<lambda>q. q\<lparr>p_hd := sm_next (msgs st sm)\<rparr>) st)
      else
        (case prev_msg st sm (p_hd (ports st port)) of
           None \<Rightarrow> None
         | Some s \<Rightarrow>
             if s = NULL then Some (False, st)
             else
               (let st1 = upd_msg s (\<lambda>m. m\<lparr>sm_next := sm_next (msgs st sm)\<rparr>) st
                in Some (True, if p_tl (ports st1 port) = sm
                               then upd_port port (\<lambda>q. q\<lparr>p_tl := s\<rparr>) st1 else st1))))"

subsection \<open>Segments\<close>

definition free_seg :: "ptr \<Rightarrow> ipc \<Rightarrow> ipc" where
  "free_seg s st = st\<lparr>live := live st - {s}\<rparr>"

definition freesegs :: "ptr \<Rightarrow> ipc \<Rightarrow> ipc" where
  "freesegs sm st = upd_msg sm (\<lambda>m. m\<lparr>sm_seg := []\<rparr>) (foldl (\<lambda>st s. free_seg s st) st (sm_seg (msgs st sm)))"

text \<open>\<open>unmapsegs\<close> of the segments attached for a transaction.\<close>

definition unmap_list :: "ptr list \<Rightarrow> ipc \<Rightarrow> ipc" where
  "unmap_list segs st = foldl (\<lambda>st s. free_seg s st) st segs"

definition unmapsegs :: "ptr \<Rightarrow> ipc \<Rightarrow> ipc" where
  "unmapsegs pr st = upd_pref pr (\<lambda>r. r\<lparr>pr_segs := []\<rparr>) (unmap_list (pr_segs (prefs st pr)) st)"

text \<open>\<open>mapsegs\<close>: the count of bytes and the state with the segments mapped, nothing when one could not be.\<close>

fun mapsegs :: "ienv \<Rightarrow> ptr list \<Rightarrow> ipc \<Rightarrow> (uint \<times> ipc) option" where
  "mapsegs e [] st = Some (0, st)"
| "mapsegs e (s # ss) st =
     (case i_attach e s of
        None \<Rightarrow> None
      | Some va \<Rightarrow>
          map_option (\<lambda>(n, st1). (n + s_len (ksegs st s), st1))
            (mapsegs e ss (st\<lparr>ksegs := (ksegs st)(s := (ksegs st s)\<lparr>s_vaddr := va\<rparr>)\<rparr>)))"

definition sm_to_m :: "ptr \<Rightarrow> ipc \<Rightarrow> ipc" where
  "sm_to_m sm st =
     upd_msg sm (\<lambda>m. m\<lparr>sm_mnseg := of_nat (length (sm_seg m)),
       sm_mseg := map (\<lambda>s. (s_vaddr (ksegs st s) + s_off (ksegs st s), s_len (ksegs st s))) (sm_seg m) @
         drop (length (sm_seg m)) (sm_mseg m),
       sm_seg := []\<rparr>) st"

text \<open>
  The segments of a message, from the \<open>x\<close>-th on. The bound is the count compared as an unsigned
  number: past the last slot the loop leaves the message.
\<close>

fun make_segs :: "ienv \<Rightarrow> nat \<Rightarrow> useg list \<Rightarrow> nat \<Rightarrow> ipc \<Rightarrow> (ptr list option \<times> ipc) outcome" where
  "make_segs e x us 0 st = Inr (Some [], st)"
| "make_segs e x [] (Suc n) st = Inl BufferOverrun"
| "make_segs e x ((buf, len) # us) (Suc n) st =
     (case (if buf = 0 \<or> len = 0 then None else i_seg e x) of
        None \<Rightarrow> Inr (None, st)
      | Some (a, off) \<Rightarrow>
          obind (make_segs e (x + 1) us n
              (st\<lparr>ksegs := (ksegs st)(a := \<lparr>s_vaddr = 0, s_off = off, s_len = len\<rparr>), live := insert a (live st)\<rparr>))
            (\<lambda>(r, st1). Inr (case r of None \<Rightarrow> (None, free_seg a st1) | Some l \<Rightarrow> (Some (a # l), st1))))"

definition m_to_sm :: "ienv \<Rightarrow> ptr \<Rightarrow> ipc \<Rightarrow> (string option \<times> ipc) outcome" where
  "m_to_sm e sm st =
     (let m = msgs st sm
      in if of_nat MSGSEGS <s sm_mnseg m then Inr (Some E_INVAL, st)
         else obind (make_segs e 0 (sm_mseg m) (unat (sm_mnseg m)) st) (\<lambda>(r, st1).
           Inr (case r of
                  None \<Rightarrow> (Some E_FAULT, upd_msg sm (\<lambda>m. m\<lparr>sm_seg := []\<rparr>) st1)
                | Some l \<Rightarrow> (None, upd_msg sm (\<lambda>m. m\<lparr>sm_seg := l\<rparr>) st1))))"

text \<open>
  \<open>copyoutsegs\<close>: the lengths that are left of the segments and of the user's slots, the slots the
  count of the message leaves (it is compared with 0 after each one), and the copies made.
\<close>

fun copyout_loop :: "ienv \<Rightarrow> uint list \<Rightarrow> uint list \<Rightarrow> int \<Rightarrow> nat \<Rightarrow> uint \<Rightarrow> (string + uint) outcome" where
  "copyout_loop e [] us nm k tot = Inl BufferOverrun"
| "copyout_loop e (s # ss) [] nm k tot = Inl BufferOverrun"
| "copyout_loop e (s # ss) (u # us) nm k tot =
     (let cnt = (if s < u then s else u)
      in if cnt = 0 then Inr (Inr tot)
         else if \<not> i_uucopy e k then Inr (Inl E_FAULT)
         else if s - cnt = 0 \<and> ss = [] then Inr (Inr (tot + cnt))
         else if u - cnt = 0 \<and> nm - 1 = 0 then Inr (Inr (tot + cnt))
         else if s - cnt = 0 then
           (if u - cnt = 0 then copyout_loop e ss us (nm - 1) (k + 1) (tot + cnt)
            else copyout_loop e ss ((u - cnt) # us) nm (k + 1) (tot + cnt))
         else copyout_loop e ((s - cnt) # ss) us (nm - 1) (k + 1) (tot + cnt))"

definition copyoutsegs :: "ienv \<Rightarrow> ptr \<Rightarrow> ipc \<Rightarrow> (string + uint) outcome" where
  "copyoutsegs e sm st =
     (let m = msgs st sm
      in copyout_loop e (map (\<lambda>s. s_len (ksegs st s)) (sm_seg m)) (map snd (sm_mseg m)) (sint (sm_mnseg m)) 0 0)"

subsection \<open>port.c\<close>

text \<open>
  A client's handle becomes its portref: the turn on it is taken, or has to be waited for; when it is
  there, the server may have gone meanwhile.
\<close>

datatype turn = NoTurn string | HasTurn ptr | WaitTurn ptr

definition open_slot :: "iproc \<Rightarrow> int \<Rightarrow> ptr" where
  "open_slot p port =
     (if port < 0 \<or> int PROCOPENS \<le> port \<or> p_open p ! nat port = PORT_RESERVED then NULL else p_open p ! nat port)"

definition find_portref :: "ienv \<Rightarrow> ptr \<Rightarrow> int \<Rightarrow> ipc \<Rightarrow> turn \<times> ipc" where
  "find_portref e p port st =
     (if i_intr e then (NoTurn E_INTR, st)
      else
        (let pr = open_slot (procs st p) port
         in if pr = NULL then (NoTurn E_BADF, st)
            else if pr_port (prefs st pr) = NULL then (NoTurn E_IO, st)
            else
              (case p_asem (pr_sema (prefs st pr)) of
                 (got, s1) \<Rightarrow>
                   (if got then HasTurn pr else WaitTurn pr, upd_pref pr (\<lambda>r. r\<lparr>pr_sema := s1\<rparr>) st))))"

text \<open>With the turn: the error of a server that went away, after the turn was passed on.\<close>

definition got_turn :: "ptr \<Rightarrow> ipc \<Rightarrow> string option \<times> ipc" where
  "got_turn pr st =
     (if pr_port (prefs st pr) = NULL
      then (Some E_IO, upd_pref pr (\<lambda>r. r\<lparr>pr_sema := v_asem (pr_sema r)\<rparr>) st)
      else (None, st))"

definition delete_portref :: "ptr \<Rightarrow> int \<Rightarrow> ipc \<Rightarrow> (string + ptr) \<times> ipc" where
  "delete_portref p port st =
     (let pr = open_slot (procs st p) port
      in if pr = NULL then (Inl E_INVAL, st)
         else (Inr pr, upd_proc p (\<lambda>q. q\<lparr>p_open := (p_open q)[nat port := NULL], p_nopen := p_nopen q - 1\<rparr>) st))"

definition port_slot :: "iproc \<Rightarrow> int \<Rightarrow> ptr" where
  "port_slot p portid =
     (let i = portid - int PROCOPENS in if i < 0 \<or> int PROCPORTS \<le> i then NULL else p_ports p ! nat i)"

definition find_port :: "ienv \<Rightarrow> ptr \<Rightarrow> int \<Rightarrow> ipc \<Rightarrow> turn \<times> ipc" where
  "find_port e p portid st =
     (if i_intr e then (NoTurn E_INTR, st)
      else
        (let port = port_slot (procs st p) portid
         in if port = NULL then (NoTurn E_INVAL, st)
            else
              (case p_asem (p_sema (ports st port)) of
                 (got, s1) \<Rightarrow>
                   (if got then HasTurn port else WaitTurn port, upd_port port (\<lambda>q. q\<lparr>p_sema := s1\<rparr>) st))))"

definition delete_port :: "ptr \<Rightarrow> int \<Rightarrow> ipc \<Rightarrow> turn \<times> ipc" where
  "delete_port p portid st =
     (let port = port_slot (procs st p) portid
      in if port = NULL then (NoTurn E_INVAL, st)
         else
           (let st1 = upd_proc p (\<lambda>q. q\<lparr>p_ports := (p_ports q)[nat (portid - int PROCOPENS) := NULL]\<rparr>) st
            in case p_asem (p_sema (ports st1 port)) of
                 (got, s1) \<Rightarrow>
                   (if got then HasTurn port else WaitTurn port, upd_port port (\<lambda>q. q\<lparr>p_sema := s1\<rparr>) st1)))"

definition alloc_portref :: "ptr \<Rightarrow> ipc \<Rightarrow> ipc" where
  "alloc_portref pr st = upd_pref pr (\<lambda>_. \<lparr>pr_sema = \<lparr>a_cnt = 1, a_go = 0\<rparr>, pr_port = NULL, pr_state = PS_OPENING,
     pr_nodup = False, pr_refs = 1, pr_iowait = \<lparr>a_cnt = 0, a_go = 0\<rparr>, pr_svwait = \<lparr>a_cnt = 0, a_go = 0\<rparr>,
     pr_msg = NULL, pr_segs = []\<rparr>) st"

definition free_portref :: "ptr \<Rightarrow> ipc \<Rightarrow> ipc" where
  "free_portref pr st = unmapsegs pr st"

definition alloc_port :: "ptr \<Rightarrow> ipc \<Rightarrow> ipc" where
  "alloc_port port st = upd_port port (\<lambda>q. \<lparr>p_sema = \<lparr>a_cnt = 1, a_go = 0\<rparr>, p_wait = \<lparr>a_cnt = 0, a_go = 0\<rparr>,
     p_hd = NULL, p_tl = p_tl q, p_refs = [], p_closing = False, p_isr = False, p_name = p_name q\<rparr>) st"

definition alloc_open :: "ptr \<Rightarrow> ipc \<Rightarrow> ((string + nat) \<times> ipc) outcome" where
  "alloc_open p st =
     (if int PROCOPENS \<le> p_nopen (procs st p) then Inr (Inl E_NOSPC, st)
      else case find (\<lambda>slot. p_open (procs st p) ! slot = NULL) [0..<PROCOPENS] of
             None \<Rightarrow> Inl Panic
           | Some slot \<Rightarrow>
               Inr (Inr slot, upd_proc p (\<lambda>q. q\<lparr>p_open := (p_open q)[slot := PORT_RESERVED], p_nopen := p_nopen q + 1\<rparr>) st))"

definition free_open :: "ptr \<Rightarrow> nat \<Rightarrow> ipc \<Rightarrow> ipc" where
  "free_open p slot st = upd_proc p (\<lambda>q. q\<lparr>p_open := (p_open q)[slot := NULL], p_nopen := p_nopen q - 1\<rparr>) st"

text \<open>
  \<open>fork_ports\<close>: the table of the child over what was in it before (a reserved slot and one that must
  not be duplicated are passed over), and the number of portrefs shared.
\<close>

fun fork_ports :: "ptr list \<Rightarrow> ptr list \<Rightarrow> ipc \<Rightarrow> ptr list \<times> nat \<times> ipc" where
  "fork_ports [] new st = (new, 0, st)"
| "fork_ports (pr # old) [] st = ([], 0, st)"
| "fork_ports (pr # old) (x # new) st =
     (if pr = NULL then (case fork_ports old new st of (new1, n, st1) \<Rightarrow> (NULL # new1, n, st1))
      else if pr = PORT_RESERVED \<or> pr_nodup (prefs st pr)
      then (case fork_ports old new st of (new1, n, st1) \<Rightarrow> (x # new1, n, st1))
      else (case fork_ports old new (upd_pref pr (\<lambda>r. r\<lparr>pr_refs := pr_refs r + 1\<rparr>) st) of
              (new1, n, st1) \<Rightarrow> (pr # new1, n + 1, st1)))"

subsection \<open>msg.c: sending\<close>

definition v_sema_pr :: "ptr \<Rightarrow> ipc \<Rightarrow> ipc" where
  "v_sema_pr pr st = upd_pref pr (\<lambda>r. r\<lparr>pr_sema := v_asem (pr_sema r)\<rparr>) st"

text \<open>The labels \<open>out1\<close> and \<open>out2\<close> of \<open>msg_send\<close>.\<close>

definition send_out2 :: "ptr \<Rightarrow> string + uint \<Rightarrow> ipc \<Rightarrow> sys \<times> ipc" where
  "send_out2 sm r st = (Return r, freesegs sm st)"

definition send_out1 :: "ptr \<Rightarrow> ptr \<Rightarrow> string + uint \<Rightarrow> ipc \<Rightarrow> sys \<times> ipc" where
  "send_out1 pr sm r st =
     (let st1 = (if sm_mnseg (msgs st sm) \<noteq> 0
                 then upd_pref pr (\<lambda>x. x\<lparr>pr_svwait := v_asem (pr_svwait x)\<rparr>) st else st)
      in send_out2 sm r (v_sema_pr pr st1))"

text \<open>The reply is there.\<close>

definition msg_send_done :: "ienv \<Rightarrow> ptr \<Rightarrow> ptr \<Rightarrow> ipc \<Rightarrow> (sys \<times> ipc) outcome" where
  "msg_send_done e pr sm st =
     (let m = msgs st sm
      in if sm_arg m = - 1 then Inr (send_out1 pr sm (Inl (sm_err m)) st)
         else if sm_seg m \<noteq> [] then
           (case mapsegs e (sm_seg m) st of
              None \<Rightarrow> Inr (send_out1 pr sm (Inl E_NOMEM) st)
            | Some (_, st1) \<Rightarrow>
                obind (copyoutsegs e sm st1) (\<lambda>r.
                  (let st2 = upd_msg sm (\<lambda>m. m\<lparr>sm_mnseg := of_nat (length (sm_seg m)), sm_seg := []\<rparr>)
                               (unmap_list (sm_seg m) st1)
                   in Inr (send_out1 pr sm (case r of Inl er \<Rightarrow> Inl er | Inr n \<Rightarrow> Inr (if n = 0 then sm_arg m else n)) st2))))
         else Inr (send_out1 pr sm (Inr (sm_arg m)) st))"

text \<open>It is the sender's turn on the portref: the message goes to the server.\<close>

definition msg_send_turn :: "ienv \<Rightarrow> ptr \<Rightarrow> ptr \<Rightarrow> ipc \<Rightarrow> (sys \<times> ipc) outcome" where
  "msg_send_turn e pr sm st =
     (case got_turn pr st of
        (Some er, st1) \<Rightarrow> Inr (send_out2 sm (Inl er) st1)
      | (None, st1) \<Rightarrow>
          (let st2 = upd_msg sm (\<lambda>m. m\<lparr>sm_sender := pr\<rparr>) st1;
               st3 = upd_pref pr (\<lambda>r. r\<lparr>pr_state := PS_IOWAIT\<rparr>) st2;
               st4 = queue_msg (pr_port (prefs st3 pr)) sm st3
           in case p_asem (pr_iowait (prefs st4 pr)) of
                (got, s1) \<Rightarrow>
                  (let st5 = upd_pref pr (\<lambda>r. r\<lparr>pr_iowait := s1\<rparr>) st4
                   in if got then msg_send_done e pr sm st5 else Inr (Reply pr, st5))))"

definition copyin_msg :: "ptr \<Rightarrow> umsg \<Rightarrow> ipc \<Rightarrow> ipc" where
  "copyin_msg sm u st = upd_msg sm (\<lambda>m. m\<lparr>sm_op := u_op u, sm_arg := u_arg u, sm_arg1 := u_arg1 u,
     sm_sender := u_sender u, sm_mseg := u_seg u, sm_mnseg := u_nseg u\<rparr>) st"

definition msg_send :: "ienv \<Rightarrow> ptr \<Rightarrow> int \<Rightarrow> umsg \<Rightarrow> ptr \<Rightarrow> ipc \<Rightarrow> (sys \<times> ipc) outcome" where
  "msg_send e p arg_port u sm st =
     (if \<not> i_copyin e then Inr (Return (Inl E_FAULT), st)
      else
        (let st1 = copyin_msg sm u st
         in if u_op u AND MSG_MASK < M_RESVD then Inr (Return (Inl E_INVAL), st1)
            else
              obind (if u_op u AND M_READ = 0 then m_to_sm e sm st1
                     else Inr (None, upd_msg sm (\<lambda>m. m\<lparr>sm_seg := []\<rparr>) st1)) (\<lambda>(r, st2).
                case r of
                  Some er \<Rightarrow> Inr (Return (Inl er), st2)
                | None \<Rightarrow>
                    (case find_portref e p arg_port st2 of
                       (NoTurn er, st3) \<Rightarrow> Inr (send_out2 sm (Inl er) st3)
                     | (WaitTurn pr, st3) \<Rightarrow> Inr (Turn pr, st3)
                     | (HasTurn pr, st3) \<Rightarrow> msg_send_turn e pr sm st3))))"

text \<open>The sender's sleeps end: its turn came, or an event ended the wait for it; the reply came.\<close>

definition turn_woken :: "ienv \<Rightarrow> ptr \<Rightarrow> ptr \<Rightarrow> ipc \<Rightarrow> (sys \<times> ipc) outcome option" where
  "turn_woken e pr sm st =
     map_option (\<lambda>s1. msg_send_turn e pr sm (upd_pref pr (\<lambda>r. r\<lparr>pr_sema := s1\<rparr>) st)) (woken (pr_sema (prefs st pr)))"

definition turn_intr :: "ptr \<Rightarrow> ptr \<Rightarrow> ipc \<Rightarrow> (sys \<times> ipc) option" where
  "turn_intr pr sm st =
     map_option (\<lambda>s1. send_out2 sm (Inl E_INTR) (upd_pref pr (\<lambda>r. r\<lparr>pr_sema := s1\<rparr>) st)) (unsleep (pr_sema (prefs st pr)))"

definition msg_send_woken :: "ienv \<Rightarrow> ptr \<Rightarrow> ptr \<Rightarrow> ipc \<Rightarrow> (sys \<times> ipc) outcome option" where
  "msg_send_woken e pr sm st =
     map_option (\<lambda>s1. msg_send_done e pr sm (upd_pref pr (\<lambda>r. r\<lparr>pr_iowait := s1\<rparr>) st)) (woken (pr_iowait (prefs st pr)))"

text \<open>
  An event ended the wait for the reply: \<open>sm2\<close> is the message that asks the server to abort.
\<close>

definition send_intr_iowait :: "ptr \<Rightarrow> ptr \<Rightarrow> ptr \<Rightarrow> ipc \<Rightarrow> (sys \<times> ipc) option" where
  "send_intr_iowait pr sm sm2 st =
     (let port = pr_port (prefs st pr); done = upd_pref pr (\<lambda>r. r\<lparr>pr_state := PS_IODONE\<rparr>)
      in if port = NULL then Some (send_out1 pr sm (Inl E_INTR) (done st))
         else
           (case unqueue_msg port sm st of
              None \<Rightarrow> None
            | Some (True, st1) \<Rightarrow>
                Some (send_out1 pr sm (Inl E_INTR)
                  (done (upd_port port (\<lambda>q. q\<lparr>p_wait := (p_wait q)\<lparr>a_cnt := a_cnt (p_wait q) - 1\<rparr>\<rparr>) st1)))
            | Some (False, st1) \<Rightarrow>
                (let st2 = upd_msg sm2 (\<lambda>m. m\<lparr>sm_sender := pr, sm_op := M_ABORT, sm_seg := [], sm_arg := 0, sm_arg1 := 0\<rparr>) st1;
                     st3 = upd_pref pr (\<lambda>r. r\<lparr>pr_state := PS_ABWAIT\<rparr>) (queue_msg port sm2 st2)
                 in case p_asem (pr_iowait (prefs st3 pr)) of
                      (got, s1) \<Rightarrow>
                        (let st4 = upd_pref pr (\<lambda>r. r\<lparr>pr_iowait := s1\<rparr>) st3
                         in Some (if got then send_out1 pr sm (Inl E_INTR) st4 else (Aborting pr, st4))))))"

definition msg_send_intr :: "ptr \<Rightarrow> ptr \<Rightarrow> ptr \<Rightarrow> ipc \<Rightarrow> (sys \<times> ipc) outcome option" where
  "msg_send_intr pr sm sm2 st =
     (case unsleep (pr_iowait (prefs st pr)) of
        None \<Rightarrow> None
      | Some s1 \<Rightarrow>
          (let st1 = upd_pref pr (\<lambda>r. r\<lparr>pr_iowait := s1\<rparr>) st
           in case pr_state (prefs st1 pr) of
                PS_IOWAIT \<Rightarrow> map_option Inr (send_intr_iowait pr sm sm2 st1)
              | PS_IODONE \<Rightarrow>
                  Some (Inr (send_out1 pr sm (Inl E_INTR)
                    (upd_pref pr (\<lambda>r. r\<lparr>pr_iowait := (pr_iowait r)\<lparr>a_cnt := 0\<rparr>,
                       pr_svwait := (if a_cnt (pr_svwait r) < 0 then v_asem (pr_svwait r) else pr_svwait r)\<rparr>) st1)))
              | _ \<Rightarrow> Some (Inl Panic)))"

definition abort_woken :: "ptr \<Rightarrow> ptr \<Rightarrow> ipc \<Rightarrow> (sys \<times> ipc) option" where
  "abort_woken pr sm st =
     map_option (\<lambda>s1. send_out1 pr sm (Inl E_INTR) (upd_pref pr (\<lambda>r. r\<lparr>pr_iowait := s1\<rparr>) st)) (woken (pr_iowait (prefs st pr)))"

subsection \<open>msgcon.c: references to a port\<close>

text \<open>The ring under a port from \<open>p_refs\<close> on: a new portref comes right after the first one.\<close>

definition ref_port :: "ptr \<Rightarrow> ptr \<Rightarrow> ipc \<Rightarrow> ipc" where
  "ref_port port pr st =
     upd_port port (\<lambda>q. q\<lparr>p_refs := (case p_refs q of [] \<Rightarrow> [pr] | r # rs \<Rightarrow> r # pr # rs)\<rparr>) st"

definition deref_port :: "ptr \<Rightarrow> ptr \<Rightarrow> ipc \<Rightarrow> ipc" where
  "deref_port port pr st = upd_port port (\<lambda>q. q\<lparr>p_refs := remove1 pr (p_refs q)\<rparr>) st"

subsection \<open>msg.c: receiving\<close>

definition new_pref :: "ptr \<Rightarrow> ptr \<Rightarrow> ipc \<Rightarrow> ipc" where
  "new_pref p pr st = upd_proc p (\<lambda>q. q\<lparr>p_prefs := insert pr (p_prefs q)\<rparr>) st"

definition del_pref :: "ptr \<Rightarrow> ptr \<Rightarrow> ipc \<Rightarrow> ipc" where
  "del_pref p pr st = free_portref pr (unmapsegs pr (upd_proc p (\<lambda>q. q\<lparr>p_prefs := p_prefs q - {pr}\<rparr>) st))"

definition user_msg :: "sysmsg \<Rightarrow> umsg" where
  "user_msg m = \<lparr>u_op = sm_op m, u_arg = sm_arg m, u_arg1 = sm_arg1 m, u_sender = sm_sender m,
     u_seg = sm_mseg m, u_nseg = sm_mnseg m\<rparr>"

definition v_sema_port :: "ptr \<Rightarrow> ipc \<Rightarrow> ipc" where
  "v_sema_port port st = upd_port port (\<lambda>q. q\<lparr>p_sema := v_asem (p_sema q)\<rparr>) st"

text \<open>What an interrupt leaves in the user's message; the address of the sender and the segments are unset.\<close>

definition receive_isr :: "ienv \<Rightarrow> ulong \<Rightarrow> ulong \<Rightarrow> sys" where
  "receive_isr e isr nintr =
     (if i_copyout e
      then Received \<lparr>u_op = M_ISR, u_arg = isr, u_arg1 = nintr, u_sender = NULL, u_seg = [], u_nseg = 0\<rparr> 0
      else Return (Inr (- 1)))"

text \<open>The bookkeeping for connections; the freed message of a disconnect is still read afterwards.\<close>

definition receive_conn :: "ienv \<Rightarrow> ptr \<Rightarrow> ptr \<Rightarrow> ptr \<Rightarrow> ipc \<Rightarrow> ipc" where
  "receive_conn e p port sm st =
     (let m = msgs st sm; pr = sm_sender m
      in if sm_op m = M_CONNECT then
           (let st1 = new_pref p pr (ref_port port pr st);
                (s, off) = i_kmem e
            in upd_msg sm (\<lambda>m. m\<lparr>sm_seg := [s]\<rparr>)
                 (st1\<lparr>ksegs := (ksegs st1)(s := \<lparr>s_vaddr = 0, s_off = off, s_len = sm_arg1 m\<rparr>), live := insert s (live st1)\<rparr>))
         else if sm_op m = M_DISCONNECT then del_pref p pr (deref_port port pr st)
         else st)"

text \<open>A message is there: the receiver has the turn on the port and took the count of \<open>p_wait\<close>.\<close>

definition msg_receive_got :: "ienv \<Rightarrow> ptr \<Rightarrow> ptr \<Rightarrow> ipc \<Rightarrow> (sys \<times> ipc) outcome" where
  "msg_receive_got e p port st =
     (let sm = p_hd (ports st port)
      in if sm = NULL then Inl NullDeref
         else
           (let st1 = upd_port port (\<lambda>q. q\<lparr>p_hd := sm_next (msgs st sm)\<rparr>) st; m = msgs st1 sm
            in if sm_op m = M_ISR then
                 Inr (receive_isr e (sm_arg m) (sm_arg1 m), v_sema_port port (upd_msg sm (\<lambda>m. m\<lparr>sm_op := 0\<rparr>) st1))
               else
                 (let pr = sm_sender m;
                      st2 = receive_conn e p port sm (upd_pref pr (\<lambda>r. r\<lparr>pr_msg := sm\<rparr>) st1);
                      segs = sm_seg (msgs st2 sm);
                      st3 = (if segs \<noteq> [] \<and> pr_segs (prefs st2 pr) \<noteq> [] then unmapsegs pr st2 else st2)
                  in case mapsegs e segs st3 of
                       None \<Rightarrow> Inr (Return (Inl E_NOMEM), freesegs sm (v_sema_port port (upd_pref pr (\<lambda>r. r\<lparr>pr_segs := []\<rparr>) st3)))
                     | Some (n, st4) \<Rightarrow>
                         (let st5 = sm_to_m sm (if segs \<noteq> [] then upd_pref pr (\<lambda>r. r\<lparr>pr_segs := segs\<rparr>) st4 else st4)
                          in Inr (if i_copyout e then Received (user_msg (msgs st5 sm)) n else Return (Inl E_FAULT),
                                  v_sema_port port st5)))))"

text \<open>With the turn on the port: wait for a message.\<close>

definition msg_receive_turn :: "ienv \<Rightarrow> ptr \<Rightarrow> ptr \<Rightarrow> ipc \<Rightarrow> (sys \<times> ipc) outcome" where
  "msg_receive_turn e p port st =
     (case p_asem (p_wait (ports st port)) of
        (got, s1) \<Rightarrow>
          (let st1 = upd_port port (\<lambda>q. q\<lparr>p_wait := s1\<rparr>) st
           in if got then msg_receive_got e p port st1 else Inr (Arrival port, st1)))"

definition msg_receive :: "ienv \<Rightarrow> ptr \<Rightarrow> int \<Rightarrow> ipc \<Rightarrow> (sys \<times> ipc) outcome" where
  "msg_receive e p arg_port st =
     (case find_port e p arg_port st of
        (NoTurn er, st1) \<Rightarrow> Inr (Return (Inl er), st1)
      | (WaitTurn port, st1) \<Rightarrow> Inr (PortTurn port, st1)
      | (HasTurn port, st1) \<Rightarrow> msg_receive_turn e p port st1)"

definition port_turn_woken :: "ienv \<Rightarrow> ptr \<Rightarrow> ptr \<Rightarrow> ipc \<Rightarrow> (sys \<times> ipc) outcome option" where
  "port_turn_woken e p port st =
     map_option (\<lambda>s1. msg_receive_turn e p port (upd_port port (\<lambda>q. q\<lparr>p_sema := s1\<rparr>) st)) (woken (p_sema (ports st port)))"

definition arrival_woken :: "ienv \<Rightarrow> ptr \<Rightarrow> ptr \<Rightarrow> ipc \<Rightarrow> (sys \<times> ipc) outcome option" where
  "arrival_woken e p port st =
     map_option (\<lambda>s1. msg_receive_got e p port (upd_port port (\<lambda>q. q\<lparr>p_wait := s1\<rparr>) st)) (woken (p_wait (ports st port)))"

definition arrival_intr :: "ptr \<Rightarrow> ipc \<Rightarrow> (sys \<times> ipc) option" where
  "arrival_intr port st =
     map_option (\<lambda>s1. (Return (Inl E_INTR), v_sema_port port (upd_port port (\<lambda>q. q\<lparr>p_wait := s1\<rparr>) st)))
       (unsleep (p_wait (ports st port)))"

subsection \<open>msg.c: replying\<close>

text \<open>The message of the client takes over the reply.\<close>

definition give_reply :: "ptr \<Rightarrow> ptr \<Rightarrow> ipc \<Rightarrow> ipc" where
  "give_reply om sm st =
     (let r = msgs st sm
      in upd_msg om (\<lambda>m. m\<lparr>sm_op := sm_op r, sm_arg := sm_arg r, sm_arg1 := sm_arg1 r, sm_sender := sm_sender r,
           sm_seg := sm_seg r, sm_err := sm_err r\<rparr>) st)"

definition wake_client :: "ptr \<Rightarrow> ipc \<Rightarrow> ipc" where
  "wake_client pr st = upd_pref pr (\<lambda>r. r\<lparr>pr_iowait := v_asem (pr_iowait r)\<rparr>) st"

definition reply_iowait :: "ptr \<Rightarrow> ptr \<Rightarrow> ptr \<Rightarrow> ipc \<Rightarrow> sys \<times> ipc" where
  "reply_iowait p pr sm st =
     (let om = pr_msg (prefs st pr)
      in if om = NULL then (Return (Inl E_INVAL), freesegs sm st)
         else if sm_op (msgs st om) = M_DUP \<and> sm_arg (msgs st sm) \<noteq> - 1 then
           (let newpr = unat (sm_arg (msgs st om));
                st1 = ref_port (pr_port (prefs st pr)) newpr st;
                st2 = wake_client pr (upd_pref pr (\<lambda>r. r\<lparr>pr_state := PS_IODONE\<rparr>) st1)
            in (Return (Inr 0), freesegs sm (new_pref p newpr st2)))
         else
           (let st1 = upd_msg sm (\<lambda>m. m\<lparr>sm_seg := []\<rparr>) (give_reply om sm st);
                st2 = upd_pref pr (\<lambda>r. r\<lparr>pr_msg := NULL, pr_state := PS_IODONE\<rparr>) st1
            in if sm_seg (msgs st2 om) \<noteq> [] then
                 (let st3 = wake_client pr (upd_pref pr (\<lambda>r. r\<lparr>pr_svwait := (pr_svwait r)\<lparr>a_cnt := 0\<rparr>\<rparr>) st2)
                  in case p_asem (pr_svwait (prefs st3 pr)) of
                       (got, s1) \<Rightarrow> (if got then Return (Inr 0) else Copyout pr, upd_pref pr (\<lambda>r. r\<lparr>pr_svwait := s1\<rparr>) st3))
               else (Return (Inr 0), wake_client pr st2)))"

definition msg_reply :: "ienv \<Rightarrow> ptr \<Rightarrow> ptr \<Rightarrow> umsg \<Rightarrow> ptr \<Rightarrow> ipc \<Rightarrow> (sys \<times> ipc) outcome" where
  "msg_reply e p arg_who u sm st =
     (if \<not> i_copyin e then Inr (Return (Inl E_FAULT), st)
      else
        obind (m_to_sm e sm (copyin_msg sm u st)) (\<lambda>(r, st1).
          case r of
            Some er \<Rightarrow> Inr (Return (Inl er), st1)
          | None \<Rightarrow>
              if arg_who \<notin> p_prefs (procs st1 p) then Inr (Return (Inl E_INVAL), freesegs sm st1)
              else
                (let pr = arg_who; st2 = unmapsegs pr st1
                 in Inr (case pr_state (prefs st2 pr) of
                      PS_IOWAIT \<Rightarrow> reply_iowait p pr sm st2
                    | PS_ABWAIT \<Rightarrow>
                        if sm_op (msgs st2 sm) \<noteq> M_ABORT then (Return (Inl E_IO), freesegs sm st2)
                        else (Return (Inr 0), freesegs sm (wake_client pr (upd_pref pr (\<lambda>r. r\<lparr>pr_state := PS_ABDONE\<rparr>) st2)))
                    | _ \<Rightarrow> (Return (Inl E_INVAL), freesegs sm st2)))))"

definition copyout_woken :: "ptr \<Rightarrow> ipc \<Rightarrow> (sys \<times> ipc) option" where
  "copyout_woken pr st =
     map_option (\<lambda>s1. (Return (Inr 0), upd_pref pr (\<lambda>r. r\<lparr>pr_svwait := s1\<rparr>) st)) (woken (pr_svwait (prefs st pr)))"

subsection \<open>msgcon.c: ports and connections\<close>

text \<open>The next unused name from the rotor on; \<open>None\<close>: the search does not end.\<close>

partial_function (option) next_name :: "(ulong \<rightharpoonup> ptr) \<Rightarrow> ulong \<Rightarrow> ulong option" where
  "next_name names r =
     (if names r = None then Some r
      else next_name names (if r + 1 = 0 then START_ROTOR else r + 1))"

declare next_name.simps [code]

definition msg_port :: "ienv \<Rightarrow> ptr \<Rightarrow> ulong \<Rightarrow> ipc \<Rightarrow> ((string + uint) \<times> ulong \<times> ipc) option" where
  "msg_port e p arg_port st =
     (let port = i_new e; st1 = alloc_port port st
      in case find (\<lambda>slot. p_ports (procs st1 p) ! slot = NULL) [0..<PROCPORTS] of
           None \<Rightarrow> Some (Inl E_NOSPC, arg_port, st1)
         | Some slot \<Rightarrow>
             (case (if arg_port = 0
                    then map_option (\<lambda>r. (r, st1\<lparr>rotor := r + 1\<rparr>)) (next_name (portnames st1) (rotor st1))
                    else Some (arg_port, st1)) of
                None \<Rightarrow> None
              | Some (name, st2) \<Rightarrow>
                  if arg_port \<noteq> 0 \<and> portnames st2 name \<noteq> None then Some (Inl E_BUSY, name, st2)
                  else
                    (let st3 = upd_port port (\<lambda>q. q\<lparr>p_name := name\<rparr>) (st2\<lparr>portnames := (portnames st2)(name \<mapsto> port)\<rparr>)
                     in Some (Inr (of_nat (slot + PROCOPENS)), name,
                              upd_proc p (\<lambda>q. q\<lparr>p_ports := (p_ports q)[slot := port]\<rparr>) st3))))"

text \<open>A connection that was answered: the slot gets the portref, or is given back.\<close>

definition msg_connect_done :: "ptr \<Rightarrow> nat \<Rightarrow> ptr \<Rightarrow> ptr \<Rightarrow> ipc \<Rightarrow> sys \<times> ipc" where
  "msg_connect_done p slot pr sm st =
     (if pr_port (prefs st pr) = NULL then (Return (Inl E_IO), free_open p slot st)
      else if pr_state (prefs st pr) \<noteq> PS_IODONE then (Return (Inl (sm_err (msgs st sm))), free_open p slot st)
      else (Return (Inr (of_nat slot)), upd_proc p (\<lambda>q. q\<lparr>p_open := (p_open q)[slot := pr]\<rparr>) st))"

text \<open>The result carries the slot the thread keeps while it sleeps.\<close>

definition msg_connect :: "ienv \<Rightarrow> ptr \<Rightarrow> ulong \<Rightarrow> uint \<Rightarrow> ptr \<Rightarrow> ipc \<Rightarrow> (sys \<times> nat \<times> ipc) outcome" where
  "msg_connect e p arg_port arg_mode sm st =
     (let pr = i_new e;
          st1 = upd_pref pr (\<lambda>r. r\<lparr>pr_nodup := (arg_mode AND ACC_NOCLONE \<noteq> 0)\<rparr>) (alloc_portref pr st);
          mode = (if arg_mode AND ACC_NOCLONE \<noteq> 0 then arg_mode AND NOT ACC_NOCLONE else arg_mode);
          st2 = upd_msg sm (\<lambda>m. m\<lparr>sm_op := M_CONNECT, sm_sender := pr, sm_ids := p, sm_seg := [], sm_arg := mode,
                  sm_arg1 := of_nat (12 * PROCPERMS)\<rparr>) st1
      in obind (alloc_open p st2) (\<lambda>(r, st3).
           case r of
             Inl er \<Rightarrow> Inr (Return (Inl er), 0, st3)
           | Inr slot \<Rightarrow>
               (case portnames st3 arg_port of
                  None \<Rightarrow> Inr (Return (Inl E_SRCH), slot, free_open p slot st3)
                | Some port \<Rightarrow>
                    (let st4 = lqueue_msg port sm (upd_pref pr (\<lambda>r. r\<lparr>pr_port := port\<rparr>) st3)
                     in case p_asem (pr_iowait (prefs st4 pr)) of
                          (got, s1) \<Rightarrow>
                            (let st5 = upd_pref pr (\<lambda>r. r\<lparr>pr_iowait := s1\<rparr>) st4
                             in if got then (case msg_connect_done p slot pr sm st5 of (r, st6) \<Rightarrow> Inr (r, slot, st6))
                                else Inr (Reply pr, slot, st5))))))"

definition connect_woken :: "ptr \<Rightarrow> nat \<Rightarrow> ptr \<Rightarrow> ptr \<Rightarrow> ipc \<Rightarrow> (sys \<times> ipc) option" where
  "connect_woken p slot pr sm st =
     map_option (\<lambda>s1. msg_connect_done p slot pr sm (upd_pref pr (\<lambda>r. r\<lparr>pr_iowait := s1\<rparr>) st)) (woken (pr_iowait (prefs st pr)))"

definition tran_find :: "ptr \<Rightarrow> ptr \<Rightarrow> ipc \<Rightarrow> ptr option" where
  "tran_find p arg_tran st = (if arg_tran \<in> p_prefs (procs st p) then Some arg_tran else None)"

definition msg_accept :: "ptr \<Rightarrow> ptr \<Rightarrow> ipc \<Rightarrow> sys \<times> ipc" where
  "msg_accept p arg_tran st =
     (case tran_find p arg_tran st of
        None \<Rightarrow> (Return (Inl E_INVAL), st)
      | Some pr \<Rightarrow>
          if pr_state (prefs st pr) \<noteq> PS_OPENING then (Return (Inl E_INVAL), st)
          else (Return (Inr 0), wake_client pr (upd_pref pr (\<lambda>r. r\<lparr>pr_state := PS_IODONE\<rparr>) st)))"

text \<open>\<open>get_ustr\<close> of \<open>misc.c\<close>: a string of the given length from the user's memory.\<close>

definition get_ustr :: "ienv \<Rightarrow> nat \<Rightarrow> string \<Rightarrow> int \<Rightarrow> string + string" where
  "get_ustr e klen ustr ulen =
     (if int klen < ulen + 1 then Inl E_INVAL
      else if \<not> i_copyin e then Inl E_FAULT
      else if cstr (take (nat ulen) ustr) = [] then Inl E_INVAL
      else Inr (cstr (take (nat ulen) ustr)))"

definition msg_err :: "ienv \<Rightarrow> ptr \<Rightarrow> ptr \<Rightarrow> string \<Rightarrow> int \<Rightarrow> ipc \<Rightarrow> sys \<times> ipc" where
  "msg_err e p arg_tran arg_why arg_len st =
     (if arg_len < 1 \<or> int ERRLEN \<le> arg_len then (Return (Inl E_INVAL), st)
      else case get_ustr e ERRLEN arg_why arg_len of
        Inl er \<Rightarrow> (Return (Inl er), st)
      | Inr errmsg \<Rightarrow>
          if i_intr e then (Return (Inl E_INTR), st)
          else if arg_tran \<notin> p_prefs (procs st p) then (Return (Inl E_INVAL), st)
          else
            (let pr = arg_tran; state = pr_state (prefs st pr); port = pr_port (prefs st pr); m = pr_msg (prefs st pr);
                 st1 = (if state = PS_OPENING then upd_proc p (\<lambda>q. q\<lparr>p_prefs := p_prefs q - {pr}\<rparr>) st else st)
             in if port = NULL then (Return (Inl E_IO), st1)
                else if m = NULL then (Return (Inl E_INVAL), st1)
                else if state = PS_IOWAIT then
                  (Return (Inr 0), wake_client pr (upd_msg m (\<lambda>x. x\<lparr>sm_arg := - 1, sm_err := errmsg\<rparr>)
                     (upd_pref pr (\<lambda>r. r\<lparr>pr_state := PS_IODONE\<rparr>) st1)))
                else if state = PS_OPENING then
                  (Return (Inr 0), wake_client pr (upd_msg m (\<lambda>x. x\<lparr>sm_err := errmsg\<rparr>)
                     (upd_pref pr (\<lambda>r. r\<lparr>pr_state := PS_ABDONE\<rparr>) (deref_port port pr st1))))
                else (Return (Inl E_INVAL), st1)))"

definition init_msg :: "ipc \<Rightarrow> ipc" where
  "init_msg st = st\<lparr>portnames := Map.empty\<rparr>"

definition msg_portname :: "ienv \<Rightarrow> ptr \<Rightarrow> int \<Rightarrow> ipc \<Rightarrow> sys \<times> ipc" where
  "msg_portname e p arg_port st =
     (case find_portref e p arg_port st of
        (NoTurn er, st1) \<Rightarrow> (Return (Inl er), st1)
      | (WaitTurn pr, st1) \<Rightarrow> (Turn pr, st1)
      | (HasTurn pr, st1) \<Rightarrow> (Return (Inr (p_name (ports st1 (pr_port (prefs st1 pr))))), v_sema_pr pr st1))"

subsection \<open>Closing\<close>

text \<open>\<open>sm\<close>: the message allocated for the server.\<close>

definition shut_client :: "ptr \<Rightarrow> bool \<Rightarrow> ptr \<Rightarrow> ipc \<Rightarrow> sys \<times> ipc" where
  "shut_client pr sema_held sm st =
     (let refs = pr_refs (prefs st pr); st1 = upd_pref pr (\<lambda>r. r\<lparr>pr_refs := pr_refs r - 1\<rparr>) st
      in if 1 < refs then (Return (Inr 0), if sema_held then v_sema_pr pr st1 else st1)
         else
           (let st2 = upd_msg sm (\<lambda>m. m\<lparr>sm_sender := pr, sm_op := M_DISCONNECT, sm_arg := of_nat pr, sm_arg1 := 0, sm_seg := []\<rparr>) st1;
                port = pr_port (prefs st2 pr)
            in if port = NULL then (Return (Inr 0), free_portref pr st2)
               else
                 (let st3 = queue_msg port sm (upd_pref pr (\<lambda>r. r\<lparr>pr_state := PS_CLOSING\<rparr>) st2)
                  in if sema_held then (Return (Inr 0), st3)
                     else (case p_asem (pr_sema (prefs st3 pr)) of
                             (got, s1) \<Rightarrow> (if got then Return (Inr 0) else Turn pr, upd_pref pr (\<lambda>r. r\<lparr>pr_sema := s1\<rparr>) st3)))))"

definition close_client :: "ptr \<Rightarrow> ptr \<Rightarrow> ipc \<Rightarrow> bool \<times> ipc" where
  "close_client port pr st =
     (let st1 = unmapsegs pr st
      in if p_hd (ports st1 port) \<noteq> NULL then (True, st1)
         else (False, deref_port port pr (upd_pref pr (\<lambda>r. r\<lparr>pr_port := NULL,
                 pr_iowait := (if a_cnt (pr_iowait r) < 0 then v_asem (pr_iowait r) else pr_iowait r)\<rparr>) st1)))"

definition bounce_one :: "ptr \<Rightarrow> ipc \<Rightarrow> ipc" where
  "bounce_one sm st =
     (let pr = sm_sender (msgs st sm)
      in if pr = NULL then st
         else
           (let st1 = freesegs sm st
            in if pr_state (prefs st1 pr) = PS_ABWAIT \<and> sm_op (msgs st1 sm) \<noteq> M_ABORT then st1
               else wake_client pr (upd_pref pr (\<lambda>r. r\<lparr>pr_port := NULL\<rparr>)
                      (upd_msg sm (\<lambda>m. m\<lparr>sm_arg1 := - 1, sm_arg := - 1, sm_err := E_IO\<rparr>) st1))))"

partial_function (option) bounce_list :: "ptr \<Rightarrow> ipc \<Rightarrow> ipc option" where
  "bounce_list sm st =
     (if sm = NULL then Some st else bounce_list (sm_next (msgs st sm)) (bounce_one sm st))"

declare bounce_list.simps [code]

definition bounce_msgs :: "ptr \<Rightarrow> ipc \<Rightarrow> ipc option" where
  "bounce_msgs port st = bounce_list (p_hd (ports st port)) (upd_port port (\<lambda>q. q\<lparr>p_hd := NULL\<rparr>) st)"

text \<open>The clients of a server shut down one by one, until a message slips in.\<close>

partial_function (option) close_clients :: "ptr \<Rightarrow> ptr \<Rightarrow> ipc \<Rightarrow> ipc outcome option" where
  "close_clients p port st =
     (case p_refs (ports st port) of
        [] \<Rightarrow> Some (Inr st)
      | pr # _ \<Rightarrow>
          (case close_client port pr st of
             (queued, st1) \<Rightarrow>
               if queued then Some (Inr st1)
               else if pr \<notin> p_prefs (procs st1 p) then Some (Inl Panic)
               else close_clients p port (upd_proc p (\<lambda>q. q\<lparr>p_prefs := p_prefs q - {pr}\<rparr>) st1)))"

declare close_clients.simps [code]

partial_function (option) shut_rounds :: "ptr \<Rightarrow> ptr \<Rightarrow> ipc \<Rightarrow> ipc outcome option" where
  "shut_rounds p port st =
     (case bounce_msgs port st of
        None \<Rightarrow> None
      | Some st1 \<Rightarrow>
          (case close_clients p port st1 of
             None \<Rightarrow> None
           | Some (Inl f) \<Rightarrow> Some (Inl f)
           | Some (Inr st2) \<Rightarrow>
               if p_refs (ports st2 port) = [] then Some (Inr st2) else shut_rounds p port st2))"

declare shut_rounds.simps [code]

definition shut_server :: "ptr \<Rightarrow> ptr \<Rightarrow> ipc \<Rightarrow> ipc outcome option" where
  "shut_server p port st =
     (let st1 = upd_port port (\<lambda>q. q\<lparr>p_closing := True, p_isr := False\<rparr>)
                  (st\<lparr>portnames := (portnames st)(p_name (ports st port) := None)\<rparr>)
      in shut_rounds p port st1)"

definition server_shut :: "ptr \<Rightarrow> ptr \<Rightarrow> ipc \<Rightarrow> (sys \<times> ipc) outcome option" where
  "server_shut p port st = map_option (\<lambda>r. obind r (\<lambda>st1. Inr (Return (Inr 0), st1))) (shut_server p port st)"

definition msg_disconnect :: "ptr \<Rightarrow> int \<Rightarrow> ptr \<Rightarrow> ipc \<Rightarrow> (sys \<times> ipc) outcome option" where
  "msg_disconnect p arg_port sm st =
     (if int PROCOPENS \<le> arg_port then
        (case delete_port p arg_port st of
           (NoTurn er, st1) \<Rightarrow> Some (Inr (Return (Inl er), st1))
         | (WaitTurn port, st1) \<Rightarrow> Some (Inr (PortTurn port, st1))
         | (HasTurn port, st1) \<Rightarrow> server_shut p port st1)
      else if pd_name (procs st p) \<noteq> 0 \<and> arg_port = pd_port (procs st p) then Some (Inr (Return (Inl E_INVAL), st))
      else
        (case delete_portref p arg_port st of
           (Inl er, st1) \<Rightarrow> Some (Inr (Return (Inl er), st1))
         | (Inr pr, st1) \<Rightarrow>
             Some (Inr (case shut_client pr False sm st1 of
               (Turn q, st2) \<Rightarrow> (Turn q, st2) | (_, st2) \<Rightarrow> (Return (Inr 0), st2)))))"

text \<open>
  On exit: the ports of a process, and its portrefs; a thread that has to wait for the turn on a
  portref goes on with the rest of the table, the last component, when it has it.
\<close>

fun close_ports :: "ptr \<Rightarrow> ptr list \<Rightarrow> ipc \<Rightarrow> ipc outcome option" where
  "close_ports p [] st = Some (Inr st)"
| "close_ports p (port # ps) st =
     (if port = NULL then close_ports p ps st
      else case shut_server p port st of
             None \<Rightarrow> None
           | Some (Inl f) \<Rightarrow> Some (Inl f)
           | Some (Inr st1) \<Rightarrow> close_ports p ps st1)"

fun close_portrefs :: "ptr list \<Rightarrow> ptr list \<Rightarrow> ipc \<Rightarrow> sys \<times> ipc \<times> ptr list" where
  "close_portrefs [] sms st = (Return (Inr 0), st, [])"
| "close_portrefs (pr # prs) sms st =
     (if pr = NULL then close_portrefs prs sms st
      else case shut_client pr False (hd sms) st of
             (Turn q, st1) \<Rightarrow> (Turn q, st1, prs)
           | (_, st1) \<Rightarrow> close_portrefs prs (tl sms) st1)"

subsection \<open>msgkern.c, and duplicates of a portref\<close>

text \<open>The state is \<open>None\<close> when the port is gone; otherwise whether the thread goes on without a sleep.\<close>

definition kernmsg_send :: "ptr \<Rightarrow> uint \<Rightarrow> ulong \<times> ulong \<Rightarrow> ptr \<Rightarrow> ipc \<Rightarrow> bool option \<times> ipc" where
  "kernmsg_send pr opc args sm st =
     (let st1 = upd_msg sm (\<lambda>m. m\<lparr>sm_sender := pr, sm_op := opc, sm_seg := [], sm_arg := fst args, sm_arg1 := snd args\<rparr>) st
      in if pr_port (prefs st1 pr) = NULL then (None, st1)
         else
           (let st2 = upd_pref pr (\<lambda>r. r\<lparr>pr_state := PS_IOWAIT\<rparr>) st1;
                st3 = queue_msg (pr_port (prefs st2 pr)) sm st2
            in case p_asem (pr_iowait (prefs st3 pr)) of
                 (got, s1) \<Rightarrow> (Some got, upd_pref pr (\<lambda>r. r\<lparr>pr_iowait := s1\<rparr>) st3)))"

definition kernmsg_done :: "ptr \<Rightarrow> ptr \<Rightarrow> ipc \<Rightarrow> ((ulong \<times> ulong \<times> uint) option \<times> ipc) outcome" where
  "kernmsg_done pr sm st =
     (let st1 = upd_pref pr (\<lambda>r. r\<lparr>pr_svwait := v_asem (pr_svwait r)\<rparr>) st; m = msgs st1 sm
      in if sm_arg m = - 1 then Inr (None, st1)
         else if sm_seg m \<noteq> [] then Inl Panic
         else Inr (Some (sm_arg m, sm_arg1 m, sm_op m), st1))"

text \<open>\<open>dup_port\<close>: no duplicate; or the new portref, which the server is asked to accept.\<close>

definition dup_port :: "ienv \<Rightarrow> ptr \<Rightarrow> ptr \<Rightarrow> ipc \<Rightarrow> bool option \<times> ipc" where
  "dup_port e opr sm st =
     (if pr_nodup (prefs st opr) then (None, st)
      else
        (let pr = i_new e;
             st1 = upd_pref pr (\<lambda>r. r\<lparr>pr_port := pr_port (prefs st opr), pr_state := PS_IODONE\<rparr>) (alloc_portref pr st)
         in kernmsg_send opr M_DUP (of_nat pr, 0) sm st1))"

definition dup_port_done :: "ptr \<Rightarrow> ptr \<Rightarrow> ptr \<Rightarrow> ipc \<Rightarrow> (ptr \<times> ipc) outcome" where
  "dup_port_done opr pr sm st =
     obind (kernmsg_done opr sm st) (\<lambda>(r, st1).
       Inr (case r of None \<Rightarrow> NULL | Some (a, _) \<Rightarrow> if a = - 1 then NULL else pr, st1))"

definition clone_done :: "ienv \<Rightarrow> ptr \<Rightarrow> nat \<Rightarrow> ptr \<Rightarrow> ptr \<Rightarrow> ipc \<Rightarrow> (sys \<times> ipc) outcome" where
  "clone_done e p slot pr sm st =
     obind (dup_port_done pr (i_new e) sm st) (\<lambda>(newpr, st1).
       (let st2 = v_sema_pr pr st1
        in Inr (if newpr \<noteq> NULL
                then (Return (Inr (of_nat slot)), upd_proc p (\<lambda>q. q\<lparr>p_open := (p_open q)[slot := newpr]\<rparr>) st2)
                else (Return (Inr (- 1)), free_open p slot st2))))"

definition clone_turn :: "ienv \<Rightarrow> ptr \<Rightarrow> nat \<Rightarrow> ptr \<Rightarrow> ptr \<Rightarrow> ipc \<Rightarrow> (sys \<times> ipc) outcome" where
  "clone_turn e p slot pr sm st =
     (case got_turn pr st of
        (Some er, st1) \<Rightarrow> Inr (Return (Inl er), free_open p slot st1)
      | (None, st1) \<Rightarrow>
          (case dup_port e pr sm st1 of
             (None, st2) \<Rightarrow> Inr (Return (Inr (- 1)), free_open p slot (v_sema_pr pr st2))
           | (Some True, st2) \<Rightarrow> clone_done e p slot pr sm st2
           | (Some False, st2) \<Rightarrow> Inr (Reply pr, st2)))"

definition clone :: "ienv \<Rightarrow> ptr \<Rightarrow> int \<Rightarrow> ptr \<Rightarrow> ipc \<Rightarrow> (sys \<times> nat \<times> ipc) outcome" where
  "clone e p arg_port sm st =
     obind (alloc_open p st) (\<lambda>(r, st1).
       case r of
         Inl er \<Rightarrow> Inr (Return (Inl er), 0, st1)
       | Inr slot \<Rightarrow>
           (case find_portref e p arg_port st1 of
              (NoTurn er, st2) \<Rightarrow> Inr (Return (Inl er), slot, free_open p slot st2)
            | (WaitTurn pr, st2) \<Rightarrow> Inr (Turn pr, slot, st2)
            | (HasTurn pr, st2) \<Rightarrow> obind (clone_turn e p slot pr sm st2) (\<lambda>(r, st3). Inr (r, slot, st3))))"

end
