(* ===== verification/Ipc_Queue.thy ===== *)
theory Ipc_Queue
  imports Ipc
begin

text \<open>
  The queue of messages under a port, linked through \<open>sm_next\<close> from \<open>p_hd\<close> to \<open>p_tl\<close>, is a list: a new
  message goes to its end, a receiver takes the first, an interrupted sender takes out its own.
  \<open>p_tl\<close> is only meaningful while the queue is not empty.
\<close>

subsection \<open>Frames\<close>

lemma upd_msg_simps [simp]:
  "ports (upd_msg a g st) = ports st" "prefs (upd_msg a g st) = prefs st" "procs (upd_msg a g st) = procs st"
  "portnames (upd_msg a g st) = portnames st" "ksegs (upd_msg a g st) = ksegs st" "live (upd_msg a g st) = live st"
  "rotor (upd_msg a g st) = rotor st"
  "msgs (upd_msg a g st) = (msgs st)(a := g (msgs st a))"
  by (simp_all add: upd_msg_def)

lemma upd_pref_simps [simp]:
  "ports (upd_pref a h st) = ports st" "msgs (upd_pref a h st) = msgs st" "procs (upd_pref a h st) = procs st"
  "portnames (upd_pref a h st) = portnames st" "ksegs (upd_pref a h st) = ksegs st" "live (upd_pref a h st) = live st"
  "rotor (upd_pref a h st) = rotor st"
  "prefs (upd_pref a h st) = (prefs st)(a := h (prefs st a))"
  by (simp_all add: upd_pref_def)

lemma upd_port_simps [simp]:
  "prefs (upd_port a k st) = prefs st" "msgs (upd_port a k st) = msgs st" "procs (upd_port a k st) = procs st"
  "portnames (upd_port a k st) = portnames st" "ksegs (upd_port a k st) = ksegs st" "live (upd_port a k st) = live st"
  "rotor (upd_port a k st) = rotor st"
  "ports (upd_port a k st) = (ports st)(a := k (ports st a))"
  by (simp_all add: upd_port_def)

lemma upd_proc_simps [simp]:
  "prefs (upd_proc a l st) = prefs st" "msgs (upd_proc a l st) = msgs st" "ports (upd_proc a l st) = ports st"
  "portnames (upd_proc a l st) = portnames st" "ksegs (upd_proc a l st) = ksegs st" "live (upd_proc a l st) = live st"
  "rotor (upd_proc a l st) = rotor st"
  "procs (upd_proc a l st) = (procs st)(a := l (procs st a))"
  by (simp_all add: upd_proc_def)

subsection \<open>The list of a queue\<close>

fun chain :: "(ptr \<Rightarrow> sysmsg) \<Rightarrow> ptr list \<Rightarrow> bool" where
  "chain ms [] = True"
| "chain ms [a] = (sm_next (ms a) = NULL)"
| "chain ms (a # b # as) = (sm_next (ms a) = b \<and> chain ms (b # as))"

definition first :: "ptr list \<Rightarrow> ptr" where
  "first as = (case as of [] \<Rightarrow> NULL | a # _ \<Rightarrow> a)"

lemma first_simps [simp]: "first [] = NULL" "first (a # as) = a"
  by (simp_all add: first_def)

definition queue_rep :: "ipc \<Rightarrow> ptr \<Rightarrow> ptr list \<Rightarrow> bool" where
  "queue_rep st port as \<longleftrightarrow>
     distinct as \<and> NULL \<notin> set as \<and> chain (msgs st) as \<and> p_hd (ports st port) = first as \<and>
     (as \<noteq> [] \<longrightarrow> p_tl (ports st port) = last as)"

lemma chain_Cons: "chain ms (a # as) \<longleftrightarrow> sm_next (ms a) = first as \<and> chain ms as"
  by (cases as) auto

lemma chain_cong: "(\<And>a. a \<in> set as \<Longrightarrow> sm_next (ms' a) = sm_next (ms a)) \<Longrightarrow> chain ms' as = chain ms as"
  by (induction as) (simp_all add: chain_Cons)

lemma first_append: "first (xs @ ys) = (if xs = [] then first ys else first xs)"
  by (cases xs) simp_all

lemma first_mem: "as \<noteq> [] \<Longrightarrow> first as \<in> set as"
  by (cases as) simp_all

lemma chain_snoc:
  assumes "chain ms as" "distinct as" "a \<notin> set as" "a \<noteq> NULL"
    and "ms' a = (ms a)\<lparr>sm_next := NULL\<rparr>" "as \<noteq> [] \<Longrightarrow> sm_next (ms' (last as)) = a"
    and "\<And>x. x \<noteq> a \<Longrightarrow> as \<noteq> [] \<Longrightarrow> x \<noteq> last as \<Longrightarrow> sm_next (ms' x) = sm_next (ms x)"
  shows "chain ms' (as @ [a])"
  using assms
proof (induction as)
  case (Cons x as)
  show ?case
  proof (cases "as = []")
    case True
    then show ?thesis using Cons.prems by (simp add: chain_Cons)
  next
    case False
    have "chain ms' (as @ [a])"
      using Cons.prems False by (intro Cons.IH) (auto simp: chain_Cons)
    moreover have "x \<noteq> last as" using Cons.prems(2) False by auto
    then have "sm_next (ms' x) = first (as @ [a])"
      using Cons.prems False by (simp add: chain_Cons first_append)
    ultimately show ?thesis by (simp add: chain_Cons)
  qed
qed simp

lemma queue_msg_rep:
  assumes "queue_rep st port as" "sm \<noteq> NULL" "sm \<notin> set as"
  shows "queue_rep (queue_msg port sm st) port (as @ [sm])"
proof -
  note q = assms(1) [unfolded queue_rep_def]
  let ?st = "queue_msg port sm st"
  show ?thesis
  proof (cases "as = []")
    case True
    then show ?thesis using q assms(2) by (simp add: queue_rep_def queue_msg_def inline_lqueue_msg_def Let_def)
  next
    case False
    then have hd: "p_hd (ports st port) \<noteq> NULL" using q first_mem by metis
    have tl: "p_tl (ports st port) = last as" "last as \<in> set as" "last as \<noteq> sm"
      using q False assms(3) last_in_set [OF False] by auto
    have m: "msgs ?st = (msgs st)(sm := (msgs st sm)\<lparr>sm_next := NULL\<rparr>, last as := (msgs st (last as))\<lparr>sm_next := sm\<rparr>)"
      using hd tl by (simp add: queue_msg_def inline_lqueue_msg_def Let_def)
    have "chain (msgs ?st) (as @ [sm])"
      using q tl assms(2,3) by (intro chain_snoc [of "msgs st"]) (auto simp: m)
    moreover have "p_hd (ports ?st port) = p_hd (ports st port)" "p_tl (ports ?st port) = sm"
      using hd by (simp_all add: queue_msg_def inline_lqueue_msg_def Let_def)
    ultimately show ?thesis using q assms(2,3) False by (simp add: queue_rep_def first_append)
  qed
qed

text \<open>Taking the first message.\<close>

lemma take_msg_rep:
  assumes "queue_rep st port (sm # as)"
  shows "queue_rep (upd_port port (\<lambda>q. q\<lparr>p_hd := sm_next (msgs st sm)\<rparr>) st) port as"
  using assms by (auto simp: queue_rep_def chain_Cons split: if_splits)

subsection \<open>Taking a message out\<close>


lemma prev_msg_absent:
  assumes "chain (msgs st) as" "NULL \<notin> set as" "sm \<noteq> NULL" "sm \<notin> set (tl as)"
  shows "prev_msg st sm (first as) = Some NULL"
  using assms
proof (induction as)
  case Nil
  show ?case by (simp add: prev_msg.simps)
next
  case (Cons a as)
  have "sm_next (msgs st a) = first as" using Cons.prems(1) by (simp add: chain_Cons)
  moreover have "first as \<noteq> sm" using Cons.prems(3,4) first_mem [of as] by (cases "as = []") auto
  moreover have "sm \<notin> set (tl as)" using Cons.prems(4) by (cases as) auto
  ultimately show ?case using Cons by (simp add: chain_Cons prev_msg.simps [of st sm a])
qed

lemma prev_msg_present:
  assumes "chain (msgs st) (xs @ s # sm # ys)" "NULL \<notin> set (xs @ s # sm # ys)" "sm \<notin> set xs" "sm \<noteq> s"
  shows "prev_msg st sm (first (xs @ s # sm # ys)) = Some s"
  using assms
proof (induction xs)
  case Nil
  then show ?case by (simp add: prev_msg.simps [of st sm s])
next
  case (Cons a xs)
  have nx: "sm_next (msgs st a) = first (xs @ s # sm # ys)" using Cons.prems(1) by (simp add: chain_Cons)
  moreover have "first (xs @ s # sm # ys) \<noteq> sm" using Cons.prems(3,4) first_mem [of xs] by (cases xs) auto
  ultimately show ?case using Cons by (simp add: chain_Cons prev_msg.simps [of st sm a])
qed

lemma chain_drop_one:
  assumes "chain ms (xs @ s # sm # ys)" "distinct (xs @ s # sm # ys)"
  shows "chain (ms(s := (ms s)\<lparr>sm_next := sm_next (ms sm)\<rparr>)) (xs @ s # ys)"
  using assms
proof (induction xs)
  case Nil
  have "chain (ms(s := (ms s)\<lparr>sm_next := sm_next (ms sm)\<rparr>)) ys = chain ms ys"
    using Nil.prems(2) by (intro chain_cong) auto
  with Nil.prems have "chain (ms(s := (ms s)\<lparr>sm_next := sm_next (ms sm)\<rparr>)) ys" by (simp only: append_Nil chain_Cons)
  moreover have "sm_next ((ms(s := (ms s)\<lparr>sm_next := sm_next (ms sm)\<rparr>)) s) = first ys"
    using Nil.prems(1) by (simp add: chain_Cons)
  ultimately show ?case by (simp only: append_Nil chain_Cons)
next
  case (Cons a xs)
  then show ?case by (simp add: chain_Cons first_append split: if_splits)
qed

lemma unqueue_msg_rep:
  assumes "queue_rep st port as" "sm \<noteq> NULL"
  shows "\<exists>st'. unqueue_msg port sm st = Some (sm \<in> set as, st') \<and> queue_rep st' port (remove1 sm as) \<and>
    (\<forall>q. q \<noteq> port \<longrightarrow> ports st' q = ports st q) \<and> prefs st' = prefs st \<and> procs st' = procs st \<and>
    p_wait (ports st' port) = p_wait (ports st port)"
proof -
  note q = assms(1) [unfolded queue_rep_def]
  show ?thesis
  proof (cases "p_hd (ports st port) = sm")
    case True
    then obtain bs where as: "as = sm # bs" using q assms(2) by (cases as) auto
    show ?thesis using True as take_msg_rep [of st port sm bs] assms by (simp add: unqueue_msg_def)
  next
    case hd: False
    show ?thesis
    proof (cases "sm \<in> set as")
      case False
      then have "sm \<notin> set (tl as)" by (cases as) auto
      then have "prev_msg st sm (first as) = Some NULL"
        using q assms(2) by (intro prev_msg_absent) auto
      then show ?thesis using hd q False assms(1) by (simp add: unqueue_msg_def remove1_idem)
    next
      case True
      then obtain us vs where uv: "as = us @ sm # vs" "sm \<notin> set us" by (meson split_list_first)
      have "us \<noteq> []" using uv hd q by auto
      then obtain xs s where us: "us = xs @ [s]" by (cases us rule: rev_cases) auto
      have as: "as = xs @ s # sm # vs" using uv us by simp
      have ne: "sm \<noteq> s" "sm \<notin> set xs" "s \<noteq> NULL" using uv us q by auto
      have pm: "prev_msg st sm (p_hd (ports st port)) = Some s"
        using prev_msg_present [of st xs s sm vs] q as ne by simp
      have ch: "chain ((msgs st)(s := (msgs st s)\<lparr>sm_next := sm_next (msgs st sm)\<rparr>)) (xs @ s # vs)"
        using q as by (intro chain_drop_one) simp_all
      have rm: "remove1 sm as = xs @ s # vs" using as ne by (simp add: remove1_append)
      have tl: "p_tl (ports st port) = sm \<longleftrightarrow> vs = []"
        using q as by (cases vs rule: rev_cases) auto
      show ?thesis
        using q as ch pm hd ne tl rm
        by (cases "vs = []") (simp_all add: unqueue_msg_def Let_def queue_rep_def first_append)
    qed
  qed
qed

subsection \<open>Any sequence of operations\<close>

datatype queue_op = Put ptr | Take | Pull ptr

datatype queue_res = Done | Got ptr | Pulled bool

text \<open>
  The operations as the system calls make them: \<open>queue_msg\<close> of a sender, the head of the queue for a
  receiver that got the count of \<open>p_wait\<close>, \<open>unqueue_msg\<close> of an interrupted sender.
\<close>

fun queue_run :: "ptr \<Rightarrow> queue_op list \<Rightarrow> ipc \<Rightarrow> (queue_res list \<times> ipc) option" where
  "queue_run port [] st = Some ([], st)"
| "queue_run port (Put sm # ops) st =
     map_option (\<lambda>(rs, st1). (Done # rs, st1)) (queue_run port ops (queue_msg port sm st))"
| "queue_run port (Take # ops) st =
     (let sm = p_hd (ports st port)
      in if sm = NULL then None
         else map_option (\<lambda>(rs, st1). (Got sm # rs, st1))
                (queue_run port ops (upd_port port (\<lambda>q. q\<lparr>p_hd := sm_next (msgs st sm)\<rparr>) st)))"
| "queue_run port (Pull sm # ops) st =
     (case unqueue_msg port sm st of
        None \<Rightarrow> None
      | Some (b, st1) \<Rightarrow> map_option (\<lambda>(rs, st2). (Pulled b # rs, st2)) (queue_run port ops st1))"

text \<open>The same on lists: a message is only put when it is not queued, and only taken when there is one.\<close>

fun list_run :: "queue_op list \<Rightarrow> ptr list \<Rightarrow> (queue_res list \<times> ptr list) option" where
  "list_run [] as = Some ([], as)"
| "list_run (Put sm # ops) as =
     (if sm = NULL \<or> sm \<in> set as then None
      else map_option (\<lambda>(rs, as1). (Done # rs, as1)) (list_run ops (as @ [sm])))"
| "list_run (Take # ops) [] = None"
| "list_run (Take # ops) (sm # as) = map_option (\<lambda>(rs, as1). (Got sm # rs, as1)) (list_run ops as)"
| "list_run (Pull sm # ops) as =
     (if sm = NULL then None
      else map_option (\<lambda>(rs, as1). (Pulled (sm \<in> set as) # rs, as1)) (list_run ops (remove1 sm as)))"

text \<open>
  C2: any sequence of sends, receives and interrupted sends does to the linked messages of a port
  what it does to a list: messages arrive in the order they were sent, a sender that is
  interrupted finds its message exactly when no receiver took it, and the others keep their order.
\<close>

theorem port_queue_spec:
  assumes "queue_rep st port as" "list_run ops as = Some (rs, bs)"
  shows "\<exists>st'. queue_run port ops st = Some (rs, st') \<and> queue_rep st' port bs"
  using assms
proof (induction ops as arbitrary: st rs rule: list_run.induct)
  case (1 as)
  then show ?case by simp
next
  case (2 sm ops as)
  then obtain rs1 where "list_run ops (as @ [sm]) = Some (rs1, bs)" "rs = Done # rs1" "sm \<noteq> NULL" "sm \<notin> set as"
    by (auto split: if_splits)
  then show ?case using "2.IH" [OF _ queue_msg_rep [OF "2.prems"(1)]] by auto
next
  case (4 ops sm as)
  then obtain rs1 where "list_run ops as = Some (rs1, bs)" "rs = Got sm # rs1" by auto
  moreover have "p_hd (ports st port) = sm" "sm \<noteq> NULL" using "4.prems"(1) by (simp_all add: queue_rep_def)
  ultimately show ?case using "4.IH" [OF take_msg_rep [OF "4.prems"(1)]] by auto
next
  case (5 sm ops as)
  then obtain rs1 where r: "list_run ops (remove1 sm as) = Some (rs1, bs)" "rs = Pulled (sm \<in> set as) # rs1" "sm \<noteq> NULL"
    by (auto split: if_splits)
  from unqueue_msg_rep [OF "5.prems"(1) r(3)] obtain st1 where
    "unqueue_msg port sm st = Some (sm \<in> set as, st1)" "queue_rep st1 port (remove1 sm as)" by blast
  then show ?case using "5.IH" [OF r(3) _ r(1)] r(2) by auto
qed simp

end
