(* ===== verification/Ipc_Spec.thy ===== *)
theory Ipc_Spec
  imports Ipc_Queue
begin

text \<open>
  What a client and a server can rely on, and what goes wrong when an event, an exit or a second
  reply comes between: the calls of both sides run one after the other in all the orders that
  matter.
\<close>

text \<open>
  An open connection at rest: the client \<open>c\<close> has the portref \<open>pr\<close> at handle \<open>h\<close>, the server \<open>s\<close> serves the
  port at handle \<open>hs\<close> and knows the portref, and nothing is under way on either.
\<close>

definition pref_rest :: "ipc \<Rightarrow> ptr \<Rightarrow> ptr \<Rightarrow> bool" where
  "pref_rest st pr port \<longleftrightarrow>
     pr_port (prefs st pr) = port \<and> a_cnt (pr_sema (prefs st pr)) = 1 \<and> pr_iowait (prefs st pr) = \<lparr>a_cnt = 0, a_go = 0\<rparr> \<and>
     pr_segs (prefs st pr) = []"

definition port_rest :: "ipc \<Rightarrow> ptr \<Rightarrow> bool" where
  "port_rest st port \<longleftrightarrow>
     a_cnt (p_sema (ports st port)) = 1 \<and> p_wait (ports st port) = \<lparr>a_cnt = 0, a_go = 0\<rparr> \<and> queue_rep st port []"

definition connected :: "ipc \<Rightarrow> ptr \<Rightarrow> int \<Rightarrow> ptr \<Rightarrow> ptr \<Rightarrow> int \<Rightarrow> ptr \<Rightarrow> bool" where
  "connected st c h pr s hs port \<longleftrightarrow>
     pr \<noteq> NULL \<and> port \<noteq> NULL \<and> open_slot (procs st c) h = pr \<and> port_slot (procs st s) hs = port \<and> pr \<in> p_prefs (procs st s)"

text \<open>Copies succeed, and no event comes between.\<close>

definition fair_env :: "ienv \<Rightarrow> bool" where
  "fair_env e \<longleftrightarrow> i_copyin e \<and> i_copyout e \<and> \<not> i_intr e"

lemma no_segs [simp]:
  "freesegs sm st = st\<lparr>msgs := (msgs st)(sm := (msgs st sm)\<lparr>sm_seg := []\<rparr>)\<rparr>" if "sm_seg (msgs st sm) = []"
  using that by (simp add: freesegs_def upd_msg_def)

lemma m_to_sm_none:
  "sm_mnseg (msgs st sm) = 0 \<Longrightarrow> m_to_sm e sm st = Inr (None, upd_msg sm (\<lambda>m. m\<lparr>sm_seg := []\<rparr>) st)"
  by (simp add: m_to_sm_def obind_def MSGSEGS_def word_sless_alt)

lemmas asem_defs = p_asem_def v_asem_def woken_def unsleep_def

subsection \<open>A call\<close>

lemma send_at_rest:
  assumes c: "connected st c h pr s hs port" "pref_rest st pr port" "queue_rep st port []" "fair_env e" "sm \<noteq> NULL"
    and u: "M_RESVD \<le> u_op u AND MSG_MASK" "u_nseg u = 0"
  shows "\<exists>st1. msg_send e c h u sm st = Inr (Reply pr, st1) \<and>
    queue_rep st1 port [sm] \<and> procs st1 = procs st \<and>
    user_msg (msgs st1 sm) = u\<lparr>u_sender := pr\<rparr> \<and> sm_seg (msgs st1 sm) = [] \<and>
    prefs st1 pr = (prefs st pr)\<lparr>pr_sema := (pr_sema (prefs st pr))\<lparr>a_cnt := 0\<rparr>, pr_state := PS_IOWAIT,
      pr_iowait := \<lparr>a_cnt = - 1, a_go = 0\<rparr>\<rparr> \<and>
    p_wait (ports st1 port) = v_asem (p_wait (ports st port)) \<and>
    p_sema (ports st1 port) = p_sema (ports st port) \<and> p_refs (ports st1 port) = p_refs (ports st port) \<and>
    (\<forall>a. a \<noteq> sm \<longrightarrow> msgs st1 a = msgs st a)"
proof -
  let ?st1 = "upd_msg sm (\<lambda>m. m\<lparr>sm_seg := []\<rparr>) (copyin_msg sm u st)"
  have m: "(if u_op u AND M_READ = 0 then m_to_sm e sm (copyin_msg sm u st) else Inr (None, ?st1)) = Inr (None, ?st1)"
    using u(2) by (simp add: m_to_sm_none copyin_msg_def)
  have p: "p_asem (pr_sema (prefs st pr)) = (True, (pr_sema (prefs st pr))\<lparr>a_cnt := 0\<rparr>)"
    using c(2) by (simp add: p_asem_def pref_rest_def)
  let ?st2 = "upd_pref pr (\<lambda>r. r\<lparr>pr_sema := (pr_sema (prefs st pr))\<lparr>a_cnt := 0\<rparr>\<rparr>) ?st1"
  have f: "find_portref e c h ?st1 = (HasTurn pr, ?st2)"
    using c p by (simp add: find_portref_def Let_def connected_def fair_env_def pref_rest_def copyin_msg_def)
  have "\<not> u_op u AND MSG_MASK < M_RESVD" using u(1) by simp
  with c(4) m f have e: "msg_send e c h u sm st = msg_send_turn e pr sm ?st2"
    by (simp add: msg_send_def Let_def obind_def fair_env_def)
  let ?st3 = "upd_pref pr (\<lambda>r. r\<lparr>pr_state := PS_IOWAIT\<rparr>) (upd_msg sm (\<lambda>m. m\<lparr>sm_sender := pr\<rparr>) ?st2)"
  let ?st4 = "queue_msg port sm ?st3"
  have port: "pr_port (prefs ?st3 pr) = port" "pr_port (prefs ?st2 pr) = port" using c(2) by (simp_all add: pref_rest_def copyin_msg_def)
  have qr: "queue_rep ?st3 port []" using c(3) by (simp add: queue_rep_def copyin_msg_def)
  from queue_msg_rep [OF qr] c(5) have q: "queue_rep ?st4 port [sm]" by simp
  have hd: "p_hd (ports st port) = NULL" using c(3) by (simp add: queue_rep_def)
  have f4: "prefs ?st4 = prefs ?st3" "procs ?st4 = procs st"
    "msgs ?st4 sm = (msgs ?st3 sm)\<lparr>sm_next := NULL\<rparr>" "p_wait (ports ?st4 port) = v_asem (p_wait (ports st port))"
    "p_sema (ports ?st4 port) = p_sema (ports st port)" "p_refs (ports ?st4 port) = p_refs (ports st port)"
    "\<forall>a. a \<noteq> sm \<longrightarrow> msgs ?st4 a = msgs st a"
    using hd by (simp_all add: queue_msg_def inline_lqueue_msg_def Let_def copyin_msg_def)
  have io: "p_asem (pr_iowait (prefs ?st4 pr)) = (False, \<lparr>a_cnt = - 1, a_go = 0\<rparr>)"
    using c(2) unfolding f4 by (simp add: pref_rest_def p_asem_def copyin_msg_def)
  have "msg_send e c h u sm st = Inr (Reply pr, upd_pref pr (\<lambda>r. r\<lparr>pr_iowait := \<lparr>a_cnt = - 1, a_go = 0\<rparr>\<rparr>) ?st4)"
    unfolding e msg_send_turn_def got_turn_def using port c(1) io
    by (simp add: connected_def Let_def)
  moreover have "queue_rep (upd_pref pr (\<lambda>r. r\<lparr>pr_iowait := \<lparr>a_cnt = - 1, a_go = 0\<rparr>\<rparr>) ?st4) port [sm]"
    using q by (simp add: queue_rep_def)
  moreover have "user_msg (msgs ?st4 sm) = u\<lparr>u_sender := pr\<rparr>" "sm_seg (msgs ?st4 sm) = []"
    unfolding f4 by (simp_all add: user_msg_def copyin_msg_def)
  ultimately show ?thesis using f4 by (simp add: copyin_msg_def)
qed

lemma ordinary_op:
  assumes "M_RESVD \<le> x AND MSG_MASK"
  shows "x \<noteq> M_ISR" "x \<noteq> M_CONNECT" "x \<noteq> M_DISCONNECT" "x \<noteq> M_DUP" "x \<noteq> M_ABORT"
  using assms by (auto simp: M_RESVD_def MSG_MASK_def M_ISR_def M_defs word_le_nat_alt)

text \<open>The receiver takes a message without segments.\<close>

lemma receive_plain:
  assumes q: "queue_rep st port (sm # as)" and op: "M_RESVD \<le> sm_op (msgs st sm) AND MSG_MASK"
    and m: "sm_seg (msgs st sm) = []" "sm_sender (msgs st sm) = pr" and e: "fair_env e"
  shows "\<exists>st1. msg_receive_got e s port st = Inr (Received ((user_msg (msgs st sm))\<lparr>u_nseg := 0\<rparr>) 0, st1) \<and>
    queue_rep st1 port as \<and> procs st1 = procs st \<and> prefs st1 = (prefs st)(pr := (prefs st pr)\<lparr>pr_msg := sm\<rparr>) \<and>
    msgs st1 = (msgs st)(sm := (msgs st sm)\<lparr>sm_mnseg := 0\<rparr>) \<and>
    p_wait (ports st1 port) = p_wait (ports st port) \<and> p_sema (ports st1 port) = v_asem (p_sema (ports st port)) \<and>
    p_refs (ports st1 port) = p_refs (ports st port)"
proof -
  have hd: "p_hd (ports st port) = sm" "sm \<noteq> NULL" using q by (simp_all add: queue_rep_def)
  let ?st1 = "upd_port port (\<lambda>q. q\<lparr>p_hd := sm_next (msgs st sm)\<rparr>) st"
  have q1: "queue_rep ?st1 port as" by (rule take_msg_rep [OF q])
  note o = ordinary_op [OF op]
  let ?st2 = "upd_pref pr (\<lambda>r. r\<lparr>pr_msg := sm\<rparr>) ?st1"
  have rc: "receive_conn e s port sm ?st2 = ?st2" using o by (simp add: receive_conn_def)
  have r: "msg_receive_got e s port st =
      Inr (Received (user_msg (msgs (sm_to_m sm ?st2) sm)) 0, v_sema_port port (sm_to_m sm ?st2))"
    using hd o(1) m e rc by (simp add: msg_receive_got_def Let_def fair_env_def)
  have mm: "msgs (sm_to_m sm ?st2) = (msgs st)(sm := (msgs st sm)\<lparr>sm_mnseg := 0\<rparr>)"
    using m(1) by (cases "msgs st sm") (simp add: sm_to_m_def)
  have "queue_rep (v_sema_port port (sm_to_m sm ?st2)) port as"
  proof -
    have "chain ((msgs st)(sm := (msgs st sm)\<lparr>sm_mnseg := 0\<rparr>)) as = chain (msgs st) as" by (rule chain_cong) simp
    then show ?thesis using q1 mm by (simp add: queue_rep_def v_sema_port_def) (simp add: sm_to_m_def)
  qed
  with r mm m(1) show ?thesis by (simp add: v_sema_port_def sm_to_m_def user_msg_def)
qed

text \<open>The server answers, and the client goes on.\<close>

lemma reply_plain:
  assumes p: "pr \<in> p_prefs (procs st s)" "pr_state (prefs st pr) = PS_IOWAIT" "pr_msg (prefs st pr) = sm" "pr_segs (prefs st pr) = []"
    and m: "sm \<noteq> NULL" "rm \<noteq> sm" "sm_op (msgs st sm) \<noteq> M_DUP" and r: "u_nseg r = 0" and e: "fair_env e"
  shows "\<exists>st1. msg_reply e s pr r rm st = Inr (Return (Inr 0), st1) \<and>
    sm_arg (msgs st1 sm) = u_arg r \<and> sm_seg (msgs st1 sm) = [] \<and> sm_mnseg (msgs st1 sm) = sm_mnseg (msgs st sm) \<and>
    ports st1 = ports st \<and> procs st1 = procs st \<and> (\<forall>a. a \<noteq> sm \<longrightarrow> a \<noteq> rm \<longrightarrow> msgs st1 a = msgs st a) \<and>
    prefs st1 pr = (prefs st pr)\<lparr>pr_msg := NULL, pr_state := PS_IODONE, pr_iowait := v_asem (pr_iowait (prefs st pr))\<rparr>"
proof -
  let ?st1 = "upd_msg rm (\<lambda>m. m\<lparr>sm_seg := []\<rparr>) (copyin_msg rm r st)"
  have i: "m_to_sm e rm (copyin_msg rm r st) = Inr (None, ?st1)"
    using r by (simp add: m_to_sm_none copyin_msg_def)
  have u: "unmapsegs pr ?st1 = upd_pref pr (\<lambda>r. r\<lparr>pr_segs := []\<rparr>) ?st1"
    using p(4) by (simp add: unmapsegs_def unmap_list_def copyin_msg_def)
  let ?st2 = "upd_pref pr (\<lambda>r. r\<lparr>pr_segs := []\<rparr>) ?st1"
  have s2: "pr_state (prefs ?st2 pr) = PS_IOWAIT" "pr_msg (prefs ?st2 pr) = sm" "msgs ?st2 sm = msgs st sm"
    "sm_arg (msgs ?st2 rm) = u_arg r" "sm_seg (msgs ?st2 rm) = []" "ports ?st2 = ports st" "procs ?st2 = procs st"
    "prefs ?st2 pr = prefs st pr" "\<forall>a. a \<noteq> rm \<longrightarrow> msgs ?st2 a = msgs st a"
    using p m(2) by (simp_all add: copyin_msg_def)
  have "msg_reply e s pr r rm st = Inr (reply_iowait s pr rm ?st2)"
    using e p(1) s2(1) i u by (simp add: msg_reply_def obind_def fair_env_def copyin_msg_def)
  then show ?thesis
    using m s2 by (simp add: reply_iowait_def Let_def give_reply_def wake_client_def)
qed

lemma return_plain:
  assumes "pr_iowait (prefs st pr) = \<lparr>a_cnt = 0, a_go = 1\<rparr>" "sm_arg (msgs st sm) \<noteq> - 1" "sm_seg (msgs st sm) = []"
    "sm_mnseg (msgs st sm) = 0"
  shows "\<exists>st1. msg_send_woken e pr sm st = Some (Inr (Return (Inr (sm_arg (msgs st sm))), st1)) \<and>
    ports st1 = ports st \<and> procs st1 = procs st \<and> sm_next (msgs st1 sm) = sm_next (msgs st sm) \<and>
    prefs st1 pr = (prefs st pr)\<lparr>pr_iowait := \<lparr>a_cnt = 0, a_go = 0\<rparr>, pr_sema := v_asem (pr_sema (prefs st pr))\<rparr>"
  using assms by (simp add: msg_send_woken_def woken_def msg_send_done_def Let_def send_out1_def send_out2_def v_sema_pr_def)

text \<open>From the moment the server has the message, until the client is back.\<close>

lemma answer_plain:
  assumes e: "fair_env e" and pr: "pr \<in> p_prefs (procs st s)" "sm \<noteq> NULL" "rm \<noteq> sm"
    and q: "queue_rep st port [sm]" and op: "M_RESVD \<le> sm_op (msgs st sm) AND MSG_MASK"
    and m: "sm_seg (msgs st sm) = []" "sm_sender (msgs st sm) = pr"
    and p: "pr_port (prefs st pr) = port" "a_cnt (pr_sema (prefs st pr)) = 0" "pr_state (prefs st pr) = PS_IOWAIT"
      "pr_iowait (prefs st pr) = \<lparr>a_cnt = - 1, a_go = 0\<rparr>" "pr_segs (prefs st pr) = []"
    and w: "p_wait (ports st port) = \<lparr>a_cnt = 0, a_go = 0\<rparr>" "a_cnt (p_sema (ports st port)) = 0"
    and r: "u_nseg r = 0" "u_arg r \<noteq> - 1"
  shows "\<exists>st2 st3 st4.
    msg_receive_got e s port st = Inr (Received ((user_msg (msgs st sm))\<lparr>u_nseg := 0\<rparr>) 0, st2) \<and>
    msg_reply e s pr r rm st2 = Inr (Return (Inr 0), st3) \<and>
    msg_send_woken e pr sm st3 = Some (Inr (Return (Inr (u_arg r)), st4)) \<and>
    pref_rest st4 pr port \<and> port_rest st4 port"
proof -
  from receive_plain [OF q op m e] obtain st2 where
    g: "msg_receive_got e s port st = Inr (Received ((user_msg (msgs st sm))\<lparr>u_nseg := 0\<rparr>) 0, st2)"
    and q2: "queue_rep st2 port []" and a2: "procs st2 = procs st" "prefs st2 = (prefs st)(pr := (prefs st pr)\<lparr>pr_msg := sm\<rparr>)"
      "msgs st2 = (msgs st)(sm := (msgs st sm)\<lparr>sm_mnseg := 0\<rparr>)"
      "p_wait (ports st2 port) = p_wait (ports st port)" "p_sema (ports st2 port) = v_asem (p_sema (ports st port))"
    by blast
  note o = ordinary_op [OF op]
  have h: "pr \<in> p_prefs (procs st2 s)" "pr_state (prefs st2 pr) = PS_IOWAIT" "pr_msg (prefs st2 pr) = sm"
    "pr_segs (prefs st2 pr) = []" "sm_op (msgs st2 sm) \<noteq> M_DUP"
    using a2 pr p o by simp_all
  from reply_plain [OF h(1-4) pr(2,3) h(5) r(1) e] obtain st3 where
    r3: "msg_reply e s pr r rm st2 = Inr (Return (Inr 0), st3)" "sm_arg (msgs st3 sm) = u_arg r" "sm_seg (msgs st3 sm) = []"
      "sm_mnseg (msgs st3 sm) = sm_mnseg (msgs st2 sm)" "ports st3 = ports st2"
      "prefs st3 pr = (prefs st2 pr)\<lparr>pr_msg := NULL, pr_state := PS_IODONE, pr_iowait := v_asem (pr_iowait (prefs st2 pr))\<rparr>"
    by blast
  have "pr_iowait (prefs st3 pr) = \<lparr>a_cnt = 0, a_go = 1\<rparr>" using r3(6) a2(2) p by (simp add: v_asem_def)
  moreover have "sm_arg (msgs st3 sm) \<noteq> - 1" "sm_mnseg (msgs st3 sm) = 0" using r3 a2(3) r(2) by simp_all
  ultimately obtain st4 where
    r4: "msg_send_woken e pr sm st3 = Some (Inr (Return (Inr (u_arg r)), st4))" "ports st4 = ports st3"
      "prefs st4 pr = (prefs st3 pr)\<lparr>pr_iowait := \<lparr>a_cnt = 0, a_go = 0\<rparr>, pr_sema := v_asem (pr_sema (prefs st3 pr))\<rparr>"
    using return_plain [of st3 pr sm e] r3(2,3) by auto
  have "pref_rest st4 pr port" using r4(3) r3(6) a2(2) p by (simp add: pref_rest_def v_asem_def)
  moreover have "port_rest st4 port" using r4(2) r3(5) a2 w q2 by (simp add: port_rest_def queue_rep_def v_asem_def)
  ultimately show ?thesis using g r3(1) r4(1) by blast
qed

lemma call_message_first:
  assumes c: "connected st c h pr s hs port" "pref_rest st pr port" "port_rest st port" "fair_env e"
    and m: "sm \<noteq> NULL" "rm \<noteq> sm" "M_RESVD \<le> u_op u AND MSG_MASK" "u_nseg u = 0" "u_nseg r = 0" "u_arg r \<noteq> - 1"
  shows "\<exists>st1 st2 st3 st4.
      msg_send e c h u sm st = Inr (Reply pr, st1) \<and>
      msg_receive e s hs st1 = Inr (Received (u\<lparr>u_sender := pr\<rparr>) 0, st2) \<and>
      msg_reply e s pr r rm st2 = Inr (Return (Inr 0), st3) \<and>
      msg_send_woken e pr sm st3 = Some (Inr (Return (Inr (u_arg r)), st4)) \<and>
      pref_rest st4 pr port \<and> port_rest st4 port"
proof -
  have pp: "pr \<in> p_prefs (procs st s)" "port \<noteq> NULL" "port_slot (procs st s) hs = port" using c(1) by (simp_all add: connected_def)
  note PR = c(2) [unfolded pref_rest_def]
  note PT = c(3) [unfolded port_rest_def]
  have un: "(u\<lparr>u_sender := pr\<rparr>)\<lparr>u_nseg := 0\<rparr> = u\<lparr>u_sender := pr\<rparr>" using m(4) by simp
  from send_at_rest [OF c(1,2) _ c(4) m(1,3,4)] PT obtain st1 where
    s1: "msg_send e c h u sm st = Inr (Reply pr, st1)" "queue_rep st1 port [sm]" "procs st1 = procs st"
      "user_msg (msgs st1 sm) = u\<lparr>u_sender := pr\<rparr>" "sm_seg (msgs st1 sm) = []"
      "prefs st1 pr = (prefs st pr)\<lparr>pr_sema := (pr_sema (prefs st pr))\<lparr>a_cnt := 0\<rparr>, pr_state := PS_IOWAIT,
        pr_iowait := \<lparr>a_cnt = - 1, a_go = 0\<rparr>\<rparr>"
      "p_wait (ports st1 port) = v_asem (p_wait (ports st port))" "p_sema (ports st1 port) = p_sema (ports st port)"
    by blast
  have um: "sm_op (msgs st1 sm) = u_op u" "sm_sender (msgs st1 sm) = pr"
    using s1(4) by (auto simp: user_msg_def dest: arg_cong [where f = u_op] arg_cong [where f = u_sender])
  let ?sta = "upd_port port (\<lambda>q. q\<lparr>p_sema := (p_sema (ports st port))\<lparr>a_cnt := 0\<rparr>\<rparr>) st1"
  let ?stb = "upd_port port (\<lambda>q. q\<lparr>p_wait := \<lparr>a_cnt = 0, a_go = 0\<rparr>\<rparr>) ?sta"
  have "msg_receive e s hs st1 = msg_receive_got e s port ?stb"
    using c(4) pp s1 PT by (simp add: msg_receive_def find_port_def Let_def fair_env_def msg_receive_turn_def p_asem_def v_asem_def)
  moreover have "\<exists>st2 st3 st4.
    msg_receive_got e s port ?stb = Inr (Received ((user_msg (msgs ?stb sm))\<lparr>u_nseg := 0\<rparr>) 0, st2) \<and>
    msg_reply e s pr r rm st2 = Inr (Return (Inr 0), st3) \<and>
    msg_send_woken e pr sm st3 = Some (Inr (Return (Inr (u_arg r)), st4)) \<and> pref_rest st4 pr port \<and> port_rest st4 port"
    using c(4) m pp s1 um PR by (intro answer_plain) (simp_all add: queue_rep_def)
  ultimately show ?thesis
    using s1(1) s1(4) un by - (rule exI [of _ st1], simp)
qed

lemma call_server_first:
  assumes c: "connected st c h pr s hs port" "pref_rest st pr port" "port_rest st port" "fair_env e"
    and m: "sm \<noteq> NULL" "rm \<noteq> sm" "M_RESVD \<le> u_op u AND MSG_MASK" "u_nseg u = 0" "u_nseg r = 0" "u_arg r \<noteq> - 1"
  shows "\<exists>st1 st2 st3 st4 st5.
      msg_receive e s hs st = Inr (Arrival port, st1) \<and>
      msg_send e c h u sm st1 = Inr (Reply pr, st2) \<and>
      arrival_woken e s port st2 = Some (Inr (Received (u\<lparr>u_sender := pr\<rparr>) 0, st3)) \<and>
      msg_reply e s pr r rm st3 = Inr (Return (Inr 0), st4) \<and>
      msg_send_woken e pr sm st4 = Some (Inr (Return (Inr (u_arg r)), st5)) \<and>
      pref_rest st5 pr port \<and> port_rest st5 port"
proof -
  have pp: "pr \<in> p_prefs (procs st s)" "port \<noteq> NULL" "port_slot (procs st s) hs = port" using c(1) by (simp_all add: connected_def)
  note PR = c(2) [unfolded pref_rest_def]
  note PT = c(3) [unfolded port_rest_def]
  have un: "(u\<lparr>u_sender := pr\<rparr>)\<lparr>u_nseg := 0\<rparr> = u\<lparr>u_sender := pr\<rparr>" using m(4) by simp
  let ?st1 = "upd_port port (\<lambda>q. q\<lparr>p_wait := \<lparr>a_cnt = - 1, a_go = 0\<rparr>\<rparr>)
    (upd_port port (\<lambda>q. q\<lparr>p_sema := (p_sema (ports st port))\<lparr>a_cnt := 0\<rparr>\<rparr>) st)"
  have r1: "msg_receive e s hs st = Inr (Arrival port, ?st1)"
    using c(4) pp PT by (simp add: msg_receive_def find_port_def Let_def fair_env_def msg_receive_turn_def p_asem_def)
  have c1: "connected ?st1 c h pr s hs port" "pref_rest ?st1 pr port" "queue_rep ?st1 port []"
    using c(1,2) PT by (simp_all add: connected_def pref_rest_def queue_rep_def)
  from send_at_rest [OF c1 c(4) m(1,3,4)] obtain st2 where
    s2: "msg_send e c h u sm ?st1 = Inr (Reply pr, st2)" "queue_rep st2 port [sm]" "procs st2 = procs ?st1"
      "user_msg (msgs st2 sm) = u\<lparr>u_sender := pr\<rparr>" "sm_seg (msgs st2 sm) = []"
      "prefs st2 pr = (prefs ?st1 pr)\<lparr>pr_sema := (pr_sema (prefs ?st1 pr))\<lparr>a_cnt := 0\<rparr>, pr_state := PS_IOWAIT,
        pr_iowait := \<lparr>a_cnt = - 1, a_go = 0\<rparr>\<rparr>"
      "p_wait (ports st2 port) = v_asem (p_wait (ports ?st1 port))" "p_sema (ports st2 port) = p_sema (ports ?st1 port)"
    by blast
  have um: "sm_op (msgs st2 sm) = u_op u" "sm_sender (msgs st2 sm) = pr"
    using s2(4) by (auto simp: user_msg_def dest: arg_cong [where f = u_op] arg_cong [where f = u_sender])
  let ?stb = "upd_port port (\<lambda>q. q\<lparr>p_wait := \<lparr>a_cnt = 0, a_go = 0\<rparr>\<rparr>) st2"
  have "arrival_woken e s port st2 = Some (msg_receive_got e s port ?stb)"
    using s2(7) by (simp add: arrival_woken_def woken_def v_asem_def)
  moreover have "\<exists>st3 st4 st5.
    msg_receive_got e s port ?stb = Inr (Received ((user_msg (msgs ?stb sm))\<lparr>u_nseg := 0\<rparr>) 0, st3) \<and>
    msg_reply e s pr r rm st3 = Inr (Return (Inr 0), st4) \<and>
    msg_send_woken e pr sm st4 = Some (Inr (Return (Inr (u_arg r)), st5)) \<and> pref_rest st5 pr port \<and> port_rest st5 port"
    using c(4) m pp s2 um PR by (intro answer_plain) (simp_all add: queue_rep_def)
  ultimately show ?thesis
    using r1 s2(1,4) un by - (rule exI [of _ ?st1], rule exI [of _ st2], simp)
qed


subsection \<open>When the server goes away\<close>

text \<open>The state in which the server has the client's message.\<close>

definition serving :: "ipc \<Rightarrow> ptr \<Rightarrow> ptr \<Rightarrow> ptr \<Rightarrow> umsg \<Rightarrow> bool" where
  "serving st pr sm port u \<longleftrightarrow>
     pr_port (prefs st pr) = port \<and> a_cnt (pr_sema (prefs st pr)) = 0 \<and> pr_state (prefs st pr) = PS_IOWAIT \<and>
     pr_iowait (prefs st pr) = \<lparr>a_cnt = - 1, a_go = 0\<rparr> \<and> pr_segs (prefs st pr) = [] \<and> pr_msg (prefs st pr) = sm \<and>
     port_rest st port \<and> sm_seg (msgs st sm) = [] \<and> sm_mnseg (msgs st sm) = 0 \<and> sm_op (msgs st sm) = u_op u \<and>
     sm_arg (msgs st sm) = u_arg u"

lemma send_receive:
  assumes c: "connected st c h pr s hs port" "pref_rest st pr port" "port_rest st port" "fair_env e"
    and m: "sm \<noteq> NULL" "M_RESVD \<le> u_op u AND MSG_MASK" "u_nseg u = 0"
  shows "\<exists>st1 st2. msg_send e c h u sm st = Inr (Reply pr, st1) \<and>
    msg_receive e s hs st1 = Inr (Received (u\<lparr>u_sender := pr\<rparr>) 0, st2) \<and> serving st2 pr sm port u \<and>
    procs st2 = procs st \<and> p_refs (ports st2 port) = p_refs (ports st port)"
proof -
  have pp: "pr \<in> p_prefs (procs st s)" "port \<noteq> NULL" "port_slot (procs st s) hs = port" using c(1) by (simp_all add: connected_def)
  note PR = c(2) [unfolded pref_rest_def]
  note PT = c(3) [unfolded port_rest_def]
  from send_at_rest [OF c(1,2) _ c(4) m] PT obtain st1 where
    s1: "msg_send e c h u sm st = Inr (Reply pr, st1)" "queue_rep st1 port [sm]" "procs st1 = procs st"
      "user_msg (msgs st1 sm) = u\<lparr>u_sender := pr\<rparr>" "sm_seg (msgs st1 sm) = []"
      "prefs st1 pr = (prefs st pr)\<lparr>pr_sema := (pr_sema (prefs st pr))\<lparr>a_cnt := 0\<rparr>, pr_state := PS_IOWAIT,
        pr_iowait := \<lparr>a_cnt = - 1, a_go = 0\<rparr>\<rparr>"
      "p_wait (ports st1 port) = v_asem (p_wait (ports st port))" "p_sema (ports st1 port) = p_sema (ports st port)"
      "p_refs (ports st1 port) = p_refs (ports st port)"
    by blast
  have um: "sm_op (msgs st1 sm) = u_op u" "sm_sender (msgs st1 sm) = pr" "sm_arg (msgs st1 sm) = u_arg u"
    using s1(4) by (auto simp: user_msg_def dest: arg_cong [where f = u_op] arg_cong [where f = u_sender] arg_cong [where f = u_arg])
  let ?stb = "upd_port port (\<lambda>q. q\<lparr>p_wait := \<lparr>a_cnt = 0, a_go = 0\<rparr>\<rparr>)
    (upd_port port (\<lambda>q. q\<lparr>p_sema := (p_sema (ports st port))\<lparr>a_cnt := 0\<rparr>\<rparr>) st1)"
  have r1: "msg_receive e s hs st1 = msg_receive_got e s port ?stb"
    using c(4) pp s1 PT by (simp add: msg_receive_def find_port_def Let_def fair_env_def msg_receive_turn_def p_asem_def v_asem_def)
  have qb: "queue_rep ?stb port [sm]" using s1(2) by (simp add: queue_rep_def)
  have mb: "sm_seg (msgs ?stb sm) = []" "sm_sender (msgs ?stb sm) = pr" "M_RESVD \<le> sm_op (msgs ?stb sm) AND MSG_MASK"
    using s1(5) um m(2) by simp_all
  from receive_plain [OF qb mb(3,1,2) c(4)] obtain st2 where
    g: "msg_receive_got e s port ?stb = Inr (Received ((user_msg (msgs ?stb sm))\<lparr>u_nseg := 0\<rparr>) 0, st2)"
    and q2: "queue_rep st2 port []" and a2: "procs st2 = procs ?stb"
      "prefs st2 = (prefs ?stb)(pr := (prefs ?stb pr)\<lparr>pr_msg := sm\<rparr>)" "msgs st2 = (msgs ?stb)(sm := (msgs ?stb sm)\<lparr>sm_mnseg := 0\<rparr>)"
      "p_wait (ports st2 port) = p_wait (ports ?stb port)" "p_sema (ports st2 port) = v_asem (p_sema (ports ?stb port))"
      "p_refs (ports st2 port) = p_refs (ports ?stb port)"
    by blast
  have un: "(user_msg (msgs ?stb sm))\<lparr>u_nseg := 0\<rparr> = u\<lparr>u_sender := pr\<rparr>" using s1(4) m(3) by simp
  have "serving st2 pr sm port u"
    unfolding serving_def port_rest_def using q2 a2 s1 um PR by (simp add: v_asem_def)
  moreover have "procs st2 = procs st" "p_refs (ports st2 port) = p_refs (ports st port)" using a2 s1 by simp_all
  ultimately show ?thesis using s1(1) r1 g un by - (rule exI [of _ st1], rule exI [of _ st2], simp)
qed

text \<open>The server closes its port, with the one client asleep.\<close>

lemma shut_server_one:
  assumes q: "queue_rep st port []" "p_refs (ports st port) = [pr]" "pr \<in> p_prefs (procs st s)" "pr_segs (prefs st pr) = []"
  shows "\<exists>st1. shut_server s port st = Some (Inr st1) \<and> msgs st1 = msgs st \<and>
    prefs st1 pr = (prefs st pr)\<lparr>pr_segs := [], pr_port := NULL,
      pr_iowait := (if a_cnt (pr_iowait (prefs st pr)) < 0 then v_asem (pr_iowait (prefs st pr)) else pr_iowait (prefs st pr))\<rparr>"
proof -
  let ?st1 = "upd_port port (\<lambda>q. q\<lparr>p_closing := True, p_isr := False\<rparr>)
    (st\<lparr>portnames := (portnames st)(p_name (ports st port) := None)\<rparr>)"
  let ?st2 = "upd_port port (\<lambda>q. q\<lparr>p_hd := NULL\<rparr>) ?st1"
  have h: "p_hd (ports st port) = NULL" using q(1) by (simp add: queue_rep_def)
  have b: "bounce_msgs port ?st1 = Some ?st2" using h by (simp add: bounce_msgs_def bounce_list.simps)
  let ?st3 = "upd_pref pr (\<lambda>r. r\<lparr>pr_segs := []\<rparr>) ?st2"
  let ?st4 = "upd_proc s (\<lambda>q. q\<lparr>p_prefs := p_prefs q - {pr}\<rparr>) (deref_port port pr (upd_pref pr (\<lambda>r. r\<lparr>pr_port := NULL,
     pr_iowait := (if a_cnt (pr_iowait r) < 0 then v_asem (pr_iowait r) else pr_iowait r)\<rparr>) ?st3))"
  have "unmapsegs pr ?st2 = ?st3" using q(4) by (simp add: unmapsegs_def unmap_list_def)
  then have "close_client port pr ?st2 = (False, deref_port port pr (upd_pref pr (\<lambda>r. r\<lparr>pr_port := NULL,
     pr_iowait := (if a_cnt (pr_iowait r) < 0 then v_asem (pr_iowait r) else pr_iowait r)\<rparr>) ?st3))"
    using h by (simp only: close_client_def Let_def) simp
  then have "close_clients s port ?st2 = close_clients s port ?st4"
    using q(2,3) by (subst close_clients.simps) (simp add: deref_port_def)
  also have "\<dots> = Some (Inr ?st4)"
    using q(2) by (subst close_clients.simps) (simp add: deref_port_def)
  finally have "shut_rounds s port ?st1 = Some (Inr ?st4)"
    using b q(2) by (subst shut_rounds.simps) (simp add: deref_port_def)
  then show ?thesis
    by (intro exI [of _ ?st4]) (simp add: shut_server_def Let_def deref_port_def)
qed

text \<open>
  C3: a server that closes its port, or exits, while it works on a request: the client does not get the
  input/output error that the requests still in the queue get. It is woken with its message as it
  sent it, and its call succeeds with its own argument as the result.
\<close>

theorem ipc_server_exit:
  assumes c: "connected st c h pr s hs port" "pref_rest st pr port" "port_rest st port" "fair_env e"
    and m: "sm \<noteq> NULL" "M_RESVD \<le> u_op u AND MSG_MASK" "u_nseg u = 0" "u_arg u \<noteq> - 1" and p: "p_refs (ports st port) = [pr]"
  shows "\<exists>st1 st2 st3 st4.
    msg_send e c h u sm st = Inr (Reply pr, st1) \<and>
    msg_receive e s hs st1 = Inr (Received (u\<lparr>u_sender := pr\<rparr>) 0, st2) \<and>
    shut_server s port st2 = Some (Inr st3) \<and>
    msg_send_woken e pr sm st3 = Some (Inr (Return (Inr (u_arg u)), st4)) \<and> pr_port (prefs st4 pr) = NULL"
proof -
  from send_receive [OF c m(1-3)] obtain st1 st2 where
    s: "msg_send e c h u sm st = Inr (Reply pr, st1)" "msg_receive e s hs st1 = Inr (Received (u\<lparr>u_sender := pr\<rparr>) 0, st2)"
      "serving st2 pr sm port u" "procs st2 = procs st" "p_refs (ports st2 port) = p_refs (ports st port)" by blast
  note S = s(3) [unfolded serving_def port_rest_def]
  have "queue_rep st2 port []" "p_refs (ports st2 port) = [pr]" "pr \<in> p_prefs (procs st2 s)" "pr_segs (prefs st2 pr) = []"
    using S s(4,5) p c(1) by (simp_all add: connected_def)
  from shut_server_one [OF this] obtain st3 where
    x: "shut_server s port st2 = Some (Inr st3)" "msgs st3 = msgs st2"
      "prefs st3 pr = (prefs st2 pr)\<lparr>pr_segs := [], pr_port := NULL, pr_iowait := \<lparr>a_cnt = 0, a_go = 1\<rparr>\<rparr>"
    using S by (auto simp: v_asem_def)
  have "pr_iowait (prefs st3 pr) = \<lparr>a_cnt = 0, a_go = 1\<rparr>" "sm_arg (msgs st3 sm) = u_arg u" "sm_seg (msgs st3 sm) = []"
    "sm_mnseg (msgs st3 sm) = 0" using x S by simp_all
  with return_plain [of st3 pr sm e] m(4) obtain st4 where
    "msg_send_woken e pr sm st3 = Some (Inr (Return (Inr (u_arg u)), st4))"
    "prefs st4 pr = (prefs st3 pr)\<lparr>pr_iowait := \<lparr>a_cnt = 0, a_go = 0\<rparr>, pr_sema := v_asem (pr_sema (prefs st3 pr))\<rparr>"
    by auto
  then show ?thesis using s x by (intro exI conjI) (assumption | simp)+
qed


subsection \<open>An answer that comes too early\<close>

text \<open>The server answers with an error: the portref keeps the message.\<close>

lemma err_plain:
  assumes w: "serving st pr sm port u" "pr \<in> p_prefs (procs st s)" "port \<noteq> NULL" "sm \<noteq> NULL"
    and l: "0 < len" "len < int ERRLEN" "cstr (take (nat len) why) \<noteq> []" and e: "fair_env e"
  shows "\<exists>st1 st2. msg_err e s pr why len st = (Return (Inr 0), st1) \<and>
    msg_send_woken e pr sm st1 = Some (Inr (Return (Inl (cstr (take (nat len) why))), st2)) \<and>
    pref_rest st2 pr port \<and> port_rest st2 port \<and> procs st2 = procs st \<and> pr_msg (prefs st2 pr) = sm \<and>
    msgs st2 sm = (msgs st sm)\<lparr>sm_arg := - 1, sm_err := cstr (take (nat len) why)\<rparr>"
proof -
  note W = w(1) [unfolded serving_def port_rest_def]
  let ?st1 = "wake_client pr (upd_msg sm (\<lambda>x. x\<lparr>sm_arg := - 1, sm_err := cstr (take (nat len) why)\<rparr>)
    (upd_pref pr (\<lambda>r. r\<lparr>pr_state := PS_IODONE\<rparr>) st))"
  have "get_ustr e ERRLEN why len = Inr (cstr (take (nat len) why))"
    using l e by (simp add: get_ustr_def fair_env_def)
  then have "msg_err e s pr why len st = (Return (Inr 0), ?st1)"
    using w W l e by (simp add: msg_err_def Let_def fair_env_def)
  moreover have "\<exists>st2. msg_send_woken e pr sm ?st1 = Some (Inr (Return (Inl (cstr (take (nat len) why))), st2)) \<and>
    pref_rest st2 pr port \<and> port_rest st2 port \<and> procs st2 = procs st \<and> pr_msg (prefs st2 pr) = sm \<and>
    msgs st2 sm = (msgs st sm)\<lparr>sm_arg := - 1, sm_err := cstr (take (nat len) why)\<rparr>"
    using W by (simp add: msg_send_woken_def woken_def v_asem_def wake_client_def msg_send_done_def Let_def send_out1_def
      send_out2_def v_sema_pr_def pref_rest_def port_rest_def queue_rep_def)
  ultimately show ?thesis by blast
qed

text \<open>
  C5: after a request answered with an error, the portref still names the message of that request. An
  answer the server gives to the next request before it received it is accepted: it goes to the
  old message, the client is woken and returns its own argument as the result, and its message, on
  the stack of a call that is over, is still in the queue of the port.
\<close>

theorem ipc_stale_reply:
  assumes c: "connected st c h pr s hs port" "pref_rest st pr port" "port_rest st port" "fair_env e"
    and m: "sm \<noteq> NULL" "M_RESVD \<le> u_op u AND MSG_MASK" "u_nseg u = 0"
    and l: "0 < len" "len < int ERRLEN" "cstr (take (nat len) why) \<noteq> []"
    and n: "sm2 \<noteq> NULL" "M_RESVD \<le> u_op u2 AND MSG_MASK" "u_nseg u2 = 0" "u_arg u2 \<noteq> - 1" "sm2 \<noteq> sm"
    and r: "u_nseg r = 0" "rm \<noteq> sm" "rm \<noteq> sm2"
  shows "\<exists>st1 st2 st3 st4 st5 st6 st7.
    msg_send e c h u sm st = Inr (Reply pr, st1) \<and>
    msg_receive e s hs st1 = Inr (Received (u\<lparr>u_sender := pr\<rparr>) 0, st2) \<and>
    msg_err e s pr why len st2 = (Return (Inr 0), st3) \<and>
    msg_send_woken e pr sm st3 = Some (Inr (Return (Inl (cstr (take (nat len) why))), st4)) \<and>
    msg_send e c h u2 sm2 st4 = Inr (Reply pr, st5) \<and>
    msg_reply e s pr r rm st5 = Inr (Return (Inr 0), st6) \<and>
    msg_send_woken e pr sm2 st6 = Some (Inr (Return (Inr (u_arg u2)), st7)) \<and>
    queue_rep st7 port [sm2]"
proof -
  have pp: "pr \<in> p_prefs (procs st s)" "port \<noteq> NULL" using c(1) by (simp_all add: connected_def)
  from send_receive [OF c m] obtain st1 st2 where
    s: "msg_send e c h u sm st = Inr (Reply pr, st1)" "msg_receive e s hs st1 = Inr (Received (u\<lparr>u_sender := pr\<rparr>) 0, st2)"
      "serving st2 pr sm port u" "procs st2 = procs st" by blast
  from err_plain [OF s(3) _ pp(2) m(1) l c(4), of s] s(4) pp(1) obtain st3 st4 where
    x: "msg_err e s pr why len st2 = (Return (Inr 0), st3)"
      "msg_send_woken e pr sm st3 = Some (Inr (Return (Inl (cstr (take (nat len) why))), st4))"
      "pref_rest st4 pr port" "port_rest st4 port" "procs st4 = procs st" "pr_msg (prefs st4 pr) = sm"
      "msgs st4 sm = (msgs st2 sm)\<lparr>sm_arg := - 1, sm_err := cstr (take (nat len) why)\<rparr>"
    by auto
  have c4: "connected st4 c h pr s hs port" "queue_rep st4 port []"
    using c(1) x(4,5) by (simp_all add: connected_def port_rest_def)
  from send_at_rest [OF c4(1) x(3) c4(2) c(4) n(1-3)] obtain st5 where
    y: "msg_send e c h u2 sm2 st4 = Inr (Reply pr, st5)" "queue_rep st5 port [sm2]" "procs st5 = procs st4"
      "user_msg (msgs st5 sm2) = u2\<lparr>u_sender := pr\<rparr>" "sm_seg (msgs st5 sm2) = []"
      "prefs st5 pr = (prefs st4 pr)\<lparr>pr_sema := (pr_sema (prefs st4 pr))\<lparr>a_cnt := 0\<rparr>, pr_state := PS_IOWAIT,
        pr_iowait := \<lparr>a_cnt = - 1, a_go = 0\<rparr>\<rparr>" "\<forall>a. a \<noteq> sm2 \<longrightarrow> msgs st5 a = msgs st4 a"
    by blast
  have y5: "sm_arg (msgs st5 sm2) = u_arg u2" "sm_mnseg (msgs st5 sm2) = 0"
    using y(4) n(3) by (auto simp: user_msg_def dest: arg_cong [where f = u_arg] arg_cong [where f = u_nseg])
  have "sm_op (msgs st5 sm) \<noteq> M_DUP"
    using y(7) n(5) x(7) s(3) ordinary_op(4) [OF m(2)] by (simp add: serving_def)
  moreover have "pr \<in> p_prefs (procs st5 s)" "pr_state (prefs st5 pr) = PS_IOWAIT" "pr_msg (prefs st5 pr) = sm"
    "pr_segs (prefs st5 pr) = []"
    using y x pp(1) by (simp_all add: pref_rest_def)
  ultimately obtain st6 where
    z: "msg_reply e s pr r rm st5 = Inr (Return (Inr 0), st6)" "ports st6 = ports st5"
      "\<forall>a. a \<noteq> sm \<longrightarrow> a \<noteq> rm \<longrightarrow> msgs st6 a = msgs st5 a" "pr_iowait (prefs st6 pr) = \<lparr>a_cnt = 0, a_go = 1\<rparr>"
    using reply_plain [of pr st5 s sm rm r e] m(1) r c(4) y(6) by (auto simp: v_asem_def)
  have "msgs st6 sm2 = msgs st5 sm2" using z(3) n(5) r(3) by simp
  with return_plain [OF z(4), of sm2 e] y y5 n(4) obtain st7 where
    "msg_send_woken e pr sm2 st6 = Some (Inr (Return (Inr (u_arg u2)), st7))" "ports st7 = ports st6"
    "sm_next (msgs st7 sm2) = sm_next (msgs st6 sm2)"
    by auto
  moreover from this have "queue_rep st7 port [sm2]"
    using y(2) z(2,3) n(5) r(3) by (simp add: queue_rep_def)
  ultimately show ?thesis using s x y(1) z(1) by (intro exI conjI) (assumption | simp)+
qed

subsection \<open>An instance\<close>

text \<open>
  A client 1 with the portref 20 at handle 3, a server 2 with the port 30 at handle 32. The
  properties are applied to it.
\<close>

definition demo_env :: ienv where
  "demo_env = \<lparr>i_copyin = True, i_copyout = True, i_uucopy = (\<lambda>_. True), i_seg = (\<lambda>_. None), i_attach = (\<lambda>_. None),
     i_intr = False, i_kmem = (40, 0), i_new = 50\<rparr>"

definition demo_msg :: sysmsg where
  "demo_msg = \<lparr>sm_op = 0, sm_arg = 0, sm_arg1 = 0, sm_sender = NULL, sm_mseg = [], sm_mnseg = 0, sm_seg = [], sm_ids = NULL,
     sm_next = NULL, sm_err = []\<rparr>"

definition demo_proc :: iproc where
  "demo_proc = \<lparr>p_open = (replicate PROCOPENS NULL)[3 := 20], p_nopen = 1, p_ports = (replicate PROCPORTS NULL)[0 := 30],
     p_prefs = {20}, pd_name = 0, pd_port = 0\<rparr>"

definition demo_pref :: portref where
  "demo_pref = \<lparr>pr_sema = \<lparr>a_cnt = 1, a_go = 0\<rparr>, pr_port = 30, pr_state = PS_IODONE, pr_nodup = False, pr_refs = 1,
     pr_iowait = \<lparr>a_cnt = 0, a_go = 0\<rparr>, pr_svwait = \<lparr>a_cnt = 0, a_go = 0\<rparr>, pr_msg = NULL, pr_segs = []\<rparr>"

definition demo_port :: port where
  "demo_port = \<lparr>p_sema = \<lparr>a_cnt = 1, a_go = 0\<rparr>, p_wait = \<lparr>a_cnt = 0, a_go = 0\<rparr>, p_hd = NULL, p_tl = NULL, p_refs = [20],
     p_closing = False, p_isr = False, p_name = 1024\<rparr>"

definition demo_ipc :: ipc where
  "demo_ipc = \<lparr>msgs = \<lambda>_. demo_msg, prefs = \<lambda>_. demo_pref, ports = \<lambda>_. demo_port, procs = \<lambda>_. demo_proc,
     portnames = [1024 \<mapsto> 30], rotor = 1025, ksegs = (\<lambda>_. \<lparr>s_vaddr = 0, s_off = 0, s_len = 0\<rparr>), live = {}\<rparr>"

definition demo_req :: "ulong \<Rightarrow> umsg" where
  "demo_req x = \<lparr>u_op = 200, u_arg = x, u_arg1 = 0, u_sender = NULL, u_seg = [], u_nseg = 0\<rparr>"

lemma demo_rest:
  "connected demo_ipc 1 3 20 2 32 30" "pref_rest demo_ipc 20 30" "port_rest demo_ipc 30" "fair_env demo_env"
  "p_refs (ports demo_ipc 30) = [20]"
  by (simp_all add: connected_def demo_ipc_def demo_proc_def open_slot_def port_slot_def PROCOPENS_def PROCPORTS_def PORT_RESERVED_def
      pref_rest_def demo_pref_def port_rest_def demo_port_def queue_rep_def fair_env_def demo_env_def)

lemma demo_req_ok: "M_RESVD \<le> u_op (demo_req x) AND MSG_MASK" "u_nseg (demo_req x) = 0" "u_arg (demo_req x) = x"
  by (simp_all add: demo_req_def M_RESVD_def MSG_MASK_def)

lemma port_queue_spec_witness:
  "\<exists>st'. queue_run 30 [Put 5, Put 6, Put 7, Take, Pull 7, Pull 9] demo_ipc =
    Some ([Done, Done, Done, Got 5, Pulled True, Pulled False], st') \<and> queue_rep st' 30 [6]"
  by (rule port_queue_spec [of _ _ "[]"]) (simp_all add: demo_ipc_def demo_port_def queue_rep_def)


lemma ipc_server_exit_witness:
  "\<exists>st1 st2 st3 st4.
     msg_send demo_env 1 3 (demo_req 7) 5 demo_ipc = Inr (Reply 20, st1) \<and>
     msg_receive demo_env 2 32 st1 = Inr (Received ((demo_req 7)\<lparr>u_sender := 20\<rparr>) 0, st2) \<and>
     shut_server 2 30 st2 = Some (Inr st3) \<and>
     msg_send_woken demo_env 20 5 st3 = Some (Inr (Return (Inr 7), st4)) \<and> pr_port (prefs st4 20) = NULL"
  using ipc_server_exit [OF demo_rest(1-4) _ demo_req_ok(1,2) _ demo_rest(5), of 5 7] demo_req_ok(3) by simp


lemma ipc_stale_reply_witness:
  "\<exists>st1 st2 st3 st4 st5 st6 st7.
     msg_send demo_env 1 3 (demo_req 7) 5 demo_ipc = Inr (Reply 20, st1) \<and>
     msg_receive demo_env 2 32 st1 = Inr (Received ((demo_req 7)\<lparr>u_sender := 20\<rparr>) 0, st2) \<and>
     msg_err demo_env 2 20 ''busy'' 4 st2 = (Return (Inr 0), st3) \<and>
     msg_send_woken demo_env 20 5 st3 = Some (Inr (Return (Inl ''busy''), st4)) \<and>
     msg_send demo_env 1 3 (demo_req 8) 6 st4 = Inr (Reply 20, st5) \<and>
     msg_reply demo_env 2 20 (demo_req 9) 10 st5 = Inr (Return (Inr 0), st6) \<and>
     msg_send_woken demo_env 20 6 st6 = Some (Inr (Return (Inr 8), st7)) \<and>
     queue_rep st7 30 [6]"
proof -
  have b: "cstr (take (nat 4) ''busy'') = ''busy''" by code_simp
  show ?thesis
    using ipc_stale_reply [OF demo_rest(1-4) _ demo_req_ok(1,2), of 5 4 "''busy''" 6 "demo_req 8" "demo_req 9" 10 7]
    unfolding b by (simp add: demo_req_ok ERRLEN_def)
qed

end
