(* ===== verification/Spec2Isabelle.thy ===== *)
theory Spec2Isabelle
  imports Rmap Perm Hash Mutex_Spec Strings_Spec Numbers_Spec Scan_Spec Srvlib_Spec Tmpfs_Spec Pipe_Spec
    Swap_Spec Semasrv_Spec Vstafs_Balance Exitgrp_Spec Event_Spec Xclock_Spec Ipc_Spec
begin

text \<open>
  A verification development of the VSTa microkernel.

  \<^bold>\<open>The program.\<close> VSTa is a small kernel with its services in servers outside it. The kernel
  (\<open>src/src/os\<close>) has threads, semaphores, virtual memory and one way to communicate: a client has a
  \<open>portref\<close> to the \<open>port\<close> of a server, sends it a message and sleeps until the server replies. File
  systems, devices, pipes and name services are programs under \<open>src/src/srv\<close> that receive messages
  with operations such as \<open>FS_OPEN\<close> and answer them. Libraries under \<open>src/src/lib\<close> serve both
  sides; some of their files are also part of the kernel. Who may do what is decided by labels of
  numbers (abilities of a client, protection of a file), by one calculus that all servers share.

  \<^bold>\<open>Layout.\<close> \<open>Prelude\<close> has the C types (\<open>uint\<close> and \<open>ulong\<close> are 32 bits, \<open>ptr\<close> is an address, 0 is
  null), the faults of wild accesses (\<open>fault\<close>, \<open>outcome\<close>), \<open>bcopy\<close> and the rules on words shared by all.
  Below, each group of theories is named with the sources it models. Definitions have the names of
  the functions they translate; parts of a function (a loop, the code between two sleeps) have names
  of their own, and the correspondence is in the text before each.

    \<^item> \<open>Rmap\<close>: \<open>lib/rmap.c\<close>, the resource map of the kernel and of the swap server, as the array it
      is. A map represents a set of free units; \<open>rmap_alloc\<close>, \<open>rmap_free\<close> and \<open>rmap_grab\<close> keep the
      array sorted, without touching entries, and change the set as they promise, or lose units
      and say so when the array is full.
    \<^item> \<open>Perm\<close>: \<open>lib/permsup.c\<close> and \<open>perm_ctl\<close> of \<open>os/kern/misc.c\<close>. What a set of abilities is granted on a
      protected object, when one label dominates another, and what a process can do to its own.
    \<^item> \<open>Hash\<close>: \<open>lib/hash.c\<close>, against finite maps.
    \<^item> \<open>Ring_List\<close>: \<open>lib/llist.c\<close>, and the circular lists that the scheduler, the semaphores and the
      servers have in common, as the lists they represent.
    \<^item> \<open>Kern\<close>, \<open>Sched\<close>, \<open>Sched_Tree\<close>, \<open>Sched_Spec\<close>: the thread, node and CPU structures, \<open>os/mach/mutex.h\<close>
      and \<open>os/kern/sched.c\<close>. The run queues are rings, the timesharing tree counts the runnable
      leaves below each node; queueing, choosing and switching keep this invariant.
    \<^item> \<open>Mutex\<close>, \<open>Mutex_Spec\<close>: \<open>os/mach/mutex.c\<close>. Counting semaphores with a first-in first-out queue of
      sleepers, the operations of the threads interleaved as steps; mutual exclusion.
    \<^item> \<open>Ctype\<close>, \<open>Strings\<close>, \<open>Strings_Spec\<close>: \<open>lib/ctype.c\<close> and \<open>lib/string.c\<close> on a memory of bytes; copies
      that overlap, comparison, search, tokens.
    \<^item> \<open>Numbers\<close>, \<open>Numbers_Spec\<close>: \<open>lib/strtol.c\<close>, \<open>atoi\<close>, and the formatter \<open>lib/srv/srvprnt.c\<close>.
    \<^item> \<open>Scan\<close>, \<open>Scan_Spec\<close>: \<open>lib/scanf.c\<close>, input as the characters left of a stream; what a number that was
      printed is read as, and when it overruns the buffer of its digits.
    \<^item> \<open>Srvlib\<close>, \<open>Srvlib_Spec\<close>: what servers share: messages, the common part of \<open>wstat\<close>
      (\<open>lib/statsup.c\<close>), printing of protections (\<open>lib/permpr.c\<close>), checks of names.
    \<^item> \<open>Tmpfs\<close>, \<open>Tmpfs_Blocks\<close>, \<open>Tmpfs_Inv\<close>, \<open>Tmpfs_Spec\<close>: the file server \<open>srv/tmpfs\<close>: the handlers
      of all messages, files as blocks of a fixed size, the invariant of the directory and the
      clients, reads and writes against a flat array of bytes.
    \<^item> \<open>Pipe\<close>, \<open>Pipe_Inv\<close>, \<open>Pipe_Steps\<close>, \<open>Pipe_Spec\<close>: the pipe server \<open>srv/pipe\<close>, where the requests of
      readers and writers wait for each other. Its counts and queues (\<open>pipe_inv\<close>) and the answers it owes
      (\<open>answers\<close>) for each message, and a pipe as a queue of bytes.
    \<^item> \<open>Swap\<close>, \<open>Swap_Spec\<close>: the swap server \<open>srv/swap\<close>, a client of \<open>Rmap\<close>: in every history blocks that are in
      use, free blocks and the gaps between partitions are disjoint (\<open>swap_inv\<close>). The contract of a pool of
      units, a locale of \<open>Rmap\<close>, is discharged by the server on top of the map's own.
    \<^item> \<open>Semasrv\<close>, \<open>Semasrv_Spec\<close>: the semaphore server \<open>srv/sema\<close>, whose names are in a table of \<open>Hash\<close>: one of
      its files is a counting semaphore with a first-in first-out queue, and where the code departs
      from one.
    \<^item> \<open>Vstafs_Alloc\<close>, \<open>Vstafs_Node\<close>, \<open>Vstafs_Spec\<close>, \<open>Vstafs_Balance\<close>: \<open>alloc.c\<close> of the disk file system
      \<open>srv/vstafs\<close>, the chain of sectors that lists the free ones, in core and on the disk. The first three take a node
      as the set of sectors it covers (with the lemmas of \<open>Rmap\<close>) and show that allocating, extending and
      freeing keep every sector with exactly one owner and the disk as the core; the last one is about the
      balancing of the nodes, and the sectors it loses or frees twice.
    \<^item> \<open>Event\<close>, \<open>Event_Spec\<close>: \<open>os/kern/event.c\<close> and \<open>sched_op\<close> over the kernel of \<open>Mutex\<close>: what an event does to a
      thread asleep, and process groups as multisets.
    \<^item> \<open>Exitgrp\<close>, \<open>Exitgrp_Spec\<close>: \<open>os/kern/exitgrp.c\<close> and \<open>waits\<close>: the interleaved steps of children that exit and
      of a parent's threads that wait; where each exit status is.
    \<^item> \<open>Xclock\<close>, \<open>Xclock_Spec\<close>: \<open>os/kern/xclock.c\<close> over the same kernel: ticks, the time of day, and the list of
      sleepers with the alarms that wake them through their semaphores.
    \<^item> \<open>Ipc\<close>, \<open>Ipc_Queue\<close>, \<open>Ipc_Spec\<close>: message passing, \<open>os/kern/msg.c\<close>, \<open>msgcon.c\<close>, \<open>msgkern.c\<close> and
      \<open>port.c\<close>. The system calls cut at the places they sleep, the queue of a port as a list, a call
      from send to return, and the races between a client and a server.

  \<^bold>\<open>Conventions.\<close> A structure reached through pointers is a map from addresses to records, so that
  aliasing is what it is in C; arrays are lists, with the source's bounds written out. Effects are
  state passing. A wild access, a failed \<open>ASSERT\<close> or an endless wait is a value: \<open>Inl\<close> of a fault, or
  \<open>None\<close> for a loop that does not end. What an operation asks of code outside its component (memory
  that is given or not, copies from and to a user, another program's decisions) is an argument of it.
  Spinlocks that are released before a function returns are not part of the state of the models of
  message passing and of servers, which run one handler at a time; they are part of \<open>Kern\<close>.

  \<^bold>\<open>Bounds.\<close> Loops are structural recursions, functions with a measure, or \<open>partial_function\<close>s
  whose termination is a theorem where it holds (\<open>rmap\<close> needs none; \<open>hash_alloc\<close> does not return for
  some sizes, \<open>strcpy\<close> for some overlaps; the loops of the pipe server end in every reachable state; freeing
  sectors of the disk returns whenever the node they belong in has a slot, and \<open>init_block\<close> on every
  disk whose chain is that of a well-formed list). The recursion of \<open>move_forward\<close> is bounded by the length of the list.
  The formatter counts down the characters of its format, of which each round uses one at least; no
  other definition runs on fuel.

  \<^bold>\<open>Not modelled.\<close> Inline assembly, page tables, traps, device registers and the start of the machine
  (\<open>os/mach\<close>, \<open>srv/mach\<close>, \<open>boot.386\<close>) have no semantics in the C code. Ports of other
  projects (\<open>srv/ka9q\<close>, \<open>lib/regex\<close>, \<open>lib/regexp\<close>, \<open>bin/ash\<close>, \<open>lib/curses\<close>, \<open>lib/libm\<close>,
  \<open>srv/dos/cmd\<close>) are not this system's own logic. Left out: virtual memory, creation and end of
  processes, whose page tables and register frames need a model of the machine; files and directories of the disk
  file systems, the name server and the rest of the C library, which are programs of their own beside the parts
  above. Of the modelled servers the
  start-up is left out: reading arguments and registering a name.
\<close>

end
